(* ===== verification/Prelude.thy ===== *)
theory Prelude
  imports Main "HOL-Library.Word" "HOL-Library.Signed_Division"
begin

text \<open>
  The shared ground of the development: results that carry a state and an error, the
  machine-integer ranges the code relies on, the bit loops of \<open>std::countr_zero\<close>, and the
  list and map facts several components use.
\<close>

unbundle bit_operations_syntax

subsection \<open>Machine integer ranges\<close>

definition int64_min :: int where "int64_min = - (2 ^ 63)"
definition int64_max :: int where "int64_max = 2 ^ 63 - 1"
definition int128_min :: int where "int128_min = - (2 ^ 127)"
definition int128_max :: int where "int128_max = 2 ^ 127 - 1"
definition uint32_max :: nat where "uint32_max = 2 ^ 32 - 1"

abbreviation in_int64 :: "int \<Rightarrow> bool" where
  "in_int64 x \<equiv> int64_min \<le> x \<and> x \<le> int64_max"

abbreviation in_int128 :: "int \<Rightarrow> bool" where
  "in_int128 x \<equiv> int128_min \<le> x \<and> x \<le> int128_max"

lemmas int_ranges = int64_min_def int64_max_def int128_min_def int128_max_def

subsection \<open>Results\<close>

text \<open>
  \<open>expected<T, E>\<close> is the sum \<open>'e + 'a\<close>: \<open>Inl\<close> the error, \<open>Inr\<close> the value. A call that also
  changes a state returns the pair; \<open>seqE\<close> is the code's idiom
  \<open>if (!r) return unexpected(r.error());\<close> followed by the rest of the body.
\<close>

definition bindE :: "'e + 'a \<Rightarrow> ('a \<Rightarrow> 'e + 'b) \<Rightarrow> 'e + 'b" where
  "bindE r k = (case r of Inl e \<Rightarrow> Inl e | Inr x \<Rightarrow> k x)"

definition seqE :: "'s \<times> ('e + 'a) \<Rightarrow> ('s \<Rightarrow> 'a \<Rightarrow> 's \<times> ('e + 'b)) \<Rightarrow> 's \<times> ('e + 'b)" where
  "seqE r k = (case r of (s, Inl e) \<Rightarrow> (s, Inl e) | (s, Inr x) \<Rightarrow> k s x)"

lemma bindE_simps [simp]:
  "bindE (Inl e) k = Inl e"
  "bindE (Inr x) k = k x"
  by (simp_all add: bindE_def)

lemma seqE_simps [simp]:
  "seqE (s, Inl e) k = (s, Inl e)"
  "seqE (s, Inr x) k = k s x"
  by (simp_all add: seqE_def)

lemma bindE_Inr_iff: "bindE r k = Inr y \<longleftrightarrow> (\<exists>x. r = Inr x \<and> k x = Inr y)"
  by (cases r) auto

lemma bindE_Inl_iff: "bindE r k = Inl e \<longleftrightarrow> r = Inl e \<or> (\<exists>x. r = Inr x \<and> k x = Inl e)"
  by (cases r) auto

lemma seqE_Inr_iff:
  "seqE r k = (s', Inr y) \<longleftrightarrow> (\<exists>s x. r = (s, Inr x) \<and> k s x = (s', Inr y))"
  by (cases r; cases "snd r") auto

lemma seqE_Inl_iff:
  "seqE r k = (s', Inl e) \<longleftrightarrow>
     r = (s', Inl e) \<or> (\<exists>s x. r = (s, Inr x) \<and> k s x = (s', Inl e))"
  by (cases r; cases "snd r") auto

end
