(* ===== verification/Rational_Time.thy ===== *)
theory Rational_Time
  imports Prelude Complex_Main
begin

text \<open>
  \<open>base/time.hpp\<close>, \<open>base/rational_time.hpp\<close>, \<open>base/rational_time.cpp\<close>: instants counted in flicks,
  exact canonical rationals, and the affine time maps composed along an edge stack and rounded
  once at the leaf. A C++ \<open>assert\<close> that fails is the fault \<open>PreconditionViolated\<close>; the code's own
  \<open>TimeError\<close> is \<open>Overflow\<close>. Signed 128-bit intermediates are mathematical integers here; the
  bounds lemmas of this theory show that every unchecked one fits.
\<close>

subsection \<open>Instants and ranges\<close>

datatype time = Time (flicks: int)

instantiation time :: linorder
begin
definition less_eq_time :: "time \<Rightarrow> time \<Rightarrow> bool" where
  "less_eq_time a b \<longleftrightarrow> flicks a \<le> flicks b"
definition less_time :: "time \<Rightarrow> time \<Rightarrow> bool" where
  "less_time a b \<longleftrightarrow> flicks a < flicks b"
instance
  by standard (auto simp: less_eq_time_def less_time_def time.expand)
end

record time_range =
  tr_start :: time
  tr_end :: time

definition time_zero :: time where "time_zero = Time 0"

definition time_range_all :: time_range where
  "time_range_all = \<lparr>tr_start = Time int64_min, tr_end = Time int64_max\<rparr>"

definition range_empty :: "time_range \<Rightarrow> bool" where
  "range_empty r \<longleftrightarrow> flicks (tr_end r) \<le> flicks (tr_start r)"

definition range_contains :: "time_range \<Rightarrow> time \<Rightarrow> bool" where
  "range_contains r t \<longleftrightarrow> flicks (tr_start r) \<le> flicks t \<and> flicks t < flicks (tr_end r)"

definition present_in_span :: "time_range \<Rightarrow> time \<Rightarrow> bool" where
  "present_in_span sp parent_time = range_contains sp parent_time"

subsection \<open>Canonical rationals\<close>

datatype time_fault = Overflow | PreconditionViolated

record rational =
  rnum :: int
  rden :: int

definition rational_default :: rational where
  "rational_default = \<lparr>rnum = 0, rden = 1\<rparr>"

text \<open>The Euclid loop of \<open>gcd_u64\<close> and \<open>gcd_u128\<close>.\<close>

fun gcd_loop :: "nat \<Rightarrow> nat \<Rightarrow> nat" where
  "gcd_loop a b = (if b = 0 then a else gcd_loop b (a mod b))"

declare gcd_loop.simps [simp del]

lemma gcd_loop_eq_gcd: "gcd_loop a b = gcd a b"
proof (induction a b rule: gcd_loop.induct)
  case (1 a b)
  then show ?case
    by (cases "b = 0") (auto simp: gcd_loop.simps [of a b] gcd_loop.simps [of a 0] gcd_red_nat [symmetric])
qed

definition magnitude :: "int \<Rightarrow> nat" where
  "magnitude v = (if v < 0 then nat (0 - v) else nat v)"

definition mk_rational :: "int \<Rightarrow> int \<Rightarrow> time_fault + rational" where
  "mk_rational num den =
     (if den = 0 then Inl PreconditionViolated
      else if num = int64_min \<or> den = int64_min then Inl PreconditionViolated
      else
        let an = magnitude num; ad = magnitude den; g = gcd_loop an ad;
            an = an div g; ad = ad div g;
            negative = ((num < 0) \<noteq> (den < 0))
        in Inr \<lparr>rnum = (if negative then - int an else int an), rden = int ad\<rparr>)"

definition rational_is_zero :: "rational \<Rightarrow> bool" where
  "rational_is_zero r \<longleftrightarrow> rnum r = 0"

definition negated :: "rational \<Rightarrow> rational" where
  "negated r = \<lparr>rnum = - rnum r, rden = rden r\<rparr>"

definition from_i128 :: "int \<Rightarrow> int \<Rightarrow> time_fault + rational" where
  "from_i128 num den =
     (if den = 0 then Inl PreconditionViolated
      else
        let negative = ((num < 0) \<noteq> (den < 0));
            an = magnitude num; ad = magnitude den;
            g = gcd_loop an ad;
            an = an div g; ad = ad div g
        in if int an > int64_max \<or> int ad > int64_max then Inl Overflow
           else Inr \<lparr>rnum = (if negative then - int an else int an), rden = int ad\<rparr>)"

definition rational_mul :: "rational \<Rightarrow> rational \<Rightarrow> time_fault + rational" where
  "rational_mul a b = from_i128 (rnum a * rnum b) (rden a * rden b)"

definition rational_add :: "rational \<Rightarrow> rational \<Rightarrow> time_fault + rational" where
  "rational_add a b =
     from_i128 (rnum a * rden b + rnum b * rden a) (rden a * rden b)"

subsection \<open>Time maps\<close>

record time_map =
  tm_in :: time
  tm_rate :: rational
  tm_offset :: time

record composed_time_map =
  ctm_a :: rational
  ctm_b :: rational

definition time_map_default :: time_map where
  "time_map_default =
     \<lparr>tm_in = time_zero, tm_rate = \<lparr>rnum = 1, rden = 1\<rparr>, tm_offset = time_zero\<rparr>"

definition ctm_identity :: composed_time_map where
  "ctm_identity = \<lparr>ctm_a = \<lparr>rnum = 1, rden = 1\<rparr>, ctm_b = \<lparr>rnum = 0, rden = 1\<rparr>\<rparr>"

definition ctm_from :: "time_map \<Rightarrow> time_fault + composed_time_map" where
  "ctm_from edge =
     bindE (mk_rational (flicks (tm_in edge)) 1) (\<lambda>in_r.
     bindE (mk_rational (flicks (tm_offset edge)) 1) (\<lambda>off_r.
     bindE (rational_mul in_r (tm_rate edge)) (\<lambda>in_scaled.
     bindE (rational_add off_r (negated in_scaled)) (\<lambda>b.
     Inr \<lparr>ctm_a = tm_rate edge, ctm_b = b\<rparr>))))"

definition ctm_and_then ::
  "composed_time_map \<Rightarrow> composed_time_map \<Rightarrow> time_fault + composed_time_map" where
  "ctm_and_then self other =
     bindE (rational_mul (ctm_a other) (ctm_a self)) (\<lambda>na.
     bindE (rational_mul (ctm_a other) (ctm_b self)) (\<lambda>scaled_b.
     bindE (rational_add scaled_b (ctm_b other)) (\<lambda>nb.
     Inr \<lparr>ctm_a = na, ctm_b = nb\<rparr>)))"

definition ctm_then :: "composed_time_map \<Rightarrow> time_map \<Rightarrow> time_fault + composed_time_map" where
  "ctm_then self edge = bindE (ctm_from edge) (\<lambda>sub. ctm_and_then self sub)"

fun ctm_compose_from ::
  "composed_time_map \<Rightarrow> time_map list \<Rightarrow> time_fault + composed_time_map" where
  "ctm_compose_from acc [] = Inr acc"
| "ctm_compose_from acc (e # es) = bindE (ctm_then acc e) (\<lambda>nxt. ctm_compose_from nxt es)"

definition ctm_compose :: "time_map list \<Rightarrow> time_fault + composed_time_map" where
  "ctm_compose edges = ctm_compose_from ctm_identity edges"

text \<open>
  \<open>__builtin_mul_overflow\<close> and \<open>__builtin_add_overflow\<close> on the signed 128-bit type: the exact
  result, or the overflow flag. C++ \<open>/\<close> and \<open>%\<close> truncate: \<open>sdiv\<close> and \<open>smod\<close>.
\<close>

definition mul_overflow :: "int \<Rightarrow> int \<Rightarrow> time_fault + int" where
  "mul_overflow a b = (if in_int128 (a * b) then Inr (a * b) else Inl Overflow)"

definition add_overflow :: "int \<Rightarrow> int \<Rightarrow> time_fault + int" where
  "add_overflow a b = (if in_int128 (a + b) then Inr (a + b) else Inl Overflow)"

definition floor_divmod :: "int \<Rightarrow> int \<Rightarrow> int \<times> int" where
  "floor_divmod n d =
     (let q = n sdiv d; r = n smod d in if r < 0 then (q - 1, r + d) else (q, r))"

definition round_half_even :: "int \<Rightarrow> int \<Rightarrow> int" where
  "round_half_even n d =
     (let (q, r) = floor_divmod n d; twice = 2 * r
      in if twice > d \<or> (twice = d \<and> odd q) then q + 1 else q)"

definition ctm_evaluate :: "composed_time_map \<Rightarrow> time \<Rightarrow> time_fault + time" where
  "ctm_evaluate m parent_time =
     (let an = rnum (ctm_a m); ad = rden (ctm_a m);
          bn = rnum (ctm_b m); bd = rden (ctm_b m);
          term = an * flicks parent_time
      in bindE (mul_overflow term bd) (\<lambda>term.
         bindE (add_overflow term (bn * ad)) (\<lambda>n.
         let d = ad * bd; q = round_half_even n d
         in if q > int64_max \<or> q < int64_min then Inl Overflow else Inr (Time q))))"

definition tm_evaluate :: "time_map \<Rightarrow> time \<Rightarrow> time_fault + time" where
  "tm_evaluate m parent_time = bindE (ctm_from m) (\<lambda>composed. ctm_evaluate composed parent_time)"

subsection \<open>Exactness of the canonical form\<close>

definition canonical :: "rational \<Rightarrow> bool" where
  "canonical r \<longleftrightarrow> 0 < rden r \<and> coprime (rnum r) (rden r) \<and>
     \<bar>rnum r\<bar> \<le> int64_max \<and> rden r \<le> int64_max"

definition rat_of :: "rational \<Rightarrow> rat" where
  "rat_of r = rat_of_int (rnum r) / rat_of_int (rden r)"

lemma magnitude_eq: "magnitude v = nat \<bar>v\<bar>"
  by (simp add: magnitude_def)

lemma reduced_num:
  "(if (num < 0) \<noteq> (den < 0) then - int (magnitude num div gcd_loop (magnitude num) (magnitude den))
     else int (magnitude num div gcd_loop (magnitude num) (magnitude den)))
   = sgn den * (num div gcd num den)" if "den \<noteq> 0" for num den :: int
proof -
  have g: "int (gcd (nat \<bar>num\<bar>) (nat \<bar>den\<bar>)) = gcd num den"
    by (simp flip: gcd_int_int_eq)
  have "int (magnitude num div gcd_loop (magnitude num) (magnitude den)) = \<bar>num\<bar> div gcd num den"
    by (simp add: magnitude_eq gcd_loop_eq_gcd zdiv_int g)
  moreover have "\<bar>num\<bar> div gcd num den = sgn num * (num div gcd num den)"
  proof (cases "num < 0")
    case True
    have "gcd num den dvd num" by simp
    with True show ?thesis by (simp add: dvd_neg_div abs_if)
  qed (auto simp: sgn_if)
  ultimately show ?thesis using that
    by (auto simp: sgn_if)
qed

lemma reduced_den:
  "int (magnitude den div gcd_loop (magnitude num) (magnitude den)) = \<bar>den\<bar> div gcd num den"
  by (simp add: magnitude_eq gcd_loop_eq_gcd zdiv_int flip: gcd_int_int_eq)

lemma coprime_by_loop: "coprime a b \<longleftrightarrow> gcd_loop (magnitude a) (magnitude b) = 1" for a b :: int
proof -
  have "int (gcd_loop (magnitude a) (magnitude b)) = gcd a b"
    by (simp add: magnitude_eq gcd_loop_eq_gcd flip: gcd_int_int_eq)
  then show ?thesis by (metis coprime_iff_gcd_eq_1 of_nat_1 of_nat_eq_iff)
qed

lemma coprime_cross_unique:
  fixes a b c d :: int
  assumes "0 < b" "0 < d" "coprime a b" "coprime c d" "a * d = c * b"
  shows "a = c \<and> b = d"
proof -
  have "b dvd d" using assms(3,5) by (metis coprime_commute coprime_dvd_mult_right_iff dvd_triv_right)
  moreover have "d dvd b" using assms(4,5) by (metis coprime_commute coprime_dvd_mult_right_iff dvd_triv_right)
  ultimately have "b = d" using assms(1,2) by (simp add: zdvd_antisym_nonneg)
  then show ?thesis using assms by simp
qed

lemma canonical_unique:
  assumes "canonical r" "canonical s" "rat_of r = rat_of s"
  shows "r = s"
proof -
  have "rat_of_int (rnum r * rden s) = rat_of_int (rnum s * rden r)"
    using assms by (simp add: rat_of_def canonical_def field_simps)
  then have "rnum r * rden s = rnum s * rden r" by (simp only: of_int_eq_iff)
  then show ?thesis using coprime_cross_unique [of "rden r" "rden s" "rnum r" "rnum s"] assms
    by (auto simp: canonical_def)
qed

lemma from_i128_alt:
  fixes num den :: int
  assumes "den \<noteq> 0"
  defines "n' \<equiv> sgn den * (num div gcd num den)" and "d' \<equiv> \<bar>den\<bar> div gcd num den"
  shows "from_i128 num den =
    (if \<bar>n'\<bar> > int64_max \<or> d' > int64_max then Inl Overflow else Inr \<lparr>rnum = n', rden = d'\<rparr>)"
    and "0 < d'" and "coprime n' d'" and "rat_of_int n' / rat_of_int d' = rat_of_int num / rat_of_int den"
proof -
  let ?g = "gcd num den"
  have g0: "?g > 0" using assms(1) by simp
  have an: "int (magnitude num div gcd_loop (magnitude num) (magnitude den)) = \<bar>n'\<bar>"
    using reduced_num [OF assms(1), of num] by (auto simp: n'_def split: if_splits)
  show "from_i128 num den =
    (if \<bar>n'\<bar> > int64_max \<or> d' > int64_max then Inl Overflow else Inr \<lparr>rnum = n', rden = d'\<rparr>)"
    using assms(1) reduced_num [OF assms(1), of num] reduced_den [of den num] an
    by (simp add: from_i128_def Let_def n'_def d'_def)
  have "?g dvd \<bar>den\<bar>" by simp
  then obtain k where k: "\<bar>den\<bar> = ?g * k" by (rule dvdE)
  then have "k > 0" using assms(1) g0 by (metis zero_less_abs_iff zero_less_mult_pos)
  show d0: "0 < d'" using k g0 \<open>k > 0\<close> by (simp add: d'_def)
  have "coprime (num div ?g) (den div ?g)" using assms(1) by (intro div_gcd_coprime) auto
  moreover have "d' = sgn den * (den div ?g)"
    by (auto simp: d'_def sgn_if abs_if dvd_neg_div)
  ultimately show "coprime n' d'" using assms(1) by (auto simp: n'_def sgn_if)
  have "num = ?g * (num div ?g)" "den = ?g * (den div ?g)" by simp_all
  then have "rat_of_int num / rat_of_int den = rat_of_int (?g * (num div ?g)) / rat_of_int (?g * (den div ?g))"
    by metis
  also have "\<dots> = (rat_of_int ?g * rat_of_int (num div ?g)) / (rat_of_int ?g * rat_of_int (den div ?g))"
    by (simp only: of_int_mult)
  also have "\<dots> = rat_of_int (num div ?g) / rat_of_int (den div ?g)"
    using g0 by (intro mult_divide_mult_cancel_left) simp
  also have "\<dots> = rat_of_int n' / rat_of_int d'"
    using assms(1) \<open>d' = _\<close> by (auto simp: n'_def sgn_if)
  finally show "rat_of_int n' / rat_of_int d' = rat_of_int num / rat_of_int den" by simp
qed

lemma from_i128_Inr_iff:
  assumes "den \<noteq> 0"
  shows "from_i128 num den = Inr r \<longleftrightarrow> canonical r \<and> rat_of r = rat_of_int num / rat_of_int den"
proof -
  define n' where "n' = sgn den * (num div gcd num den)"
  define d' where "d' = \<bar>den\<bar> div gcd num den"
  note alt = from_i128_alt [OF assms, of num, folded n'_def d'_def]
  show ?thesis
  proof
    assume "from_i128 num den = Inr r"
    then show "canonical r \<and> rat_of r = rat_of_int num / rat_of_int den"
      using alt by (auto simp: canonical_def rat_of_def split: if_splits)
  next
    assume r: "canonical r \<and> rat_of r = rat_of_int num / rat_of_int den"
    then have "rat_of_int (rnum r) / rat_of_int (rden r) = rat_of_int n' / rat_of_int d'"
      using alt(4) by (simp add: rat_of_def)
    then have "rat_of_int (rnum r * d') = rat_of_int (n' * rden r)"
      using r alt(2) by (simp add: canonical_def field_simps)
    then have "rnum r * d' = n' * rden r" by (simp only: of_int_eq_iff)
    then have "rnum r = n' \<and> rden r = d'"
      using coprime_cross_unique [of "rden r" d' "rnum r" n'] r alt(2,3) by (simp add: canonical_def)
    then show "from_i128 num den = Inr r"
      using alt(1) r by (auto simp: canonical_def)
  qed
qed

lemma from_i128_Inl:
  assumes "den \<noteq> 0" "from_i128 num den = Inl e"
  shows "e = Overflow"
  using assms by (auto simp: from_i128_def Let_def split: if_splits)

lemma rational_mul_Inr_iff:
  assumes "canonical a" "canonical b"
  shows "rational_mul a b = Inr r \<longleftrightarrow> canonical r \<and> rat_of r = rat_of a * rat_of b"
proof -
  have "rden a * rden b \<noteq> 0" using assms by (simp add: canonical_def)
  then show ?thesis
    by (simp add: rational_mul_def from_i128_Inr_iff) (simp add: rat_of_def)
qed

lemma rational_add_Inr_iff:
  assumes "canonical a" "canonical b"
  shows "rational_add a b = Inr r \<longleftrightarrow> canonical r \<and> rat_of r = rat_of a + rat_of b"
proof -
  have nz: "rden a \<noteq> 0" "rden b \<noteq> 0" using assms by (simp_all add: canonical_def)
  then have "rat_of_int (rnum a * rden b + rnum b * rden a) / rat_of_int (rden a * rden b) = rat_of a + rat_of b"
    by (simp add: rat_of_def add_frac_eq)
  with nz show ?thesis
    by (simp add: rational_add_def from_i128_Inr_iff)
qed

lemma rational_mul_Inl:
  "canonical a \<Longrightarrow> canonical b \<Longrightarrow> rational_mul a b = Inl e \<Longrightarrow> e = Overflow"
  by (rule from_i128_Inl [of "rden a * rden b" "rnum a * rnum b"])
    (simp_all add: canonical_def rational_mul_def)

lemma rational_add_Inl:
  "canonical a \<Longrightarrow> canonical b \<Longrightarrow> rational_add a b = Inl e \<Longrightarrow> e = Overflow"
  by (rule from_i128_Inl [of "rden a * rden b" "rnum a * rden b + rnum b * rden a"])
    (simp_all add: canonical_def rational_add_def)

lemma canonical_negated: "canonical r \<Longrightarrow> canonical (negated r)"
  by (simp add: canonical_def negated_def)

lemma rat_of_negated: "rat_of (negated r) = - rat_of r"
  by (simp add: rat_of_def negated_def)

lemma mk_rational_Inr_iff:
  assumes "in_int64 num" "in_int64 den"
  shows "mk_rational num den = Inr r \<longleftrightarrow>
    den \<noteq> 0 \<and> num \<noteq> int64_min \<and> den \<noteq> int64_min \<and>
    canonical r \<and> rat_of r = rat_of_int num / rat_of_int den"
proof (cases "den = 0 \<or> num = int64_min \<or> den = int64_min")
  case True
  then show ?thesis by (auto simp: mk_rational_def)
next
  case False
  let ?n = "sgn den * (num div gcd num den)" and ?d = "\<bar>den\<bar> div gcd num den"
  have g: "gcd num den \<ge> 1" using False by (metis gcd_pos_int int_one_le_iff_zero_less)
  have "\<bar>?n\<bar> \<le> \<bar>num\<bar>" "?d \<le> \<bar>den\<bar>"
  proof -
    have "\<bar>num div gcd num den\<bar> = \<bar>num\<bar> div gcd num den"
      by (simp add: abs_div)
    also have "\<dots> \<le> \<bar>num\<bar>" using zdiv_mono2 [of "\<bar>num\<bar>" 1 "gcd num den"] g by simp
    finally show "\<bar>?n\<bar> \<le> \<bar>num\<bar>" using False by (simp add: abs_mult)
    show "?d \<le> \<bar>den\<bar>" using zdiv_mono2 [of "\<bar>den\<bar>" 1 "gcd num den"] g by simp
  qed
  moreover have "\<bar>num\<bar> \<le> int64_max" "\<bar>den\<bar> \<le> int64_max"
    using assms False by (auto simp: int_ranges)
  ultimately have "from_i128 num den = Inr \<lparr>rnum = ?n, rden = ?d\<rparr>"
    using from_i128_alt(1) [of den num] False by simp
  moreover have "mk_rational num den = Inr \<lparr>rnum = ?n, rden = ?d\<rparr>"
    using False reduced_num [of den num] reduced_den [of den num]
    by (simp add: mk_rational_def Let_def)
  ultimately show ?thesis
    using False from_i128_Inr_iff [of den num r] by simp
qed

lemma mk_rational_int:
  assumes "int64_min < n" "n \<le> int64_max"
  obtains r where "mk_rational n 1 = Inr r" "canonical r" "rat_of r = rat_of_int n"
proof -
  have c: "canonical \<lparr>rnum = n, rden = 1\<rparr>" "rat_of \<lparr>rnum = n, rden = 1\<rparr> = rat_of_int n"
    using assms by (auto simp: canonical_def rat_of_def int_ranges)
  have "mk_rational n 1 = Inr \<lparr>rnum = n, rden = 1\<rparr>"
    using mk_rational_Inr_iff [of n 1 "\<lparr>rnum = n, rden = 1\<rparr>"] assms c by (auto simp: int_ranges)
  with c show ?thesis by (rule that [rotated])
qed

subsection \<open>The exact meaning of a map\<close>

definition ctm_ok :: "composed_time_map \<Rightarrow> bool" where
  "ctm_ok m \<longleftrightarrow> canonical (ctm_a m) \<and> canonical (ctm_b m)"

definition ctm_apply :: "composed_time_map \<Rightarrow> rat \<Rightarrow> rat" where
  "ctm_apply m p = rat_of (ctm_a m) * p + rat_of (ctm_b m)"

definition tm_ok :: "time_map \<Rightarrow> bool" where
  "tm_ok e \<longleftrightarrow> canonical (tm_rate e) \<and>
     int64_min < flicks (tm_in e) \<and> flicks (tm_in e) \<le> int64_max \<and>
     int64_min < flicks (tm_offset e) \<and> flicks (tm_offset e) \<le> int64_max"

definition tm_apply :: "time_map \<Rightarrow> rat \<Rightarrow> rat" where
  "tm_apply e p =
     (p - rat_of_int (flicks (tm_in e))) * rat_of (tm_rate e) + rat_of_int (flicks (tm_offset e))"

lemma ctm_apply_inject:
  assumes "ctm_ok m" "ctm_ok m'" "\<And>p. ctm_apply m p = ctm_apply m' p"
  shows "m = m'"
proof -
  have "rat_of (ctm_b m) = rat_of (ctm_b m')"
    using assms(3) [of 0] by (simp add: ctm_apply_def)
  moreover from this have "rat_of (ctm_a m) = rat_of (ctm_a m')"
    using assms(3) [of 1] by (simp add: ctm_apply_def)
  ultimately have "ctm_a m = ctm_a m'" "ctm_b m = ctm_b m'"
    using assms(1,2) canonical_unique by (auto simp: ctm_ok_def)
  then show ?thesis by simp
qed

lemma ctm_from_Inr:
  assumes "tm_ok e" "ctm_from e = Inr m"
  shows "ctm_ok m \<and> (\<forall>p. ctm_apply m p = tm_apply e p)"
proof -
  obtain i where i: "mk_rational (flicks (tm_in e)) 1 = Inr i" "canonical i"
      "rat_of i = rat_of_int (flicks (tm_in e))"
    by (rule mk_rational_int [of "flicks (tm_in e)"]) (use assms(1) in \<open>auto simp: tm_ok_def\<close>)
  obtain f where f: "mk_rational (flicks (tm_offset e)) 1 = Inr f" "canonical f"
      "rat_of f = rat_of_int (flicks (tm_offset e))"
    by (rule mk_rational_int [of "flicks (tm_offset e)"]) (use assms(1) in \<open>auto simp: tm_ok_def\<close>)
  obtain s b where s: "rational_mul i (tm_rate e) = Inr s"
    and b: "rational_add f (negated s) = Inr b" and m: "m = \<lparr>ctm_a = tm_rate e, ctm_b = b\<rparr>"
    using assms(2) i f by (auto simp: ctm_from_def bindE_Inr_iff)
  have r: "canonical (tm_rate e)" using assms(1) by (simp add: tm_ok_def)
  have s': "canonical s" "rat_of s = rat_of i * rat_of (tm_rate e)"
    using s rational_mul_Inr_iff [OF i(2) r] by auto
  have b': "canonical b" "rat_of b = rat_of f + - rat_of s"
    using b rational_add_Inr_iff [OF f(2) canonical_negated [OF s'(1)]] by (auto simp: rat_of_negated)
  show ?thesis
    using r b' s' i f by (simp add: m ctm_ok_def ctm_apply_def tm_apply_def algebra_simps)
qed

lemma ctm_from_Inl:
  assumes "tm_ok e" "ctm_from e = Inl x"
  shows "x = Overflow"
proof -
  obtain i where i: "mk_rational (flicks (tm_in e)) 1 = Inr i" "canonical i"
    by (rule mk_rational_int [of "flicks (tm_in e)"]) (use assms(1) in \<open>auto simp: tm_ok_def\<close>)
  obtain f where f: "mk_rational (flicks (tm_offset e)) 1 = Inr f" "canonical f"
    by (rule mk_rational_int [of "flicks (tm_offset e)"]) (use assms(1) in \<open>auto simp: tm_ok_def\<close>)
  have r: "canonical (tm_rate e)" using assms(1) by (simp add: tm_ok_def)
  show ?thesis
  proof (cases "rational_mul i (tm_rate e)")
    case (Inl y)
    then show ?thesis
      using assms(2) i f rational_mul_Inl [OF i(2) r] by (simp add: ctm_from_def)
  next
    case (Inr s)
    then have "canonical s" using rational_mul_Inr_iff [OF i(2) r] by auto
    then show ?thesis
      using assms(2) i f Inr rational_add_Inl [OF f(2) canonical_negated [of s]]
      by (auto simp: ctm_from_def bindE_Inl_iff)
  qed
qed

lemma ctm_and_then_Inr:
  assumes "ctm_ok m" "ctm_ok n" "ctm_and_then m n = Inr r"
  shows "ctm_ok r \<and> (\<forall>p. ctm_apply r p = ctm_apply n (ctm_apply m p))"
proof -
  obtain na sb nb where e: "rational_mul (ctm_a n) (ctm_a m) = Inr na"
      "rational_mul (ctm_a n) (ctm_b m) = Inr sb" "rational_add sb (ctm_b n) = Inr nb"
    and r: "r = \<lparr>ctm_a = na, ctm_b = nb\<rparr>"
    using assms(3) by (auto simp: ctm_and_then_def bindE_Inr_iff)
  have c: "canonical (ctm_a m)" "canonical (ctm_b m)" "canonical (ctm_a n)" "canonical (ctm_b n)"
    using assms by (auto simp: ctm_ok_def)
  have "canonical na" "rat_of na = rat_of (ctm_a n) * rat_of (ctm_a m)"
    using e(1) rational_mul_Inr_iff [OF c(3,1)] by auto
  moreover have sb: "canonical sb" "rat_of sb = rat_of (ctm_a n) * rat_of (ctm_b m)"
    using e(2) rational_mul_Inr_iff [OF c(3,2)] by auto
  moreover have "canonical nb" "rat_of nb = rat_of sb + rat_of (ctm_b n)"
    using e(3) rational_add_Inr_iff [OF sb(1) c(4)] by auto
  ultimately show ?thesis
    by (simp add: r ctm_ok_def ctm_apply_def algebra_simps)
qed

lemma ctm_and_then_Inl:
  assumes "ctm_ok m" "ctm_ok n" "ctm_and_then m n = Inl e"
  shows "e = Overflow"
proof -
  have c: "canonical (ctm_a m)" "canonical (ctm_b m)" "canonical (ctm_a n)" "canonical (ctm_b n)"
    using assms by (auto simp: ctm_ok_def)
  show ?thesis
  proof (cases "rational_mul (ctm_a n) (ctm_b m)")
    case (Inl y)
    then show ?thesis using assms(3) rational_mul_Inl [OF c(3,1)] rational_mul_Inl [OF c(3,2)]
      by (auto simp: ctm_and_then_def bindE_Inl_iff)
  next
    case (Inr sb)
    then have "canonical sb" using rational_mul_Inr_iff [OF c(3,2)] by auto
    then show ?thesis
      using assms(3) Inr rational_mul_Inl [OF c(3,1)] rational_add_Inl [of sb, OF _ c(4)]
      by (auto simp: ctm_and_then_def bindE_Inl_iff)
  qed
qed

lemma ctm_compose_from_Inr:
  assumes "ctm_ok acc" "\<forall>e \<in> set es. tm_ok e" "ctm_compose_from acc es = Inr m"
  shows "ctm_ok m \<and> (\<forall>p. ctm_apply m p = fold tm_apply es (ctm_apply acc p))"
  using assms
proof (induction es arbitrary: acc)
  case (Cons e es)
  then obtain sub nxt where s: "ctm_from e = Inr sub" "ctm_and_then acc sub = Inr nxt"
    and rest: "ctm_compose_from nxt es = Inr m"
    by (auto simp: bindE_Inr_iff ctm_then_def)
  have sub: "ctm_ok sub" "\<forall>p. ctm_apply sub p = tm_apply e p"
    using ctm_from_Inr [OF _ s(1)] Cons.prems(2) by auto
  have "ctm_ok nxt" "\<forall>p. ctm_apply nxt p = tm_apply e (ctm_apply acc p)"
    using ctm_and_then_Inr [OF Cons.prems(1) sub(1) s(2)] sub(2) by auto
  with Cons.IH [OF _ _ rest] Cons.prems(2) show ?case by simp
qed simp

lemma ctm_ok_identity: "ctm_ok ctm_identity"
  by (simp add: ctm_ok_def ctm_identity_def canonical_def int_ranges)

lemma ctm_apply_identity: "ctm_apply ctm_identity p = p"
  by (simp add: ctm_apply_def ctm_identity_def rat_of_def)

subsection \<open>The leaf rounding\<close>

lemma floor_divmod_eq: "0 < d \<Longrightarrow> floor_divmod n d = (n div d, n mod d)"
proof -
  assume d: "0 < d"
  define q where "q = n sdiv d"
  define r where "r = n smod d"
  have n: "n = q * d + r" using sdiv_mult_smod_eq [of n d] by (simp add: q_def r_def)
  have r: "\<bar>r\<bar> < d" using d
    by (simp add: r_def smod_int_alt_def abs_mult sgn_if)
  show ?thesis
  proof (cases "r < 0")
    case True
    then have "n div d = q - 1" "n mod d = r + d"
      using d r n True int_div_pos_eq [of n d "q - 1" "r + d"] int_mod_pos_eq [of n d "q - 1" "r + d"]
      by (simp_all add: algebra_simps)
    with True show ?thesis by (simp add: floor_divmod_def q_def [symmetric] r_def [symmetric])
  next
    case False
    then have "n div d = q" "n mod d = r"
      using d r n False int_div_pos_eq [of n d q r] int_mod_pos_eq [of n d q r]
      by (simp_all add: algebra_simps)
    with False show ?thesis by (simp add: floor_divmod_def q_def [symmetric] r_def [symmetric])
  qed
qed

definition nearest_even :: "rat \<Rightarrow> int \<Rightarrow> bool" where
  "nearest_even x q \<longleftrightarrow> \<bar>x - rat_of_int q\<bar> \<le> 1 / 2 \<and> (\<bar>x - rat_of_int q\<bar> = 1 / 2 \<longrightarrow> even q)"

lemma nearest_even_iff:
  "nearest_even x q \<longleftrightarrow> x - rat_of_int q \<le> 1 / 2 \<and> - (1 / 2) \<le> x - rat_of_int q \<and>
     (x - rat_of_int q = 1 / 2 \<or> x - rat_of_int q = - (1 / 2) \<longrightarrow> even q)"
  by (auto simp: nearest_even_def abs_if)

lemma nearest_even_unique:
  assumes p: "nearest_even x p" and q: "nearest_even x q"
  shows "p = q"
proof -
  have "rat_of_int p - rat_of_int q \<le> 1" "rat_of_int q - rat_of_int p \<le> 1"
    using p q unfolding nearest_even_iff by linarith+
  then have "p - q \<le> 1" "q - p \<le> 1" by linarith+
  then consider "p = q" | "p = q + 1" | "q = p + 1" by linarith
  then show ?thesis
  proof cases
    case 2
    then have "x - rat_of_int p = - (1/2)" "x - rat_of_int q = 1/2"
      using p q unfolding nearest_even_iff by linarith+
    with p q have "even p" "even q" unfolding nearest_even_iff by auto
    with 2 show ?thesis by simp
  next
    case 3
    then have "x - rat_of_int p = 1/2" "x - rat_of_int q = - (1/2)"
      using p q unfolding nearest_even_iff by linarith+
    with p q have "even p" "even q" unfolding nearest_even_iff by auto
    with 3 show ?thesis by simp
  qed
qed

lemma nearest_even_neg: "nearest_even x q \<Longrightarrow> nearest_even (- x) (- q)"
  by (auto simp: nearest_even_iff)

lemma round_half_even_nearest:
  assumes d: "0 < d"
  shows "nearest_even (rat_of_int n / rat_of_int d) (round_half_even n d)"
proof -
  define q where "q = n div d"
  define r where "r = n mod d"
  have n: "n = q * d + r" and r: "0 \<le> r" "r < d" using d by (auto simp: q_def r_def)
  have x: "rat_of_int n / rat_of_int d = rat_of_int q + rat_of_int r / rat_of_int d"
    using d by (simp add: n field_simps)
  define f where "f = rat_of_int r / rat_of_int d"
  have f: "rat_of_int r = f * rat_of_int d" using d by (simp add: f_def)
  have fd: "rat_of_int d > 0" using d by simp
  have lt: "2 * r < d \<longleftrightarrow> f < 1/2" and eq: "2 * r = d \<longleftrightarrow> f = 1/2"
  proof -
    have "2 * r < d \<longleftrightarrow> rat_of_int (2 * r) < rat_of_int d" by (simp only: of_int_less_iff)
    also have "\<dots> \<longleftrightarrow> 2 * f * rat_of_int d < 1 * rat_of_int d" by (simp add: f algebra_simps)
    finally show "2 * r < d \<longleftrightarrow> f < 1/2" using fd by (simp only: mult_less_cancel_right_pos) linarith
    have "2 * r = d \<longleftrightarrow> rat_of_int (2 * r) = rat_of_int d" by (simp only: of_int_eq_iff)
    also have "\<dots> \<longleftrightarrow> 2 * f * rat_of_int d = 1 * rat_of_int d" by (simp add: f algebra_simps)
    finally show "2 * r = d \<longleftrightarrow> f = 1/2" using fd by (simp only: mult_cancel_right) linarith
  qed
  have f0: "0 \<le> f" "f < 1" using d r by (simp_all add: f_def)
  have rh: "round_half_even n d = (if 2 * r > d \<or> (2 * r = d \<and> odd q) then q + 1 else q)"
    by (simp add: round_half_even_def floor_divmod_eq [OF d] q_def r_def Let_def)
  have x': "rat_of_int n / rat_of_int d = rat_of_int q + f" by (simp add: x f_def)
  consider "2 * r < d" | "2 * r = d" | "2 * r > d" by linarith
  then show ?thesis
  proof cases
    case 1
    with lt f0 show ?thesis unfolding x' rh nearest_even_iff by auto
  next
    case 2
    with eq show ?thesis unfolding x' rh nearest_even_iff by auto
  next
    case 3
    then have "f > 1/2" using lt eq by linarith
    with 3 f0 show ?thesis unfolding x' rh nearest_even_iff by auto
  qed
qed

lemma ctm_evaluate_exact:
  fixes p :: time
  assumes "ctm_ok m"
  defines "n \<equiv> rnum (ctm_a m) * flicks p * rden (ctm_b m) + rnum (ctm_b m) * rden (ctm_a m)"
    and "d \<equiv> rden (ctm_a m) * rden (ctm_b m)"
  shows "0 < d" and "rat_of_int n / rat_of_int d = ctm_apply m (rat_of_int (flicks p))"
proof -
  have "0 < rden (ctm_a m)" "0 < rden (ctm_b m)" using assms(1) by (auto simp: ctm_ok_def canonical_def)
  then show "0 < d" "rat_of_int n / rat_of_int d = ctm_apply m (rat_of_int (flicks p))"
    by (simp_all add: d_def n_def ctm_apply_def rat_of_def field_simps)
qed

lemma ctm_evaluate_Inr:
  assumes "ctm_ok m" "ctm_evaluate m p = Inr t"
  shows "nearest_even (ctm_apply m (rat_of_int (flicks p))) (flicks t) \<and> in_int64 (flicks t)"
proof -
  note ex = ctm_evaluate_exact(1) [OF assms(1)] ctm_evaluate_exact(2) [OF assms(1), of p]
  show ?thesis
    using assms(2) round_half_even_nearest [OF ex(1),
      of "rnum (ctm_a m) * flicks p * rden (ctm_b m) + rnum (ctm_b m) * rden (ctm_a m)", unfolded ex(2)]
    by (auto simp: ctm_evaluate_def bindE_Inr_iff Let_def mul_overflow_def add_overflow_def split: if_splits)
qed

lemma ctm_evaluate_Inl_iff:
  "ctm_evaluate m p = Inl e \<longleftrightarrow> e = Overflow \<and>
    (let term = rnum (ctm_a m) * flicks p * rden (ctm_b m);
         n = term + rnum (ctm_b m) * rden (ctm_a m)
     in \<not> in_int128 term \<or> \<not> in_int128 n \<or>
        \<not> in_int64 (round_half_even n (rden (ctm_a m) * rden (ctm_b m))))"
  by (auto simp: ctm_evaluate_def bindE_Inl_iff Let_def mul_overflow_def add_overflow_def split: if_splits)

text \<open>The constructor's precondition reaches \<open>from\<close>: an edge anchored at the minimum instant.\<close>

lemma time_map_min_offset:
  "ctm_from (time_map_default\<lparr>tm_offset := tr_start time_range_all\<rparr>) = Inl PreconditionViolated"
  by code_simp

text \<open>Every 128-bit intermediate the code does not check fits in the signed type.\<close>

lemma abs_mult_le:
  fixes a b x y :: int
  assumes "\<bar>a\<bar> \<le> x" "\<bar>b\<bar> \<le> y" shows "\<bar>a * b\<bar> \<le> x * y"
  using assms by (simp add: abs_mult mult_mono')

lemma canonical_products_fit:
  assumes "canonical a" "canonical b"
  shows "in_int128 (rnum a * rnum b)" "in_int128 (rden a * rden b)" "in_int128 (rnum a * rden b)"
    and "in_int128 (rnum a * rden b + rnum b * rden a)" "rden a * rden b \<noteq> 0"
proof -
  have b: "\<bar>rnum a\<bar> \<le> int64_max" "\<bar>rnum b\<bar> \<le> int64_max" "\<bar>rden a\<bar> \<le> int64_max" "\<bar>rden b\<bar> \<le> int64_max"
    using assms by (auto simp: canonical_def)
  have "\<bar>rnum a * rnum b\<bar> \<le> int64_max * int64_max" "\<bar>rden a * rden b\<bar> \<le> int64_max * int64_max"
    "\<bar>rnum a * rden b\<bar> \<le> int64_max * int64_max" "\<bar>rnum b * rden a\<bar> \<le> int64_max * int64_max"
    using b by (auto intro: abs_mult_le)
  then show "in_int128 (rnum a * rnum b)" "in_int128 (rden a * rden b)" "in_int128 (rnum a * rden b)"
    "in_int128 (rnum a * rden b + rnum b * rden a)"
    by (auto simp: int_ranges)
  show "rden a * rden b \<noteq> 0" using assms by (simp add: canonical_def)
qed

lemma evaluate_unchecked_fit:
  assumes "ctm_ok m" "in_int64 (flicks p)"
  shows "in_int128 (rnum (ctm_a m) * flicks p)" "in_int128 (rnum (ctm_b m) * rden (ctm_a m))"
    "0 < rden (ctm_a m) * rden (ctm_b m)" "2 * (rden (ctm_a m) * rden (ctm_b m)) \<le> int128_max"
proof -
  have c: "canonical (ctm_a m)" "canonical (ctm_b m)" using assms by (auto simp: ctm_ok_def)
  have "\<bar>rnum (ctm_a m) * flicks p\<bar> \<le> int64_max * (2 ^ 63)"
    using c assms by (intro abs_mult_le) (auto simp: canonical_def int_ranges)
  then show "in_int128 (rnum (ctm_a m) * flicks p)" by (auto simp: int_ranges)
  show "in_int128 (rnum (ctm_b m) * rden (ctm_a m))" using canonical_products_fit [OF c(2,1)] by auto
  show "0 < rden (ctm_a m) * rden (ctm_b m)" using c by (simp add: canonical_def)
  have "\<bar>rden (ctm_a m) * rden (ctm_b m)\<bar> \<le> int64_max * int64_max"
    using c by (intro abs_mult_le) (auto simp: canonical_def)
  then show "2 * (rden (ctm_a m) * rden (ctm_b m)) \<le> int128_max" by (auto simp: int_ranges)
qed

subsection \<open>Properties\<close>

text \<open>
  C13: On canonical operands \<open>Rational::mul\<close> and \<open>Rational::add\<close> return exactly the canonical
  \<open>int64\<close> rational equal to the product or the sum, and fail, with \<open>TimeError::Overflow\<close> and
  never by a precondition, exactly when no such rational exists.
\<close>

theorem rational_arith_exact:
  assumes "canonical a" and "canonical b"
  shows "(rational_mul a b = Inr r \<longleftrightarrow> canonical r \<and> rat_of r = rat_of a * rat_of b) \<and>
    (rational_add a b = Inr r \<longleftrightarrow> canonical r \<and> rat_of r = rat_of a + rat_of b) \<and>
    rational_mul a b \<noteq> Inl PreconditionViolated \<and> rational_add a b \<noteq> Inl PreconditionViolated"
  using rational_mul_Inr_iff [OF assms] rational_add_Inr_iff [OF assms]
    rational_mul_Inl [OF assms] rational_add_Inl [OF assms] by auto

text \<open>24000/1001 times 1001/1000 reduces to 24/1.\<close>

lemma rational_arith_exact_witness:
  "rational_mul \<lparr>rnum = 24000, rden = 1001\<rparr> \<lparr>rnum = 1001, rden = 1000\<rparr> = Inr \<lparr>rnum = 24, rden = 1\<rparr>"
proof -
  have c: "canonical \<lparr>rnum = 24000, rden = 1001\<rparr>" "canonical \<lparr>rnum = 1001, rden = 1000\<rparr>"
    by (simp_all add: canonical_def int_ranges coprime_by_loop magnitude_def gcd_loop.simps)
  show ?thesis
    using rational_arith_exact [OF c, of "\<lparr>rnum = 24, rden = 1\<rparr>"]
    by (simp add: canonical_def int_ranges rat_of_def)
qed

text \<open>
  C12: Composing an edge stack and evaluating it at the leaf rounds exactly once: the result is the
  integer flick nearest, ties to even, to the exact rational value obtained by applying the edges
  one after the other, root-most first, without any rounding.
\<close>

theorem compose_evaluate_rounds_once:
  assumes "\<forall>e \<in> set edges. tm_ok e" and "ctm_compose edges = Inr m"
    and "ctm_evaluate m p = Inr t"
  shows "nearest_even (fold tm_apply edges (rat_of_int (flicks p))) (flicks t) \<and> in_int64 (flicks t)"
proof -
  have "ctm_ok m" "ctm_apply m (rat_of_int (flicks p)) = fold tm_apply edges (rat_of_int (flicks p))"
    using ctm_compose_from_Inr [OF ctm_ok_identity assms(1), of m] assms(2)
    by (simp_all add: ctm_compose_def ctm_apply_identity)
  with ctm_evaluate_Inr [OF _ assms(3)] show ?thesis by simp
qed

text \<open>A half-rate edge entered at 5 with offset 3, at 8: 9/2 rounds to 4.\<close>

definition half_edge :: time_map where
  "half_edge = \<lparr>tm_in = Time 5, tm_rate = \<lparr>rnum = 1, rden = 2\<rparr>, tm_offset = Time 3\<rparr>"

lemma half_edge_ok: "tm_ok half_edge"
  by (simp add: tm_ok_def half_edge_def canonical_def int_ranges)

lemma half_edge_compose:
  "ctm_compose [half_edge] = Inr \<lparr>ctm_a = \<lparr>rnum = 1, rden = 2\<rparr>, ctm_b = \<lparr>rnum = 1, rden = 2\<rparr>\<rparr>"
  by code_simp

lemma compose_evaluate_rounds_once_witness:
  "ctm_compose [half_edge] = Inr \<lparr>ctm_a = \<lparr>rnum = 1, rden = 2\<rparr>, ctm_b = \<lparr>rnum = 1, rden = 2\<rparr>\<rparr> \<and>
   nearest_even (fold tm_apply [half_edge] (rat_of_int 8)) 4"
proof -
  have "ctm_evaluate \<lparr>ctm_a = \<lparr>rnum = 1, rden = 2\<rparr>, ctm_b = \<lparr>rnum = 1, rden = 2\<rparr>\<rparr> (Time 8) = Inr (Time 4)"
    by code_simp
  from compose_evaluate_rounds_once [OF _ half_edge_compose this]
  show ?thesis by (simp add: half_edge_ok half_edge_compose)
qed

text \<open>
  Composition of maps is associative wherever it does not overflow: when both groupings of
  three maps succeed they return the same canonical map.
\<close>

theorem and_then_associative:
  assumes "ctm_ok m" "ctm_ok n" "ctm_ok k"
    and "bindE (ctm_and_then m n) (\<lambda>mn. ctm_and_then mn k) = Inr l"
    and "bindE (ctm_and_then n k) (\<lambda>nk. ctm_and_then m nk) = Inr r"
  shows "l = r"
proof -
  obtain mn nk where s: "ctm_and_then m n = Inr mn" "ctm_and_then mn k = Inr l"
      "ctm_and_then n k = Inr nk" "ctm_and_then m nk = Inr r"
    using assms(4,5) by (auto simp: bindE_Inr_iff)
  note mn = ctm_and_then_Inr [OF assms(1,2) s(1)] and nk = ctm_and_then_Inr [OF assms(2,3) s(3)]
  note l = ctm_and_then_Inr [OF conjunct1 [OF mn] assms(3) s(2)]
    and r = ctm_and_then_Inr [OF assms(1) conjunct1 [OF nk] s(4)]
  show ?thesis
    by (rule ctm_apply_inject) (use mn nk l r in auto)
qed

text \<open>Half-speed twice with an offset, then a third reversed.\<close>

definition assoc_m :: composed_time_map where
  "assoc_m = \<lparr>ctm_a = \<lparr>rnum = 1, rden = 2\<rparr>, ctm_b = \<lparr>rnum = 1, rden = 3\<rparr>\<rparr>"

definition assoc_k :: composed_time_map where
  "assoc_k = \<lparr>ctm_a = \<lparr>rnum = -1, rden = 1\<rparr>, ctm_b = \<lparr>rnum = 5, rden = 2\<rparr>\<rparr>"

definition assoc_l :: composed_time_map where
  "assoc_l = \<lparr>ctm_a = \<lparr>rnum = -1, rden = 4\<rparr>, ctm_b = \<lparr>rnum = 2, rden = 1\<rparr>\<rparr>"

lemma and_then_associative_witness:
  "bindE (ctm_and_then assoc_m assoc_m) (\<lambda>mn. ctm_and_then mn assoc_k) =
   bindE (ctm_and_then assoc_m assoc_k) (\<lambda>nk. ctm_and_then assoc_m nk)"
proof -
  have ok: "ctm_ok assoc_m" "ctm_ok assoc_k"
    by (simp_all add: ctm_ok_def assoc_m_def assoc_k_def canonical_def int_ranges)
  have l: "bindE (ctm_and_then assoc_m assoc_m) (\<lambda>mn. ctm_and_then mn assoc_k) = Inr assoc_l"
    by code_simp
  have "isl (bindE (ctm_and_then assoc_m assoc_k) (\<lambda>nk. ctm_and_then assoc_m nk)) = False"
    by code_simp
  then obtain r where r: "bindE (ctm_and_then assoc_m assoc_k) (\<lambda>nk. ctm_and_then assoc_m nk) = Inr r"
    by (cases "bindE (ctm_and_then assoc_m assoc_k) (\<lambda>nk. ctm_and_then assoc_m nk)") auto
  from and_then_associative [OF ok(1) ok(1) ok(2) l r] show ?thesis by (simp add: l r)
qed

text \<open>
  \<open>ComposedTimeMap::evaluate\<close> on a canonical map and an \<open>int64\<close> instant: every 128-bit
  intermediate it does not check (the two products, the denominator, the doubled remainder's
  bound) fits in the signed 128-bit type, the denominator is positive, and it fails, always with
  \<open>Overflow\<close>, exactly when the scaled term or the sum leaves that type or the
  correctly rounded instant is not an \<open>int64\<close>.
\<close>

theorem evaluate_faults_exactly:
  assumes "ctm_ok m" and "in_int64 (flicks p)"
  defines "n \<equiv> rnum (ctm_a m) * flicks p * rden (ctm_b m) + rnum (ctm_b m) * rden (ctm_a m)"
    and "d \<equiv> rden (ctm_a m) * rden (ctm_b m)"
  shows "in_int128 (rnum (ctm_a m) * flicks p) \<and> in_int128 (rnum (ctm_b m) * rden (ctm_a m)) \<and>
    0 < d \<and> 2 * d \<le> int128_max \<and>
    (ctm_evaluate m p = Inl e \<longleftrightarrow> e = Overflow \<and>
      (\<not> in_int128 (rnum (ctm_a m) * flicks p * rden (ctm_b m)) \<or> \<not> in_int128 n \<or>
       (\<exists>q. nearest_even (rat_of_int n / rat_of_int d) q \<and> \<not> in_int64 q)))"
proof -
  have fit: "in_int128 (rnum (ctm_a m) * flicks p)" "in_int128 (rnum (ctm_b m) * rden (ctm_a m))"
    and d: "0 < d" "2 * d \<le> int128_max"
    using evaluate_unchecked_fit [OF assms(1,2)] by (simp_all add: d_def)
  have "(\<exists>q. nearest_even (rat_of_int n / rat_of_int d) q \<and> \<not> in_int64 q) \<longleftrightarrow>
      \<not> in_int64 (round_half_even n d)"
    using round_half_even_nearest [OF d(1), of n] nearest_even_unique by blast
  then have "ctm_evaluate m p = Inl e \<longleftrightarrow> e = Overflow \<and>
      (\<not> in_int128 (rnum (ctm_a m) * flicks p * rden (ctm_b m)) \<or> \<not> in_int128 n \<or>
       (\<exists>q. nearest_even (rat_of_int n / rat_of_int d) q \<and> \<not> in_int64 q))"
    unfolding ctm_evaluate_Inl_iff Let_def n_def d_def by blast
  with fit d show ?thesis by blast
qed

text \<open>
  The exact instant exists and is representable, and the unreduced intermediates overflow: the
  map with rate 1 + 1/2^62 and offset 1/2^20, at the instant 2^62, has the exact value
  2^62 + 1 + 1/2^20, which rounds to 2^62 + 1.
\<close>

definition wide_map :: composed_time_map where
  "wide_map = \<lparr>ctm_a = \<lparr>rnum = 2 ^ 62 + 1, rden = 2 ^ 62\<rparr>, ctm_b = \<lparr>rnum = 1, rden = 2 ^ 20\<rparr>\<rparr>"

lemma evaluate_faults_exactly_witness:
  "ctm_evaluate wide_map (Time (2 ^ 62)) = Inl Overflow \<and>
   nearest_even (ctm_apply wide_map (2 ^ 62)) (2 ^ 62 + 1) \<and> in_int64 (2 ^ 62 + 1)"
proof -
  have ok: "ctm_ok wide_map"
    by (simp add: ctm_ok_def wide_map_def canonical_def int_ranges coprime_by_loop magnitude_def gcd_loop.simps)
  have "ctm_evaluate wide_map (Time (2 ^ 62)) = Inl Overflow"
    using evaluate_faults_exactly [OF ok, of "Time (2 ^ 62)" Overflow] by (simp add: wide_map_def int_ranges)
  then show ?thesis
    by (simp add: ctm_apply_def wide_map_def rat_of_def nearest_even_def int_ranges)
qed

text \<open>
  Playback is sign-symmetric: on a map with no translation, negating the instant negates the
  result whenever both evaluations succeed, so reverse playback visits the mirrored flicks.
\<close>

theorem evaluate_sign_symmetric:
  assumes "ctm_ok m" "rnum (ctm_b m) = 0"
    and "ctm_evaluate m (Time p) = Inr t" "ctm_evaluate m (Time (- p)) = Inr t'"
  shows "flicks t' = - flicks t"
proof -
  have "ctm_apply m (rat_of_int (- p)) = - ctm_apply m (rat_of_int p)"
    using assms(2) by (simp add: ctm_apply_def rat_of_def)
  then have "nearest_even (- ctm_apply m (rat_of_int p)) (flicks t')"
    using ctm_evaluate_Inr [OF assms(1,4)] by simp
  with nearest_even_neg ctm_evaluate_Inr [OF assms(1,3)] nearest_even_unique
  show ?thesis by fastforce
qed

lemma evaluate_sign_symmetric_witness:
  "ctm_evaluate \<lparr>ctm_a = \<lparr>rnum = 1, rden = 2\<rparr>, ctm_b = \<lparr>rnum = 0, rden = 1\<rparr>\<rparr> (Time 5) = Inr (Time 2) \<and>
   flicks (Time (- 2)) = - flicks (Time 2)"
proof -
  let ?m = "\<lparr>ctm_a = \<lparr>rnum = 1, rden = 2\<rparr>, ctm_b = \<lparr>rnum = 0, rden = 1\<rparr>\<rparr>"
  have ok: "ctm_ok ?m" by (simp add: ctm_ok_def canonical_def int_ranges)
  have e: "ctm_evaluate ?m (Time 5) = Inr (Time 2)" "ctm_evaluate ?m (Time (- 5)) = Inr (Time (- 2))"
    by code_simp+
  from evaluate_sign_symmetric [OF ok _ e] show ?thesis using e(1) by simp
qed

end
