(* ===== verification/Transport.thy ===== *)
theory Transport
  imports Rational_Time
begin

text \<open>
  \<open>runtime/transport.hpp\<close> and \<open>runtime/transport.cpp\<close>: the playback clock of a viewport. The
  controls are field updates; \<open>transport_advance\<close> returns the changed transport with the code's
  \<open>expected<Time, TimeError>\<close>.
\<close>

record transport =
  tp_playhead :: time
  tp_rate :: rational
  tp_paused :: bool
  tp_loop :: "time_range option"

definition transport_init :: "time \<Rightarrow> transport" where
  "transport_init start =
     \<lparr>tp_playhead = start, tp_rate = \<lparr>rnum = 1, rden = 1\<rparr>, tp_paused = False, tp_loop = None\<rparr>"

definition transport_play :: "transport \<Rightarrow> transport" where
  "transport_play s = s\<lparr>tp_paused := False\<rparr>"

definition transport_pause :: "transport \<Rightarrow> transport" where
  "transport_pause s = s\<lparr>tp_paused := True\<rparr>"

definition transport_set_rate :: "rational \<Rightarrow> transport \<Rightarrow> transport" where
  "transport_set_rate r s = s\<lparr>tp_rate := r\<rparr>"

definition transport_seek :: "time \<Rightarrow> transport \<Rightarrow> transport" where
  "transport_seek t s = s\<lparr>tp_playhead := t\<rparr>"

definition transport_set_loop :: "time_range option \<Rightarrow> transport \<Rightarrow> transport" where
  "transport_set_loop l s = s\<lparr>tp_loop := l\<rparr>"

text \<open>The loop the code wraps into: a set one that is not degenerate.\<close>

definition active_loop :: "transport \<Rightarrow> time_range option" where
  "active_loop s = (case tp_loop s of None \<Rightarrow> None | Some r \<Rightarrow> if range_empty r then None else Some r)"

definition transport_advance :: "transport \<Rightarrow> time \<Rightarrow> transport \<times> (time_fault + time)" where
  "transport_advance s real_elapsed =
     (if tp_paused s then (s, Inr (tp_playhead s))
      else
        case tm_evaluate \<lparr>tm_in = Time 0, tm_rate = tp_rate s, tm_offset = Time 0\<rparr> real_elapsed of
          Inl e \<Rightarrow> (s, Inl e)
        | Inr delta \<Rightarrow>
            let advanced = flicks (tp_playhead s) + flicks delta in
            case active_loop s of
              Some r \<Rightarrow>
                let inn = flicks (tr_start r); out = flicks (tr_end r); len = out - inn;
                    off = advanced - inn; m = off smod len;
                    m = (if m < 0 then m + len else m); wrapped = inn + m
                in (s\<lparr>tp_playhead := Time wrapped\<rparr>, Inr (Time wrapped))
            | None \<Rightarrow>
                if advanced > int64_max \<or> advanced < int64_min then (s, Inl Overflow)
                else (s\<lparr>tp_playhead := Time advanced\<rparr>, Inr (Time advanced)))"

subsection \<open>What an advance computes\<close>

lemma true_modulo:
  fixes x len :: int
  assumes "0 < len"
  shows "(let m = x smod len in if m < 0 then m + len else m) = x mod len"
  using floor_divmod_eq [OF assms, of x] by (auto simp: floor_divmod_def Let_def split: if_splits)

lemma transport_rate_edge_ok:
  "canonical r \<Longrightarrow> tm_ok \<lparr>tm_in = Time 0, tm_rate = r, tm_offset = Time 0\<rparr>"
  by (simp add: tm_ok_def int_ranges)

lemma transport_delta:
  assumes "canonical r"
    and "tm_evaluate \<lparr>tm_in = Time 0, tm_rate = r, tm_offset = Time 0\<rparr> el = Inr d"
  shows "nearest_even (rat_of r * rat_of_int (flicks el)) (flicks d)"
proof -
  let ?e = "\<lparr>tm_in = Time 0, tm_rate = r, tm_offset = Time 0\<rparr>"
  obtain m where m: "ctm_from ?e = Inr m" "ctm_evaluate m el = Inr d"
    using assms(2) by (auto simp: tm_evaluate_def bindE_Inr_iff)
  have "ctm_ok m" "ctm_apply m (rat_of_int (flicks el)) = tm_apply ?e (rat_of_int (flicks el))"
    using ctm_from_Inr [OF transport_rate_edge_ok [OF assms(1)] m(1)] by auto
  with ctm_evaluate_Inr [OF _ m(2)] show ?thesis by (simp add: tm_apply_def mult.commute)
qed

text \<open>
  An advance that succeeds while playing inside a non-degenerate loop \<open>[in, out)\<close> returns the
  stored playhead, which lies in the window and is congruent, modulo the loop length, to the old
  playhead plus the elapsed time scaled by the rate and rounded once, ties to even; forward and
  reverse, however many loop lengths the elapsed time spans.
\<close>

theorem advance_wraps_into_loop:
  assumes "canonical (tp_rate s)" "\<not> tp_paused s" "active_loop s = Some r"
    and "transport_advance s el = (s', Inr t)"
  shows "range_contains r t \<and> s' = s\<lparr>tp_playhead := t\<rparr> \<and>
    (\<exists>d. nearest_even (rat_of (tp_rate s) * rat_of_int (flicks el)) d \<and>
      (flicks (tr_end r) - flicks (tr_start r)) dvd flicks t - (flicks (tp_playhead s) + d))"
proof -
  let ?len = "flicks (tr_end r) - flicks (tr_start r)"
  have len: "0 < ?len" using assms(3) by (auto simp: active_loop_def range_empty_def split: option.splits if_splits)
  obtain d where d: "tm_evaluate \<lparr>tm_in = Time 0, tm_rate = tp_rate s, tm_offset = Time 0\<rparr> el = Inr d"
    using assms(2,4) by (auto simp: transport_advance_def split: sum.splits)
  let ?adv = "flicks (tp_playhead s) + flicks d"
  have t: "t = Time (flicks (tr_start r) + (?adv - flicks (tr_start r)) mod ?len)" "s' = s\<lparr>tp_playhead := t\<rparr>"
    using assms(2-4) d true_modulo [OF len, of "?adv - flicks (tr_start r)"]
    by (auto simp: transport_advance_def Let_def)
  have "range_contains r t"
    using pos_mod_bound [OF len, of "?adv - flicks (tr_start r)"] pos_mod_sign [OF len, of "?adv - flicks (tr_start r)"]
    by (simp add: range_contains_def t(1))
  moreover have "?len dvd flicks t - ?adv"
    using mod_eq_dvd_iff [of "flicks t - flicks (tr_start r)" ?len "?adv - flicks (tr_start r)"]
    by (simp add: t(1) algebra_simps)
  ultimately show ?thesis using t(2) transport_delta [OF assms(1) d] by blast
qed

text \<open>Looping [10, 14) at half speed in reverse from 11: nine flicks back is -4.5, rounded to -4, and 7 wraps to 11.\<close>

definition loop_transport :: transport where
  "loop_transport = \<lparr>tp_playhead = Time 11, tp_rate = \<lparr>rnum = -1, rden = 2\<rparr>, tp_paused = False,
     tp_loop = Some \<lparr>tr_start = Time 10, tr_end = Time 14\<rparr>\<rparr>"

lemma advance_wraps_into_loop_witness:
  "snd (transport_advance loop_transport (Time 9)) = Inr (Time 11) \<and>
   range_contains \<lparr>tr_start = Time 10, tr_end = Time 14\<rparr> (Time 11)"
proof -
  have c: "canonical (tp_rate loop_transport)" "\<not> tp_paused loop_transport"
    "active_loop loop_transport = Some \<lparr>tr_start = Time 10, tr_end = Time 14\<rparr>"
    by (simp_all add: loop_transport_def canonical_def int_ranges active_loop_def range_empty_def)
  have a: "transport_advance loop_transport (Time 9) = (loop_transport\<lparr>tp_playhead := Time 11\<rparr>, Inr (Time 11))"
    by code_simp
  from advance_wraps_into_loop [OF c a] a show ?thesis by simp
qed

text \<open>
  C20: An advance is all or nothing. It fails, with \<open>Overflow\<close> and the transport untouched, if and only if it is
  not paused and the scaled delta faults or, with no active loop, playhead plus delta leaves \<open>int64\<close>. The
  delta is the elapsed time scaled by the rate and rounded once, ties to even. A paused advance succeeds and moves
  nothing; an advance with no active loop that fits lands exactly on playhead plus delta; one with an active loop whose
  delta evaluates always succeeds.
\<close>

theorem advance_all_or_nothing:
  fixes s :: transport
  defines "delta \<equiv> tm_evaluate \<lparr>tm_in = Time 0, tm_rate = tp_rate s, tm_offset = Time 0\<rparr>"
  assumes "canonical (tp_rate s)"
  shows "(transport_advance s el = (s', Inl e) \<longleftrightarrow> s' = s \<and> e = Overflow \<and> \<not> tp_paused s \<and>
      (delta el = Inl Overflow \<or>
       active_loop s = None \<and> (\<exists>d. delta el = Inr d \<and> \<not> in_int64 (flicks (tp_playhead s) + flicks d)))) \<and>
    (delta el = Inr d \<longrightarrow> nearest_even (rat_of (tp_rate s) * rat_of_int (flicks el)) (flicks d)) \<and>
    (tp_paused s \<longrightarrow> transport_advance s el = (s, Inr (tp_playhead s))) \<and>
    (\<not> tp_paused s \<and> active_loop s = None \<and> delta el = Inr d \<and> in_int64 (flicks (tp_playhead s) + flicks d) \<longrightarrow>
      transport_advance s el = (s\<lparr>tp_playhead := Time (flicks (tp_playhead s) + flicks d)\<rparr>,
        Inr (Time (flicks (tp_playhead s) + flicks d)))) \<and>
    (\<not> tp_paused s \<and> active_loop s \<noteq> None \<and> delta el = Inr d \<longrightarrow>
      (\<exists>t. transport_advance s el = (s\<lparr>tp_playhead := t\<rparr>, Inr t)))"
proof -
  have fault: "x = Overflow" if f: "delta el = Inl x" for x
  proof -
    have "ctm_from \<lparr>tm_in = Time 0, tm_rate = tp_rate s, tm_offset = Time 0\<rparr> = Inl x \<or> (\<exists>m. ctm_evaluate m el = Inl x)"
      using f by (auto simp: delta_def tm_evaluate_def bindE_Inl_iff)
    then show ?thesis
      using ctm_from_Inl [OF transport_rate_edge_ok [OF assms(2)]] by (auto simp: ctm_evaluate_Inl_iff)
  qed
  have adv: "transport_advance s el = (if tp_paused s then (s, Inr (tp_playhead s)) else case delta el of
      Inl e \<Rightarrow> (s, Inl e)
    | Inr d \<Rightarrow> (case active_loop s of
        Some r \<Rightarrow> (let n = tr_start r; len = flicks (tr_end r) - flicks n; m = (flicks (tp_playhead s) + flicks d - flicks n) smod len;
            t = Time (flicks n + (if m < 0 then m + len else m)) in (s\<lparr>tp_playhead := t\<rparr>, Inr t))
      | None \<Rightarrow> if in_int64 (flicks (tp_playhead s) + flicks d)
          then (s\<lparr>tp_playhead := Time (flicks (tp_playhead s) + flicks d)\<rparr>, Inr (Time (flicks (tp_playhead s) + flicks d)))
          else (s, Inl Overflow)))"
    by (auto simp: transport_advance_def delta_def Let_def split: sum.split option.split)
  have "transport_advance s el = (s', Inl e) \<longleftrightarrow> s' = s \<and> e = Overflow \<and> \<not> tp_paused s \<and> (delta el = Inl Overflow \<or>
      active_loop s = None \<and> (\<exists>d. delta el = Inr d \<and> \<not> in_int64 (flicks (tp_playhead s) + flicks d)))"
    using fault by (cases "delta el"; cases "active_loop s") (auto simp: adv Let_def)
  moreover have "\<exists>t. transport_advance s el = (s\<lparr>tp_playhead := t\<rparr>, Inr t)"
    if "\<not> tp_paused s" "active_loop s \<noteq> None" "delta el = Inr d"
    using that by (auto simp: adv Let_def)
  moreover have "nearest_even (rat_of (tp_rate s) * rat_of_int (flicks el)) (flicks d)" if "delta el = Inr d"
    using transport_delta [OF assms(2)] that by (simp add: delta_def)
  moreover have "tp_paused s \<Longrightarrow> transport_advance s el = (s, Inr (tp_playhead s))" by (simp add: adv)
  moreover have "\<not> tp_paused s \<Longrightarrow> active_loop s = None \<Longrightarrow> delta el = Inr d \<Longrightarrow> in_int64 (flicks (tp_playhead s) + flicks d) \<Longrightarrow>
      transport_advance s el = (s\<lparr>tp_playhead := Time (flicks (tp_playhead s) + flicks d)\<rparr>,
        Inr (Time (flicks (tp_playhead s) + flicks d)))" by (simp add: adv)
  ultimately show ?thesis by blast
qed

definition edge_transport :: transport where
  "edge_transport = transport_seek (Time (2 ^ 63 - 2)) (transport_init time_zero)"

lemma advance_all_or_nothing_witness:
  "transport_advance edge_transport (Time 2) = (edge_transport, Inl Overflow) \<and>
   transport_advance edge_transport (Time 1) = (edge_transport\<lparr>tp_playhead := Time (2 ^ 63 - 1)\<rparr>, Inr (Time (2 ^ 63 - 1))) \<and>
   transport_advance (transport_pause edge_transport) (Time 9) =
     (transport_pause edge_transport, Inr (tp_playhead (transport_pause edge_transport))) \<and>
   active_loop edge_transport = None"
proof -
  have c: "canonical (tp_rate edge_transport)" "canonical (tp_rate (transport_pause edge_transport))"
    "tp_paused (transport_pause edge_transport)"
    by (simp_all add: edge_transport_def transport_pause_def transport_seek_def transport_init_def
        canonical_def int_ranges)
  have f: "transport_advance edge_transport (Time 2) = (edge_transport, Inl Overflow)" by code_simp
  have n: "active_loop edge_transport = None"
    by (simp add: active_loop_def edge_transport_def transport_seek_def transport_init_def)
  have d: "tm_evaluate \<lparr>tm_in = Time 0, tm_rate = tp_rate edge_transport, tm_offset = Time 0\<rparr> (Time 1) = Inr (Time 1)"
    by code_simp
  have u: "\<not> tp_paused edge_transport" "tp_playhead edge_transport = Time (2 ^ 63 - 2)"
    by (simp_all add: edge_transport_def transport_seek_def transport_init_def)
  have "transport_advance edge_transport (Time 1) = (edge_transport\<lparr>tp_playhead := Time (2 ^ 63 - 1)\<rparr>, Inr (Time (2 ^ 63 - 1)))"
    using advance_all_or_nothing [OF c(1), of "Time 1" edge_transport Overflow "Time 1"] d n u by (simp add: int_ranges)
  then show ?thesis using f advance_all_or_nothing [OF c(2), of "Time 9"] n c(3) by blast
qed

end
