(* ===== verification/Slot_Store.thy ===== *)
theory Slot_Store
  imports Prelude "HOL-Library.AList" "HOL-Library.Multiset"
begin

text \<open>
  \<open>pool/slot_store.hpp\<close>, \<open>pool/slot_store.cpp\<close> and the quarantine fence of
  \<open>pool/checkpoint.hpp\<close>: the slots of one size class. A vector is a list whose last element is
  the back. Threads are numbers; each operation is atomic, so a concurrent run is a sequence of
  them. The \<open>ChunkSource\<close> is the argument \<open>source\<close>: what it answers for the chunk of a number,
  the error or the size of the span.
\<close>

subsection \<open>State\<close>

datatype pool_error = OutOfMemory | CapacityExhausted

record slot_store =
  ss_chunk_bits :: nat
  ss_directory :: "nat set"
  ss_high_water :: nat
  ss_free :: "nat list"
  ss_pools :: "(nat \<times> nat list) list"
  ss_fence :: "nat option"
  ss_quarantine :: "(nat \<times> nat) list"
  ss_quarantined_total :: nat
  ss_live :: nat
  ss_capacity :: nat
  ss_bytes :: nat
  ss_spills :: nat
  ss_refills :: nat

definition max_chunks :: nat where "max_chunks = 2 ^ (10 + 10)"

definition free_pool_batch :: nat where "free_pool_batch = 32"

definition align_up :: "nat \<Rightarrow> nat \<Rightarrow> nat" where
  "align_up n align = (n + align - 1) div align * align"

function chunk_bits_loop :: "nat \<Rightarrow> nat \<Rightarrow> nat" where
  "chunk_bits_loop slots bits =
     (if bits < 12 \<and> 2 ^ (bits + 1) \<le> slots then chunk_bits_loop slots (bits + 1) else bits)"
  by auto
termination by (relation "measure (\<lambda>(_, bits). 12 - bits)") auto

declare chunk_bits_loop.simps [simp del]

definition default_chunk_bits :: "nat \<Rightarrow> nat" where
  "default_chunk_bits slot_stride =
     chunk_bits_loop ((64 * 1024) div (if slot_stride = 0 then 1 else slot_stride)) 0"

definition slot_store_new :: "nat \<Rightarrow> slot_store" where
  "slot_store_new chunk_bits =
     \<lparr>ss_chunk_bits = chunk_bits, ss_directory = {}, ss_high_water = 0, ss_free = [], ss_pools = [],
      ss_fence = None, ss_quarantine = [], ss_quarantined_total = 0, ss_live = 0, ss_capacity = 0,
      ss_bytes = 0, ss_spills = 0, ss_refills = 0\<rparr>"

subsection \<open>Operations\<close>

text \<open>The calling thread's pool, registered on first touch.\<close>

definition pool_of :: "slot_store \<Rightarrow> nat \<Rightarrow> nat list" where
  "pool_of s t = (case map_of (ss_pools s) t of None \<Rightarrow> [] | Some p \<Rightarrow> p)"

definition set_pool :: "nat \<Rightarrow> nat list \<Rightarrow> slot_store \<Rightarrow> slot_store" where
  "set_pool t p s = s\<lparr>ss_pools := AList.update t p (ss_pools s)\<rparr>"

definition push_free :: "nat \<Rightarrow> nat \<Rightarrow> slot_store \<Rightarrow> slot_store" where
  "push_free t i s =
     (let loc = pool_of s t @ [i] in
      if length loc \<ge> free_pool_batch
      then set_pool t [] (s\<lparr>ss_free := ss_free s @ loc, ss_spills := ss_spills s + 1\<rparr>)
      else set_pool t loc s)"

definition refill_from_global :: "nat \<Rightarrow> slot_store \<Rightarrow> slot_store" where
  "refill_from_global t s =
     (if ss_free s = [] then s
      else
        let tk = min free_pool_batch (length (ss_free s)); first = length (ss_free s) - tk
        in set_pool t (pool_of s t @ drop first (ss_free s))
             (s\<lparr>ss_free := take first (ss_free s), ss_refills := ss_refills s + 1\<rparr>))"

definition grow_chunk ::
  "(nat \<Rightarrow> pool_error + nat) \<Rightarrow> nat \<Rightarrow> slot_store \<Rightarrow> slot_store \<times> (pool_error + unit)" where
  "grow_chunk source c s =
     (if c \<ge> max_chunks then (s, Inl CapacityExhausted)
      else case source c of
        Inl e \<Rightarrow> (s, Inl e)
      | Inr sz \<Rightarrow>
          (s\<lparr>ss_directory := insert c (ss_directory s),
             ss_capacity := ss_capacity s + 2 ^ ss_chunk_bits s, ss_bytes := ss_bytes s + sz\<rparr>, Inr ()))"

text \<open>The high-water mark is a 32-bit counter: its increment wraps.\<close>

definition slot_allocate ::
  "(nat \<Rightarrow> pool_error + nat) \<Rightarrow> nat \<Rightarrow> slot_store \<Rightarrow> slot_store \<times> (pool_error + nat)" where
  "slot_allocate source t s =
     (let s = set_pool t (pool_of s t) s;
          s = (if pool_of s t = [] then refill_from_global t s else s)
      in if pool_of s t \<noteq> []
         then ((set_pool t (butlast (pool_of s t)) s)\<lparr>ss_live := ss_live s + 1\<rparr>, Inr (last (pool_of s t)))
         else
           let i = ss_high_water s; c = i div 2 ^ ss_chunk_bits s
           in seqE (if i mod 2 ^ ss_chunk_bits s = 0 then grow_chunk source c s else (s, Inr ()))
                (\<lambda>s _. (s\<lparr>ss_high_water := (i + 1) mod 2 ^ 32, ss_live := ss_live s + 1\<rparr>, Inr i)))"

definition slot_release :: "nat \<Rightarrow> nat \<Rightarrow> slot_store \<Rightarrow> slot_store" where
  "slot_release t i s =
     (let s = s\<lparr>ss_live := ss_live s - 1\<rparr> in
      case ss_fence s of
        Some epoch \<Rightarrow> s\<lparr>ss_quarantine := ss_quarantine s @ [(i, epoch)],
                        ss_quarantined_total := ss_quarantined_total s + 1\<rparr>
      | None \<Rightarrow> push_free t i s)"

definition free_now :: "nat \<Rightarrow> nat \<Rightarrow> slot_store \<Rightarrow> slot_store" where
  "free_now t i s = push_free t i s"

definition set_release_fence :: "nat option \<Rightarrow> slot_store \<Rightarrow> slot_store" where
  "set_release_fence f s = s\<lparr>ss_fence := f\<rparr>"

text \<open>
  The slot half of \<open>Checkpointer::drain_fences\<close>: the entries whose freeing is durable go back to
  the free pool in order, the others are kept.
\<close>

fun drain_quarantine :: "nat \<Rightarrow> nat \<Rightarrow> (nat \<times> nat) list \<Rightarrow> slot_store \<Rightarrow> slot_store \<times> (nat \<times> nat) list" where
  "drain_quarantine t durable [] s = (s, [])"
| "drain_quarantine t durable ((i, e) # q) s =
     (if e \<le> durable then drain_quarantine t durable q (free_now t i s)
      else let (s', kept) = drain_quarantine t durable q s in (s', (i, e) # kept))"

definition drain_fences :: "nat \<Rightarrow> nat \<Rightarrow> slot_store \<Rightarrow> slot_store" where
  "drain_fences t durable s =
     (let (s', kept) = drain_quarantine t durable (ss_quarantine s) s in s'\<lparr>ss_quarantine := kept\<rparr>)"

definition reusable_slots :: "slot_store \<Rightarrow> nat list" where
  "reusable_slots s = ss_free s @ concat (map snd (ss_pools s))"

fun reserve_chunks ::
  "(nat \<Rightarrow> pool_error + nat) \<Rightarrow> nat list \<Rightarrow> slot_store \<Rightarrow> slot_store \<times> (pool_error + unit)" where
  "reserve_chunks source [] s = (s, Inr ())"
| "reserve_chunks source (c # cs) s =
     (if c \<in> ss_directory s then reserve_chunks source cs s
      else seqE (grow_chunk source c s) (\<lambda>s _. reserve_chunks source cs s))"

definition reserve_restored ::
  "(nat \<Rightarrow> pool_error + nat) \<Rightarrow> nat \<Rightarrow> slot_store \<Rightarrow> slot_store \<times> (pool_error + unit)" where
  "reserve_restored source hw s =
     (if hw = 0 then (s\<lparr>ss_high_water := 0\<rparr>, Inr ())
      else
        seqE (reserve_chunks source [0..<(hw - 1) div 2 ^ ss_chunk_bits s + 1] s)
          (\<lambda>s _. (s\<lparr>ss_high_water := hw, ss_live := 0\<rparr>, Inr ())))"

definition finalize_restore :: "nat list \<Rightarrow> slot_store \<Rightarrow> slot_store" where
  "finalize_restore live s =
     s\<lparr>ss_free := filter (\<lambda>i. i \<notin> set live) (rev [0..<ss_high_water s]), ss_live := length live\<rparr>"

text \<open>\<open>resolve\<close>: the chunk and the slot in it, or the failed assert on an unbacked index.\<close>

definition slot_resolve :: "slot_store \<Rightarrow> nat \<Rightarrow> (nat \<times> nat) option" where
  "slot_resolve s i =
     (let c = i div 2 ^ ss_chunk_bits s
      in if c \<in> ss_directory s then Some (c, i mod 2 ^ ss_chunk_bits s) else None)"

subsection \<open>Which slots are live\<close>

definition parked :: "slot_store \<Rightarrow> nat list" where
  "parked s = ss_free s @ concat (map snd (ss_pools s)) @ map fst (ss_quarantine s)"

definition live_slots :: "slot_store \<Rightarrow> nat set" where
  "live_slots s = {..<ss_high_water s} - set (parked s)"

definition slot_inv :: "slot_store \<Rightarrow> bool" where
  "slot_inv s \<longleftrightarrow> distinct (parked s) \<and> set (parked s) \<subseteq> {..<ss_high_water s} \<and>
     ss_live s + length (parked s) = ss_high_water s \<and> distinct (map fst (ss_pools s)) \<and>
     (\<forall>p \<in> set (ss_pools s). length (snd p) < free_pool_batch) \<and>
     (\<forall>i < ss_high_water s. i div 2 ^ ss_chunk_bits s \<in> ss_directory s)"

lemma mset_pools_update:
  assumes "distinct (map fst al)"
  shows "mset (concat (map snd (AList.update t p al))) + mset (case map_of al t of None \<Rightarrow> [] | Some q \<Rightarrow> q) =
    mset p + mset (concat (map snd al))"
  using assms
proof (induction al)
  case (Cons x al)
  obtain k q where x: "x = (k, q)" by (cases x)
  show ?case
  proof (cases "k = t")
    case True
    then show ?thesis using x by simp
  next
    case False
    with x Cons show ?thesis by (auto simp: ac_simps)
  qed
qed simp

lemma pool_of_set_pool [simp]: "pool_of (set_pool t p s) t' = (if t' = t then p else pool_of s t')"
  by (simp add: pool_of_def set_pool_def update_conv')

lemma set_pool_simps [simp]:
  "ss_free (set_pool t p s) = ss_free s" "ss_quarantine (set_pool t p s) = ss_quarantine s"
  "ss_high_water (set_pool t p s) = ss_high_water s" "ss_live (set_pool t p s) = ss_live s"
  "ss_chunk_bits (set_pool t p s) = ss_chunk_bits s" "ss_directory (set_pool t p s) = ss_directory s"
  "ss_fence (set_pool t p s) = ss_fence s"
  by (simp_all add: set_pool_def)

lemma mset_parked_set_pool:
  assumes "distinct (map fst (ss_pools s))"
  shows "mset (parked (set_pool t p s)) + mset (pool_of s t) = mset p + mset (parked s)"
  using mset_pools_update [OF assms, of t p]
  by (simp add: parked_def set_pool_def pool_of_def ac_simps)

lemma distinct_set_pool:
  "distinct (map fst (ss_pools s)) \<Longrightarrow> distinct (map fst (ss_pools (set_pool t p s)))"
  by (simp add: set_pool_def distinct_update)

lemma short_set_pool:
  assumes "\<forall>q \<in> set (ss_pools s). length (snd q) < n" "length p < n"
  shows "\<forall>q \<in> set (ss_pools (set_pool t p s)). length (snd q) < n"
proof -
  have "set (AList.update t p al) \<subseteq> insert (t, p) (set al)" for al
    by (induction al) auto
  then show ?thesis using assms by (fastforce simp: set_pool_def)
qed

lemma pool_of_subset: "set (pool_of s t) \<subseteq> set (parked s)"
proof (cases "map_of (ss_pools s) t")
  case (Some q)
  then have "(t, q) \<in> set (ss_pools s)" by (rule map_of_SomeD)
  then show ?thesis using Some by (auto simp: pool_of_def parked_def)
qed (simp add: pool_of_def)

lemma slot_inv_mset:
  assumes "mset (parked s') = mset (parked s)" "ss_high_water s' = ss_high_water s"
  shows "distinct (parked s') = distinct (parked s)" "set (parked s') = set (parked s)"
    "length (parked s') = length (parked s)" "live_slots s' = live_slots s"
  using assms by (auto simp: live_slots_def dest: mset_eq_setD mset_eq_length mset_eq_imp_distinct_iff)

text \<open>The inductive core of every operation: its effect on the parked slots, as a multiset.\<close>

lemma push_free_parked:
  assumes "distinct (map fst (ss_pools s))" "\<forall>p \<in> set (ss_pools s). length (snd p) < free_pool_batch"
  shows "mset (parked (push_free t i s)) = add_mset i (mset (parked s))"
    "ss_high_water (push_free t i s) = ss_high_water s" "ss_live (push_free t i s) = ss_live s"
    "ss_chunk_bits (push_free t i s) = ss_chunk_bits s" "ss_directory (push_free t i s) = ss_directory s"
    "ss_quarantine (push_free t i s) = ss_quarantine s" "ss_fence (push_free t i s) = ss_fence s"
    "distinct (map fst (ss_pools (push_free t i s)))"
    "\<forall>p \<in> set (ss_pools (push_free t i s)). length (snd p) < free_pool_batch"
    "ss_free (push_free t i s) @ pool_of (push_free t i s) t = ss_free s @ pool_of s t @ [i]"
proof -
  let ?s = "s\<lparr>ss_free := ss_free s @ pool_of s t @ [i], ss_spills := ss_spills s + 1\<rparr>"
  have p: "pool_of ?s t = pool_of s t" by (simp add: pool_of_def)
  have "mset (parked (set_pool t [] ?s)) + mset (pool_of s t) = mset (pool_of s t) + add_mset i (mset (parked s))"
    using mset_parked_set_pool [of ?s t "[]"] assms p by (simp add: parked_def ac_simps)
  then have "mset (parked (set_pool t [] ?s)) = add_mset i (mset (parked s))"
    by (metis add.commute add_left_cancel)
  moreover have "mset (parked (set_pool t (pool_of s t @ [i]) s)) + mset (pool_of s t) =
      mset (pool_of s t) + add_mset i (mset (parked s))"
    using mset_parked_set_pool [of s t "pool_of s t @ [i]"] assms by (simp add: ac_simps)
  then have "mset (parked (set_pool t (pool_of s t @ [i]) s)) = add_mset i (mset (parked s))"
    by (metis add.commute add_left_cancel)
  ultimately show "mset (parked (push_free t i s)) = add_mset i (mset (parked s))"
    by (simp add: push_free_def Let_def)
  show "\<forall>p \<in> set (ss_pools (push_free t i s)). length (snd p) < free_pool_batch"
    using short_set_pool [of s free_pool_batch "pool_of s t @ [i]" t] short_set_pool [of ?s free_pool_batch "[]" t] assms
    by (auto simp: push_free_def Let_def free_pool_batch_def)
  show "distinct (map fst (ss_pools (push_free t i s)))"
    using distinct_set_pool [of s t] distinct_set_pool [of ?s t] assms(1) by (auto simp: push_free_def Let_def)
qed (simp_all add: push_free_def Let_def)


lemma refill_parked:
  assumes "distinct (map fst (ss_pools s))" "pool_of s t = []"
  shows "mset (parked (refill_from_global t s)) = mset (parked s)"
    "ss_high_water (refill_from_global t s) = ss_high_water s" "ss_live (refill_from_global t s) = ss_live s"
    "ss_chunk_bits (refill_from_global t s) = ss_chunk_bits s"
    "ss_directory (refill_from_global t s) = ss_directory s"
    "ss_quarantine (refill_from_global t s) = ss_quarantine s"
    "distinct (map fst (ss_pools (refill_from_global t s)))"
    "ss_free (refill_from_global t s) @ pool_of (refill_from_global t s) t = ss_free s"
    "length (pool_of (refill_from_global t s) t) \<le> free_pool_batch"
    "pool_of (refill_from_global t s) t = [] \<longleftrightarrow> ss_free s = []"
proof -
  let ?f = "length (ss_free s) - min free_pool_batch (length (ss_free s))"
  let ?s = "s\<lparr>ss_free := take ?f (ss_free s), ss_refills := ss_refills s + 1\<rparr>"
  have p: "pool_of ?s t = []" using assms(2) by (simp add: pool_of_def)
  have "mset (take ?f (ss_free s)) + mset (drop ?f (ss_free s)) = mset (ss_free s)"
    by (metis append_take_drop_id mset_append)
  then show "mset (parked (refill_from_global t s)) = mset (parked s)"
    using mset_parked_set_pool [of ?s t "drop ?f (ss_free s)"] assms p
    by (auto simp: refill_from_global_def Let_def parked_def ac_simps)
  show "pool_of (refill_from_global t s) t = [] \<longleftrightarrow> ss_free s = []"
    using assms(2) by (auto simp: refill_from_global_def Let_def free_pool_batch_def min_def)
  show "distinct (map fst (ss_pools (refill_from_global t s)))"
    using assms(1) distinct_set_pool [of ?s t] by (simp add: refill_from_global_def Let_def)
qed (use assms(2) in \<open>auto simp: refill_from_global_def Let_def free_pool_batch_def\<close>)

lemma pool_of_update [simp]:
  "pool_of (s\<lparr>ss_live := n\<rparr>) t = pool_of s t" "pool_of (s\<lparr>ss_high_water := n\<rparr>) t = pool_of s t"
  "pool_of (s\<lparr>ss_quarantine := q\<rparr>) t = pool_of s t"
  by (simp_all add: pool_of_def)

lemma parked_update [simp]:
  "parked (s\<lparr>ss_live := n\<rparr>) = parked s" "parked (s\<lparr>ss_high_water := n\<rparr>) = parked s"
  "parked (s\<lparr>ss_directory := d, ss_capacity := c, ss_bytes := b\<rparr>) = parked s"
  by (simp_all add: parked_def)

text \<open>A pop from the calling thread's pool.\<close>

lemma pop_parked:
  assumes "distinct (map fst (ss_pools s))" "pool_of s t \<noteq> []"
  shows "add_mset (last (pool_of s t)) (mset (parked (set_pool t (butlast (pool_of s t)) s))) = mset (parked s)"
proof -
  have "mset (pool_of s t) = add_mset (last (pool_of s t)) (mset (butlast (pool_of s t)))"
    using assms(2) by (metis append_butlast_last_id mset_append add_mset_add_single mset_single_iff_right)
  with mset_parked_set_pool [OF assms(1), of t "butlast (pool_of s t)"] show ?thesis by simp
qed

lemma update_update [simp]: "AList.update k v (AList.update k w al) = AList.update k v al"
  by (induction al) auto

lemma set_pool_set_pool [simp]: "set_pool t p (set_pool t q s) = set_pool t p s"
  by (simp add: set_pool_def)

lemma pools_set_pool_refill: "ss_pools (set_pool t p (refill_from_global t s)) = ss_pools (set_pool t p s)"
  by (simp add: refill_from_global_def Let_def set_pool_def)

text \<open>What an allocation can do: reuse a parked slot, or take the one at the high-water mark.\<close>

lemma slot_inv_pools:
  "slot_inv s \<Longrightarrow> distinct (map fst (ss_pools s))"
  "slot_inv s \<Longrightarrow> \<forall>p \<in> set (ss_pools s). length (snd p) < free_pool_batch"
  by (simp_all add: slot_inv_def)

lemma allocate_cases:
  assumes "slot_inv s" and a: "slot_allocate source t s = (s', r)"
  obtains (reuse) i where "r = Inr i" "mset (parked s) = add_mset i (mset (parked s'))"
      "ss_live s' = ss_live s + 1" "ss_high_water s' = ss_high_water s"
      "ss_directory s' = ss_directory s" "ss_free s @ pool_of s t \<noteq> []"
      "i = last (ss_free s @ pool_of s t)" "ss_free s' @ pool_of s' t = butlast (ss_free s @ pool_of s t)"
      "distinct (map fst (ss_pools s'))" "\<forall>p \<in> set (ss_pools s'). length (snd p) < free_pool_batch"
      "ss_chunk_bits s' = ss_chunk_bits s" "ss_quarantine s' = ss_quarantine s"
  | (grow) d where "ss_free s @ pool_of s t = []" "ss_free s' @ pool_of s' t = []"
      "mset (parked s') = mset (parked s)" "ss_directory s' = d" "ss_directory s \<subseteq> d"
      "(r = Inr (ss_high_water s) \<and> ss_live s' = ss_live s + 1 \<and>
        ss_high_water s' = (ss_high_water s + 1) mod 2 ^ 32 \<and>
        (ss_high_water s mod 2 ^ ss_chunk_bits s = 0 \<longrightarrow> ss_high_water s div 2 ^ ss_chunk_bits s \<in> d)) \<or>
       (\<exists>e. r = Inl e \<and> ss_live s' = ss_live s \<and> ss_high_water s' = ss_high_water s \<and>
         ss_high_water s mod 2 ^ ss_chunk_bits s = 0 \<and>
         (ss_high_water s div 2 ^ ss_chunk_bits s \<ge> max_chunks \<and> e = CapacityExhausted \<or>
          source (ss_high_water s div 2 ^ ss_chunk_bits s) = Inl e))"
      "distinct (map fst (ss_pools s'))" "\<forall>p \<in> set (ss_pools s'). length (snd p) < free_pool_batch"
      "ss_chunk_bits s' = ss_chunk_bits s" "ss_quarantine s' = ss_quarantine s"
proof -
  define s1 where "s1 = set_pool t (pool_of s t) s"
  define s2 where "s2 = (if pool_of s1 t = [] then refill_from_global t s1 else s1)"
  note pools = slot_inv_pools [OF assms(1)]
  have len: "length (pool_of s t) < free_pool_batch"
    using pools(2) by (auto simp: pool_of_def free_pool_batch_def dest!: map_of_SomeD split: option.splits)
  have s1: "mset (parked s1) = mset (parked s)" "distinct (map fst (ss_pools s1))"
    "\<forall>p \<in> set (ss_pools s1). length (snd p) < free_pool_batch" "pool_of s1 t = pool_of s t" "ss_free s1 = ss_free s"
    using mset_parked_set_pool [OF pools(1), of t "pool_of s t"] distinct_set_pool [OF pools(1)]
      short_set_pool [OF pools(2) len] by (simp_all add: s1_def add.commute)
  have s2: "mset (parked s2) = mset (parked s)" "distinct (map fst (ss_pools s2))"
    "ss_free s2 @ pool_of s2 t = ss_free s @ pool_of s t" "pool_of s2 t = [] \<longleftrightarrow> ss_free s @ pool_of s t = []"
    "ss_high_water s2 = ss_high_water s" "ss_live s2 = ss_live s" "ss_chunk_bits s2 = ss_chunk_bits s"
    "ss_directory s2 = ss_directory s" "ss_quarantine s2 = ss_quarantine s"
    using s1 refill_parked [OF s1(2)] by (auto simp: s2_def s1_def)
  have short: "\<forall>q \<in> set (ss_pools (set_pool t p s2)). length (snd q) < free_pool_batch" if "length p < free_pool_batch" for p
    using short_set_pool [OF s1(3) that, of t] by (auto simp: s2_def pools_set_pool_refill)
  show ?thesis
  proof (cases "pool_of s2 t = []")
    case False
    have l2: "length (butlast (pool_of s2 t)) < free_pool_batch"
      using refill_parked(9) [OF s1(2), of t] s1(4) len by (auto simp: s2_def free_pool_batch_def)
    have r: "r = Inr (last (pool_of s2 t))" "s' = (set_pool t (butlast (pool_of s2 t)) s2)\<lparr>ss_live := ss_live s2 + 1\<rparr>"
      using a False by (auto simp: slot_allocate_def s1_def [symmetric] s2_def [symmetric] Let_def)
    have "last (pool_of s2 t) = last (ss_free s @ pool_of s t)"
      "ss_free s2 @ butlast (pool_of s2 t) = butlast (ss_free s @ pool_of s t)"
      using s2(3) False by (metis last_appendR, metis butlast_append)
    note l = this
    have m: "mset (parked s) = add_mset (last (pool_of s2 t)) (mset (parked s'))"
      using pop_parked [OF s2(2) False] s2(1) by (simp add: r(2))
    show ?thesis
    proof (rule reuse)
      show "r = Inr (last (pool_of s2 t))" by (fact r(1))
      show "mset (parked s) = add_mset (last (pool_of s2 t)) (mset (parked s'))" by (fact m)
      show "last (pool_of s2 t) = last (ss_free s @ pool_of s t)" by (fact l(1))
      show "ss_free s' @ pool_of s' t = butlast (ss_free s @ pool_of s t)" using l(2) by (simp add: r(2))
      show "distinct (map fst (ss_pools s'))" using distinct_set_pool [OF s2(2)] by (simp add: r(2))
      show "\<forall>p \<in> set (ss_pools s'). length (snd p) < free_pool_batch" using short [OF l2] by (simp add: r(2))
    qed (use s2(4-9) False in \<open>simp_all add: r(2)\<close>)
  next
    case True
    then have e: "ss_free s @ pool_of s t = []" using s2(4) by simp
    define i where "i = ss_high_water s"
    define g where "g = (if i mod 2 ^ ss_chunk_bits s = 0 then grow_chunk source (i div 2 ^ ss_chunk_bits s) s2 else (s2, Inr ()))"
    have a': "seqE g (\<lambda>s _. (s\<lparr>ss_high_water := (i + 1) mod 2 ^ 32, ss_live := ss_live s + 1\<rparr>, Inr i)) = (s', r)"
      using a unfolding slot_allocate_def Let_def s1_def [symmetric] unfolding s2_def [symmetric]
      using True by (simp only: g_def i_def s2 if_False not_not simp_thms)
    obtain s3 q where g: "g = (s3, q)" by (cases g)
    have pools2: "ss_pools s2 = ss_pools s1" using e s1 by (auto simp: s2_def refill_from_global_def)
    have s3: "ss_free s3 = []" "ss_pools s3 = ss_pools s1" "pool_of s3 t = []" "parked s3 = parked s2"
      "ss_directory s \<subseteq> ss_directory s3" "ss_live s3 = ss_live s" "ss_high_water s3 = ss_high_water s"
      "ss_chunk_bits s3 = ss_chunk_bits s" "ss_quarantine s3 = ss_quarantine s"
      "q = Inr () \<Longrightarrow> i mod 2 ^ ss_chunk_bits s = 0 \<Longrightarrow> i div 2 ^ ss_chunk_bits s \<in> ss_directory s3"
      "q = Inl x \<Longrightarrow> i mod 2 ^ ss_chunk_bits s = 0 \<and>
         (i div 2 ^ ss_chunk_bits s \<ge> max_chunks \<and> x = CapacityExhausted \<or> source (i div 2 ^ ss_chunk_bits s) = Inl x)" for x
      using g s2 e pools2 True
      by (auto simp: g_def grow_chunk_def parked_def pool_of_def split: if_splits sum.splits)
    have fin: "distinct (map fst (ss_pools s3))" "\<forall>p \<in> set (ss_pools s3). length (snd p) < free_pool_batch"
      "mset (parked s3) = mset (parked s)" "ss_free s3 @ pool_of s3 t = []"
      using s1 s2(1) s3 by simp_all
    show ?thesis
    proof (cases q)
      case (Inl x)
      then have r: "s' = s3" "r = Inl x" using a' by (simp_all add: g)
      show ?thesis
        by (rule grow [OF e _ _ _ s3(5)])
          (use r(2) s3(11) [OF Inl] s3(6-9) fin in \<open>simp_all add: i_def r(1)\<close>)
    next
      case (Inr x)
      then have q: "q = Inr ()" by simp
      have r: "s' = s3\<lparr>ss_high_water := (i + 1) mod 2 ^ 32, ss_live := ss_live s3 + 1\<rparr>" "r = Inr i"
        using a' q by (simp_all add: g)
      show ?thesis
        by (rule grow [OF e _ _ _ s3(5)])
          (use r(2) s3(10) [OF q] s3(6-9) fin in \<open>simp_all add: i_def r(1)\<close>)
    qed
  qed
qed

lemma div_Suc_block:
  fixes i b :: nat
  assumes "0 < b" "i mod b \<noteq> 0" shows "i div b = (i - 1) div b"
proof -
  have "i = b * (i div b) + i mod b" by simp
  then have "i - 1 = b * (i div b) + (i mod b - 1)" using assms(2) by simp
  moreover have "i mod b - 1 < b" using assms by (meson less_imp_diff_less mod_less_divisor)
  ultimately show ?thesis by (metis assms(1) div_less div_mult_self4 gr_implies_not0 add_0_right)
qed

lemma directory_grows:
  fixes hw b :: nat
  assumes "0 < b" "\<forall>i < hw. i div b \<in> d" "hw mod b = 0 \<longrightarrow> hw div b \<in> d"
  shows "\<forall>i < hw + 1. i div b \<in> d"
proof (intro allI impI)
  fix i assume "i < hw + 1"
  then consider "i < hw" | "i = hw" "hw mod b = 0" | "i = hw" "hw mod b \<noteq> 0" "0 < hw" by fastforce
  then show "i div b \<in> d"
  proof cases
    case 3
    have "hw - 1 < hw" using 3 by simp
    then show ?thesis using assms(2) div_Suc_block [OF assms(1) 3(2)] 3 by metis
  qed (use assms in auto)
qed

lemma slot_inv_live:
  assumes "slot_inv s"
  shows "finite (live_slots s)" "card (live_slots s) = ss_live s"
proof -
  show "finite (live_slots s)" by (simp add: live_slots_def)
  have "card (live_slots s) = ss_high_water s - card (set (parked s))"
    using assms by (simp add: live_slots_def slot_inv_def card_Diff_subset)
  also have "card (set (parked s)) = length (parked s)"
    using assms by (simp add: slot_inv_def distinct_card)
  finally show "card (live_slots s) = ss_live s" using assms unfolding slot_inv_def by linarith
qed

lemma slot_inv_reparked:
  assumes "slot_inv s" "mset (parked s') = mset (parked s)" "ss_high_water s' = ss_high_water s"
    "ss_live s' = ss_live s" "ss_chunk_bits s' = ss_chunk_bits s" "ss_directory s \<subseteq> ss_directory s'"
    "distinct (map fst (ss_pools s'))" "\<forall>p \<in> set (ss_pools s'). length (snd p) < free_pool_batch"
  shows "slot_inv s'" "live_slots s' = live_slots s"
  using assms slot_inv_mset [OF assms(2,3)] by (auto simp: slot_inv_def)

lemma allocate_ok:
  assumes inv: "slot_inv s" and hw: "ss_high_water s + 1 < 2 ^ 32"
    and a: "slot_allocate source t s = (s', Inr i)"
  shows "slot_inv s' \<and> i \<notin> live_slots s \<and> live_slots s' = insert i (live_slots s)"
  using inv a
proof (cases rule: allocate_cases)
  case (reuse j)
  have j: "i = j" "j \<notin> set (parked s')" "set (parked s) = insert j (set (parked s'))"
    "distinct (parked s')" "length (parked s) = length (parked s') + 1"
    using reuse(1,2) inv mset_eq_setD [of "parked s" "j # parked s'"]
      mset_eq_imp_distinct_iff [of "parked s" "j # parked s'"] mset_eq_length [of "parked s" "j # parked s'"]
    by (auto simp: slot_inv_def)
  then show ?thesis using reuse inv by (auto simp: slot_inv_def live_slots_def)
next
  case (grow d)
  have m: "set (parked s') = set (parked s)" "distinct (parked s') = distinct (parked s)" "length (parked s') = length (parked s)"
    using grow(3) by (auto dest: mset_eq_setD mset_eq_length mset_eq_imp_distinct_iff)
  have g: "i = ss_high_water s" "ss_live s' = ss_live s + 1" "ss_high_water s' = ss_high_water s + 1"
    "ss_high_water s mod 2 ^ ss_chunk_bits s = 0 \<longrightarrow> ss_high_water s div 2 ^ ss_chunk_bits s \<in> d"
    using grow(6) hw by auto
  have "\<forall>i < ss_high_water s + 1. i div 2 ^ ss_chunk_bits s \<in> d"
    by (rule directory_grows) (use inv grow(5) g(4) in \<open>auto simp: slot_inv_def\<close>)
  then show ?thesis using inv m g grow(4,7-9) by (auto simp: slot_inv_def live_slots_def)
qed

lemma allocate_err:
  assumes inv: "slot_inv s" and a: "slot_allocate source t s = (s', Inl e)"
  shows "slot_inv s' \<and> live_slots s' = live_slots s \<and> ss_free s = [] \<and> pool_of s t = [] \<and>
    (ss_high_water s div 2 ^ ss_chunk_bits s \<ge> max_chunks \<and> e = CapacityExhausted \<or>
     source (ss_high_water s div 2 ^ ss_chunk_bits s) = Inl e)"
  using inv a
proof (cases rule: allocate_cases)
  case (grow d)
  with slot_inv_reparked [OF inv grow(3)] show ?thesis by auto
qed auto

lemma push_free_ok:
  assumes inv: "slot_inv s" and i: "i < ss_high_water s" "i \<notin> set (parked s)" "ss_live s' + 1 = ss_live s"
    and s': "s' = s\<lparr>ss_live := n\<rparr>"
  shows "slot_inv (push_free t i s') \<and> live_slots (push_free t i s') = live_slots s - {i}"
proof -
  have p: "distinct (map fst (ss_pools s'))" "\<forall>p \<in> set (ss_pools s'). length (snd p) < free_pool_batch"
    using inv by (simp_all add: slot_inv_def s')
  note f = push_free_parked [OF p, of t i]
  have m: "mset (parked (push_free t i s')) = mset (i # parked s)" using f(1) by (simp add: s')
  have "set (parked (push_free t i s')) = insert i (set (parked s))"
    "distinct (parked (push_free t i s')) = distinct (i # parked s)"
    "length (parked (push_free t i s')) = length (parked s) + 1"
    using mset_eq_setD [OF m] mset_eq_imp_distinct_iff [OF m] mset_eq_length [OF m] by auto
  then show ?thesis using inv i f by (auto simp: slot_inv_def live_slots_def s')
qed

lemma release_ok:
  assumes inv: "slot_inv s" and i: "i \<in> live_slots s"
  shows "slot_inv (slot_release t i s) \<and> live_slots (slot_release t i s) = live_slots s - {i}"
proof -
  have l: "0 < ss_live s" using slot_inv_live [OF inv] i card_gt_0_iff by force
  have j: "i < ss_high_water s" "i \<notin> set (parked s)" using i by (auto simp: live_slots_def)
  show ?thesis
  proof (cases "ss_fence s")
    case None
    then show ?thesis
      using push_free_ok [OF inv j, of "s\<lparr>ss_live := ss_live s - 1\<rparr>" "ss_live s - 1" t] l
      by (simp add: slot_release_def Let_def)
  next
    case (Some e)
    then have "parked (slot_release t i s) = parked s @ [i]"
      by (simp add: slot_release_def parked_def)
    then show ?thesis using inv j l Some by (auto simp: slot_inv_def live_slots_def slot_release_def)
  qed
qed

lemma free_now_ok:
  assumes "slot_inv (s\<lparr>ss_quarantine := (i, e) # q\<rparr>)"
  shows "slot_inv ((free_now t i s)\<lparr>ss_quarantine := q\<rparr>)"
    "live_slots ((free_now t i s)\<lparr>ss_quarantine := q\<rparr>) = live_slots (s\<lparr>ss_quarantine := (i, e) # q\<rparr>)"
    "ss_high_water (free_now t i s) = ss_high_water s"
proof -
  let ?s = "s\<lparr>ss_quarantine := (i, e) # q\<rparr>" and ?s' = "(free_now t i s)\<lparr>ss_quarantine := q\<rparr>"
  have p: "distinct (map fst (ss_pools s))" "\<forall>p \<in> set (ss_pools s). length (snd p) < free_pool_batch"
    using assms by (simp_all add: slot_inv_def)
  note f = push_free_parked [OF p, of t i]
  have "mset (ss_free (free_now t i s) @ concat (map snd (ss_pools (free_now t i s)))) =
      add_mset i (mset (ss_free s @ concat (map snd (ss_pools s))))"
    using f(1,6) by (simp add: free_now_def parked_def)
  then have m: "mset (parked ?s') = mset (parked ?s)" by (simp add: parked_def)
  show "slot_inv ?s'" "live_slots ?s' = live_slots ?s"
    using slot_inv_reparked [OF assms m] f(2-5,8,9) by (simp_all add: free_now_def)
  show "ss_high_water (free_now t i s) = ss_high_water s" using f by (simp add: free_now_def)
qed

lemma drain_quarantine_ok:
  assumes "slot_inv (s\<lparr>ss_quarantine := k @ q\<rparr>)" "drain_quarantine t durable q s = (s', kept)"
  shows "slot_inv (s'\<lparr>ss_quarantine := k @ kept\<rparr>) \<and>
    live_slots (s'\<lparr>ss_quarantine := k @ kept\<rparr>) = live_slots (s\<lparr>ss_quarantine := k @ q\<rparr>) \<and>
    kept = filter (\<lambda>(i, e). durable < e) q \<and>
    mset (reusable_slots s') = mset (reusable_slots s) + mset (map fst (filter (\<lambda>(i, e). e \<le> durable) q))"
  using assms
proof (induction q arbitrary: s k kept)
  case (Cons x q)
  obtain i e where x: "x = (i, e)" by (cases x)
  show ?case
  proof (cases "e \<le> durable")
    case True
    have mv: "mset (parked (s\<lparr>ss_quarantine := (i, e) # k @ q\<rparr>)) = mset (parked (s\<lparr>ss_quarantine := k @ x # q\<rparr>))"
      by (simp add: parked_def x)
    have inv: "slot_inv (s\<lparr>ss_quarantine := (i, e) # k @ q\<rparr>)"
      "live_slots (s\<lparr>ss_quarantine := (i, e) # k @ q\<rparr>) = live_slots (s\<lparr>ss_quarantine := k @ x # q\<rparr>)"
      using slot_inv_reparked [OF Cons.prems(1) mv] Cons.prems(1) by (simp_all add: slot_inv_def)
    note f = free_now_ok [OF inv(1), of t]
    have p: "distinct (map fst (ss_pools s))" "\<forall>p \<in> set (ss_pools s). length (snd p) < free_pool_batch"
      using Cons.prems(1) by (simp_all add: slot_inv_def)
    have r: "mset (reusable_slots (free_now t i s)) = add_mset i (mset (reusable_slots s))"
      using push_free_parked(1,6) [OF p, of t i] by (simp add: free_now_def parked_def reusable_slots_def)
    have d: "drain_quarantine t durable q (free_now t i s) = (s', kept)" using Cons.prems(2) True by (simp add: x)
    show ?thesis using Cons.IH [OF f(1) d] f(2) inv(2) True r by (auto simp: x)
  next
    case False
    obtain kept' where k: "drain_quarantine t durable q s = (s', kept')" "kept = (i, e) # kept'"
      using Cons.prems(2) False by (auto simp: x split: prod.splits)
    have "slot_inv (s\<lparr>ss_quarantine := (k @ [x]) @ q\<rparr>)" using Cons.prems(1) by simp
    from Cons.IH [OF this k(1)] show ?thesis using False k(2) by (auto simp: x)
  qed
qed simp

lemma drain_fences_ok:
  assumes "slot_inv s"
  shows "slot_inv (drain_fences t durable s) \<and> live_slots (drain_fences t durable s) = live_slots s \<and>
    ss_quarantine (drain_fences t durable s) = filter (\<lambda>(i, e). durable < e) (ss_quarantine s) \<and>
    mset (reusable_slots (drain_fences t durable s)) =
      mset (reusable_slots s) + mset (map fst (filter (\<lambda>(i, e). e \<le> durable) (ss_quarantine s)))"
proof -
  obtain s' kept where d: "drain_quarantine t durable (ss_quarantine s) s = (s', kept)" by fastforce
  have r: "reusable_slots (s'\<lparr>ss_quarantine := kept\<rparr>) = reusable_slots s'" by (simp add: reusable_slots_def)
  have "s\<lparr>ss_quarantine := [] @ ss_quarantine s\<rparr> = s" by simp
  with drain_quarantine_ok [where k = "[]" and s = s, OF _ d] assms d r
  show ?thesis by (auto simp: drain_fences_def)
qed

subsection \<open>Recovery\<close>

lemma grow_chunk_frame:
  assumes "grow_chunk source c s = (s', r)"
  shows "ss_free s' = ss_free s" "ss_pools s' = ss_pools s" "ss_quarantine s' = ss_quarantine s"
    "ss_chunk_bits s' = ss_chunk_bits s" "ss_directory s \<subseteq> ss_directory s'"
    "r = Inr () \<Longrightarrow> c \<in> ss_directory s'"
  using assms by (auto simp: grow_chunk_def split: if_splits sum.splits)

lemma reserve_chunks_frame:
  assumes "reserve_chunks source cs s = (s', r)"
  shows "ss_free s' = ss_free s \<and> ss_pools s' = ss_pools s \<and> ss_quarantine s' = ss_quarantine s \<and>
    ss_chunk_bits s' = ss_chunk_bits s \<and> ss_directory s \<subseteq> ss_directory s' \<and>
    (r = Inr () \<longrightarrow> set cs \<subseteq> ss_directory s')"
  using assms
proof (induction source cs s rule: reserve_chunks.induct)
  case (2 source c cs s)
  show ?case
  proof (cases "c \<in> ss_directory s")
    case True
    then show ?thesis using 2 by auto
  next
    case False
    obtain s1 q where g: "grow_chunk source c s = (s1, q)" by fastforce
    note f = grow_chunk_frame [OF g]
    show ?thesis
    proof (cases q)
      case (Inr u)
      then have "reserve_chunks source cs s1 = (s', r)" using 2(3) False g by simp
      from 2(2) [OF False this] f Inr show ?thesis by auto
    qed (use 2(3) False g f in auto)
  qed
qed simp

lemma restore_ok:
  assumes "reserve_restored source hw s = (s', Inr ())"
    and "concat (map snd (ss_pools s)) = []" "ss_quarantine s = []" "distinct (map fst (ss_pools s))"
    and "distinct live" "set live \<subseteq> {..<hw}"
  shows "slot_inv (finalize_restore live s') \<and> live_slots (finalize_restore live s') = set live"
proof -
  have f: "ss_pools s' = ss_pools s" "ss_quarantine s' = []" "ss_high_water s' = hw"
    "\<forall>i < hw. i div 2 ^ ss_chunk_bits s' \<in> ss_directory s'"
  proof -
    show "ss_pools s' = ss_pools s" "ss_quarantine s' = []" "ss_high_water s' = hw"
      using assms(1,3) reserve_chunks_frame [of source _ s]
      by (auto simp: reserve_restored_def seqE_Inr_iff split: if_splits)
    show "\<forall>i < hw. i div 2 ^ ss_chunk_bits s' \<in> ss_directory s'"
    proof (cases "hw = 0")
      case False
      then obtain s1 where c: "reserve_chunks source [0..<(hw - 1) div 2 ^ ss_chunk_bits s + 1] s = (s1, Inr ())"
          "s' = s1\<lparr>ss_high_water := hw, ss_live := 0\<rparr>"
        using assms(1) by (auto simp: reserve_restored_def seqE_Inr_iff)
      from reserve_chunks_frame [OF c(1)] have s1: "ss_chunk_bits s1 = ss_chunk_bits s"
        "\<And>c. c \<le> (hw - 1) div 2 ^ ss_chunk_bits s \<Longrightarrow> c \<in> ss_directory s1" by (auto simp: subset_iff le_less)
      show ?thesis
      proof (intro allI impI)
        fix i assume "i < hw"
        then have "i div 2 ^ ss_chunk_bits s \<le> (hw - 1) div 2 ^ ss_chunk_bits s" by (intro div_le_mono) simp
        with s1 c(2) show "i div 2 ^ ss_chunk_bits s' \<in> ss_directory s'" by auto
      qed
    qed simp
  qed
  let ?h = "filter (\<lambda>i. i \<notin> set live) (rev [0..<hw])"
  have p: "parked (finalize_restore live s') = ?h"
    using f assms(2,3) by (simp add: parked_def finalize_restore_def)
  have "set ?h = {..<hw} - set live" by auto
  moreover have "length ?h + length live = hw"
  proof -
    have "length ?h = card (set ?h)" by (rule distinct_card [symmetric]) simp
    also have "\<dots> = card ({..<hw} - set live)" by (rule arg_cong [of _ _ card]) auto
    also have "\<dots> = hw - length live"
      using assms(5,6) by (simp add: card_Diff_subset distinct_card)
    finally show ?thesis
      using assms(5,6) card_mono [of "{..<hw}" "set live"] by (simp add: distinct_card)
  qed
  moreover have "\<forall>q \<in> set (ss_pools s'). length (snd q) < free_pool_batch"
    using assms(2) f(1) by (auto simp: free_pool_batch_def)
  ultimately show ?thesis
    using f assms(4-6) p by (auto simp: slot_inv_def live_slots_def finalize_restore_def)
qed

subsection \<open>The slot provider's contract\<close>

text \<open>What the ownership layer relies on: a fresh slot on every allocation, none on failure.\<close>

locale slot_provider =
  fixes alloc :: "'s \<Rightarrow> 's \<times> ('e + nat)" and rel :: "nat \<Rightarrow> 's \<Rightarrow> 's"
    and live :: "'s \<Rightarrow> nat set" and ok :: "'s \<Rightarrow> bool" and room :: "'s \<Rightarrow> bool"
  assumes alloc_Inr: "ok s \<Longrightarrow> room s \<Longrightarrow> alloc s = (s', Inr i) \<Longrightarrow>
      ok s' \<and> i \<notin> live s \<and> live s' = insert i (live s)"
    and alloc_Inl: "ok s \<Longrightarrow> alloc s = (s', Inl e) \<Longrightarrow> ok s' \<and> live s' = live s"
    and rel_live: "ok s \<Longrightarrow> i \<in> live s \<Longrightarrow> ok (rel i s) \<and> live (rel i s) = live s - {i}"
begin

lemma alloc_rel:
  assumes "ok s" "room s" "alloc s = (s', Inr i)"
  shows "ok (rel i s')" "live (rel i s') = live s"
  using alloc_Inr [OF assms] rel_live [of s' i] by auto

lemma alloc_disjoint:
  assumes "ok s" "room s" "alloc s = (s', Inr i)" "room s'" "alloc s' = (s'', Inr j)"
  shows "j \<noteq> i"
  using alloc_Inr [OF assms(1-3)] alloc_Inr [OF _ assms(4,5)] by auto

end

interpretation slots: slot_provider "slot_allocate source t" "slot_release t'" live_slots slot_inv
    "\<lambda>s. ss_high_water s + 1 < 2 ^ 32"
  for source t t'
  by unfold_locales (use allocate_ok allocate_err release_ok in blast)+

text \<open>A store of at most 11 chunk bits never exhausts the 32-bit mark.\<close>

definition bounded_store :: "slot_store \<Rightarrow> bool" where
  "bounded_store s \<longleftrightarrow> slot_inv s \<and> ss_chunk_bits s \<le> 11 \<and>
     ss_high_water s \<le> max_chunks * 2 ^ ss_chunk_bits s"

lemma bounded_store_room: "bounded_store s \<Longrightarrow> ss_high_water s + 1 < 2 ^ 32"
proof -
  assume s: "bounded_store s"
  then have "2 ^ ss_chunk_bits s \<le> (2 ^ 11 :: nat)"
    by (intro power_increasing) (auto simp: bounded_store_def)
  then show ?thesis using s by (simp add: bounded_store_def max_chunks_def)
qed

lemma allocate_bounded:
  assumes s: "bounded_store s" and a: "slot_allocate source t s = (s', r)"
  shows "bounded_store s'"
proof -
  have inv: "slot_inv s" "ss_high_water s + 1 < 2 ^ 32" using s bounded_store_room by (auto simp: bounded_store_def)
  have inv': "slot_inv s'" using a allocate_ok [OF inv] allocate_err [OF inv(1)] by (cases r) auto
  show ?thesis
    using inv(1) a
  proof (cases rule: allocate_cases)
    case (reuse i)
    then show ?thesis using s inv' by (simp add: bounded_store_def)
  next
    case (grow d)
    show ?thesis
    proof (cases r)
      case (Inl e)
      then show ?thesis using grow s inv' by (auto simp: bounded_store_def)
    next
      case (Inr i)
      have i: "i = ss_high_water s" using grow(6) Inr by auto
      have "slot_inv s' \<and> i \<in> live_slots s'" using allocate_ok [OF inv] a Inr by blast
      then have "ss_high_water s' = ss_high_water s + 1" using grow(6) Inr inv(2) by auto
      moreover have "ss_high_water s < max_chunks * 2 ^ ss_chunk_bits s"
      proof (rule ccontr)
        assume "\<not> ss_high_water s < max_chunks * 2 ^ ss_chunk_bits s"
        then have hw: "ss_high_water s = max_chunks * 2 ^ ss_chunk_bits s" using s by (simp add: bounded_store_def)
        have "snd (slot_allocate source t s) = Inl CapacityExhausted"
          using grow(1) hw by (simp add: slot_allocate_def refill_from_global_def Let_def grow_chunk_def)
        then show False using a Inr by simp
      qed
      ultimately show ?thesis using inv' s grow(9) by (simp add: bounded_store_def)
    qed
  qed
qed

lemma release_frame:
  "ss_chunk_bits (slot_release t i s) = ss_chunk_bits s"
  "ss_high_water (slot_release t i s) = ss_high_water s"
  by (auto simp: slot_release_def push_free_def Let_def split: option.splits)

lemma release_bounded:
  "bounded_store s \<Longrightarrow> i \<in> live_slots s \<Longrightarrow> bounded_store (slot_release t i s)"
  using release_ok [of s i t] by (simp add: bounded_store_def release_frame)

interpretation bounded_slots: slot_provider "slot_allocate source t" "slot_release t'" live_slots
    bounded_store "\<lambda>_. True"
  for source t t'
proof unfold_locales
  fix s s' and i :: nat
  assume s: "bounded_store s" and a: "slot_allocate source t s = (s', Inr i)"
  show "bounded_store s' \<and> i \<notin> live_slots s \<and> live_slots s' = insert i (live_slots s)"
    using allocate_bounded [OF s a] allocate_ok [OF _ bounded_store_room [OF s] a] s by (auto simp: bounded_store_def)
next
  fix s s' e
  assume s: "bounded_store s" and a: "slot_allocate source t s = (s', Inl e)"
  show "bounded_store s' \<and> live_slots s' = live_slots s"
    using allocate_bounded [OF s a] allocate_err [OF _ a] s by (auto simp: bounded_store_def)
next
  fix s i
  assume s: "bounded_store s" and i: "i \<in> live_slots s"
  show "bounded_store (slot_release t' i s) \<and> live_slots (slot_release t' i s) = live_slots s - {i}"
    using release_bounded [OF s i] release_ok [OF _ i] s by (auto simp: bounded_store_def)
qed

subsection \<open>Properties\<close>

definition two_slots :: slot_store where
  "two_slots = (slot_store_new 1)\<lparr>ss_directory := {0}, ss_high_water := 2, ss_live := 2, ss_capacity := 2\<rparr>"

lemma two_slots_inv: "slot_inv two_slots" "live_slots two_slots = {0, 1}"
  by (auto simp: slot_inv_def two_slots_def slot_store_new_def parked_def live_slots_def)

text \<open>
  C11: Slot lifecycle. From a store that partitions the slots below its high-water mark into live, pooled and
  quarantined ones: an allocation that grants an index while the 32-bit mark has room (high water plus one below
  2^32) grants one that is not live, backed by a published chunk, and makes exactly it live; a refused allocation
  changes no live slot; a release of a live slot by any thread, fenced or not, retires exactly it; arming or lifting the
  release fence and draining the quarantine change no live slot. Each keeps the partition, every pool under the batch
  size and every slot below the mark backed by a chunk; and a recovery into a store with empty pools and an empty
  quarantine establishes it.
\<close>

theorem slot_lifecycle:
  assumes "slot_inv s"
  shows "(ss_high_water s + 1 < 2 ^ 32 \<and> slot_allocate source t s = (s', Inr i) \<longrightarrow>
      slot_inv s' \<and> i \<notin> live_slots s \<and> live_slots s' = insert i (live_slots s) \<and> slot_resolve s' i \<noteq> None) \<and>
    (slot_allocate source t s = (s', Inl e) \<longrightarrow> slot_inv s' \<and> live_slots s' = live_slots s) \<and>
    (i \<in> live_slots s \<longrightarrow>
      slot_inv (slot_release t i s) \<and> live_slots (slot_release t i s) = live_slots s - {i}) \<and>
    slot_inv (set_release_fence fence s) \<and> live_slots (set_release_fence fence s) = live_slots s \<and>
    slot_inv (drain_fences t durable s) \<and> live_slots (drain_fences t durable s) = live_slots s \<and>
    (reserve_restored source hw s0 = (s1, Inr ()) \<and> ss_pools s0 = [] \<and> ss_quarantine s0 = [] \<and>
       distinct live \<and> set live \<subseteq> {..<hw} \<longrightarrow>
      slot_inv (finalize_restore live s1) \<and> live_slots (finalize_restore live s1) = set live)"
proof -
  have "slot_resolve s' i \<noteq> None" if "slot_inv s'" "i \<in> live_slots s'"
    using that by (simp add: slot_inv_def live_slots_def slot_resolve_def Let_def)
  moreover have "slot_inv (set_release_fence fence s) \<and> live_slots (set_release_fence fence s) = live_slots s"
    using assms by (simp add: set_release_fence_def slot_inv_def live_slots_def parked_def)
  moreover have "slot_inv (finalize_restore live s1) \<and> live_slots (finalize_restore live s1) = set live"
    if "reserve_restored source hw s0 = (s1, Inr ())" "ss_pools s0 = []" "ss_quarantine s0 = []" "distinct live" "set live \<subseteq> {..<hw}"
    using restore_ok [OF that(1)] that(2-5) by simp
  ultimately show ?thesis
    using slots.alloc_Inr [OF assms] slots.alloc_Inl [OF assms] slots.rel_live [OF assms] drain_fences_ok [OF assms] by blast
qed

lemma slot_lifecycle_witness:
  "snd (slot_allocate (\<lambda>_. Inr 4096) 7 two_slots) = Inr 2 \<and> 2 \<notin> live_slots two_slots \<and>
   slot_inv (slot_release 7 1 two_slots)"
proof -
  obtain s' where a: "slot_allocate (\<lambda>_. Inr 4096) 7 two_slots = (s', Inr 2)"
    by (simp add: slot_allocate_def two_slots_def slot_store_new_def set_pool_def pool_of_def
        refill_from_global_def grow_chunk_def max_chunks_def)
  show ?thesis
    using slot_lifecycle [OF two_slots_inv(1), of "\<lambda>_. Inr 4096" 7 s' 2]
      slot_lifecycle [OF two_slots_inv(1), of "\<lambda>_. Inr 4096" 7 s' 1] a
    by (simp add: two_slots_inv)
qed

text \<open>
  Splitting the free list into thread pools and batches is invisible to a thread: the global
  list followed by its own pool behaves as one LIFO stack, whatever spills and refills happen. An
  unfenced release pushes on it; an allocation pops its top whenever it is not empty.
\<close>

theorem free_pools_refine_lifo:
  assumes "slot_inv s"
  shows "(ss_fence s = None \<longrightarrow>
      ss_free (slot_release t i s) @ pool_of (slot_release t i s) t = (ss_free s @ pool_of s t) @ [i]) \<and>
    (ss_free s @ pool_of s t \<noteq> [] \<longrightarrow>
      (\<exists>s'. slot_allocate source t s = (s', Inr (last (ss_free s @ pool_of s t))) \<and>
        ss_free s' @ pool_of s' t = butlast (ss_free s @ pool_of s t)))"
proof -
  have "ss_free (slot_release t i s) @ pool_of (slot_release t i s) t = (ss_free s @ pool_of s t) @ [i]"
    if "ss_fence s = None"
    using push_free_parked(10) [of "s\<lparr>ss_live := ss_live s - 1\<rparr>" t i] assms that
    by (simp add: slot_release_def slot_inv_def)
  moreover have "\<exists>s'. slot_allocate source t s = (s', Inr (last (ss_free s @ pool_of s t))) \<and>
        ss_free s' @ pool_of s' t = butlast (ss_free s @ pool_of s t)" if ne: "ss_free s @ pool_of s t \<noteq> []"
  proof -
    obtain s' r where a: "slot_allocate source t s = (s', r)" by fastforce
    show ?thesis using assms a by (cases rule: allocate_cases) (use a ne in auto)
  qed
  ultimately show ?thesis by blast
qed

lemma free_pools_refine_lifo_witness:
  "ss_free (slot_release 3 1 two_slots) @ pool_of (slot_release 3 1 two_slots) 3 = [1]"
  using free_pools_refine_lifo [OF two_slots_inv(1), of 3 1] by (simp add: two_slots_def slot_store_new_def pool_of_def)

text \<open>
  A fenced slot is not reusable until its freeing is durable: a fenced release leaves every
  free pool as it was, and a drain at a durable epoch moves exactly the quarantined slots stamped at
  or before it into the pools, keeps the others in order, and keeps the slot invariant and the live
  slots.
\<close>

theorem quarantine_until_durable:
  assumes "slot_inv s"
  shows "(ss_fence s = Some epoch \<longrightarrow> reusable_slots (slot_release t i s) = reusable_slots s \<and>
      ss_quarantine (slot_release t i s) = ss_quarantine s @ [(i, epoch)]) \<and>
    slot_inv (drain_fences t durable s) \<and> live_slots (drain_fences t durable s) = live_slots s \<and>
    ss_quarantine (drain_fences t durable s) = filter (\<lambda>(i, e). durable < e) (ss_quarantine s) \<and>
    mset (reusable_slots (drain_fences t durable s)) =
      mset (reusable_slots s) + mset (map fst (filter (\<lambda>(i, e). e \<le> durable) (ss_quarantine s)))"
  using drain_fences_ok [OF assms] by (simp add: slot_release_def reusable_slots_def)

lemma quarantine_until_durable_witness:
  "mset (reusable_slots (drain_fences 0 4 (two_slots\<lparr>ss_quarantine := [(1, 4), (0, 5)], ss_live := 0\<rparr>))) = {#1#}"
proof -
  have "slot_inv (two_slots\<lparr>ss_quarantine := [(1, 4), (0, 5)], ss_live := 0\<rparr>)"
    by (auto simp: slot_inv_def two_slots_def slot_store_new_def parked_def)
  from quarantine_until_durable [OF this, of 0 0 0 4]
  show ?thesis by (simp add: reusable_slots_def two_slots_def slot_store_new_def)
qed

text \<open>
  Recovery rebuilds the free list as the complement of the reachable slots: after
  \<open>reserve_restored\<close> succeeds on a store with empty pools and no quarantine, \<open>finalize_restore\<close>
  with distinct slots below the mark makes exactly those live, and the next allocation by a thread
  takes the lowest hole first.
\<close>

theorem restore_complement:
  assumes "reserve_restored source hw s = (s', Inr ())"
    and "ss_pools s = []" "ss_quarantine s = []" "distinct live" "set live \<subset> {..<hw}"
  shows "slot_inv (finalize_restore live s') \<and> live_slots (finalize_restore live s') = set live \<and>
    snd (slot_allocate source t (finalize_restore live s')) = Inr (LEAST i. i < hw \<and> i \<notin> set live)"
proof -
  let ?f = "finalize_restore live s'" and ?P = "\<lambda>i. i < hw \<and> i \<notin> set live"
  have ok: "slot_inv ?f" "live_slots ?f = set live"
    using restore_ok [OF assms(1)] assms(2-5) by auto
  have f: "ss_pools s' = []" "ss_high_water s' = hw"
    using assms(1,2) reserve_chunks_frame [of source _ s]
    by (auto simp: reserve_restored_def seqE_Inr_iff split: if_splits)
  let ?h = "filter (\<lambda>i. i \<notin> set live) (rev [0..<hw])"
  have st: "ss_free ?f @ pool_of ?f t = ?h" using f by (simp add: finalize_restore_def pool_of_def)
  obtain j where "?P j" using assms(5) by auto
  then have l: "?P (LEAST i. ?P i)" by (rule LeastI)
  then have ne: "?h \<noteq> []" by (auto simp: filter_empty_conv)
  have "?h = rev (filter (\<lambda>i. i \<notin> set live) [0..<hw])" by (simp add: rev_filter)
  then have "last ?h = hd (filter (\<lambda>i. i \<notin> set live) [0..<hw])" using ne by (simp add: last_rev)
  also have "\<dots> = (LEAST i. ?P i)"
  proof (rule Least_equality [symmetric])
    let ?g = "filter (\<lambda>i. i \<notin> set live) [0..<hw]"
    have g: "?g \<noteq> []" using ne by (auto simp: filter_empty_conv)
    then have "hd ?g \<in> set ?g" by (rule hd_in_set)
    then show "?P (hd ?g)" by auto
    fix y assume "?P y"
    then have "y \<in> set ?g" by auto
    moreover have "sorted ?g" by (simp add: sorted_wrt_filter)
    ultimately show "hd ?g \<le> y" by (cases ?g) auto
  qed
  finally show ?thesis using ok free_pools_refine_lifo [OF ok(1), of t 0 source] ne st by auto
qed


lemma restore_complement_witness:
  "snd (slot_allocate (\<lambda>_. Inr 64) 0 (finalize_restore [2, 0]
     (fst (reserve_restored (\<lambda>_. Inr 64) 4 (slot_store_new 1))))) = Inr (LEAST i. i < 4 \<and> i \<notin> set [2, 0])"
proof -
  have r: "snd (reserve_restored (\<lambda>_. Inr 64) 4 (slot_store_new 1)) = Inr ()"
    by (simp add: reserve_restored_def slot_store_new_def grow_chunk_def max_chunks_def)
  have p: "ss_pools (slot_store_new 1) = []" "ss_quarantine (slot_store_new 1) = []"
    "distinct [2, 0 :: nat]"
    by (simp_all add: slot_store_new_def)
  have "1 \<in> {..<4 :: nat}" "1 \<notin> set [2, 0 :: nat]" "set [2, 0 :: nat] \<subseteq> {..<4}" by simp_all
  then have q: "set [2, 0 :: nat] \<subset> {..<4}" by blast
  show ?thesis
    by (rule restore_complement [OF _ p q, THEN conjunct2, THEN conjunct2])
      (use r in \<open>simp add: prod_eq_iff\<close>)
qed

text \<open>
  C17: Capacity. A store of at most 11 chunk bits refuses an allocation with \<open>CapacityExhausted\<close>
  once every chunk is full, so the 32-bit mark never wraps; a store of 12 chunk bits, which
  \<open>default_chunk_bits\<close> picks for the smallest stride, never refuses: at the last index the mark
  wraps to 0, and the following allocation hands out slot 0 again, live or not.
\<close>

theorem capacity_and_wrap:
  assumes "slot_inv s" "ss_free s @ pool_of s t = []" "source 0 = Inr sz"
  shows "(ss_chunk_bits s \<le> 11 \<and> ss_high_water s = max_chunks * 2 ^ ss_chunk_bits s \<longrightarrow>
      snd (slot_allocate source t s) = Inl CapacityExhausted) \<and>
    (ss_chunk_bits s \<le> 11 \<and> ss_high_water s < max_chunks * 2 ^ ss_chunk_bits s \<longrightarrow>
      ss_high_water s + 1 < 2 ^ 32) \<and>
    default_chunk_bits 16 = 12 \<and>
    (ss_chunk_bits s = 12 \<and> ss_high_water s = 2 ^ 32 - 1 \<longrightarrow>
      (\<exists>s' s''. slot_allocate source t s = (s', Inr (2 ^ 32 - 1)) \<and> ss_high_water s' = 0 \<and>
        slot_allocate source t s' = (s'', Inr 0)))"
proof -
  have e: "ss_free s = []" "pool_of s t = []" using assms(2) by auto
  have alloc: "slot_allocate source t s =
    (let i = ss_high_water s; c = i div 2 ^ ss_chunk_bits s
     in seqE (if i mod 2 ^ ss_chunk_bits s = 0 then grow_chunk source c (set_pool t [] s) else (set_pool t [] s, Inr ()))
       (\<lambda>s _. (s\<lparr>ss_high_water := (i + 1) mod 2 ^ 32, ss_live := ss_live s + 1\<rparr>, Inr i)))"
    if "ss_free s = []" "pool_of s t = []" for s :: slot_store
    using that by (simp add: slot_allocate_def refill_from_global_def Let_def)
  have full: "snd (slot_allocate source t s) = Inl CapacityExhausted"
    if "ss_chunk_bits s \<le> 11" "ss_high_water s = max_chunks * 2 ^ ss_chunk_bits s"
    using alloc [OF e] that by (simp add: Let_def grow_chunk_def)
  have bits: "2 ^ ss_chunk_bits s \<le> (2 ^ 11 :: nat)" if "ss_chunk_bits s \<le> 11"
    using that by (intro power_increasing) auto
  have room: "ss_high_water s + 1 < 2 ^ 32"
    if "ss_chunk_bits s \<le> 11" "ss_high_water s < max_chunks * 2 ^ ss_chunk_bits s"
    using that bits by (simp add: max_chunks_def)
  have wrap: "\<exists>s' s''. slot_allocate source t s = (s', Inr (2 ^ 32 - 1)) \<and> ss_high_water s' = 0 \<and>
        slot_allocate source t s' = (s'', Inr 0)" if h: "ss_chunk_bits s = 12" "ss_high_water s = 2 ^ 32 - 1"
  proof -
    let ?s' = "(set_pool t [] s)\<lparr>ss_high_water := 0, ss_live := ss_live s + 1\<rparr>"
    have "slot_allocate source t s = (?s', Inr (2 ^ 32 - 1))"
      using alloc [OF e] h by (simp add: Let_def)
    moreover have "ss_free ?s' = []" "pool_of ?s' t = []" using e by simp_all
    from alloc [OF this] have "snd (slot_allocate source t ?s') = Inr 0"
      using h assms(3) by (simp add: Let_def grow_chunk_def max_chunks_def)
    ultimately show ?thesis by (auto simp: prod_eq_iff)
  qed
  have d: "default_chunk_bits 16 = 12" by (simp add: default_chunk_bits_def chunk_bits_loop.simps)
  show ?thesis by (intro conjI impI full room d wrap) simp_all
qed

text \<open>Every slot of a 12-bit store in use: the second allocation hands out a slot that is live.\<close>

definition full_store :: slot_store where
  "full_store = (slot_store_new 12)\<lparr>ss_directory := {..<2 ^ 20}, ss_high_water := 2 ^ 32 - 1, ss_live := 2 ^ 32 - 1\<rparr>"

lemma capacity_and_wrap_witness:
  "0 \<in> live_slots full_store \<and>
   (\<exists>s' s''. slot_allocate (\<lambda>_. Inr 65536) 0 full_store = (s', Inr (2 ^ 32 - 1)) \<and> ss_high_water s' = 0 \<and>
      slot_allocate (\<lambda>_. Inr 65536) 0 s' = (s'', Inr 0))"
proof -
  have "slot_inv full_store"
    by (auto simp: slot_inv_def full_store_def slot_store_new_def parked_def)
  moreover have "ss_free full_store @ pool_of full_store 0 = []"
    by (simp add: full_store_def slot_store_new_def pool_of_def)
  ultimately show ?thesis
    using capacity_and_wrap [of full_store 0 "\<lambda>_. Inr 65536" 65536]
    by (simp add: live_slots_def parked_def) (simp add: full_store_def slot_store_new_def)
qed

end
