(* ===== verification/Ref_Store.thy ===== *)
theory Ref_Store
  imports Slot_Store
begin

text \<open>
  \<open>pool/refs.hpp\<close>, \<open>pool/typed_store.hpp\<close> and the deferred sink of \<open>pool/reclamation.hpp\<close>: the
  counted objects of one store. A cell holds the object constructed in a slot, \<open>None\<close> where no
  object is; the counts are the parallel 32-bit column; the pending list is the reclaim-link stack,
  its head first. An owning \<open>Ref\<close> is the index it owns a count on; a \<open>SlotRef\<close> is an index that
  owns none. The sink is the deferred one the model installs: a count that reaches zero is pushed
  on the stack and nothing is destroyed.
\<close>

subsection \<open>State and operations\<close>

datatype ref_error = CountOverflow

record 'a ref_store =
  rs_store :: slot_store
  rs_source :: "nat \<Rightarrow> pool_error + nat"
  rs_cells :: "nat \<Rightarrow> 'a option"
  rs_counts :: "nat \<Rightarrow> nat"
  rs_pending :: "nat list"

text \<open>The writer is one stable thread.\<close>

definition writer :: nat where "writer = 0"

definition rs_new :: "nat \<Rightarrow> (nat \<Rightarrow> pool_error + nat) \<Rightarrow> 'a ref_store" where
  "rs_new stride source =
     \<lparr>rs_store = slot_store_new (default_chunk_bits stride), rs_source = source,
      rs_cells = (\<lambda>_. None), rs_counts = (\<lambda>_. 0), rs_pending = []\<rparr>"

definition rs_create :: "'a \<Rightarrow> 'a ref_store \<Rightarrow> 'a ref_store \<times> (pool_error + nat)" where
  "rs_create x s =
     (case slot_allocate (rs_source s) writer (rs_store s) of
        (st, Inl e) \<Rightarrow> (s\<lparr>rs_store := st\<rparr>, Inl e)
      | (st, Inr i) \<Rightarrow>
          (s\<lparr>rs_store := st, rs_cells := (rs_cells s)(i \<mapsto> x), rs_counts := (rs_counts s)(i := 1)\<rparr>, Inr i))"

definition rs_retain :: "nat \<Rightarrow> 'a ref_store \<Rightarrow> 'a ref_store \<times> (ref_error + nat)" where
  "rs_retain i s =
     (if rs_counts s i = uint32_max then (s, Inl CountOverflow)
      else (s\<lparr>rs_counts := (rs_counts s)(i := rs_counts s i + 1)\<rparr>, Inr (rs_counts s i + 1)))"

definition rs_resolve :: "nat \<Rightarrow> 'a ref_store \<Rightarrow> 'a ref_store \<times> (ref_error + nat)" where
  "rs_resolve i s = seqE (rs_retain i s) (\<lambda>s _. (s, Inr i))"

definition rs_peek :: "nat \<Rightarrow> 'a ref_store \<Rightarrow> 'a option" where
  "rs_peek i s = rs_cells s i"

definition rs_enqueue :: "nat \<Rightarrow> 'a ref_store \<Rightarrow> 'a ref_store" where
  "rs_enqueue i s = s\<lparr>rs_pending := i # rs_pending s\<rparr>"

text \<open>\<open>fetch_sub\<close> on the 32-bit count wraps; the sink fires on the transition from one.\<close>

definition rs_release :: "nat \<Rightarrow> 'a ref_store \<Rightarrow> 'a ref_store" where
  "rs_release i s =
     (let previous = rs_counts s i;
          s = s\<lparr>rs_counts := (rs_counts s)(i := (previous + uint32_max) mod 2 ^ 32)\<rparr>
      in if previous = 1 then rs_enqueue i s else s)"

text \<open>The object's fields are written through the owning \<open>Ref\<close>.\<close>

definition rs_modify :: "nat \<Rightarrow> ('a \<Rightarrow> 'a) \<Rightarrow> 'a ref_store \<Rightarrow> 'a ref_store" where
  "rs_modify i f s = s\<lparr>rs_cells := (rs_cells s)(i := map_option f (rs_cells s i))\<rparr>"

text \<open>The slot half of \<open>reclaim\<close>, after the destructor has run.\<close>

definition rs_retire :: "nat \<Rightarrow> nat \<Rightarrow> 'a ref_store \<Rightarrow> 'a ref_store" where
  "rs_retire t i s = s\<lparr>rs_cells := (rs_cells s)(i := None), rs_store := slot_release t i (rs_store s)\<rparr>"

definition rs_detach :: "'a ref_store \<Rightarrow> 'a ref_store \<times> nat list" where
  "rs_detach s = (s\<lparr>rs_pending := []\<rparr>, rs_pending s)"

definition rs_set_count :: "nat \<Rightarrow> nat \<Rightarrow> 'a ref_store \<Rightarrow> 'a ref_store" where
  "rs_set_count i n s = s\<lparr>rs_counts := (rs_counts s)(i := n)\<rparr>"

subsection \<open>Well-formed stores\<close>

text \<open>
  Exactly the live slots hold an object, and the pending stack holds, once each, exactly the
  constructed objects whose count is zero.
\<close>

definition rs_ok :: "'a ref_store \<Rightarrow> bool" where
  "rs_ok s \<longleftrightarrow> bounded_store (rs_store s) \<and> dom (rs_cells s) = live_slots (rs_store s) \<and>
     distinct (rs_pending s) \<and> set (rs_pending s) = {i \<in> dom (rs_cells s). rs_counts s i = 0} \<and>
     (\<forall>i. rs_counts s i \<le> uint32_max)"

text \<open>The part allocation depends on, which no count affects.\<close>

definition rs_alloc :: "'a ref_store \<Rightarrow> bool" where
  "rs_alloc s \<longleftrightarrow> bounded_store (rs_store s) \<and> dom (rs_cells s) = live_slots (rs_store s)"

lemma rs_ok_alloc: "rs_ok s \<Longrightarrow> rs_alloc s"
  by (simp add: rs_ok_def rs_alloc_def)

lemma rs_create_fresh:
  assumes ok: "rs_alloc s" and c: "rs_create x s = (s', Inr i)"
  shows "rs_alloc s'" "rs_cells s i = None" "rs_cells s' = (rs_cells s)(i \<mapsto> x)"
proof -
  obtain st where a: "slot_allocate (rs_source s) writer (rs_store s) = (st, Inr i)"
    and s': "s' = s\<lparr>rs_store := st, rs_cells := (rs_cells s)(i \<mapsto> x), rs_counts := (rs_counts s)(i := 1)\<rparr>"
    using c by (auto simp: rs_create_def split: prod.splits sum.splits)
  have b: "bounded_store (rs_store s)" using ok by (simp add: rs_alloc_def)
  have n: "i \<notin> live_slots (rs_store s)" "live_slots st = insert i (live_slots (rs_store s))" "bounded_store st"
    using bounded_slots.alloc_Inr [OF b _ a] by auto
  show "rs_cells s i = None" using ok n(1) by (auto simp: rs_alloc_def)
  show "rs_alloc s'" "rs_cells s' = (rs_cells s)(i \<mapsto> x)" using ok n by (auto simp: rs_alloc_def s')
qed

lemma rs_create_refused:
  assumes ok: "rs_alloc s" and c: "rs_create x s = (s', Inl e)"
  shows "rs_alloc s'" "rs_cells s' = rs_cells s"
proof -
  obtain st where a: "slot_allocate (rs_source s) writer (rs_store s) = (st, Inl e)" "s' = s\<lparr>rs_store := st\<rparr>"
    using c by (auto simp: rs_create_def split: prod.splits sum.splits)
  have b: "bounded_store (rs_store s)" using ok by (simp add: rs_alloc_def)
  show "rs_alloc s'" "rs_cells s' = rs_cells s" using ok bounded_slots.alloc_Inl [OF b a(1)] by (simp_all add: rs_alloc_def a(2))
qed

lemma rs_alloc_frame [simp]:
  "rs_alloc (rs_release i s) = rs_alloc s" "rs_cells (rs_release i s) = rs_cells s"
  "rs_alloc (rs_modify i f s) = rs_alloc s"
proof -
  have "dom (rs_cells (rs_modify i f s)) = dom (rs_cells s)" by (auto simp: rs_modify_def split: if_splits)
  then show "rs_alloc (rs_modify i f s) = rs_alloc s" unfolding rs_alloc_def by (simp add: rs_modify_def)
qed (simp_all add: rs_alloc_def rs_release_def rs_enqueue_def Let_def)

lemma rs_retain_frame:
  assumes "rs_retain i s = (s', r)"
  shows "rs_alloc s' = rs_alloc s" "rs_cells s' = rs_cells s"
proof -
  have "s' = s \<or> s' = s\<lparr>rs_counts := (rs_counts s)(i := rs_counts s i + 1)\<rparr>"
    using assms by (auto simp: rs_retain_def split: if_splits)
  then show "rs_alloc s' = rs_alloc s" "rs_cells s' = rs_cells s"
    by (elim disjE; simp add: rs_alloc_def)+
qed

lemma rs_ok_finite: "rs_ok s \<Longrightarrow> finite (dom (rs_cells s))"
  by (simp add: rs_ok_def live_slots_def)

lemma rs_create_Inr:
  assumes ok: "rs_ok s" and c: "rs_create x s = (s', Inr i)"
  shows "rs_ok s'" "rs_cells s i = None" "rs_cells s' = (rs_cells s)(i \<mapsto> x)"
    "rs_counts s' = (rs_counts s)(i := 1)" "rs_pending s' = rs_pending s"
proof -
  obtain st where a: "slot_allocate (rs_source s) writer (rs_store s) = (st, Inr i)"
    and s': "s' = s\<lparr>rs_store := st, rs_cells := (rs_cells s)(i \<mapsto> x), rs_counts := (rs_counts s)(i := 1)\<rparr>"
    using c by (auto simp: rs_create_def split: prod.splits sum.splits)
  have b: "bounded_store (rs_store s)" using ok by (simp add: rs_ok_def)
  have n: "i \<notin> live_slots (rs_store s)" "live_slots st = insert i (live_slots (rs_store s))" "bounded_store st"
    using bounded_slots.alloc_Inr [OF b _ a] by auto
  show "rs_cells s i = None" using ok n(1) by (auto simp: rs_ok_def)
  then have "i \<notin> set (rs_pending s)" using ok by (auto simp: rs_ok_def)
  then show "rs_ok s'" using ok n by (auto simp: rs_ok_def s' uint32_max_def)
qed (use c in \<open>auto simp: rs_create_def split: prod.splits sum.splits\<close>)

lemma rs_create_Inl:
  assumes ok: "rs_ok s" and c: "rs_create x s = (s', Inl e)"
  shows "rs_ok s'" "rs_cells s' = rs_cells s" "rs_counts s' = rs_counts s" "rs_pending s' = rs_pending s"
proof -
  obtain st where a: "slot_allocate (rs_source s) writer (rs_store s) = (st, Inl e)" "s' = s\<lparr>rs_store := st\<rparr>"
    using c by (auto simp: rs_create_def split: prod.splits sum.splits)
  have b: "bounded_store (rs_store s)" using ok by (simp add: rs_ok_def)
  show "rs_ok s'" using ok bounded_slots.alloc_Inl [OF b a(1)] by (simp add: rs_ok_def a(2))
qed (use c in \<open>auto simp: rs_create_def split: prod.splits sum.splits\<close>)

lemma rs_retain_Inr:
  assumes "rs_retain i s = (s', Inr n)"
  shows "rs_cells s' = rs_cells s" "rs_counts s' = (rs_counts s)(i := rs_counts s i + 1)"
    "rs_pending s' = rs_pending s" "rs_ok s \<Longrightarrow> 0 < rs_counts s i \<Longrightarrow> rs_ok s'"
proof -
  have r: "rs_counts s i \<noteq> uint32_max" "s' = s\<lparr>rs_counts := (rs_counts s)(i := rs_counts s i + 1)\<rparr>"
    using assms by (auto simp: rs_retain_def split: if_splits)
  show "rs_cells s' = rs_cells s" "rs_counts s' = (rs_counts s)(i := rs_counts s i + 1)"
    "rs_pending s' = rs_pending s" by (simp_all add: r(2))
  show "rs_ok s'" if ok: "rs_ok s" and i: "0 < rs_counts s i"
  proof -
    have "{j \<in> dom (rs_cells s). ((rs_counts s)(i := rs_counts s i + 1)) j = 0} =
        {j \<in> dom (rs_cells s). rs_counts s j = 0}" using i by auto
    moreover have "rs_counts s i + 1 \<le> uint32_max" using ok r(1) unfolding rs_ok_def by (metis Suc_eq_plus1 Suc_leI le_neq_implies_less)
    ultimately show ?thesis using ok by (simp add: rs_ok_def r(2))
  qed
qed

lemma rs_retain_Inl: "rs_retain i s = (s', Inl e) \<Longrightarrow> s' = s"
  by (simp add: rs_retain_def split: if_splits)

lemma rs_release_facts:
  assumes "0 < rs_counts s i" "rs_counts s i \<le> uint32_max"
  shows "rs_cells (rs_release i s) = rs_cells s" "rs_store (rs_release i s) = rs_store s"
    "rs_counts (rs_release i s) = (rs_counts s)(i := rs_counts s i - 1)"
    "rs_pending (rs_release i s) = (if rs_counts s i = 1 then i # rs_pending s else rs_pending s)"
proof -
  obtain k where k: "rs_counts s i = Suc k" using assms(1) by (cases "rs_counts s i") auto
  have "(rs_counts s i + uint32_max) mod 2 ^ 32 = (k + 2 ^ 32) mod 2 ^ 32" using k by (simp add: uint32_max_def)
  also have "\<dots> = k mod 2 ^ 32" by (rule mod_add_self2)
  also have "\<dots> = rs_counts s i - 1" using k assms(2) by (simp add: uint32_max_def)
  finally show "rs_cells (rs_release i s) = rs_cells s" "rs_store (rs_release i s) = rs_store s"
    "rs_counts (rs_release i s) = (rs_counts s)(i := rs_counts s i - 1)"
    "rs_pending (rs_release i s) = (if rs_counts s i = 1 then i # rs_pending s else rs_pending s)"
    by (auto simp: rs_release_def rs_enqueue_def Let_def uint32_max_def)
qed

lemma rs_release_ok:
  assumes ok: "rs_ok s" and i: "i \<in> dom (rs_cells s)" "0 < rs_counts s i"
  shows "rs_ok (rs_release i s)"
proof -
  have le: "rs_counts s i \<le> uint32_max" "i \<notin> set (rs_pending s)" using ok i by (auto simp: rs_ok_def)
  note f = rs_release_facts [OF i(2) le(1)]
  show ?thesis
  proof (cases "rs_counts s i = 1")
    case True
    then show ?thesis using ok i le f by (auto simp: rs_ok_def)
  next
    case False
    then have "{j \<in> dom (rs_cells s). ((rs_counts s)(i := rs_counts s i - 1)) j = 0} =
        {j \<in> dom (rs_cells s). rs_counts s j = 0}" using i by auto
    then show ?thesis using ok i le f False unfolding rs_ok_def by (simp add: le_diff_conv le_SucI)
  qed
qed

lemma rs_modify_facts:
  "rs_counts (rs_modify i f s) = rs_counts s" "rs_pending (rs_modify i f s) = rs_pending s"
  "rs_cells (rs_modify i f s) = (rs_cells s)(i := map_option f (rs_cells s i))"
  "dom (rs_cells (rs_modify i f s)) = dom (rs_cells s)"
  "rs_ok (rs_modify i f s) = rs_ok s"
proof -
  show d: "dom (rs_cells (rs_modify i f s)) = dom (rs_cells s)"
    by (auto simp: rs_modify_def split: if_splits)
  show "rs_ok (rs_modify i f s) = rs_ok s"
    unfolding rs_ok_def d by (simp add: rs_modify_def)
qed (simp_all add: rs_modify_def)

end
