(* ===== verification/Hamt.thy ===== *)
theory Hamt
  imports Ref_Store
begin

text \<open>
  \<open>model/hamt.hpp\<close> and the HAMT functions of \<open>model/model.cpp\<close>: the persistent map from object
  ids to record slots, as nodes in a counted store. Every function threads the two stores; an
  owning \<open>Ref\<close> that goes out of scope is released, on the error paths too. \<open>Undef\<close> marks what C++
  leaves undefined: a peek of a slot that holds no node and a shift of 64 or more.
\<close>

subsection \<open>Nodes\<close>

definition hamt_bits :: nat where "hamt_bits = 5"

definition hamt_arity :: nat where "hamt_arity = 2 ^ hamt_bits"

record hamt_node =
  is_leaf :: bool
  key :: "64 word"
  leaf_record :: nat
  bitmap :: "32 word"
  children :: "nat \<Rightarrow> nat"

definition hamt_node_new :: hamt_node where
  "hamt_node_new = \<lparr>is_leaf = False, key = 0, leaf_record = 0, bitmap = 0, children = (\<lambda>_. 0)\<rparr>"

record 'r stores =
  sb_nodes :: "hamt_node ref_store"
  sb_records :: "'r ref_store"

datatype hamt_error = Pool pool_error | Undef

definition digit_of :: "64 word \<Rightarrow> nat \<Rightarrow> nat" where
  "digit_of k shift = unat (drop_bit shift k AND mask hamt_bits)"

text \<open>
  The loop over \<open>countr_zero(remaining)\<close> with \<open>remaining &= remaining - 1\<close> visits the set bits of
  the bitmap in ascending order.
\<close>

definition set_digits :: "32 word \<Rightarrow> nat list" where
  "set_digits b = filter (bit b) [0..<hamt_arity]"

subsection \<open>Store access\<close>

definition nodes_map :: "(hamt_node ref_store \<Rightarrow> hamt_node ref_store) \<Rightarrow> 'r stores \<Rightarrow> 'r stores" where
  "nodes_map f sb = sb\<lparr>sb_nodes := f (sb_nodes sb)\<rparr>"

definition records_map :: "('r ref_store \<Rightarrow> 'r ref_store) \<Rightarrow> 'r stores \<Rightarrow> 'r stores" where
  "records_map f sb = sb\<lparr>sb_records := f (sb_records sb)\<rparr>"

abbreviation drop_node :: "nat \<Rightarrow> 'r stores \<Rightarrow> 'r stores" where
  "drop_node i \<equiv> nodes_map (rs_release i)"

definition create_node :: "'r stores \<Rightarrow> 'r stores \<times> (hamt_error + nat)" where
  "create_node sb =
     (case rs_create hamt_node_new (sb_nodes sb) of
        (ns, Inl e) \<Rightarrow> (sb\<lparr>sb_nodes := ns\<rparr>, Inl (Pool e))
      | (ns, Inr i) \<Rightarrow> (sb\<lparr>sb_nodes := ns\<rparr>, Inr i))"

definition retain_node :: "nat \<Rightarrow> 'r stores \<Rightarrow> 'r stores \<times> (hamt_error + unit)" where
  "retain_node i sb =
     (case rs_retain i (sb_nodes sb) of
        (ns, Inl _) \<Rightarrow> (sb\<lparr>sb_nodes := ns\<rparr>, Inl (Pool CapacityExhausted))
      | (ns, Inr _) \<Rightarrow> (sb\<lparr>sb_nodes := ns\<rparr>, Inr ()))"

definition retain_record :: "nat \<Rightarrow> 'r stores \<Rightarrow> 'r stores \<times> (hamt_error + unit)" where
  "retain_record i sb =
     (case rs_retain i (sb_records sb) of
        (rs, Inl _) \<Rightarrow> (sb\<lparr>sb_records := rs\<rparr>, Inl (Pool CapacityExhausted))
      | (rs, Inr _) \<Rightarrow> (sb\<lparr>sb_records := rs\<rparr>, Inr ()))"

definition share_node :: "nat \<Rightarrow> 'r stores \<Rightarrow> 'r stores \<times> (hamt_error + nat)" where
  "share_node i sb =
     (case rs_resolve i (sb_nodes sb) of
        (ns, Inl _) \<Rightarrow> (sb\<lparr>sb_nodes := ns\<rparr>, Inl (Pool CapacityExhausted))
      | (ns, Inr j) \<Rightarrow> (sb\<lparr>sb_nodes := ns\<rparr>, Inr j))"

text \<open>A step whose failure drops the \<open>Ref\<close> \<open>i\<close> in scope.\<close>

definition or_drop ::
  "nat \<Rightarrow> 'r stores \<times> (hamt_error + 'a) \<Rightarrow> ('r stores \<Rightarrow> 'a \<Rightarrow> 'r stores \<times> (hamt_error + 'b)) \<Rightarrow>
   'r stores \<times> (hamt_error + 'b)" where
  "or_drop i r k = (case r of (sb, Inl e) \<Rightarrow> (drop_node i sb, Inl e) | (sb, Inr x) \<Rightarrow> k sb x)"

text \<open>A call that borrows the \<open>Ref\<close> \<open>i\<close> and drops it at the end of the scope, whatever it returned.\<close>

definition then_drop :: "nat \<Rightarrow> 'r stores \<times> 'x \<Rightarrow> 'r stores \<times> 'x" where
  "then_drop i r = (case r of (sb, x) \<Rightarrow> (drop_node i sb, x))"

subsection \<open>Building nodes\<close>

definition make_leaf :: "64 word \<Rightarrow> nat \<Rightarrow> 'r stores \<Rightarrow> 'r stores \<times> (hamt_error + nat)" where
  "make_leaf k r sb =
     seqE (create_node sb) (\<lambda>sb i.
     or_drop i (retain_record r sb) (\<lambda>sb _.
     (nodes_map (rs_modify i (\<lambda>n. n\<lparr>is_leaf := True, key := k, leaf_record := r\<rparr>)) sb, Inr i)))"

definition set_child :: "nat \<Rightarrow> nat \<Rightarrow> hamt_node \<Rightarrow> hamt_node" where
  "set_child d c n = n\<lparr>children := (children n)(d := c)\<rparr>"

definition mark_child :: "nat \<Rightarrow> hamt_node \<Rightarrow> hamt_node" where
  "mark_child d n = n\<lparr>bitmap := bitmap n OR push_bit d 1\<rparr>"

text \<open>The loop that shares every child of \<open>base\<close> but \<open>skip\<close> into the new node \<open>i\<close>.\<close>

fun share_children ::
  "hamt_node \<Rightarrow> nat \<Rightarrow> nat \<Rightarrow> nat list \<Rightarrow> 'r stores \<Rightarrow> 'r stores \<times> (hamt_error + unit)" where
  "share_children base skip i [] sb = (sb, Inr ())"
| "share_children base skip i (d # ds) sb =
     (if d = skip then share_children base skip i ds sb
      else seqE (retain_node (children base d) sb) (\<lambda>sb _.
        share_children base skip i ds
          (nodes_map (rs_modify i (\<lambda>n. mark_child d (set_child d (children base d) n))) sb)))"

definition branch_with_child ::
  "hamt_node option \<Rightarrow> nat \<Rightarrow> nat \<Rightarrow> 'r stores \<Rightarrow> 'r stores \<times> (hamt_error + nat)" where
  "branch_with_child base d new_child sb =
     seqE (create_node sb) (\<lambda>sb i.
     or_drop i (case base of None \<Rightarrow> (sb, Inr ())
                | Some b \<Rightarrow> share_children b d i (set_digits (bitmap b)) sb) (\<lambda>sb _.
     or_drop i (retain_node new_child (nodes_map (rs_modify i (set_child d new_child)) sb)) (\<lambda>sb _.
     (nodes_map (rs_modify i (mark_child d)) sb, Inr i))))"

definition branch_without_child ::
  "hamt_node \<Rightarrow> nat \<Rightarrow> 'r stores \<Rightarrow> 'r stores \<times> (hamt_error + nat)" where
  "branch_without_child base skip sb =
     seqE (create_node sb) (\<lambda>sb i.
     or_drop i (share_children base skip i (set_digits (bitmap base)) sb) (\<lambda>sb _. (sb, Inr i)))"

subsection \<open>Insertion, erasure and lookup\<close>

function split_leaf ::
  "nat \<Rightarrow> 64 word \<Rightarrow> 64 word \<Rightarrow> nat \<Rightarrow> nat \<Rightarrow> 'r stores \<Rightarrow> 'r stores \<times> (hamt_error + nat)" where
  "split_leaf existing_leaf existing_key new_key r shift sb =
     (if shift \<ge> 64 then (sb, Inl Undef)
      else
        let ed = digit_of existing_key shift; nd = digit_of new_key shift in
        if ed = nd then
          seqE (split_leaf existing_leaf existing_key new_key r (shift + hamt_bits) sb) (\<lambda>sb inner.
          then_drop inner (branch_with_child None ed inner sb))
        else
          seqE (make_leaf new_key r sb) (\<lambda>sb new_leaf.
          then_drop new_leaf (
            seqE (branch_with_child None nd new_leaf sb) (\<lambda>sb branch.
            or_drop branch (retain_node existing_leaf sb) (\<lambda>sb _.
            (nodes_map (rs_modify branch (\<lambda>n. mark_child ed (set_child ed existing_leaf n))) sb,
             Inr branch))))))"
  by auto
termination by (relation "measure (\<lambda>(_, _, _, _, shift, _). 64 - shift)") (auto simp: hamt_bits_def)

function insert_rec ::
  "nat \<Rightarrow> 64 word \<Rightarrow> nat \<Rightarrow> nat \<Rightarrow> 'r stores \<Rightarrow> 'r stores \<times> (hamt_error + nat)" where
  "insert_rec i k r shift sb =
     (case rs_peek i (sb_nodes sb) of
        None \<Rightarrow> (sb, Inl Undef)
      | Some n \<Rightarrow>
          if is_leaf n then
            if key n = k then make_leaf k r sb else split_leaf i (key n) k r shift sb
          else if shift \<ge> 64 then (sb, Inl Undef)
          else
            let d = digit_of k shift in
            if bit (bitmap n) d then
              seqE (insert_rec (children n d) k r (shift + hamt_bits) sb) (\<lambda>sb new_child.
              then_drop new_child (branch_with_child (Some n) d new_child sb))
            else
              seqE (make_leaf k r sb) (\<lambda>sb new_leaf.
              then_drop new_leaf (branch_with_child (Some n) d new_leaf sb)))"
  by auto
termination by (relation "measure (\<lambda>(_, _, _, shift, _). 64 - shift)") (auto simp: hamt_bits_def)

function erase_rec ::
  "nat \<Rightarrow> 64 word \<Rightarrow> nat \<Rightarrow> 'r stores \<Rightarrow> 'r stores \<times> (hamt_error + nat option)" where
  "erase_rec i k shift sb =
     (case rs_peek i (sb_nodes sb) of
        None \<Rightarrow> (sb, Inl Undef)
      | Some n \<Rightarrow>
          if is_leaf n then
            if key n = k then (sb, Inr None)
            else seqE (share_node i sb) (\<lambda>sb j. (sb, Inr (Some j)))
          else if shift \<ge> 64 then (sb, Inl Undef)
          else
            let d = digit_of k shift in
            if \<not> bit (bitmap n) d then seqE (share_node i sb) (\<lambda>sb j. (sb, Inr (Some j)))
            else
              seqE (erase_rec (children n d) k (shift + hamt_bits) sb) (\<lambda>sb child.
              case child of
                Some c \<Rightarrow>
                  then_drop c (seqE (branch_with_child (Some n) d c sb) (\<lambda>sb j. (sb, Inr (Some j))))
              | None \<Rightarrow>
                  let rest = set_digits (bitmap n AND NOT (push_bit d 1)) in
                  if rest = [] then (sb, Inr None)
                  else
                    let without = seqE (branch_without_child n d sb) (\<lambda>sb j. (sb, Inr (Some j)))
                    in if length rest = 1 then
                         case rs_peek (children n (hd rest)) (sb_nodes sb) of
                           None \<Rightarrow> (sb, Inl Undef)
                         | Some m \<Rightarrow>
                             if is_leaf m
                             then seqE (share_node (children n (hd rest)) sb) (\<lambda>sb j. (sb, Inr (Some j)))
                             else without
                       else without))"
  by auto
termination by (relation "measure (\<lambda>(_, _, shift, _). 64 - shift)") (auto simp: hamt_bits_def)

definition hamt_insert ::
  "nat option \<Rightarrow> 64 word \<Rightarrow> nat \<Rightarrow> 'r stores \<Rightarrow> 'r stores \<times> (hamt_error + nat)" where
  "hamt_insert root k r sb =
     (case root of None \<Rightarrow> make_leaf k r sb | Some i \<Rightarrow> insert_rec i k r 0 sb)"

definition hamt_erase ::
  "nat option \<Rightarrow> 64 word \<Rightarrow> 'r stores \<Rightarrow> 'r stores \<times> (hamt_error + nat option)" where
  "hamt_erase root k sb = (case root of None \<Rightarrow> (sb, Inr None) | Some i \<Rightarrow> erase_rec i k 0 sb)"

function lookup_loop :: "'r stores \<Rightarrow> nat \<Rightarrow> 64 word \<Rightarrow> nat \<Rightarrow> hamt_error + nat option" where
  "lookup_loop sb i k shift =
     (case rs_peek i (sb_nodes sb) of
        None \<Rightarrow> Inl Undef
      | Some n \<Rightarrow>
          if is_leaf n then Inr (if key n = k then Some (leaf_record n) else None)
          else if shift \<ge> 64 then Inl Undef
          else
            let d = digit_of k shift in
            if \<not> bit (bitmap n) d then Inr None
            else lookup_loop sb (children n d) k (shift + hamt_bits))"
  by auto
termination by (relation "measure (\<lambda>(_, _, _, shift). 64 - shift)") (auto simp: hamt_bits_def)

definition hamt_lookup :: "'r stores \<Rightarrow> nat option \<Rightarrow> 64 word \<Rightarrow> hamt_error + nat option" where
  "hamt_lookup sb root k = (case root of None \<Rightarrow> Inr None | Some i \<Rightarrow> lookup_loop sb i k 0)"

declare split_leaf.simps [simp del] insert_rec.simps [simp del] erase_rec.simps [simp del] lookup_loop.simps [simp del]

subsection \<open>Digits\<close>

lemma digit_of_less: "digit_of k s < hamt_arity"
proof -
  have "drop_bit s k AND mask 5 < 2 ^ 5" by (rule and_mask_less') simp
  then have "unat (drop_bit s k AND mask 5) < unat (2 ^ 5 :: 64 word)" by (simp only: word_less_nat_alt)
  then show ?thesis by (simp add: digit_of_def hamt_arity_def hamt_bits_def)
qed

lemma digit_of_bits:
  "digit_of k s = digit_of k' s \<longleftrightarrow> (\<forall>r < 5. bit k (s + r) = bit k' (s + r))"
proof -
  have "digit_of k s = digit_of k' s \<longleftrightarrow> drop_bit s k AND mask 5 = drop_bit s k' AND mask 5"
    by (simp add: digit_of_def hamt_bits_def flip: word_unat_eq_iff)
  also have "\<dots> \<longleftrightarrow> (\<forall>r < 64. (bit k (s + r) \<and> r < 5) = (bit k' (s + r) \<and> r < 5))"
    by (simp add: bit_eq_iff bit_simps)
  also have "\<dots> \<longleftrightarrow> (\<forall>r < 5. bit k (s + r) = bit k' (s + r))"
  proof (rule iffI; intro allI impI)
    fix r :: nat
    assume a: "\<forall>r < 64. (bit k (s + r) \<and> r < 5) = (bit k' (s + r) \<and> r < 5)" and r: "r < 5"
    show "bit k (s + r) = bit k' (s + r)" using a [rule_format, of r] r by simp
  qed auto
  finally show ?thesis .
qed

text \<open>Keys that share every digit of thirteen levels are equal.\<close>

lemma digits_determine_key:
  assumes "\<forall>e < 13. digit_of k (5 * e) = digit_of k' (5 * e)"
  shows "k = k'"
proof (rule bit_word_eqI)
  fix j assume j: "j < LENGTH(64)"
  have "digit_of k (5 * (j div 5)) = digit_of k' (5 * (j div 5))" using assms j by simp
  then have "bit k (5 * (j div 5) + j mod 5) = bit k' (5 * (j div 5) + j mod 5)"
    unfolding digit_of_bits by (metis mod_less_divisor zero_less_numeral)
  then show "bit k j = bit k' j" by simp
qed

definition agree :: "nat \<Rightarrow> 64 word \<Rightarrow> 64 word \<Rightarrow> bool" where
  "agree d k k' \<longleftrightarrow> (\<forall>e < d. digit_of k (5 * e) = digit_of k' (5 * e))"

lemma agree_0 [simp]: "agree 0 k k'"
  by (simp add: agree_def)

lemma agree_Suc: "agree (Suc d) k k' \<longleftrightarrow> agree d k k' \<and> digit_of k (5 * d) = digit_of k' (5 * d)"
  by (auto simp: agree_def less_Suc_eq)

lemma agree_depth: "agree d k k' \<Longrightarrow> k \<noteq> k' \<Longrightarrow> d < 13"
  using digits_determine_key [of k k'] unfolding agree_def by (meson le_less_linear less_le_trans)

lemma shift_next: "5 * d + hamt_bits = 5 * Suc d"
  by (simp add: hamt_bits_def)

subsection \<open>The map a trie denotes\<close>

abbreviation cells :: "'r stores \<Rightarrow> nat \<Rightarrow> hamt_node option" where
  "cells sb \<equiv> rs_cells (sb_nodes sb)"

inductive trie_map :: "(nat \<Rightarrow> hamt_node option) \<Rightarrow> nat \<Rightarrow> nat \<Rightarrow> (64 word \<Rightarrow> nat option) \<Rightarrow> bool"
  for c where
  leaf: "c i = Some n \<Longrightarrow> is_leaf n \<Longrightarrow> trie_map c d i [key n \<mapsto> leaf_record n]"
| branch: "c i = Some n \<Longrightarrow> \<not> is_leaf n \<Longrightarrow> d < 13 \<Longrightarrow> bitmap n \<noteq> 0 \<Longrightarrow>
    \<forall>k \<in> dom m. bit (bitmap n) (digit_of k (5 * d)) \<Longrightarrow>
    (\<And>g. bit (bitmap n) g \<Longrightarrow> trie_map c (Suc d) (children n g) (m |` {k. digit_of k (5 * d) = g})) \<Longrightarrow>
    trie_map c d i m"

lemma trie_map_mono:
  assumes "trie_map c d i m" "c \<subseteq>\<^sub>m c'"
  shows "trie_map c' d i m"
  using assms(1)
proof (induction d i m rule: trie_map.induct)
  case (leaf i n d)
  then show ?case using assms(2) by (intro trie_map.leaf) (auto dest: map_le_implies_dom_le simp: map_le_def dom_def)
next
  case (branch i n d m)
  have "c' i = Some n" using branch(1) assms(2) by (auto simp: map_le_def dom_def)
  then show ?case using branch by (intro trie_map.branch [of c' i n]) auto
qed

inductive_cases trie_mapE: "trie_map c d i m"

lemma trie_map_lookup:
  assumes "trie_map (cells sb) d i m"
  shows "lookup_loop sb i k (5 * d) = Inr (m k)"
  using assms
proof (induction d i m rule: trie_map.induct)
  case (leaf i n d)
  then show ?case by (subst lookup_loop.simps) (simp add: rs_peek_def)
next
  case (branch i n d m)
  have sh: "\<not> 64 \<le> 5 * d" using branch(3) by simp
  show ?case
  proof (cases "bit (bitmap n) (digit_of k (5 * d))")
    case True
    from branch(7) [OF True] show ?thesis
      using branch(1,2) True sh by (subst lookup_loop.simps) (simp add: rs_peek_def shift_next Let_def restrict_map_def)
  next
    case False
    then have "m k = None" using branch(5) by (metis domIff)
    then show ?thesis
      using branch(1,2) False sh by (subst lookup_loop.simps) (simp add: rs_peek_def Let_def)
  qed
qed

subsection \<open>What the builders construct\<close>

definition alloc_ok :: "'r stores \<Rightarrow> bool" where
  "alloc_ok sb \<longleftrightarrow> rs_alloc (sb_nodes sb)"

lemma nodes_map_simps [simp]:
  "sb_nodes (nodes_map f sb) = f (sb_nodes sb)" "sb_records (nodes_map f sb) = sb_records sb"
  "sb_nodes (records_map g sb) = sb_nodes sb" "sb_records (records_map g sb) = g (sb_records sb)"
  by (simp_all add: nodes_map_def records_map_def)

lemma drop_node_frame [simp]: "alloc_ok (drop_node i sb) = alloc_ok sb"
  by (simp add: alloc_ok_def)

lemma create_node_cases:
  assumes "alloc_ok sb" "create_node sb = (sb', r)"
  shows "alloc_ok sb'" "r = Inr i \<Longrightarrow> cells sb i = None \<and> cells sb' = (cells sb)(i \<mapsto> hamt_node_new)"
    "r = Inl e \<Longrightarrow> e \<noteq> Undef \<and> cells sb' = cells sb"
proof -
  obtain ns v where c: "rs_create hamt_node_new (sb_nodes sb) = (ns, v)" by fastforce
  have ok: "rs_alloc (sb_nodes sb)" using assms(1) by (simp add: alloc_ok_def)
  have s: "alloc_ok sb' \<and> (r = Inr i \<longrightarrow> cells sb i = None \<and> cells sb' = (cells sb)(i \<mapsto> hamt_node_new)) \<and>
      (r = Inl e \<longrightarrow> e \<noteq> Undef \<and> cells sb' = cells sb)" for i e
  proof (cases v)
    case (Inl x)
    with assms(2) c rs_create_refused [OF ok, of hamt_node_new ns x] show ?thesis
      by (auto simp: create_node_def alloc_ok_def)
  next
    case (Inr j)
    with assms(2) c rs_create_fresh [OF ok, of hamt_node_new ns j] show ?thesis
      by (auto simp: create_node_def alloc_ok_def)
  qed
  show "alloc_ok sb'" "r = Inr i \<Longrightarrow> cells sb i = None \<and> cells sb' = (cells sb)(i \<mapsto> hamt_node_new)"
    "r = Inl e \<Longrightarrow> e \<noteq> Undef \<and> cells sb' = cells sb" using s by blast+
qed

lemma retain_node_cases:
  assumes "retain_node i sb = (sb', r)"
  shows "alloc_ok sb' = alloc_ok sb" "cells sb' = cells sb" "r \<noteq> Inl Undef"
  using assms by (auto simp: retain_node_def alloc_ok_def dest: rs_retain_frame split: prod.splits sum.splits)

lemma retain_record_cases:
  assumes "retain_record i sb = (sb', r)"
  shows "alloc_ok sb' = alloc_ok sb" "cells sb' = cells sb" "r \<noteq> Inl Undef"
  using assms by (auto simp: retain_record_def alloc_ok_def split: prod.splits sum.splits)

lemma share_node_cases:
  assumes "share_node i sb = (sb', r)"
  shows "alloc_ok sb' = alloc_ok sb" "cells sb' = cells sb" "r \<noteq> Inl Undef" "r = Inr j \<Longrightarrow> j = i"
  using assms
  by (auto simp: share_node_def alloc_ok_def rs_resolve_def seqE_def dest: rs_retain_frame split: prod.splits sum.splits)

lemma modify_cells [simp]:
  "rs_cells (rs_modify i f s) = (rs_cells s)(i := map_option f (rs_cells s i))"
  "alloc_ok (nodes_map (rs_modify i f) sb) = alloc_ok sb"
  by (simp_all add: alloc_ok_def rs_modify_facts)

lemma map_le_fresh: "c i = None \<Longrightarrow> c \<subseteq>\<^sub>m c(i \<mapsto> x)"
  by (auto simp: map_le_def)

text \<open>The result of every builder: nothing constructed changes, and the new root is a fresh cell.\<close>

definition builds :: "'r stores \<Rightarrow> 'r stores \<times> (hamt_error + 'a) \<Rightarrow> ('a \<Rightarrow> (nat \<Rightarrow> hamt_node option) \<Rightarrow> bool) \<Rightarrow> bool" where
  "builds sb res P \<longleftrightarrow> alloc_ok (fst res) \<and> cells sb \<subseteq>\<^sub>m cells (fst res) \<and>
     (case snd res of Inl e \<Rightarrow> e \<noteq> Undef | Inr x \<Rightarrow> P x (cells (fst res)))"

lemma builds_seqE:
  assumes "builds sb r P"
    and "\<And>sb' x. alloc_ok sb' \<Longrightarrow> cells sb \<subseteq>\<^sub>m cells sb' \<Longrightarrow> P x (cells sb') \<Longrightarrow> builds sb' (k sb' x) Q"
  shows "builds sb (seqE r k) Q"
proof (cases r)
  case (Pair sb' v)
  show ?thesis
  proof (cases v)
    case (Inl e)
    then show ?thesis using assms(1) by (simp add: builds_def Pair)
  next
    case (Inr x)
    have "alloc_ok sb'" "cells sb \<subseteq>\<^sub>m cells sb'" "P x (cells sb')"
      using assms(1) by (simp_all add: builds_def Pair Inr)
    moreover from assms(2) [OF this] have "builds sb' (k sb' x) Q" .
    ultimately show ?thesis by (simp add: builds_def Pair Inr) (metis map_le_trans)
  qed
qed

lemma builds_then_drop: "builds sb (then_drop i r) P \<longleftrightarrow> builds sb r P"
  by (cases r; cases "snd r") (simp_all add: builds_def then_drop_def)

lemma builds_mono: "builds sb r P \<Longrightarrow> (\<And>x c. P x c \<Longrightarrow> Q x c) \<Longrightarrow> builds sb r Q"
  by (auto simp: builds_def split: sum.splits)

text \<open>A builder's first step creates \<open>i\<close>; what follows only writes that cell.\<close>

definition fills :: "'r stores \<Rightarrow> nat \<Rightarrow> 'r stores \<times> (hamt_error + 'a) \<Rightarrow> (hamt_node \<Rightarrow> hamt_node) \<Rightarrow> ('a \<Rightarrow> bool) \<Rightarrow> bool" where
  "fills sb i res f P \<longleftrightarrow> alloc_ok (fst res) = alloc_ok sb \<and>
     (\<exists>g. cells (fst res) = (cells sb)(i := map_option g (cells sb i)) \<and>
       (case snd res of Inl e \<Rightarrow> e \<noteq> Undef | Inr x \<Rightarrow> P x \<and> g = f))"

lemma fills_or_drop:
  assumes "fills sb i r f P" "\<And>sb' x. r = (sb', Inr x) \<Longrightarrow> P x \<Longrightarrow> fills sb' i (k sb' x) g Q"
  shows "fills sb i (or_drop i r k) (g \<circ> f) Q"
proof (cases r)
  case (Pair sb' v)
  show ?thesis
  proof (cases v)
    case (Inl e)
    then show ?thesis using assms(1) by (auto simp: fills_def or_drop_def Pair)
  next
    case (Inr x)
    have 1: "alloc_ok sb' = alloc_ok sb" "P x" "cells sb' = (cells sb)(i := map_option f (cells sb i))"
      using assms(1) by (auto simp: fills_def Pair Inr)
    have "fills sb' i (k sb' x) g Q" using assms(2) [of sb' x] 1 by (simp add: Pair Inr)
    then obtain h where h: "alloc_ok (fst (k sb' x)) = alloc_ok sb'"
        "cells (fst (k sb' x)) = (cells sb')(i := map_option h (cells sb' i))"
        "case snd (k sb' x) of Inl e \<Rightarrow> e \<noteq> Undef | Inr x \<Rightarrow> Q x \<and> h = g"
      by (auto simp: fills_def)
    have "or_drop i r k = k sb' x" by (simp add: or_drop_def Pair Inr)
    moreover have "cells (fst (k sb' x)) = (cells sb)(i := map_option (h \<circ> f) (cells sb i))"
      unfolding h(2) 1(3) by (simp add: option.map_comp)
    moreover have "case snd (k sb' x) of Inl e \<Rightarrow> e \<noteq> Undef | Inr x \<Rightarrow> Q x \<and> h \<circ> f = g \<circ> f"
      using h(3) by (auto split: sum.splits)
    ultimately show ?thesis using h(1) 1(1) unfolding fills_def by metis
  qed
qed

lemma fills_create:
  assumes "alloc_ok sb" "\<And>sb' i. fills sb' i (k sb' i) f ((=) i)"
  shows "builds sb (seqE (create_node sb) k) (\<lambda>i c. cells sb i = None \<and> c = (cells sb)(i \<mapsto> f hamt_node_new))"
proof -
  obtain sb1 v where c: "create_node sb = (sb1, v)" by fastforce
  note cc = create_node_cases [OF assms(1) c]
  show ?thesis
  proof (cases v)
    case (Inl e)
    then show ?thesis using cc by (simp add: builds_def c)
  next
    case (Inr i)
    obtain sb2 w where k: "k sb1 i = (sb2, w)" by fastforce
    have n: "cells sb i = None" "cells sb1 = (cells sb)(i \<mapsto> hamt_node_new)" using cc(2) Inr by auto
    obtain g where g: "cells sb2 = (cells sb)(i \<mapsto> g hamt_node_new)" "alloc_ok sb2"
        "case w of Inl e \<Rightarrow> e \<noteq> Undef | Inr x \<Rightarrow> i = x \<and> g = f"
      using assms(2) [of sb1 i] cc(1) n(2) by (auto simp: fills_def k)
    then show ?thesis using n(1)
      by (auto simp: builds_def c Inr k map_le_fresh split: sum.splits)
  qed
qed

lemma fills_modify: "fills sb i (nodes_map (rs_modify i f) sb, Inr i) f ((=) i)"
  by (auto simp: fills_def)

lemma fills_retain_record: "fills sb i (retain_record r sb) id (\<lambda>_. True)"
proof (cases "retain_record r sb")
  case (Pair sb' v)
  show ?thesis using retain_record_cases [OF Pair]
    by (auto simp: fills_def Pair option.map_id split: sum.splits intro!: exI [of _ id])
qed

lemma make_leaf_builds:
  assumes "alloc_ok sb"
  shows "builds sb (make_leaf k r sb) (\<lambda>i c. cells sb i = None \<and>
    c = (cells sb)(i \<mapsto> hamt_node_new\<lparr>is_leaf := True, key := k, leaf_record := r\<rparr>))"
  unfolding make_leaf_def
  by (rule fills_create [OF assms, THEN builds_mono], rule fills_or_drop [OF fills_retain_record fills_modify]) simp

lemma fills_return: "P x \<Longrightarrow> fills sb i (sb, Inr x) id P"
  unfolding fills_def by (rule conjI, simp, rule exI [of _ id]) (simp add: option.map_id)

lemma fills_seqE:
  assumes "fills sb i r f P" "\<And>sb' x. r = (sb', Inr x) \<Longrightarrow> P x \<Longrightarrow> fills sb' i (k sb' x) g Q"
  shows "fills sb i (seqE r k) (g \<circ> f) Q"
proof -
  have "fills sb i (or_drop i r k) (g \<circ> f) Q" using assms by (rule fills_or_drop)
  then show ?thesis by (cases r; cases "snd r") (simp_all add: fills_def or_drop_def)
qed

lemma fills_retain_node: "fills sb i (retain_node r sb) id (\<lambda>_. True)"
proof (cases "retain_node r sb")
  case (Pair sb' v)
  show ?thesis using retain_node_cases [OF Pair]
    by (auto simp: fills_def Pair option.map_id split: sum.splits intro!: exI [of _ id])
qed

text \<open>What the sharing loop writes into the new node.\<close>

definition share_step :: "hamt_node \<Rightarrow> nat \<Rightarrow> nat \<Rightarrow> hamt_node \<Rightarrow> hamt_node" where
  "share_step base skip d n = (if d = skip then n else mark_child d (set_child d (children base d) n))"

lemma fills_modified:
  assumes "fills (nodes_map (rs_modify i f) sb) i r g P"
  shows "fills sb i r (g \<circ> f) P"
proof -
  obtain h where "alloc_ok (fst r) = alloc_ok sb" "cells (fst r) = (cells sb)(i := map_option (h \<circ> f) (cells sb i))"
    "case snd r of Inl e \<Rightarrow> e \<noteq> Undef | Inr x \<Rightarrow> P x \<and> h = g"
    using assms by (auto simp: fills_def option.map_comp)
  then show ?thesis by (auto simp: fills_def split: sum.splits)
qed

lemma share_children_fills:
  "fills sb i (share_children base skip i ds sb) (fold (share_step base skip) ds) (\<lambda>_. True)"
proof (induction ds arbitrary: sb)
  case Nil
  show ?case by (simp only: share_children.simps fold.simps fills_return)
next
  case (Cons d ds)
  show ?case
  proof (cases "d = skip")
    case True
    then have "share_step base skip d = id" by (auto simp: share_step_def)
    then show ?thesis using Cons True by simp
  next
    case False
    then have s: "share_step base skip d = (\<lambda>n. mark_child d (set_child d (children base d) n))"
      by (auto simp: share_step_def)
    have "fills sb i (share_children base skip i (d # ds) sb)
      ((fold (share_step base skip) ds \<circ> share_step base skip d) \<circ> id) (\<lambda>_. True)"
      unfolding share_children.simps if_not_P [OF False] s [symmetric]
      by (rule fills_seqE [OF fills_retain_node], rule fills_modified, rule Cons)
    then show ?thesis by (simp only: fold.simps comp_id)
  qed
qed

lemma share_step_fields:
  "is_leaf (fold (share_step base skip) ds n) = is_leaf n"
  "g < 32 \<Longrightarrow> \<forall>d \<in> set ds. d < 32 \<Longrightarrow>
    bit (bitmap (fold (share_step base skip) ds n)) g \<longleftrightarrow> bit (bitmap n) g \<or> g \<in> set ds - {skip}"
  "children (fold (share_step base skip) ds n) g =
    (if g \<in> set ds - {skip} then children base g else children n g)"
  by (induction ds arbitrary: n)
    (auto simp: share_step_def mark_child_def set_child_def bit_simps)

lemma set_digits_mem: "set (set_digits b) = {g. bit b g}"
  by (auto simp: set_digits_def hamt_arity_def hamt_bits_def dest: bit_imp_le_length)

lemma bit_less_32: "bit (b :: 32 word) g \<Longrightarrow> g < 32"
  using bit_imp_le_length by fastforce

lemma branch_bits:
  fixes n :: hamt_node
  assumes "d < 32"
  shows "bit (bitmap (mark_child d n)) g \<longleftrightarrow> bit (bitmap n) g \<or> g = d"
  using assms by (auto simp: mark_child_def bit_simps)

definition branch_of :: "hamt_node option \<Rightarrow> nat \<Rightarrow> nat \<Rightarrow> hamt_node \<Rightarrow> bool" where
  "branch_of base d c n \<longleftrightarrow> \<not> is_leaf n \<and>
     (\<forall>g. bit (bitmap n) g \<longleftrightarrow> g = d \<or> (\<exists>b. base = Some b \<and> bit (bitmap b) g)) \<and>
     children n d = c \<and>
     (\<forall>b g. base = Some b \<longrightarrow> bit (bitmap b) g \<longrightarrow> g \<noteq> d \<longrightarrow> children n g = children b g)"

lemma branch_with_child_builds:
  assumes "alloc_ok sb" "d < 32"
  shows "builds sb (branch_with_child base d child sb) (\<lambda>i c. cells sb i = None \<and>
    (\<exists>n. c = (cells sb)(i \<mapsto> n) \<and> branch_of base d child n))"
proof -
  define f where "f = (case base of None \<Rightarrow> id | Some b \<Rightarrow> fold (share_step b d) (set_digits (bitmap b)))"
  have sh: "fills sb' i (case base of None \<Rightarrow> (sb', Inr ()) | Some b \<Rightarrow> share_children b d i (set_digits (bitmap b)) sb') f (\<lambda>_. True)"
    for sb' :: "'a stores" and i
    by (cases base) (simp_all only: f_def option.case fills_return share_children_fills simp_thms)
  have "builds sb (branch_with_child base d child sb) (\<lambda>i c. cells sb i = None \<and>
      c = (cells sb)(i \<mapsto> (((mark_child d \<circ> (id \<circ> set_child d child)) \<circ> f) hamt_node_new)))"
    unfolding branch_with_child_def
    by (rule fills_create [OF assms(1)], rule fills_or_drop [OF sh],
      rule fills_or_drop [OF fills_modified [OF fills_retain_node] fills_modify])
  then show ?thesis
  proof (rule builds_mono, elim conjE, intro conjI exI)
    let ?n = "((mark_child d \<circ> (id \<circ> set_child d child)) \<circ> f) hamt_node_new"
    show "branch_of base d child ?n"
    proof -
      have "is_leaf (f hamt_node_new) = False"
        by (simp add: f_def share_step_fields hamt_node_new_def split: option.splits)
      moreover have "bit (bitmap (f hamt_node_new)) g \<longleftrightarrow> (\<exists>b. base = Some b \<and> bit (bitmap b) g \<and> g \<noteq> d)" for g
      proof (cases "g < 32")
        case True
        then show ?thesis
          by (auto simp: f_def share_step_fields set_digits_mem hamt_node_new_def bit_less_32 split: option.splits)
      qed (use bit_less_32 in blast)
      moreover have "children (f hamt_node_new) g = children b g" if "base = Some b" "bit (bitmap b) g" "g \<noteq> d" for b g
        using that by (simp add: f_def share_step_fields set_digits_mem)
      ultimately show ?thesis using assms(2)
        by (auto simp: branch_of_def branch_bits set_child_def) (auto simp: mark_child_def)
    qed
  qed
qed

lemma branch_without_child_builds:
  assumes "alloc_ok sb"
  shows "builds sb (branch_without_child base d sb) (\<lambda>i c. cells sb i = None \<and>
    (\<exists>n. c = (cells sb)(i \<mapsto> n) \<and> \<not> is_leaf n \<and> (\<forall>g. bit (bitmap n) g \<longleftrightarrow> bit (bitmap base) g \<and> g \<noteq> d) \<and>
      (\<forall>g. bit (bitmap n) g \<longrightarrow> children n g = children base g)))"
proof -
  let ?n = "fold (share_step base d) (set_digits (bitmap base)) hamt_node_new"
  have "builds sb (branch_without_child base d sb) (\<lambda>i c. cells sb i = None \<and>
      c = (cells sb)(i \<mapsto> ((id \<circ> fold (share_step base d) (set_digits (bitmap base))) hamt_node_new)))"
    unfolding branch_without_child_def
    by (intro fills_create [OF assms(1)] fills_or_drop [OF share_children_fills] fills_return refl)
  then show ?thesis
  proof (rule builds_mono, elim conjE, intro conjI exI)
    show "\<not> is_leaf ?n" by (simp add: share_step_fields hamt_node_new_def)
    show b: "\<forall>g. bit (bitmap ?n) g \<longleftrightarrow> bit (bitmap base) g \<and> g \<noteq> d"
    proof
      fix g
      show "bit (bitmap ?n) g \<longleftrightarrow> bit (bitmap base) g \<and> g \<noteq> d"
      proof (cases "g < 32")
        case True
        then show ?thesis by (auto simp: share_step_fields set_digits_mem hamt_node_new_def bit_less_32)
      qed (use bit_less_32 in blast)
    qed
    show "\<forall>g. bit (bitmap ?n) g \<longrightarrow> children ?n g = children base g"
      using b by (simp add: share_step_fields set_digits_mem)
  qed simp_all
qed

lemma builds_fill:
  assumes "builds sb r (\<lambda>i c. cells sb i = None \<and> (\<exists>n. c = (cells sb)(i \<mapsto> n) \<and> P n))"
    and "\<And>sb' i. fills sb' i (k sb' i) f ((=) i)"
  shows "builds sb (seqE r k) (\<lambda>i c. cells sb i = None \<and> (\<exists>n. c = (cells sb)(i \<mapsto> f n) \<and> P n))"
proof (cases r)
  case (Pair sb1 v)
  show ?thesis
  proof (cases v)
    case (Inl e)
    then show ?thesis using assms(1) by (simp add: builds_def Pair)
  next
    case (Inr i)
    obtain n where n: "cells sb i = None" "cells sb1 = (cells sb)(i \<mapsto> n)" "P n" "alloc_ok sb1"
      using assms(1) by (auto simp: builds_def Pair Inr)
    obtain sb2 w where k: "k sb1 i = (sb2, w)" by fastforce
    obtain g where g: "cells sb2 = (cells sb)(i \<mapsto> g n)" "alloc_ok sb2"
        "case w of Inl e \<Rightarrow> e \<noteq> Undef | Inr x \<Rightarrow> i = x \<and> g = f"
      using assms(2) [of sb1 i] n by (auto simp: fills_def k)
    then show ?thesis using n by (auto simp: builds_def Pair Inr k map_le_fresh split: sum.splits)
  qed
qed

text \<open>A fresh branch over the old tries denotes the map its children partition.\<close>

lemma trie_branchI:
  assumes "cells sb i = None" "\<not> is_leaf n" "d < 13" "bit (bitmap n) h"
    and "\<forall>k \<in> dom m. bit (bitmap n) (digit_of k (5 * d))"
    and "\<And>g. bit (bitmap n) g \<Longrightarrow> trie_map (cells sb) (Suc d) (children n g) (m |` {k. digit_of k (5 * d) = g})"
  shows "trie_map ((cells sb)(i \<mapsto> n)) d i m"
proof (rule trie_map.branch [of _ i n])
  show "bitmap n \<noteq> 0" using assms(4) by auto
  fix g assume "bit (bitmap n) g"
  then show "trie_map ((cells sb)(i \<mapsto> n)) (Suc d) (children n g) (m |` {k. digit_of k (5 * d) = g})"
    using assms(6) trie_map_mono map_le_fresh [of "cells sb" i n, OF assms(1)] by blast
qed (use assms in auto)

lemma trie_map_leaf_at:
  "c i = Some n \<Longrightarrow> is_leaf n \<Longrightarrow> key n = k \<Longrightarrow> leaf_record n = r \<Longrightarrow> trie_map c d i [k \<mapsto> r]"
  using trie_map.leaf by blast

lemma make_leaf_trie:
  assumes "alloc_ok sb"
  shows "builds sb (make_leaf k r sb) (\<lambda>i c. trie_map c d i [k \<mapsto> r])"
  using make_leaf_builds [OF assms] by (rule builds_mono) (auto intro!: trie_map_leaf_at)

lemma digit_less_32 [simp]: "digit_of k s < 32"
  using digit_of_less [of k s] by (simp add: hamt_arity_def hamt_bits_def)

lemma restrict_same:
  "(\<And>k. k \<in> dom m \<Longrightarrow> P k) \<Longrightarrow> m |` {k. P k} = m"
  by (rule ext) (metis mem_Collect_eq restrict_in restrict_out domIff)

lemma branch_singleton_trie:
  assumes "trie_map (cells sb) (Suc d) child m" "d < 13" "\<forall>k \<in> dom m. digit_of k (5 * d) = g" "g < 32" "alloc_ok sb"
  shows "builds sb (branch_with_child None g child sb) (\<lambda>i c. trie_map c d i m)"
  using branch_with_child_builds [OF assms(5,4), of None child]
proof (rule builds_mono, elim conjE exE)
  fix i c n
  assume n: "cells sb i = None" "c = (cells sb)(i \<mapsto> n)" "branch_of None g child n"
  have m: "m |` {k. digit_of k (5 * d) = g} = m" using assms(3) by (intro restrict_same) auto
  show "trie_map c d i m" unfolding n(2)
    by (rule trie_branchI [OF n(1)]) (use n(3) assms(1-3) m in \<open>auto simp: branch_of_def\<close>)
qed

lemma split_leaf_trie:
  fixes sb :: "'r stores"
  assumes "alloc_ok sb" "cells sb i = Some n" "is_leaf n" "k \<noteq> key n" "agree d (key n) k"
  shows "builds sb (split_leaf i (key n) k r (5 * d) sb) (\<lambda>j c. trie_map c d j [key n \<mapsto> leaf_record n, k \<mapsto> r])"
  using assms
proof (induction "13 - d" arbitrary: d sb)
  case 0
  then show ?case using agree_depth [of d "key n" k] by auto
next
  case (Suc x)
  let ?k0 = "key n" and ?m = "[key n \<mapsto> leaf_record n, k \<mapsto> r]"
  have d: "d < 13" using agree_depth Suc.prems by metis
  then have sh: "\<not> 64 \<le> 5 * d" by simp
  show ?case
  proof (cases "digit_of ?k0 (5 * d) = digit_of k (5 * d)")
    case True
    have "agree (Suc d) ?k0 k" using Suc.prems(5) True by (simp add: agree_Suc)
    then have ih: "builds sb (split_leaf i ?k0 k r (5 * Suc d) sb) (\<lambda>j c. trie_map c (Suc d) j ?m)"
      using Suc.hyps(1) [of "Suc d"] Suc.hyps(2) Suc.prems by simp
    have eq: "split_leaf i ?k0 k r (5 * d) sb = seqE (split_leaf i ?k0 k r (5 * Suc d) sb)
        (\<lambda>sb inner. then_drop inner (branch_with_child None (digit_of k (5 * d)) inner sb))"
      by (subst split_leaf.simps) (simp only: True sh Let_def shift_next if_False if_True simp_thms)
    show ?thesis unfolding eq
      by (rule builds_seqE [OF ih], unfold builds_then_drop, rule branch_singleton_trie) (use d True in auto)
  next
    case False
    let ?ed = "digit_of ?k0 (5 * d)" and ?nd = "digit_of k (5 * d)"
    have f: "fills sb' b (or_drop b (retain_node i sb') (\<lambda>sb _.
        (nodes_map (rs_modify b (\<lambda>n. mark_child ?ed (set_child ?ed i n))) sb, Inr b)))
        ((\<lambda>n. mark_child ?ed (set_child ?ed i n)) \<circ> id) ((=) b)" for sb' :: "'r stores" and b
      by (rule fills_or_drop [OF fills_retain_node fills_modify])
    have eq: "split_leaf i ?k0 k r (5 * d) sb = seqE (make_leaf k r sb) (\<lambda>sb new_leaf. then_drop new_leaf (
        seqE (branch_with_child None ?nd new_leaf sb) (\<lambda>sb b. or_drop b (retain_node i sb) (\<lambda>sb _.
        (nodes_map (rs_modify b (\<lambda>n. mark_child ?ed (set_child ?ed i n))) sb, Inr b)))))"
      by (subst split_leaf.simps) (simp only: False sh Let_def if_False)
    show ?thesis unfolding eq
    proof (rule builds_seqE [OF make_leaf_trie [OF Suc.prems(1)]], unfold builds_then_drop)
      fix sb1 :: "'r stores" and nl
      assume s1: "alloc_ok sb1" "cells sb \<subseteq>\<^sub>m cells sb1" and nl: "trie_map (cells sb1) (Suc d) nl [k \<mapsto> r]"
      have i1: "cells sb1 i = Some n" using s1(2) Suc.prems(2) by (auto simp: map_le_def dom_def)
      show "builds sb1 (seqE (branch_with_child None ?nd nl sb1) (\<lambda>sb b. or_drop b (retain_node i sb) (\<lambda>sb _.
        (nodes_map (rs_modify b (\<lambda>n. mark_child ?ed (set_child ?ed i n))) sb, Inr b)))) (\<lambda>j c. trie_map c d j ?m)"
      proof (rule builds_mono, rule builds_fill, rule branch_with_child_builds [OF s1(1) digit_less_32], rule f, elim conjE exE)
        fix j c n'
        assume n': "cells sb1 j = None" "c = (cells sb1)(j \<mapsto> ((\<lambda>n. mark_child ?ed (set_child ?ed i n)) \<circ> id) n')"
          "branch_of None ?nd nl n'"
        let ?n = "mark_child ?ed (set_child ?ed i n')"
        have b: "bit (bitmap ?n) g \<longleftrightarrow> g = ?ed \<or> g = ?nd" for g
          using n'(3) by (auto simp: branch_bits branch_of_def set_child_def)
        have c: "children ?n ?ed = i" "children ?n ?nd = nl" "\<not> is_leaf ?n"
          using n'(3) False by (auto simp: mark_child_def set_child_def branch_of_def)
        have t: "trie_map (cells sb1) (Suc d) i [?k0 \<mapsto> leaf_record n]"
          using i1 Suc.prems(3) by (rule trie_map_leaf_at) simp_all
        have m: "?m |` {k'. digit_of k' (5 * d) = ?ed} = [?k0 \<mapsto> leaf_record n]"
          "?m |` {k'. digit_of k' (5 * d) = ?nd} = [k \<mapsto> r]"
          using False by (auto simp: restrict_map_def fun_eq_iff)
        have "trie_map ((cells sb1)(j \<mapsto> ?n)) d j ?m"
        proof (rule trie_branchI [OF n'(1) c(3) d, of ?ed])
          fix g assume "bit (bitmap ?n) g"
          then have "g = ?ed \<or> g = ?nd" by (simp only: b)
          then show "trie_map (cells sb1) (Suc d) (children ?n g) (?m |` {k. digit_of k (5 * d) = g})"
            by (elim disjE; simp only: c m t nl)
        qed (simp_all add: b)
        then show "trie_map c d j ?m" unfolding n'(2) by simp
      qed
    qed
  qed
qed

subsection \<open>Insertion and erasure refine update and deletion\<close>

text \<open>Replacing, under digit \<open>g\<close>, the child of an old branch.\<close>

lemma branch_replaced_trie:
  fixes sb :: "'r stores"
  assumes "alloc_ok sb" "\<not> is_leaf n" "d < 13" "g < 32"
    and old: "\<forall>k \<in> dom m. bit (bitmap n) (digit_of k (5 * d))"
      "\<And>h. bit (bitmap n) h \<Longrightarrow> trie_map (cells sb) (Suc d) (children n h) (m |` {k. digit_of k (5 * d) = h})"
    and new: "trie_map (cells sb) (Suc d) child (m' |` {k. digit_of k (5 * d) = g})"
      "\<And>k. digit_of k (5 * d) \<noteq> g \<Longrightarrow> m' k = m k"
  shows "builds sb (branch_with_child (Some n) g child sb) (\<lambda>i c. trie_map c d i m')"
  using branch_with_child_builds [OF assms(1,4), of "Some n" child]
proof (rule builds_mono, elim conjE exE)
  fix i c n'
  assume n': "cells sb i = None" "c = (cells sb)(i \<mapsto> n')" "branch_of (Some n) g child n'"
  have same: "m' |` {k. digit_of k (5 * d) = h} = m |` {k. digit_of k (5 * d) = h}" if "h \<noteq> g" for h
    using new(2) that by (auto simp: restrict_map_def fun_eq_iff)
  show "trie_map c d i m'" unfolding n'(2)
  proof (rule trie_branchI [OF n'(1) _ assms(3), of n' g])
    show "\<forall>k \<in> dom m'. bit (bitmap n') (digit_of k (5 * d))"
      using n'(3) old(1) new(2) unfolding branch_of_def by (metis domIff)
    fix h assume "bit (bitmap n') h"
    then show "trie_map (cells sb) (Suc d) (children n' h) (m' |` {k. digit_of k (5 * d) = h})"
      using n'(3) old(2) new(1) same by (cases "h = g") (auto simp: branch_of_def)
  qed (use n'(3) in \<open>auto simp: branch_of_def\<close>)
qed

lemma insert_rec_trie:
  fixes sb :: "'r stores"
  assumes "trie_map (cells sb) d i m" "alloc_ok sb" "\<forall>k' \<in> dom m. agree d k' k"
  shows "builds sb (insert_rec i k r (5 * d) sb) (\<lambda>j c. trie_map c d j (m(k \<mapsto> r)))"
  using assms
proof (induction d i m rule: trie_map.induct)
  case (leaf i n d)
  show ?case
  proof (cases "key n = k")
    case True
    then have "insert_rec i k r (5 * d) sb = make_leaf k r sb"
      using leaf by (subst insert_rec.simps) (simp add: rs_peek_def)
    moreover have "[key n \<mapsto> leaf_record n, k \<mapsto> r] = [k \<mapsto> r]" using True by auto
    ultimately show ?thesis using make_leaf_trie [OF leaf(3), of k r d] by (simp only:)
  next
    case False
    then have "insert_rec i k r (5 * d) sb = split_leaf i (key n) k r (5 * d) sb"
      using leaf by (subst insert_rec.simps) (simp add: rs_peek_def)
    moreover have "agree d (key n) k" using leaf(4) by (simp add: dom_def)
    ultimately show ?thesis using split_leaf_trie [OF leaf(3) leaf(1,2), of k d r] False by (simp only: not_sym simp_thms)
  qed
next
  case (branch i n d m)
  let ?g = "digit_of k (5 * d)"
  have sh: "\<not> 64 \<le> 5 * d" using branch(3) by simp
  have peek: "rs_peek i (sb_nodes sb) = Some n" using branch(1) by (simp add: rs_peek_def)
  have rest: "trie_map (cells sb') (Suc d) (children n h) (m |` {k. digit_of k (5 * d) = h})"
    if "bit (bitmap n) h" "cells sb \<subseteq>\<^sub>m cells sb'" for h and sb' :: "'r stores"
    using branch(6) [OF that(1)] that(2) trie_map_mono by blast
  have upd: "m(k \<mapsto> r) |` {k'. digit_of k' (5 * d) = ?g} = (m |` {k'. digit_of k' (5 * d) = ?g})(k \<mapsto> r)"
    by (auto simp: restrict_map_def fun_eq_iff)
  show ?case
  proof (cases "bit (bitmap n) ?g")
    case True
    have eq: "insert_rec i k r (5 * d) sb = seqE (insert_rec (children n ?g) k r (5 * Suc d) sb)
        (\<lambda>sb c. then_drop c (branch_with_child (Some n) ?g c sb))"
      by (subst insert_rec.simps) (simp only: peek option.case branch(2) sh Let_def True shift_next if_False if_True)
    have "\<forall>k' \<in> dom (m |` {k'. digit_of k' (5 * d) = ?g}). agree (Suc d) k' k"
      using branch.prems(2) by (auto simp: agree_Suc)
    from branch(7) [OF True branch.prems(1) this] show ?thesis unfolding eq
    proof (rule builds_seqE, unfold builds_then_drop)
      fix sb' :: "'r stores" and c
      assume "alloc_ok sb'" "cells sb \<subseteq>\<^sub>m cells sb'"
        and "trie_map (cells sb') (Suc d) c ((m |` {k'. digit_of k' (5 * d) = ?g})(k \<mapsto> r))"
      then show "builds sb' (branch_with_child (Some n) ?g c sb') (\<lambda>j c. trie_map c d j (m(k \<mapsto> r)))"
        using rest by (intro branch_replaced_trie [OF _ branch(2,3) digit_less_32 branch(5)]) (auto simp: upd)
    qed
  next
    case False
    have eq: "insert_rec i k r (5 * d) sb = seqE (make_leaf k r sb)
        (\<lambda>sb c. then_drop c (branch_with_child (Some n) ?g c sb))"
      by (subst insert_rec.simps) (simp only: peek option.case branch(2) sh Let_def False if_False)
    have none: "m |` {k'. digit_of k' (5 * d) = ?g} = Map.empty"
      using branch(5) False by (auto simp: restrict_map_def fun_eq_iff) (metis domIff)
    show ?thesis unfolding eq
    proof (rule builds_seqE [OF make_leaf_trie [OF branch.prems(1)]], unfold builds_then_drop)
      fix sb' :: "'r stores" and c
      assume "alloc_ok sb'" "cells sb \<subseteq>\<^sub>m cells sb'" and "trie_map (cells sb') (Suc d) c [k \<mapsto> r]"
      then show "builds sb' (branch_with_child (Some n) ?g c sb') (\<lambda>j c. trie_map c d j (m(k \<mapsto> r)))"
        using rest by (intro branch_replaced_trie [OF _ branch(2,3) digit_less_32 branch(5)]) (simp_all only: upd none, auto)
    qed
  qed
qed

lemma trie_map_nonempty: "trie_map c d i m \<Longrightarrow> m \<noteq> Map.empty"
proof (induction d i m rule: trie_map.induct)
  case (branch i n d m)
  obtain g where "bit (bitmap n) g" using branch(4) by (metis bit_eq_iff bit_0_eq bot_apply bot_bool_def)
  from branch(7) [OF this] show ?case by auto
next
  case (leaf i n d)
  have "[key n \<mapsto> leaf_record n] (key n) \<noteq> Map.empty (key n)" by simp
  then show ?case by metis
qed

definition trie_of :: "(nat \<Rightarrow> hamt_node option) \<Rightarrow> nat \<Rightarrow> nat option \<Rightarrow> (64 word \<Rightarrow> nat option) \<Rightarrow> bool" where
  "trie_of c d root m \<longleftrightarrow> (case root of None \<Rightarrow> m = Map.empty | Some i \<Rightarrow> trie_map c d i m)"

lemma builds_share:
  assumes "alloc_ok sb" "P (Some i) (cells sb)"
  shows "builds sb (seqE (share_node i sb) (\<lambda>sb j. (sb, Inr (Some j)))) P"
proof (cases "share_node i sb")
  case (Pair sb' v)
  show ?thesis using share_node_cases [OF Pair] assms
    by (cases v) (auto simp: builds_def Pair map_le_def)
qed

lemma erase_rec_trie:
  fixes sb :: "'r stores"
  assumes "trie_map (cells sb) d i m" "alloc_ok sb"
  shows "builds sb (erase_rec i k (5 * d) sb) (\<lambda>root c. trie_of c d root (m(k := None)))"
  using assms
proof (induction d i m rule: trie_map.induct)
  case (leaf i n d)
  show ?case
  proof (cases "key n = k")
    case True
    then have "erase_rec i k (5 * d) sb = (sb, Inr None)"
      using leaf by (subst erase_rec.simps) (simp add: rs_peek_def)
    moreover have "[key n \<mapsto> leaf_record n](k := None) = Map.empty" using True by auto
    ultimately show ?thesis using leaf(3) by (simp only: builds_def trie_of_def fst_conv snd_conv sum.case option.case map_le_refl simp_thms)
  next
    case False
    then have eq: "erase_rec i k (5 * d) sb = seqE (share_node i sb) (\<lambda>sb j. (sb, Inr (Some j)))"
      using leaf by (subst erase_rec.simps) (simp add: rs_peek_def)
    have "trie_map (cells sb) d i [key n \<mapsto> leaf_record n]" using leaf(1,2) by (rule trie_map.leaf)
    moreover have "[key n \<mapsto> leaf_record n](k := None) = [key n \<mapsto> leaf_record n]" using False by auto
    ultimately show ?thesis unfolding eq by (intro builds_share leaf(3)) (simp only: trie_of_def option.case)
  qed
next
  case (branch i n d m)
  let ?g = "digit_of k (5 * d)" and ?m = "m(k := None)"
  have sh: "\<not> 64 \<le> 5 * d" using branch(3) by simp
  have peek: "rs_peek i (sb_nodes sb) = Some n" using branch(1) by (simp add: rs_peek_def)
  have rest': "trie_map (cells sb') (Suc d) (children n h) (m |` {k. digit_of k (5 * d) = h})"
    if "bit (bitmap n) h" "cells sb \<subseteq>\<^sub>m cells sb'" for h and sb' :: "'r stores"
    using branch(6) [OF that(1)] that(2) trie_map_mono by blast
  have upd: "?m |` {k'. digit_of k' (5 * d) = ?g} = (m |` {k'. digit_of k' (5 * d) = ?g})(k := None)"
    by (auto simp: restrict_map_def fun_eq_iff)
  have other: "?m |` {k'. digit_of k' (5 * d) = h} = m |` {k'. digit_of k' (5 * d) = h}" if "h \<noteq> ?g" for h
    using that by (auto simp: restrict_map_def fun_eq_iff)
  show ?case
  proof (cases "bit (bitmap n) ?g")
    case False
    have eq: "erase_rec i k (5 * d) sb = seqE (share_node i sb) (\<lambda>sb j. (sb, Inr (Some j)))"
      by (subst erase_rec.simps) (simp only: peek option.case branch(2) sh Let_def False if_False if_True not_False_eq_True)
    have "m k = None" using branch(5) False by (metis domIff)
    then have "?m = m" by (simp add: fun_upd_idem)
    moreover have "trie_map (cells sb) d i m" by (rule trie_map.branch [OF branch(1-6)])
    ultimately show ?thesis unfolding eq by (intro builds_share branch.prems) (simp add: trie_of_def)
  next
    case True
    define rest where "rest = set_digits (bitmap n AND NOT (push_bit ?g 1))"
    define tail where "tail = (\<lambda>(sb :: 'r stores) (child :: nat option). case child of
        Some c \<Rightarrow> then_drop c (seqE (branch_with_child (Some n) ?g c sb) (\<lambda>sb j. (sb, Inr (Some j))))
      | None \<Rightarrow> if rest = [] then (sb, Inr None)
          else if length rest = 1 then
            case rs_peek (children n (hd rest)) (sb_nodes sb) of
              None \<Rightarrow> (sb, Inl Undef)
            | Some m \<Rightarrow> if is_leaf m then seqE (share_node (children n (hd rest)) sb) (\<lambda>sb j. (sb, Inr (Some j)))
                else seqE (branch_without_child n ?g sb) (\<lambda>sb j. (sb, Inr (Some j)))
          else seqE (branch_without_child n ?g sb) (\<lambda>sb j. (sb, Inr (Some j))))"
    have eq: "erase_rec i k (5 * d) sb = seqE (erase_rec (children n ?g) k (5 * Suc d) sb) tail"
      by (subst erase_rec.simps) (simp only: peek option.case branch(2) sh Let_def True if_False
          if_True not_True_eq_False rest_def [symmetric] tail_def shift_next cong: option.case_cong)
    show ?thesis unfolding eq
    proof (rule builds_seqE [OF branch(7) [OF True branch.prems]])
      show "builds sb' (tail sb' child) (\<lambda>root c. trie_of c d root ?m)" if "alloc_ok sb'" "cells sb \<subseteq>\<^sub>m cells sb'"
        "trie_of (cells sb') (Suc d) child ((m |` {k'. digit_of k' (5 * d) = ?g})(k := None))"
        for sb' :: "'r stores" and child
      proof (cases child)
        case (Some c)
        have "builds sb' (branch_with_child (Some n) ?g c sb') (\<lambda>j c. trie_map c d j ?m)"
          using that(3) rest' that(2) Some other
          by (intro branch_replaced_trie [OF that(1) branch(2,3) digit_less_32 branch(5)]) (auto simp: upd trie_of_def)
        then show ?thesis unfolding tail_def Some option.case builds_then_drop
          by (rule builds_seqE) (simp add: builds_def trie_of_def)
      next
        case None
        have gone: "(m |` {k'. digit_of k' (5 * d) = ?g})(k := None) = Map.empty" using that(3) None by (simp add: trie_of_def)
        have set: "set rest = {h. bit (bitmap n) h \<and> h \<noteq> ?g}"
          by (auto simp: rest_def set_digits_mem bit_simps bit_less_32)
        have dom: "digit_of k' (5 * d) \<in> set rest" if "k' \<in> dom ?m" for k'
        proof -
          have "digit_of k' (5 * d) \<noteq> ?g" using that gone
            by (auto simp: restrict_map_def fun_eq_iff split: if_splits)
          then show ?thesis using branch(5) that set by (auto split: if_splits)
        qed
        have without: "builds sb' (seqE (branch_without_child n ?g sb') (\<lambda>sb j. (sb, Inr (Some j))))
            (\<lambda>root c. trie_of c d root ?m)" if "rest \<noteq> []"
        proof (rule builds_seqE [OF branch_without_child_builds [OF \<open>alloc_ok sb'\<close>]], elim conjE exE)
          fix sb2 :: "'r stores" and j n'
          assume n': "alloc_ok sb2" "cells sb' j = None" "cells sb2 = (cells sb')(j \<mapsto> n')" "\<not> is_leaf n'"
            "\<forall>g. bit (bitmap n') g \<longleftrightarrow> bit (bitmap n) g \<and> g \<noteq> ?g" "\<forall>g. bit (bitmap n') g \<longrightarrow> children n' g = children n g"
          have b: "bit (bitmap n') h \<longleftrightarrow> h \<in> set rest" for h using n'(5) set by auto
          have "trie_map ((cells sb')(j \<mapsto> n')) d j ?m"
          proof (rule trie_branchI [OF n'(2,4) branch(3)])
            show "bit (bitmap n') (hd rest)" using that b by simp
            show "\<forall>k \<in> dom ?m. bit (bitmap n') (digit_of k (5 * d))" using dom b by blast
            fix h assume "bit (bitmap n') h"
            then show "trie_map (cells sb') (Suc d) (children n' h) (?m |` {k. digit_of k (5 * d) = h})"
              using n'(5,6) rest' [OF _ \<open>cells sb \<subseteq>\<^sub>m cells sb'\<close>] other by simp
          qed
          then show "builds sb2 (sb2, Inr (Some j)) (\<lambda>root c. trie_of c d root ?m)"
            using n'(1,3) by (simp add: builds_def trie_of_def)
        qed
        show ?thesis
        proof (cases "length rest = 1")
          case True
          then obtain h where h: "rest = [h]" by (auto simp: length_Suc_conv)
          have th: "trie_map (cells sb') (Suc d) (children n h) (m |` {k. digit_of k (5 * d) = h})" "h \<noteq> ?g"
            using rest' [OF _ that(2)] set h by auto
          have m: "?m = m |` {k. digit_of k (5 * d) = h}"
          proof
            fix a show "?m a = (m |` {k. digit_of k (5 * d) = h}) a"
              using dom [of a] h th(2) other [OF th(2)] by (cases "a \<in> dom ?m") (auto simp: restrict_map_def split: if_splits)
          qed
          from th(1) obtain q where q: "cells sb' (children n h) = Some q"
            by (cases rule: trie_map.cases) auto
          show ?thesis
          proof (cases "is_leaf q")
            case True
            have "m |` {k. digit_of k (5 * d) = h} = [key q \<mapsto> leaf_record q]"
              using th(1) by (cases rule: trie_map.cases) (use q True in auto)
            then have "trie_map (cells sb') d (children n h) ?m" unfolding m using q True by (metis trie_map.leaf)
            then have "builds sb' (seqE (share_node (children n h) sb') (\<lambda>sb j. (sb, Inr (Some j))))
                (\<lambda>root c. trie_of c d root ?m)"
              by (intro builds_share that(1)) (simp only: trie_of_def option.case)
            then show ?thesis using None h q True by (simp add: tail_def rs_peek_def)
          next
            case False
            then show ?thesis using None h q without by (simp add: tail_def rs_peek_def)
          qed
        next
          case len: False
          show ?thesis
          proof (cases "rest = []")
            case True
            then have "?m = Map.empty" using dom by (metis dom_eq_empty_conv empty_iff empty_set ex_in_conv)
            then show ?thesis using None True that(1) by (simp add: tail_def builds_def trie_of_def)
          next
            case False
            then show ?thesis using None len without by (simp add: tail_def)
          qed
        qed
      qed
    qed
  qed
qed

subsection \<open>The persistent-map contract\<close>

text \<open>
  What the versions of a document rely on: roots denote maps, every operation leaves the roots of
  the states before it denoting what they did, and no operation is undefined on such a root.
\<close>

locale persistent_map =
  fixes lookup :: "'s \<Rightarrow> 'root \<Rightarrow> 'k \<Rightarrow> 'e + 'v option"
    and insert :: "'root \<Rightarrow> 'k \<Rightarrow> 'v \<Rightarrow> 's \<Rightarrow> 's \<times> ('e + 'root)"
    and erase :: "'root \<Rightarrow> 'k \<Rightarrow> 's \<Rightarrow> 's \<times> ('e + 'root)"
    and ok :: "'s \<Rightarrow> bool" and later :: "'s \<Rightarrow> 's \<Rightarrow> bool"
    and denotes :: "'s \<Rightarrow> 'root \<Rightarrow> ('k \<Rightarrow> 'v option) \<Rightarrow> bool" and undefined_behaviour :: 'e
  assumes lookup_denotes: "denotes s root m \<Longrightarrow> lookup s root k = Inr (m k)"
    and insert_step: "ok s \<Longrightarrow> denotes s root m \<Longrightarrow> insert root k v s = (s', res) \<Longrightarrow> ok s' \<and> later s s' \<and>
      (case res of Inl e \<Rightarrow> e \<noteq> undefined_behaviour | Inr root' \<Rightarrow> denotes s' root' (m(k \<mapsto> v)))"
    and erase_step: "ok s \<Longrightarrow> denotes s root m \<Longrightarrow> erase root k s = (s', res) \<Longrightarrow> ok s' \<and> later s s' \<and>
      (case res of Inl e \<Rightarrow> e \<noteq> undefined_behaviour | Inr root' \<Rightarrow> denotes s' root' (m(k := None)))"
    and later_denotes: "later s s' \<Longrightarrow> denotes s root m \<Longrightarrow> denotes s' root m"
begin

lemma insert_lookups:
  assumes "ok s" "denotes s root m" "insert root k v s = (s', Inr root')"
  shows "lookup s' root' k = Inr (Some v)" "k' \<noteq> k \<Longrightarrow> lookup s' root' k' = lookup s root k'"
    "lookup s' root k' = lookup s root k'"
  using insert_step [OF assms] assms(2)
  by (auto simp: lookup_denotes dest: later_denotes lookup_denotes)

lemma erase_lookups:
  assumes "ok s" "denotes s root m" "erase root k s = (s', Inr root')"
  shows "lookup s' root' k = Inr None" "k' \<noteq> k \<Longrightarrow> lookup s' root' k' = lookup s root k'"
    "lookup s' root k' = lookup s root k'"
  using erase_step [OF assms] assms(2)
  by (auto simp: lookup_denotes dest: later_denotes lookup_denotes)

end

definition hamt_put :: "nat option \<Rightarrow> 64 word \<Rightarrow> nat \<Rightarrow> 'r stores \<Rightarrow> 'r stores \<times> (hamt_error + nat option)" where
  "hamt_put root k r sb = seqE (hamt_insert root k r sb) (\<lambda>sb i. (sb, Inr (Some i)))"

lemma hamt_insert_builds:
  fixes sb :: "'r stores"
  assumes "alloc_ok sb" "trie_of (cells sb) 0 root m"
  shows "builds sb (hamt_insert root k r sb) (\<lambda>i c. trie_map c 0 i (m(k \<mapsto> r)))"
proof (cases root)
  case None
  then show ?thesis using assms make_leaf_trie [OF assms(1), of k r 0]
    by (simp add: hamt_insert_def trie_of_def)
next
  case (Some i)
  have "trie_map (cells sb) 0 i m" "\<forall>k' \<in> dom m. agree 0 k' k" using assms(2) Some by (simp_all add: trie_of_def)
  from insert_rec_trie [OF this(1) assms(1) this(2), of r] show ?thesis by (simp add: hamt_insert_def Some)
qed

lemma hamt_erase_builds:
  fixes sb :: "'r stores"
  assumes "alloc_ok sb" "trie_of (cells sb) 0 root m"
  shows "builds sb (hamt_erase root k sb) (\<lambda>root c. trie_of c 0 root (m(k := None)))"
proof (cases root)
  case None
  then show ?thesis using assms by (simp add: hamt_erase_def trie_of_def builds_def fun_upd_idem)
next
  case (Some i)
  have "trie_map (cells sb) 0 i m" using assms(2) Some by (simp add: trie_of_def)
  from erase_rec_trie [OF this assms(1), of k] show ?thesis by (simp add: hamt_erase_def Some)
qed

lemma trie_of_mono: "trie_of c d root m \<Longrightarrow> c \<subseteq>\<^sub>m c' \<Longrightarrow> trie_of c' d root m"
  by (auto simp: trie_of_def trie_map_mono split: option.splits)

interpretation hamt: persistent_map hamt_lookup hamt_put hamt_erase alloc_ok "\<lambda>s s'. cells s \<subseteq>\<^sub>m cells s'"
    "\<lambda>s root m. trie_of (cells s) 0 root m" Undef
proof unfold_locales
  fix s :: "'r stores" and root m k
  assume "trie_of (cells s) 0 root m"
  then show "hamt_lookup s root k = Inr (m k)"
    using trie_map_lookup [of s 0] by (auto simp: hamt_lookup_def trie_of_def split: option.splits)
next
  fix s s' :: "'r stores" and root m k v res
  assume a: "alloc_ok s" "trie_of (cells s) 0 root m" "hamt_put root k v s = (s', res)"
  have "builds s (hamt_put root k v s) (\<lambda>root c. trie_of c 0 root (m(k \<mapsto> v)))"
    unfolding hamt_put_def
    by (rule builds_seqE [OF hamt_insert_builds [OF a(1,2)]]) (simp add: builds_def trie_of_def)
  then show "alloc_ok s' \<and> cells s \<subseteq>\<^sub>m cells s' \<and>
      (case res of Inl e \<Rightarrow> e \<noteq> Undef | Inr root' \<Rightarrow> trie_of (cells s') 0 root' (m(k \<mapsto> v)))"
    unfolding builds_def a(3) fst_conv snd_conv .
next
  fix s s' :: "'r stores" and root m k res
  assume a: "alloc_ok s" "trie_of (cells s) 0 root m" "hamt_erase root k s = (s', res)"
  show "alloc_ok s' \<and> cells s \<subseteq>\<^sub>m cells s' \<and>
      (case res of Inl e \<Rightarrow> e \<noteq> Undef | Inr root' \<Rightarrow> trie_of (cells s') 0 root' (m(k := None)))"
    using hamt_erase_builds [OF a(1,2), of k] unfolding builds_def a(3) fst_conv snd_conv .
qed (rule trie_of_mono)

subsection \<open>Properties\<close>

text \<open>
  C1: Inserting into a version of the map. On any root that denotes a map, \<open>hamt_insert\<close> never
  reads an unconstructed node or shifts by 64 or more; it either fails with the pool's error or
  returns a root where the inserted key resolves to its record and every other key as before; and in
  every case each earlier version still resolves every key as it did.
\<close>

theorem hamt_insert_versions:
  assumes "alloc_ok sb" "trie_of (cells sb) 0 root m" "trie_of (cells sb) 0 old m0"
    and "hamt_insert root k r sb = (sb', res)"
  shows "alloc_ok sb' \<and> res \<noteq> Inl Undef \<and>
    (\<forall>i. res = Inr i \<longrightarrow> hamt_lookup sb' (Some i) k = Inr (Some r) \<and>
      (\<forall>k'. k' \<noteq> k \<longrightarrow> hamt_lookup sb' (Some i) k' = hamt_lookup sb root k')) \<and>
    (\<forall>k'. hamt_lookup sb' old k' = hamt_lookup sb old k')"
proof -
  have b: "alloc_ok sb'" "cells sb \<subseteq>\<^sub>m cells sb'" "case res of Inl e \<Rightarrow> e \<noteq> Undef | Inr i \<Rightarrow> trie_map (cells sb') 0 i (m(k \<mapsto> r))"
    using hamt_insert_builds [OF assms(1,2), of k r] unfolding builds_def assms(4) fst_conv snd_conv by blast+
  have "hamt_lookup sb' old k' = hamt_lookup sb old k'" for k'
    using hamt.lookup_denotes [OF assms(3)] hamt.lookup_denotes [OF trie_of_mono [OF assms(3) b(2)]] by simp
  moreover have "hamt_lookup sb' (Some i) k = Inr (Some r) \<and>
      (\<forall>k'. k' \<noteq> k \<longrightarrow> hamt_lookup sb' (Some i) k' = hamt_lookup sb root k')" if "res = Inr i" for i
  proof -
    have "hamt_put root k r sb = (sb', Inr (Some i))" using assms(4) that by (simp add: hamt_put_def)
    from hamt.insert_lookups [OF assms(1,2) this] show ?thesis by auto
  qed
  ultimately show ?thesis using b by auto
qed

text \<open>
  C2: Erasing from a version of the map: as for insertion, with the erased key absent from the new
  root (the empty map when nothing is left), whatever sharing and collapsing produced it.
\<close>

theorem hamt_erase_versions:
  assumes "alloc_ok sb" "trie_of (cells sb) 0 root m" "trie_of (cells sb) 0 old m0"
    and "hamt_erase root k sb = (sb', res)"
  shows "alloc_ok sb' \<and> res \<noteq> Inl Undef \<and>
    (\<forall>root'. res = Inr root' \<longrightarrow> hamt_lookup sb' root' k = Inr None \<and>
      (\<forall>k'. k' \<noteq> k \<longrightarrow> hamt_lookup sb' root' k' = hamt_lookup sb root k') \<and>
      (root' = None \<longleftrightarrow> dom m \<subseteq> {k})) \<and>
    (\<forall>k'. hamt_lookup sb' old k' = hamt_lookup sb old k')"
proof -
  have b: "alloc_ok sb'" "cells sb \<subseteq>\<^sub>m cells sb'" "case res of Inl e \<Rightarrow> e \<noteq> Undef | Inr r \<Rightarrow> trie_of (cells sb') 0 r (m(k := None))"
    using hamt_erase_builds [OF assms(1,2), of k] unfolding builds_def assms(4) fst_conv snd_conv by blast+
  have e: "m(k := None) = Map.empty \<longleftrightarrow> dom m \<subseteq> {k}" by (auto simp: fun_eq_iff dom_def)
  have "hamt_lookup sb' old k' = hamt_lookup sb old k'" for k'
    using hamt.lookup_denotes [OF assms(3)] hamt.lookup_denotes [OF trie_of_mono [OF assms(3) b(2)]] by simp
  moreover have "hamt_lookup sb' root' k = Inr None \<and>
      (\<forall>k'. k' \<noteq> k \<longrightarrow> hamt_lookup sb' root' k' = hamt_lookup sb root k') \<and> (root' = None \<longleftrightarrow> dom m \<subseteq> {k})"
    if "res = Inr root'" for root'
  proof -
    have "hamt_erase root k sb = (sb', Inr root')" using assms(4) that by simp
    moreover have "root' = None \<longleftrightarrow> dom m \<subseteq> {k}"
    proof -
      have t: "trie_of (cells sb') 0 root' (m(k := None))" using b(3) by (simp only: that sum.case)
      show ?thesis
      proof (cases root')
        case None
        then show ?thesis using t e by (simp only: trie_of_def option.case simp_thms)
      next
        case (Some a)
        then have "m(k := None) \<noteq> Map.empty" using t trie_map_nonempty by (simp only: trie_of_def option.case) blast
        then show ?thesis using Some e by simp
      qed
    qed
    ultimately show ?thesis using hamt.erase_lookups [OF assms(1,2)] by blast
  qed
  ultimately show ?thesis using b by auto
qed


text \<open>An empty pair of stores and a map of one key.\<close>

definition stores_new :: "unit stores" where
  "stores_new = \<lparr>sb_nodes = rs_new 160 (\<lambda>_. Inr 65536), sb_records = rs_new 320 (\<lambda>_. Inr 65536)\<rparr>"

definition stores_one :: "unit stores" where
  "stores_one = fst (hamt_insert None 33 7 stores_new)"

lemma stores_new_ok: "alloc_ok stores_new" "trie_of (cells stores_new) 0 None Map.empty"
  by (auto simp: alloc_ok_def rs_alloc_def stores_new_def rs_new_def bounded_store_def slot_inv_def
      slot_store_new_def parked_def live_slots_def default_chunk_bits_def chunk_bits_loop.simps trie_of_def)

lemma insert_one: "hamt_insert None 33 7 stores_new = (stores_one, Inr 0)"
proof -
  have "snd (hamt_insert None 33 7 stores_new) = Inr 0"
    by (simp add: hamt_insert_def make_leaf_def create_node_def rs_create_def slot_allocate_def
        stores_new_def rs_new_def slot_store_new_def set_pool_def pool_of_def refill_from_global_def
        grow_chunk_def max_chunks_def or_drop_def retain_record_def rs_retain_def uint32_max_def)
  then show ?thesis by (simp add: stores_one_def prod_eq_iff)
qed

lemma stores_one_ok: "alloc_ok stores_one" "trie_of (cells stores_one) 0 (Some 0) [33 \<mapsto> 7]"
proof -
  have "builds stores_new (hamt_insert None 33 7 stores_new) (\<lambda>i c. trie_map c 0 i [33 \<mapsto> 7])"
    by (rule hamt_insert_builds [OF stores_new_ok])
  then show "alloc_ok stores_one" "trie_of (cells stores_one) 0 (Some 0) [33 \<mapsto> 7]"
    by (simp_all add: builds_def insert_one trie_of_def)
qed

lemma hamt_insert_versions_witness:
  "hamt_lookup stores_one (Some 0) 33 = Inr (Some 7) \<and> hamt_lookup stores_one None 33 = Inr None"
  using hamt_insert_versions [OF stores_new_ok stores_new_ok(2) insert_one]
  by (simp add: hamt_lookup_def)

lemma hamt_erase_versions_witness:
  "hamt_erase (Some 0) 33 stores_one = (stores_one, Inr None) \<and> hamt_lookup stores_one (Some 0) 33 = Inr (Some 7)"
proof -
  have "builds stores_new (hamt_insert None 33 7 stores_new) (\<lambda>i c. cells stores_new i = None \<and>
      c = (cells stores_new)(i \<mapsto> hamt_node_new\<lparr>is_leaf := True, key := 33, leaf_record := 7\<rparr>))"
    unfolding hamt_insert_def option.case by (rule make_leaf_builds [OF stores_new_ok(1)])
  then have "cells stores_one 0 = Some (hamt_node_new\<lparr>is_leaf := True, key := 33, leaf_record := 7\<rparr>)"
    by (simp add: builds_def insert_one)
  then have e: "hamt_erase (Some 0) 33 stores_one = (stores_one, Inr None)"
    by (simp add: hamt_erase_def erase_rec.simps rs_peek_def)
  from hamt_erase_versions [OF stores_one_ok stores_one_ok(2) e] hamt.lookup_denotes [OF stores_one_ok(2)] e
  show ?thesis by simp
qed

end
