(* ===== verification/Damage.thy ===== *)
theory Damage
  imports Rational_Time
begin

text \<open>
  \<open>base/geometry.hpp\<close>, \<open>base/ids.hpp\<close> and \<open>model/damage.hpp\<close>: rectangles, object ids and the flat,
  additive damage set of a commit. A \<open>double\<close> is a rational or an infinity: the model has no NaN and
  no rounding, and the operations here only compare.
\<close>

subsection \<open>Doubles and rectangles\<close>

datatype double = NegInf | Fin rat | PosInf

instantiation double :: linorder
begin

fun less_eq_double :: "double \<Rightarrow> double \<Rightarrow> bool" where
  "less_eq_double NegInf _ = True"
| "less_eq_double (Fin x) NegInf = False"
| "less_eq_double (Fin x) (Fin y) = (x \<le> y)"
| "less_eq_double (Fin x) PosInf = True"
| "less_eq_double PosInf y = (y = PosInf)"

definition less_double :: "double \<Rightarrow> double \<Rightarrow> bool" where
  "less_double x y \<longleftrightarrow> x \<le> y \<and> \<not> y \<le> x"

instance
proof
  fix x y z :: double
  show "(x < y) = (x \<le> y \<and> \<not> y \<le> x)" by (simp add: less_double_def)
  show "x \<le> x" by (cases x) simp_all
  show "x \<le> y \<Longrightarrow> y \<le> z \<Longrightarrow> x \<le> z" by (cases x; cases y; cases z) auto
  show "x \<le> y \<Longrightarrow> y \<le> x \<Longrightarrow> x = y" by (cases x; cases y) auto
  show "x \<le> y \<or> y \<le> x" by (cases x; cases y) auto
qed

end

record rect =
  rx0 :: double
  ry0 :: double
  rx1 :: double
  ry1 :: double

definition rect_default :: rect where
  "rect_default = \<lparr>rx0 = Fin 0, ry0 = Fin 0, rx1 = Fin 0, ry1 = Fin 0\<rparr>"

definition rect_infinite :: rect where
  "rect_infinite = \<lparr>rx0 = NegInf, ry0 = NegInf, rx1 = PosInf, ry1 = PosInf\<rparr>"

definition rect_empty :: "rect \<Rightarrow> bool" where
  "rect_empty r \<longleftrightarrow> \<not> (rx0 r < rx1 r \<and> ry0 r < ry1 r)"

definition rect_intersect :: "rect \<Rightarrow> rect \<Rightarrow> rect" where
  "rect_intersect a b = \<lparr>rx0 = max (rx0 a) (rx0 b), ry0 = max (ry0 a) (ry0 b),
     rx1 = min (rx1 a) (rx1 b), ry1 = min (ry1 a) (ry1 b)\<rparr>"

text \<open>The points of a half-open rectangle.\<close>

definition rect_points :: "rect \<Rightarrow> (double \<times> double) set" where
  "rect_points r = {(x, y). rx0 r \<le> x \<and> x < rx1 r \<and> ry0 r \<le> y \<and> y < ry1 r}"

lemma rect_points_empty: "rect_empty r \<Longrightarrow> rect_points r = {}"
  by (auto simp: rect_empty_def rect_points_def dest: order_le_less_trans)

lemma rect_points_nonempty: "\<not> rect_empty r \<Longrightarrow> (rx0 r, ry0 r) \<in> rect_points r"
  by (simp add: rect_empty_def rect_points_def)

lemma rect_points_intersect: "rect_points (rect_intersect a b) = rect_points a \<inter> rect_points b"
  by (auto simp: rect_points_def rect_intersect_def)

subsection \<open>Damage\<close>

record damage =
  dm_object :: nat
  dm_rect :: rect
  dm_range :: time_range

definition rect_union :: "rect \<Rightarrow> rect \<Rightarrow> rect" where
  "rect_union a b =
     (if rect_empty a then b else if rect_empty b then a
      else \<lparr>rx0 = min (rx0 a) (rx0 b), ry0 = min (ry0 a) (ry0 b),
             rx1 = max (rx1 a) (rx1 b), ry1 = max (ry1 a) (ry1 b)\<rparr>)"

definition range_union :: "time_range \<Rightarrow> time_range \<Rightarrow> time_range" where
  "range_union a b =
     (if range_empty a then b else if range_empty b then a
      else \<lparr>tr_start = Time (min (flicks (tr_start a)) (flicks (tr_start b))),
             tr_end = Time (max (flicks (tr_end a)) (flicks (tr_end b)))\<rparr>)"

fun damage_add :: "damage list \<Rightarrow> damage \<Rightarrow> damage list" where
  "damage_add [] d = [d]"
| "damage_add (e # es) d =
     (if dm_object e = dm_object d
      then e\<lparr>dm_rect := rect_union (dm_rect e) (dm_rect d),
             dm_range := range_union (dm_range e) (dm_range d)\<rparr> # es
      else e # damage_add es d)"

definition full_damage :: "nat \<Rightarrow> damage" where
  "full_damage i = \<lparr>dm_object = i, dm_rect = rect_infinite, dm_range = time_range_all\<rparr>"

subsection \<open>What the unions cover\<close>

lemma rect_union_covers: "rect_points a \<union> rect_points b \<subseteq> rect_points (rect_union a b)"
  using rect_points_empty [of a] rect_points_empty [of b]
  by (auto simp: rect_union_def rect_points_def min_le_iff_disj less_max_iff_disj)

lemma rect_points_mono:
  "rx0 c \<le> rx0 r \<Longrightarrow> ry0 c \<le> ry0 r \<Longrightarrow> rx1 r \<le> rx1 c \<Longrightarrow> ry1 r \<le> ry1 c \<Longrightarrow> rect_points r \<subseteq> rect_points c"
  by (auto simp: rect_points_def intro: order_trans order_less_le_trans)

lemma rect_union_least:
  assumes "rect_points a \<subseteq> rect_points c" "rect_points b \<subseteq> rect_points c"
  shows "rect_points (rect_union a b) \<subseteq> rect_points c"
proof (cases "rect_empty a \<or> rect_empty b")
  case True
  then show ?thesis using assms by (auto simp: rect_union_def)
next
  case False
  have le: "rx0 c \<le> rx0 r \<and> ry0 c \<le> ry0 r \<and> rx1 r \<le> rx1 c \<and> ry1 r \<le> ry1 c"
    if ne: "\<not> rect_empty r" and sub: "rect_points r \<subseteq> rect_points c" for r
  proof -
    have 1: "(rx0 r, ry0 r) \<in> rect_points c" using rect_points_nonempty [OF ne] sub by blast
    have x: "rx1 r \<le> rx1 c"
    proof (rule ccontr)
      assume "\<not> rx1 r \<le> rx1 c"
      then have "(rx1 c, ry0 r) \<in> rect_points r" using 1 ne by (auto simp: rect_points_def rect_empty_def)
      then show False using sub by (auto simp: rect_points_def)
    qed
    have y: "ry1 r \<le> ry1 c"
    proof (rule ccontr)
      assume "\<not> ry1 r \<le> ry1 c"
      then have "(rx0 r, ry1 c) \<in> rect_points r" using 1 ne by (auto simp: rect_points_def rect_empty_def)
      then show False using sub by (auto simp: rect_points_def)
    qed
    show ?thesis using 1 x y by (auto simp: rect_points_def)
  qed
  note a = le [OF _ assms(1)] and b = le [OF _ assms(2)]
  have "rx0 c \<le> min (rx0 a) (rx0 b)" "ry0 c \<le> min (ry0 a) (ry0 b)"
    "max (rx1 a) (rx1 b) \<le> rx1 c" "max (ry1 a) (ry1 b) \<le> ry1 c" using False a b by auto
  then show ?thesis using False unfolding rect_union_def by (simp add: rect_points_mono)
qed

lemma range_union_covers:
  "range_contains a t \<or> range_contains b t \<Longrightarrow> range_contains (range_union a b) t"
  by (auto simp: range_union_def range_contains_def range_empty_def)

text \<open>What a damage set says of an object: the regions and the instants of all its records.\<close>

definition damaged :: "damage list \<Rightarrow> nat \<Rightarrow> (double \<times> double) set \<times> time set" where
  "damaged ds i = (\<Union>d \<in> {d \<in> set ds. dm_object d = i}. rect_points (dm_rect d),
     \<Union>d \<in> {d \<in> set ds. dm_object d = i}. {t. range_contains (dm_range d) t})"

lemma damage_add_objects:
  "dm_object ` set (damage_add ds d) = insert (dm_object d) (dm_object ` set ds)"
  by (induction ds) auto

lemma damage_add_distinct:
  "distinct (map dm_object ds) \<Longrightarrow> distinct (map dm_object (damage_add ds d))"
proof (induction ds)
  case (Cons e ds)
  then show ?case
    using damage_add_objects [of ds d] by (auto simp flip: set_map)
qed simp

lemma damage_add_covers:
  assumes "dm_object d = i" "e = d \<or> e \<in> set ds" "dm_object e = i"
  shows "\<exists>e' \<in> set (damage_add ds d). dm_object e' = i \<and> rect_points (dm_rect e) \<subseteq> rect_points (dm_rect e') \<and>
    (\<forall>t. range_contains (dm_range e) t \<longrightarrow> range_contains (dm_range e') t)"
  using assms
proof (induction ds)
  case (Cons f ds)
  show ?case
  proof (cases "dm_object f = dm_object d")
    case True
    show ?thesis
    proof (cases "e = d \<or> e = f")
      case True
      then show ?thesis using \<open>dm_object f = dm_object d\<close> Cons.prems(1)
          rect_union_covers [of "dm_rect f" "dm_rect d"] range_union_covers [of "dm_range f" _ "dm_range d"]
        by auto
    next
      case False
      then show ?thesis using True Cons.prems by auto
    qed
  next
    case False
    then show ?thesis using Cons by auto
  qed
qed auto

lemma damage_add_keeps:
  "dm_object e \<noteq> dm_object d \<Longrightarrow> e \<in> set (damage_add ds d) \<longleftrightarrow> e \<in> set ds"
  by (induction ds) auto

lemma damage_add_least:
  "\<exists>e' \<in> set (damage_add ds d). dm_object e' = dm_object d \<and>
    (\<forall>r. (\<forall>e. (e = d \<or> e \<in> set ds \<and> dm_object e = dm_object d) \<longrightarrow> rect_points (dm_rect e) \<subseteq> rect_points r) \<longrightarrow>
      rect_points (dm_rect e') \<subseteq> rect_points r)"
proof (induction ds)
  case (Cons f ds)
  show ?case
  proof (cases "dm_object f = dm_object d")
    case True
    let ?e = "f\<lparr>dm_rect := rect_union (dm_rect f) (dm_rect d), dm_range := range_union (dm_range f) (dm_range d)\<rparr>"
    have "rect_points (dm_rect ?e) \<subseteq> rect_points r"
      if "\<forall>e. (e = d \<or> e \<in> set (f # ds) \<and> dm_object e = dm_object d) \<longrightarrow> rect_points (dm_rect e) \<subseteq> rect_points r" for r
      using rect_union_least [of "dm_rect f" r "dm_rect d"] that True by simp
    then show ?thesis using True by (intro bexI [of _ ?e]) auto
  next
    case False
    obtain e' where e': "e' \<in> set (damage_add ds d)" "dm_object e' = dm_object d"
      "\<forall>r. (\<forall>e. (e = d \<or> e \<in> set ds \<and> dm_object e = dm_object d) \<longrightarrow> rect_points (dm_rect e) \<subseteq> rect_points r) \<longrightarrow>
        rect_points (dm_rect e') \<subseteq> rect_points r" using Cons by blast
    then have "e' \<in> set (damage_add (f # ds) d)" using False by simp
    moreover have "rect_points (dm_rect e') \<subseteq> rect_points r"
      if "\<forall>e. (e = d \<or> e \<in> set (f # ds) \<and> dm_object e = dm_object d) \<longrightarrow> rect_points (dm_rect e) \<subseteq> rect_points r" for r
      using e'(3) that by simp
    ultimately show ?thesis using e'(2) by blast
  qed
qed auto

text \<open>
  A commit's damage set is flat and loses nothing: adding a record keeps at most one record per
  object, leaves every other object's record alone, and the object's record covers, in space and in
  time, the record added and whatever it covered before; the region is the least rectangle that does.
\<close>

theorem damage_add_flat_and_covering:
  assumes "distinct (map dm_object ds)"
  shows "distinct (map dm_object (damage_add ds d)) \<and>
    (\<forall>e. dm_object e \<noteq> dm_object d \<longrightarrow> (e \<in> set (damage_add ds d) \<longleftrightarrow> e \<in> set ds)) \<and>
    (\<exists>e' \<in> set (damage_add ds d). dm_object e' = dm_object d \<and>
      (\<forall>e. (e = d \<or> e \<in> set ds \<and> dm_object e = dm_object d) \<longrightarrow>
        rect_points (dm_rect e) \<subseteq> rect_points (dm_rect e') \<and>
        (\<forall>t. range_contains (dm_range e) t \<longrightarrow> range_contains (dm_range e') t)) \<and>
      (\<forall>r. (\<forall>e. (e = d \<or> e \<in> set ds \<and> dm_object e = dm_object d) \<longrightarrow> rect_points (dm_rect e) \<subseteq> rect_points r) \<longrightarrow>
        rect_points (dm_rect e') \<subseteq> rect_points r))"
proof -
  obtain e' where e': "e' \<in> set (damage_add ds d)" "dm_object e' = dm_object d"
    "\<And>r. (\<forall>e. (e = d \<or> e \<in> set ds \<and> dm_object e = dm_object d) \<longrightarrow> rect_points (dm_rect e) \<subseteq> rect_points r) \<Longrightarrow>
        rect_points (dm_rect e') \<subseteq> rect_points r"
    using damage_add_least [of ds d] by blast
  have d: "distinct (map dm_object (damage_add ds d))" using assms by (rule damage_add_distinct)
  have "rect_points (dm_rect e) \<subseteq> rect_points (dm_rect e') \<and>
      (\<forall>t. range_contains (dm_range e) t \<longrightarrow> range_contains (dm_range e') t)"
    if e: "e = d \<or> e \<in> set ds \<and> dm_object e = dm_object d" for e
  proof -
    obtain f where f: "f \<in> set (damage_add ds d)" "dm_object f = dm_object d"
      "rect_points (dm_rect e) \<subseteq> rect_points (dm_rect f)"
      "\<forall>t. range_contains (dm_range e) t \<longrightarrow> range_contains (dm_range f) t"
      using damage_add_covers [OF refl, of e d ds] e by blast
    have "f = e'" using d f(1,2) e'(1,2) by (metis distinct_map inj_onD)
    with f show ?thesis by blast
  qed
  then have e: "\<exists>e' \<in> set (damage_add ds d). dm_object e' = dm_object d \<and>
      (\<forall>e. (e = d \<or> e \<in> set ds \<and> dm_object e = dm_object d) \<longrightarrow>
        rect_points (dm_rect e) \<subseteq> rect_points (dm_rect e') \<and>
        (\<forall>t. range_contains (dm_range e) t \<longrightarrow> range_contains (dm_range e') t)) \<and>
      (\<forall>r. (\<forall>e. (e = d \<or> e \<in> set ds \<and> dm_object e = dm_object d) \<longrightarrow> rect_points (dm_rect e) \<subseteq> rect_points r) \<longrightarrow>
        rect_points (dm_rect e') \<subseteq> rect_points r)"
    using e' by (intro bexI [OF _ e'(1)] conjI allI impI) blast+
  show ?thesis by (intro conjI d allI impI e damage_add_keeps)
qed

definition small_rect :: "rat \<Rightarrow> rat \<Rightarrow> rect" where
  "small_rect a b = \<lparr>rx0 = Fin a, ry0 = Fin a, rx1 = Fin b, ry1 = Fin b\<rparr>"

lemma damage_add_flat_and_covering_witness:
  "distinct (map dm_object (damage_add [full_damage 4, full_damage 5]
     \<lparr>dm_object = 5, dm_rect = small_rect 0 1, dm_range = time_range_all\<rparr>))"
  using damage_add_flat_and_covering [of "[full_damage 4, full_damage 5]"] by (simp add: full_damage_def)

end
