(* ===== verification/Document.thy ===== *)
theory Document
  imports Damage "HOL-Library.Finite_Map" "HOL-Library.Multiset"
begin

text \<open>
  \<open>model/records.hpp\<close>, \<open>base/hash_mix.hpp\<close> and the \<open>DocRoot\<close> reads of \<open>model/model.cpp\<close>: the records
  of a document version and what is read from it. A version is the finite map its HAMT root denotes
  (theory Hamt proves the trie functions refine lookup, update and deletion on it, and that a
  published version never changes), so a record edge is the record itself. Ids and revisions are
  unbounded naturals; 0 is the invalid id. A fixed-size array is a list of that length.
\<close>

subsection \<open>Records\<close>

record affine =
  af_a :: double
  af_b :: double
  af_c :: double
  af_d :: double
  af_tx :: double
  af_ty :: double

definition affine_identity :: affine where
  "affine_identity = \<lparr>af_a = Fin 1, af_b = Fin 0, af_c = Fin 0, af_d = Fin 1, af_tx = Fin 0, af_ty = Fin 0\<rparr>"

datatype pixel_format = Rgba32fLinearPremul | Rgba16fLinearPremul | Rgba8Srgb

fun bytes_per_pixel :: "pixel_format \<Rightarrow> nat" where
  "bytes_per_pixel Rgba32fLinearPremul = 16" | "bytes_per_pixel Rgba16fLinearPremul = 8" | "bytes_per_pixel Rgba8Srgb = 4"

datatype primaries = SrgbPrimaries

datatype transfer_function = LinearTransfer | SrgbTransfer

record color_space =
  cs_primaries :: primaries
  cs_transfer :: transfer_function

definition linear_srgb :: color_space where
  "linear_srgb = \<lparr>cs_primaries = SrgbPrimaries, cs_transfer = LinearTransfer\<rparr>"

definition nonlinear_srgb :: color_space where
  "nonlinear_srgb = \<lparr>cs_primaries = SrgbPrimaries, cs_transfer = SrgbTransfer\<rparr>"

datatype premultiplied = StraightAlpha | PremultipliedAlpha

record surface_format =
  sf_pixel_format :: pixel_format
  sf_color_space :: color_space
  sf_premultiplied :: premultiplied

definition working_rgba32f :: surface_format where
  "working_rgba32f =
     \<lparr>sf_pixel_format = Rgba32fLinearPremul, sf_color_space = linear_srgb, sf_premultiplied = PremultipliedAlpha\<rparr>"

definition working_rgba16f :: surface_format where
  "working_rgba16f =
     \<lparr>sf_pixel_format = Rgba16fLinearPremul, sf_color_space = linear_srgb, sf_premultiplied = PremultipliedAlpha\<rparr>"

definition fast_rgba8srgb :: surface_format where
  "fast_rgba8srgb =
     \<lparr>sf_pixel_format = Rgba8Srgb, sf_color_space = nonlinear_srgb, sf_premultiplied = StraightAlpha\<rparr>"

datatype channel_layout = Mono | Stereo

record audio_format =
  au_sample_rate :: nat
  au_layout :: channel_layout

definition working_audio :: audio_format where
  "working_audio = \<lparr>au_sample_rate = 48000, au_layout = Stereo\<rparr>"

text \<open>An enumerator is stored as its number; the code reads a number past the last one as \<open>Normal\<close>.\<close>

datatype blend_mode = Normal | Multiply | Screen | Overlay | Darken | Lighten | ColorDodge | ColorBurn |
  HardLight | SoftLight | Difference | Exclusion

definition blend_modes :: "blend_mode list" where
  "blend_modes = [Normal, Multiply, Screen, Overlay, Darken, Lighten, ColorDodge, ColorBurn, HardLight,
     SoftLight, Difference, Exclusion]"

fun blend_code :: "blend_mode \<Rightarrow> nat" where
  "blend_code Normal = 0" | "blend_code Multiply = 1" | "blend_code Screen = 2" | "blend_code Overlay = 3"
| "blend_code Darken = 4" | "blend_code Lighten = 5" | "blend_code ColorDodge = 6" | "blend_code ColorBurn = 7"
| "blend_code HardLight = 8" | "blend_code SoftLight = 9" | "blend_code Difference = 10" | "blend_code Exclusion = 11"

fun blend_mode_name :: "blend_mode \<Rightarrow> string" where
  "blend_mode_name Normal = ''normal''" | "blend_mode_name Multiply = ''multiply''"
| "blend_mode_name Screen = ''screen''" | "blend_mode_name Overlay = ''overlay''"
| "blend_mode_name Darken = ''darken''" | "blend_mode_name Lighten = ''lighten''"
| "blend_mode_name ColorDodge = ''color-dodge''" | "blend_mode_name ColorBurn = ''color-burn''"
| "blend_mode_name HardLight = ''hard-light''" | "blend_mode_name SoftLight = ''soft-light''"
| "blend_mode_name Difference = ''difference''" | "blend_mode_name Exclusion = ''exclusion''"

definition blend_mode_from_name :: "string \<Rightarrow> blend_mode option" where
  "blend_mode_from_name name = find (\<lambda>m. blend_mode_name m = name) blend_modes"

definition state_none :: nat where "state_none = 0xFFFFFFFF"

definition layer_visible :: "32 word" where "layer_visible = 1"
definition layer_audible :: "32 word" where "layer_audible = push_bit 1 1"
definition blend_shift :: nat where "blend_shift = 8"
definition blend_mask :: "32 word" where "blend_mask = push_bit blend_shift 0xFF"

definition max_inline_layers :: nat where "max_inline_layers = 8"
definition max_inline_inputs :: nat where "max_inline_inputs = 4"
definition text_chunk_bytes :: nat where "text_chunk_bytes = 96"

record text_chunk =
  tc_count :: nat
  tc_total :: nat
  tc_next :: nat
  tc_bytes :: string

record content_record =
  ct_kind :: nat
  ct_state :: nat
  ct_identity_root :: nat
  ct_inputs_root :: nat
  ct_input_count :: nat
  ct_inputs :: "nat list"

record layer_record =
  ly_content :: nat
  ly_transform :: affine
  ly_opacity :: double
  ly_gain :: double
  ly_flags :: "32 word"
  ly_span :: time_range
  ly_time_map :: time_map

record order_chunk =
  oc_count :: nat
  oc_members :: "nat list"
  oc_next :: nat

record composition_record =
  cp_canvas_w :: double
  cp_canvas_h :: double
  cp_working_space :: surface_format
  cp_working_audio :: audio_format
  cp_layer_count :: nat
  cp_layers :: "nat list"
  cp_spill_root :: nat

datatype record_body =
    CompositionBody composition_record
  | LayerBody layer_record
  | ContentBody content_record
  | OrderBody order_chunk
  | TextBody text_chunk

record object_record =
  or_id :: nat
  or_revision :: nat
  or_body :: record_body

definition content_record_new :: "nat \<Rightarrow> content_record" where
  "content_record_new kind = \<lparr>ct_kind = kind, ct_state = state_none, ct_identity_root = 0,
     ct_inputs_root = 0, ct_input_count = 0, ct_inputs = replicate max_inline_inputs 0\<rparr>"

definition layer_record_new :: "nat \<Rightarrow> affine \<Rightarrow> double \<Rightarrow> layer_record" where
  "layer_record_new content transform opacity = \<lparr>ly_content = content, ly_transform = transform,
     ly_opacity = opacity, ly_gain = Fin 1, ly_flags = layer_visible OR layer_audible,
     ly_span = time_range_all, ly_time_map = time_map_default\<rparr>"

definition composition_record_new :: "double \<Rightarrow> double \<Rightarrow> composition_record" where
  "composition_record_new w h = \<lparr>cp_canvas_w = w, cp_canvas_h = h, cp_working_space = working_rgba32f,
     cp_working_audio = working_audio, cp_layer_count = 0, cp_layers = replicate max_inline_layers 0,
     cp_spill_root = 0\<rparr>"

definition is_visible :: "layer_record \<Rightarrow> bool" where
  "is_visible l \<longleftrightarrow> ly_flags l AND layer_visible \<noteq> 0"

definition is_audible :: "layer_record \<Rightarrow> bool" where
  "is_audible l \<longleftrightarrow> ly_flags l AND layer_audible \<noteq> 0"

definition layer_blend :: "layer_record \<Rightarrow> nat" where
  "layer_blend l = unat (drop_bit blend_shift (ly_flags l AND blend_mask))"

subsection \<open>Versions and their reads\<close>

type_synonym doc = "(nat, object_record) fmap"

record doc_root =
  dr_root :: doc
  dr_revision :: nat

definition contains_object :: "doc \<Rightarrow> nat \<Rightarrow> bool" where
  "contains_object d i \<longleftrightarrow> fmlookup d i \<noteq> None"

definition object_revision :: "doc \<Rightarrow> nat \<Rightarrow> nat" where
  "object_revision d i = (case fmlookup d i of None \<Rightarrow> 0 | Some r \<Rightarrow> or_revision r)"

definition find_layer :: "doc \<Rightarrow> nat \<Rightarrow> layer_record option" where
  "find_layer d i = (case fmlookup d i of None \<Rightarrow> None
     | Some r \<Rightarrow> (case or_body r of LayerBody l \<Rightarrow> Some l | _ \<Rightarrow> None))"

definition find_content :: "doc \<Rightarrow> nat \<Rightarrow> content_record option" where
  "find_content d i = (case fmlookup d i of None \<Rightarrow> None
     | Some r \<Rightarrow> (case or_body r of ContentBody c \<Rightarrow> Some c | _ \<Rightarrow> None))"

definition find_composition :: "doc \<Rightarrow> nat \<Rightarrow> composition_record option" where
  "find_composition d i = (case fmlookup d i of None \<Rightarrow> None
     | Some r \<Rightarrow> (case or_body r of CompositionBody c \<Rightarrow> Some c | _ \<Rightarrow> None))"

definition content_state :: "doc \<Rightarrow> nat \<Rightarrow> nat" where
  "content_state d i = (case find_content d i of None \<Rightarrow> state_none | Some c \<Rightarrow> ct_state c)"

text \<open>
  The chunk chains: \<open>sel\<close> gives the successor of a record of the chain's kind. The loop follows the
  chain until the invalid id, an absent id or a record of another kind; on a cyclic chain it does
  not return (\<open>None\<close>).
\<close>

definition order_next :: "record_body \<Rightarrow> nat option" where
  "order_next b = (case b of OrderBody ch \<Rightarrow> Some (oc_next ch) | _ \<Rightarrow> None)"

definition text_next :: "record_body \<Rightarrow> nat option" where
  "text_next b = (case b of TextBody ch \<Rightarrow> Some (tc_next ch) | _ \<Rightarrow> None)"

partial_function (option) read_chunk_chain ::
  "(record_body \<Rightarrow> nat option) \<Rightarrow> doc \<Rightarrow> nat \<Rightarrow> (nat \<times> record_body) list option" where
  "read_chunk_chain sel d cur =
     (if cur = 0 then Some []
      else case fmlookup d cur of
        None \<Rightarrow> Some []
      | Some r \<Rightarrow>
          (case sel (or_body r) of
             None \<Rightarrow> Some []
           | Some nxt \<Rightarrow> Option.bind (read_chunk_chain sel d nxt) (\<lambda>xs. Some ((cur, or_body r) # xs))))"

definition order_members :: "record_body \<Rightarrow> nat list" where
  "order_members b = (case b of OrderBody ch \<Rightarrow> take (oc_count ch) (oc_members ch) | _ \<Rightarrow> [])"

definition text_of :: "record_body \<Rightarrow> string" where
  "text_of b = (case b of TextBody ch \<Rightarrow> take (min (tc_count ch) text_chunk_bytes) (tc_bytes ch) | _ \<Rightarrow> [])"

definition read_layer_order :: "doc \<Rightarrow> composition_record \<Rightarrow> (nat list \<times> nat list) option" where
  "read_layer_order d c =
     (if cp_spill_root c = 0 then Some (take (cp_layer_count c) (cp_layers c), [])
      else Option.bind (read_chunk_chain order_next d (cp_spill_root c))
        (\<lambda>xs. Some (concat (map (order_members \<circ> snd) xs), map fst xs)))"

definition read_identity_text :: "doc \<Rightarrow> nat \<Rightarrow> string option" where
  "read_identity_text d head =
     Option.bind (read_chunk_chain text_next d head) (\<lambda>xs. Some (concat (map (text_of \<circ> snd) xs)))"

definition nul :: char where "nul = CHR 0x00"

definition content_identity :: "doc \<Rightarrow> nat \<Rightarrow> (string \<times> string) option" where
  "content_identity d i =
     (case find_content d i of
        None \<Rightarrow> Some ([], [])
      | Some c \<Rightarrow>
          if ct_identity_root c = 0 then Some ([], [])
          else Option.bind (read_identity_text d (ct_identity_root c)) (\<lambda>text.
            if nul \<in> set text then Some (takeWhile ((\<noteq>) nul) text, tl (dropWhile ((\<noteq>) nul) text))
            else Some (text, [])))"

definition content_inputs :: "doc \<Rightarrow> nat \<Rightarrow> nat list option" where
  "content_inputs d i =
     (case find_content d i of
        None \<Rightarrow> Some []
      | Some c \<Rightarrow>
          if ct_input_count c = 0 then Some []
          else if ct_inputs_root c = 0 then Some (take (ct_input_count c) (ct_inputs c))
          else Option.bind (read_chunk_chain order_next d (ct_inputs_root c))
            (\<lambda>xs. Some (concat (map (order_members \<circ> snd) xs))))"

definition for_each_layer_in :: "doc \<Rightarrow> nat \<Rightarrow> nat list option" where
  "for_each_layer_in d i =
     (case find_composition d i of None \<Rightarrow> Some [] | Some c \<Rightarrow> map_option fst (read_layer_order d c))"

subsection \<open>The mixed arrangement fold\<close>

definition mix64 :: "64 word \<Rightarrow> 64 word" where
  "mix64 x =
     (let x = x XOR drop_bit 30 x; x = x * 0xBF58476D1CE4E5B9;
          x = x XOR drop_bit 27 x; x = x * 0x94D049BB133111EB
      in x XOR drop_bit 31 x)"

definition composition_revision :: "doc \<Rightarrow> nat \<Rightarrow> 64 word option" where
  "composition_revision d i =
     (case fmlookup d i of
        None \<Rightarrow> Some 0
      | Some r \<Rightarrow>
          (case or_body r of
             CompositionBody _ \<Rightarrow>
               map_option (foldl (\<lambda>acc member. acc + mix64 (of_nat (object_revision d member)))
                  (mix64 (of_nat (or_revision r)))) (for_each_layer_in d i)
           | _ \<Rightarrow> Some 0))"

text \<open>The whole-document walks visit the records by ascending id.\<close>

definition records_by_id :: "doc \<Rightarrow> (nat \<times> object_record) list" where
  "records_by_id d = sorted_list_of_fmap d"

definition for_each_layer :: "doc \<Rightarrow> layer_record list" where
  "for_each_layer d =
     List.map_filter (\<lambda>(i, r). case or_body r of LayerBody l \<Rightarrow> Some l | _ \<Rightarrow> None) (records_by_id d)"

definition for_each_content :: "doc \<Rightarrow> nat list" where
  "for_each_content d =
     List.map_filter (\<lambda>(i, r). case or_body r of ContentBody _ \<Rightarrow> Some (or_id r) | _ \<Rightarrow> None) (records_by_id d)"

definition choose_composition ::
  "(nat \<times> composition_record) option \<Rightarrow> nat \<times> object_record \<Rightarrow> (nat \<times> composition_record) option" where
  "choose_composition chosen e =
     (case or_body (snd e) of
        CompositionBody c \<Rightarrow>
          (case chosen of None \<Rightarrow> Some (fst e, c)
           | Some (i, _) \<Rightarrow> if fst e < i then Some (fst e, c) else chosen)
      | _ \<Rightarrow> chosen)"

definition find_first_composition :: "doc \<Rightarrow> (nat \<times> composition_record) option" where
  "find_first_composition d = foldl choose_composition None (records_by_id d)"

definition working_space :: "doc \<Rightarrow> surface_format" where
  "working_space d =
     (case find_first_composition d of None \<Rightarrow> working_rgba32f | Some (_, c) \<Rightarrow> cp_working_space c)"

definition working_audio_format :: "doc \<Rightarrow> audio_format" where
  "working_audio_format d =
     (case find_first_composition d of None \<Rightarrow> working_audio | Some (_, c) \<Rightarrow> cp_working_audio c)"

subsection \<open>Chains\<close>

fun chain_of :: "(record_body \<Rightarrow> nat option) \<Rightarrow> doc \<Rightarrow> nat \<Rightarrow> (nat \<times> record_body) list \<Rightarrow> bool" where
  "chain_of sel d cur [] \<longleftrightarrow> cur = 0"
| "chain_of sel d cur ((i, b) # xs) \<longleftrightarrow> cur = i \<and> i \<noteq> 0 \<and>
     (\<exists>r nxt. fmlookup d i = Some r \<and> or_body r = b \<and> sel b = Some nxt \<and> chain_of sel d nxt xs)"

lemma read_chunk_chain_of:
  "chain_of sel d cur xs \<Longrightarrow> read_chunk_chain sel d cur = Some xs"
  by (induction sel d cur xs rule: chain_of.induct) (auto simp: read_chunk_chain.simps)

lemma chain_of_frame:
  assumes "chain_of sel d cur xs" "\<And>i. i \<in> fst ` set xs \<Longrightarrow> fmlookup d' i = fmlookup d i"
  shows "chain_of sel d' cur xs"
  using assms by (induction sel d cur xs rule: chain_of.induct) auto

subsection \<open>The mixer is a bijection\<close>

definition unmix64 :: "64 word \<Rightarrow> 64 word" where
  "unmix64 x =
     (let x = x XOR drop_bit 31 x XOR drop_bit 62 x; x = x * 0x319642B2D24D8EC3;
          x = x XOR drop_bit 27 x XOR drop_bit 54 x; x = x * 0x96DE1B173F119089
      in x XOR drop_bit 30 x XOR drop_bit 60 x)"

lemma xor_shift_inverse:
  fixes x :: "64 word"
  assumes "64 \<le> 3 * k"
  shows "(let y = x XOR drop_bit k x in y XOR drop_bit k y XOR drop_bit (2 * k) y) = x"
  unfolding Let_def
proof (rule bit_word_eqI)
  fix n
  assume "n < LENGTH(64)"
  have "\<not> bit x (3 * k + n)" using assms bit_imp_le_length [of x "3 * k + n"] by auto
  then show "bit ((x XOR drop_bit k x) XOR drop_bit k (x XOR drop_bit k x) XOR drop_bit (2 * k) (x XOR drop_bit k x)) n = bit x n"
    by (auto simp: bit_simps ac_simps numeral_eq_Suc)
qed

lemma unmix_mix: "unmix64 (mix64 x) = x"
proof -
  have m: "y * 0x94D049BB133111EB * 0x319642B2D24D8EC3 = y" "y * 0xBF58476D1CE4E5B9 * 0x96DE1B173F119089 = y"
    for y :: "64 word"
  proof -
    have c: "(0x94D049BB133111EB :: 64 word) * 0x319642B2D24D8EC3 = 1" "(0xBF58476D1CE4E5B9 :: 64 word) * 0x96DE1B173F119089 = 1"
      by code_simp+
    then show "y * 0x94D049BB133111EB * 0x319642B2D24D8EC3 = y" "y * 0xBF58476D1CE4E5B9 * 0x96DE1B173F119089 = y"
      by (simp_all only: mult.assoc c mult.right_neutral)
  qed
  define a where "a = x XOR drop_bit 30 x"
  define b where "b = a * 0xBF58476D1CE4E5B9 XOR drop_bit 27 (a * 0xBF58476D1CE4E5B9)"
  have 1: "(let y = b * 0x94D049BB133111EB XOR drop_bit 31 (b * 0x94D049BB133111EB)
      in y XOR drop_bit 31 y XOR drop_bit 62 y) = b * 0x94D049BB133111EB"
    using xor_shift_inverse [of 31 "b * 0x94D049BB133111EB"] by simp
  have 2: "(let y = b in y XOR drop_bit 27 y XOR drop_bit 54 y) = a * 0xBF58476D1CE4E5B9"
    using xor_shift_inverse [of 27 "a * 0xBF58476D1CE4E5B9"] by (simp add: b_def)
  have 3: "(let y = a in y XOR drop_bit 30 y XOR drop_bit 60 y) = x"
    using xor_shift_inverse [of 30 x] by (simp add: a_def)
  show ?thesis
    using 1 2 3 m [of b] m [of a]
    by (simp only: unmix64_def mix64_def Let_def flip: a_def) (simp only: flip: b_def)
qed

lemma mix64_inj: "inj mix64"
  by (rule inj_on_inverseI [of _ unmix64]) (rule unmix_mix)

lemma fold_is_sum: "foldl (\<lambda>acc m. acc + f m) a xs = a + (\<Sum>x \<in># mset xs. f x)" for f :: "'a \<Rightarrow> 64 word"
  by (induction xs arbitrary: a) (simp_all add: add.assoc)

lemma composition_revision_sum:
  assumes "find_composition d i = Some c" "for_each_layer_in d i = Some ms"
  shows "composition_revision d i = Some (mix64 (of_nat (object_revision d i)) +
    (\<Sum>s \<in># image_mset (object_revision d) (mset ms). mix64 (of_nat s)))"
  using assms fold_is_sum [of "\<lambda>m. mix64 (of_nat (object_revision d m))" _ ms]
  by (auto simp: composition_revision_def find_composition_def object_revision_def image_mset.compositionality o_def
    split: option.splits record_body.splits)

text \<open>
  The arrangement revision separates what it must: between two versions whose composition records
  carry the same stamp and whose members' stamps agree but for one, \<open>composition_revision\<close> agrees
  exactly if that one stamp is the same 64-bit number, whatever the order of the members. The mixer
  loses no bit, so a single moved stamp cannot cancel.
\<close>

theorem composition_revision_detects_one_stamp:
  assumes "find_composition d i = Some c" "for_each_layer_in d i = Some ms"
    "find_composition d' i = Some c'" "for_each_layer_in d' i = Some ms'"
    "object_revision d' i = object_revision d i"
    "image_mset (object_revision d) (mset ms) = add_mset a M" "image_mset (object_revision d') (mset ms') = add_mset b M"
  shows "composition_revision d' i = composition_revision d i \<longleftrightarrow> (of_nat a :: 64 word) = of_nat b"
proof -
  have "composition_revision d' i = composition_revision d i \<longleftrightarrow> mix64 (of_nat b) = mix64 (of_nat a)"
    unfolding composition_revision_sum [OF assms(1,2)] composition_revision_sum [OF assms(3,4)] assms(5-7) by simp
  also have "\<dots> \<longleftrightarrow> (of_nat a :: 64 word) = of_nat b" using mix64_inj by (auto simp: inj_eq)
  finally show ?thesis .
qed

definition two_member_doc :: "nat \<Rightarrow> nat \<Rightarrow> doc" where
  "two_member_doc r s = fmupd 1 \<lparr>or_id = 1, or_revision = 4, or_body = CompositionBody
       ((composition_record_new (Fin 1) (Fin 1))\<lparr>cp_layer_count := 2, cp_layers := [2, 3, 0, 0, 0, 0, 0, 0]\<rparr>)\<rparr>
     (fmupd 2 \<lparr>or_id = 2, or_revision = r, or_body = LayerBody (layer_record_new 0 affine_identity (Fin 1))\<rparr>
     (fmupd 3 \<lparr>or_id = 3, or_revision = s, or_body = LayerBody (layer_record_new 0 affine_identity (Fin 1))\<rparr> fmempty))"

lemma composition_revision_detects_one_stamp_witness:
  "composition_revision (two_member_doc 5 7) 1 \<noteq> composition_revision (two_member_doc 7 6) 1"
proof -
  let ?c = "(composition_record_new (Fin 1) (Fin 1))\<lparr>cp_layer_count := 2, cp_layers := [2, 3, 0, 0, 0, 0, 0, 0]\<rparr>"
  have c: "find_composition (two_member_doc r s) 1 = Some ?c" for r s
    by (simp add: two_member_doc_def find_composition_def)
  have l: "for_each_layer_in (two_member_doc r s) 1 = Some [2, 3]" for r s
    unfolding for_each_layer_in_def c by (simp add: read_layer_order_def composition_record_new_def)
  have o: "object_revision (two_member_doc r s) 1 = 4" "object_revision (two_member_doc r s) 2 = r"
    "object_revision (two_member_doc r s) 3 = s" for r s
    by (simp_all add: object_revision_def two_member_doc_def)
  have "composition_revision (two_member_doc 7 6) 1 = composition_revision (two_member_doc 5 7) 1 \<longleftrightarrow>
      (of_nat 5 :: 64 word) = of_nat 6"
    by (rule composition_revision_detects_one_stamp [OF c l c l, where M = "{#7#}"])
      (simp_all add: o add_mset_commute del: One_nat_def)
  moreover have "(of_nat 5 :: 64 word) \<noteq> of_nat 6" by simp
  ultimately show ?thesis by metis
qed

lemma blend_mode_name_inj: "blend_mode_name m = blend_mode_name n \<Longrightarrow> m = n"
  by (cases m; cases n; simp)

text \<open>A blend mode and its name determine each other, and no other name is read as a mode.\<close>

theorem blend_names_roundtrip: "blend_mode_from_name s = Some m \<longleftrightarrow> s = blend_mode_name m"
proof
  assume "blend_mode_from_name s = Some m"
  then show "s = blend_mode_name m" by (auto simp: blend_mode_from_name_def find_Some_iff)
next
  assume s: "s = blend_mode_name m"
  have "(\<lambda>n. blend_mode_name n = blend_mode_name m) = (\<lambda>n. n = m)" using blend_mode_name_inj by blast
  then show "blend_mode_from_name s = Some m"
    unfolding s blend_mode_from_name_def by (cases m) (simp_all add: blend_modes_def)
qed

end
