(* ===== verification/Transaction.thy ===== *)
theory Transaction
  imports Document Slot_Store
begin

text \<open>
  \<open>Model::Transaction\<close> of \<open>model/model.hpp\<close> and \<open>model/model.cpp\<close>: the mutators over the forked
  version, commit, abort and the load of a baseline. Every allocation can be refused: the arena is an argument,
  the answer to the n-th fallible pool call (a record's \<open>create\<close> or a path copy of the trie). The
  two sinks are recorded as what was handed to them, in order. A mutator whose chain walk does not
  return is \<open>None\<close>.
\<close>

subsection \<open>Journal entries and state\<close>

record object_edit =
  oe_object :: nat
  oe_before :: "object_record option"
  oe_after :: "object_record option"

record content_state_edit =
  ce_object :: nat
  ce_before :: nat
  ce_after :: nat

record journal_entry =
  je_name :: string
  je_coalesce_key :: nat
  je_objects :: "object_edit list"
  je_contents :: "content_state_edit list"
  je_damage :: "damage list"

record model =
  md_current :: doc_root
  md_next_id :: nat
  md_commit_sink :: bool
  md_committed :: "journal_entry list"
  md_damage_sink :: bool
  md_flushed :: "damage list list"
  md_state_sink :: bool
  md_retained :: "(nat \<times> nat) list"

definition model_new :: model where
  "model_new = \<lparr>md_current = \<lparr>dr_root = fmempty, dr_revision = 0\<rparr>, md_next_id = 1, md_commit_sink = False,
     md_committed = [], md_damage_sink = False, md_flushed = [], md_state_sink = False, md_retained = []\<rparr>"

record transaction =
  tx_model :: model
  tx_arena :: "nat \<Rightarrow> pool_error option"
  tx_calls :: nat
  tx_name :: string
  tx_coalesce :: nat
  tx_base :: doc_root
  tx_root :: doc
  tx_publish_revision :: nat
  tx_touched :: "nat list"
  tx_contents :: "content_state_edit list"
  tx_damage :: "damage list"
  tx_open :: bool
  tx_status :: "pool_error option"

definition transact :: "(nat \<Rightarrow> pool_error option) \<Rightarrow> string \<Rightarrow> model \<Rightarrow> transaction" where
  "transact arena name m =
     \<lparr>tx_model = m, tx_arena = arena, tx_calls = 0, tx_name = name, tx_coalesce = 0,
      tx_base = md_current m, tx_root = dr_root (md_current m),
      tx_publish_revision = dr_revision (md_current m) + 1, tx_touched = [], tx_contents = [],
      tx_damage = [], tx_open = True, tx_status = None\<rparr>"

subsection \<open>Steps shared by the mutators\<close>

definition allocate_id :: "transaction \<Rightarrow> transaction \<times> nat" where
  "allocate_id t = (t\<lparr>tx_model := (tx_model t)\<lparr>md_next_id := md_next_id (tx_model t) + 1\<rparr>\<rparr>, md_next_id (tx_model t))"

fun allocate_ids :: "nat \<Rightarrow> transaction \<Rightarrow> transaction \<times> nat list" where
  "allocate_ids 0 t = (t, [])"
| "allocate_ids (Suc n) t =
     (let (t, i) = allocate_id t; (t, ids) = allocate_ids n t in (t, i # ids))"

text \<open>A fallible pool call: it succeeds, or its error becomes the transaction's status.\<close>

definition pool_call :: "transaction \<Rightarrow> transaction \<times> bool" where
  "pool_call t =
     (let t' = t\<lparr>tx_calls := tx_calls t + 1\<rparr> in
      case tx_arena t (tx_calls t) of
        None \<Rightarrow> (t', True)
      | Some e \<Rightarrow> (t'\<lparr>tx_status := Some e\<rparr>, False))"

definition touch :: "nat \<Rightarrow> transaction \<Rightarrow> transaction" where
  "touch i t = (if i \<in> set (tx_touched t) then t else t\<lparr>tx_touched := tx_touched t @ [i]\<rparr>)"

definition tx_add_damage :: "damage \<Rightarrow> transaction \<Rightarrow> transaction" where
  "tx_add_damage d t = t\<lparr>tx_damage := damage_add (tx_damage t) d\<rparr>"

definition create_record :: "transaction \<Rightarrow> transaction \<times> bool" where
  "create_record t = pool_call t"

text \<open>\<open>hamt_insert\<close> of the stamped record, then the new root and \<open>touch\<close>.\<close>

definition bind_record :: "nat \<Rightarrow> nat \<Rightarrow> record_body \<Rightarrow> transaction \<Rightarrow> transaction \<times> bool" where
  "bind_record i oid body t =
     (case pool_call t of
        (t, False) \<Rightarrow> (t, False)
      | (t, True) \<Rightarrow>
          (touch i (t\<lparr>tx_root := fmupd i \<lparr>or_id = oid, or_revision = tx_publish_revision t, or_body = body\<rparr> (tx_root t)\<rparr>), True))"

definition erase_record :: "nat \<Rightarrow> transaction \<Rightarrow> transaction \<times> bool" where
  "erase_record i t =
     (case pool_call t of
        (t, False) \<Rightarrow> (t, False)
      | (t, True) \<Rightarrow> (touch i (t\<lparr>tx_root := fmdrop i (tx_root t)\<rparr>), True))"

definition put_record :: "nat \<Rightarrow> nat \<Rightarrow> record_body \<Rightarrow> transaction \<Rightarrow> transaction \<times> bool" where
  "put_record i oid body t =
     (case create_record t of (t, False) \<Rightarrow> (t, False) | (t, True) \<Rightarrow> bind_record i oid body t)"

subsection \<open>Adding objects\<close>

definition add_record :: "nat \<Rightarrow> record_body \<Rightarrow> transaction \<Rightarrow> transaction \<times> nat" where
  "add_record i body t =
     (case put_record i i body t of
        (t, False) \<Rightarrow> (t, 0)
      | (t, True) \<Rightarrow> (tx_add_damage (full_damage i) t, i))"

definition add_layer :: "nat \<Rightarrow> affine \<Rightarrow> double \<Rightarrow> transaction \<Rightarrow> transaction \<times> nat" where
  "add_layer content transform opacity t =
     (if tx_status t \<noteq> None then (t, 0)
      else let (t, i) = allocate_id t in add_record i (LayerBody (layer_record_new content transform opacity)) t)"

definition add_content :: "nat \<Rightarrow> transaction \<Rightarrow> transaction \<times> nat" where
  "add_content kind t =
     (if tx_status t \<noteq> None then (t, 0)
      else let (t, i) = allocate_id t in add_record i (ContentBody (content_record_new kind)) t)"

definition add_composition_at :: "nat \<Rightarrow> double \<Rightarrow> double \<Rightarrow> transaction \<Rightarrow> transaction \<times> nat" where
  "add_composition_at i w h t =
     (if tx_status t \<noteq> None then (t, 0) else add_record i (CompositionBody (composition_record_new w h)) t)"

definition add_composition :: "double \<Rightarrow> double \<Rightarrow> transaction \<Rightarrow> transaction \<times> nat" where
  "add_composition w h t =
     (if tx_status t \<noteq> None then (t, 0)
      else let (t, i) = allocate_id t in add_composition_at i w h t)"

subsection \<open>Placement and configuration\<close>

text \<open>
  The body every \<open>set_\<close> mutator repeats: look up, check the kind, path-copy the record with one field
  overridden, damage the object. \<open>change\<close> is the kind check with the override.
\<close>

definition path_copy :: "(record_body \<Rightarrow> record_body option) \<Rightarrow> nat \<Rightarrow> transaction \<Rightarrow> transaction" where
  "path_copy change i t =
     (if tx_status t \<noteq> None then t
      else case fmlookup (tx_root t) i of
        None \<Rightarrow> t
      | Some old \<Rightarrow>
          (case change (or_body old) of
             None \<Rightarrow> t
           | Some body \<Rightarrow>
               (case put_record i (or_id old) body t of
                  (t, False) \<Rightarrow> t
                | (t, True) \<Rightarrow> tx_add_damage (full_damage i) t)))"

definition on_layer :: "(layer_record \<Rightarrow> layer_record) \<Rightarrow> record_body \<Rightarrow> record_body option" where
  "on_layer f b = (case b of LayerBody l \<Rightarrow> Some (LayerBody (f l)) | _ \<Rightarrow> None)"

definition on_composition :: "(composition_record \<Rightarrow> composition_record) \<Rightarrow> record_body \<Rightarrow> record_body option" where
  "on_composition f b = (case b of CompositionBody c \<Rightarrow> Some (CompositionBody (f c)) | _ \<Rightarrow> None)"

definition set_working_space :: "nat \<Rightarrow> surface_format \<Rightarrow> transaction \<Rightarrow> transaction" where
  "set_working_space i f = path_copy (on_composition (\<lambda>c. c\<lparr>cp_working_space := f\<rparr>)) i"

definition set_working_audio_format :: "nat \<Rightarrow> audio_format \<Rightarrow> transaction \<Rightarrow> transaction" where
  "set_working_audio_format i f = path_copy (on_composition (\<lambda>c. c\<lparr>cp_working_audio := f\<rparr>)) i"

definition set_transform :: "nat \<Rightarrow> affine \<Rightarrow> transaction \<Rightarrow> transaction" where
  "set_transform i x = path_copy (on_layer (\<lambda>l. l\<lparr>ly_transform := x\<rparr>)) i"

definition set_span :: "nat \<Rightarrow> time_range \<Rightarrow> transaction \<Rightarrow> transaction" where
  "set_span i x = path_copy (on_layer (\<lambda>l. l\<lparr>ly_span := x\<rparr>)) i"

definition set_time_map :: "nat \<Rightarrow> time_map \<Rightarrow> transaction \<Rightarrow> transaction" where
  "set_time_map i x = path_copy (on_layer (\<lambda>l. l\<lparr>ly_time_map := x\<rparr>)) i"

definition set_opacity :: "nat \<Rightarrow> double \<Rightarrow> transaction \<Rightarrow> transaction" where
  "set_opacity i x = path_copy (on_layer (\<lambda>l. l\<lparr>ly_opacity := x\<rparr>)) i"

definition set_gain :: "nat \<Rightarrow> double \<Rightarrow> transaction \<Rightarrow> transaction" where
  "set_gain i x = path_copy (on_layer (\<lambda>l. l\<lparr>ly_gain := x\<rparr>)) i"

definition flag_audible :: "bool \<Rightarrow> 32 word \<Rightarrow> 32 word" where
  "flag_audible on w = (if on then w OR layer_audible else w AND NOT layer_audible)"

definition flag_visible :: "bool \<Rightarrow> 32 word \<Rightarrow> 32 word" where
  "flag_visible on w = (if on then w OR layer_visible else w AND NOT layer_visible)"

definition flag_blend :: "blend_mode \<Rightarrow> 32 word \<Rightarrow> 32 word" where
  "flag_blend b w = (w AND NOT blend_mask) OR (push_bit blend_shift (of_nat (blend_code b)) AND blend_mask)"

definition set_audible :: "nat \<Rightarrow> bool \<Rightarrow> transaction \<Rightarrow> transaction" where
  "set_audible i on = path_copy (on_layer (\<lambda>l. l\<lparr>ly_flags := flag_audible on (ly_flags l)\<rparr>)) i"

definition set_visible :: "nat \<Rightarrow> bool \<Rightarrow> transaction \<Rightarrow> transaction" where
  "set_visible i on = path_copy (on_layer (\<lambda>l. l\<lparr>ly_flags := flag_visible on (ly_flags l)\<rparr>)) i"

definition set_blend :: "nat \<Rightarrow> blend_mode \<Rightarrow> transaction \<Rightarrow> transaction" where
  "set_blend i b = path_copy (on_layer (\<lambda>l. l\<lparr>ly_flags := flag_blend b (ly_flags l)\<rparr>)) i"

subsection \<open>Layer membership\<close>

fun erase_records :: "nat list \<Rightarrow> transaction \<Rightarrow> transaction \<times> bool" where
  "erase_records [] t = (t, True)"
| "erase_records (i # ids) t =
     (case erase_record i t of (t, False) \<Rightarrow> (t, False) | (t, True) \<Rightarrow> erase_records ids t)"

text \<open>The members, and the successor, the p-th chunk of an order holds.\<close>

definition chunk_slice :: "nat list \<Rightarrow> nat \<Rightarrow> nat list" where
  "chunk_slice order p = take max_inline_layers (drop (p * max_inline_layers) order)"

definition next_chunk :: "nat list \<Rightarrow> nat \<Rightarrow> nat" where
  "next_chunk ids p = (if p + 1 < length ids then ids ! (p + 1) else 0)"

definition order_chunk_of :: "nat list \<Rightarrow> nat \<Rightarrow> order_chunk" where
  "order_chunk_of members nxt = \<lparr>oc_count = length members,
     oc_members = members @ replicate (max_inline_layers - length members) 0, oc_next = nxt\<rparr>"

definition chunk_unchanged :: "nat list \<Rightarrow> nat list \<Rightarrow> nat list \<Rightarrow> nat list \<Rightarrow> nat \<Rightarrow> bool" where
  "chunk_unchanged old_order old_ids new_order new_ids p \<longleftrightarrow>
     p < length old_ids \<and> chunk_slice new_order p = chunk_slice old_order p \<and>
     next_chunk old_ids p = next_chunk new_ids p"

fun write_chunks :: "nat list \<Rightarrow> nat list \<Rightarrow> nat list \<Rightarrow> nat list \<Rightarrow> nat list \<Rightarrow> transaction \<Rightarrow> transaction \<times> bool" where
  "write_chunks old_order old_ids new_order ids [] t = (t, True)"
| "write_chunks old_order old_ids new_order ids (p # ps) t =
     (if chunk_unchanged old_order old_ids new_order ids p
      then write_chunks old_order old_ids new_order ids ps t
      else case put_record (ids ! p) (ids ! p)
          (OrderBody (order_chunk_of (chunk_slice new_order p) (next_chunk ids p))) t of
        (t, False) \<Rightarrow> (t, False)
      | (t, True) \<Rightarrow> write_chunks old_order old_ids new_order ids ps t)"

definition store_membership ::
  "nat \<Rightarrow> nat \<Rightarrow> composition_record \<Rightarrow> nat list \<Rightarrow> nat list \<Rightarrow> nat list \<Rightarrow> transaction \<Rightarrow> transaction \<times> bool" where
  "store_membership i base_id base old_order old_ids new_order t =
     (let n = length new_order in
      if n \<le> max_inline_layers then
        case erase_records old_ids t of
          (t, False) \<Rightarrow> (t, False)
        | (t, True) \<Rightarrow> put_record i base_id (CompositionBody (base\<lparr>cp_layer_count := n, cp_spill_root := 0,
              cp_layers := new_order @ replicate (max_inline_layers - n) 0\<rparr>)) t
      else
        let c_new = (n + max_inline_layers - 1) div max_inline_layers; c_old = length old_ids;
            (t, fresh) = allocate_ids (c_new - c_old) t;
            ids = take c_new old_ids @ fresh
        in case erase_records (drop c_new old_ids) t of
             (t, False) \<Rightarrow> (t, False)
           | (t, True) \<Rightarrow>
               (case write_chunks old_order old_ids new_order ids [0..<c_new] t of
                  (t, False) \<Rightarrow> (t, False)
                | (t, True) \<Rightarrow> put_record i base_id (CompositionBody (base\<lparr>cp_layer_count := n,
                    cp_spill_root := ids ! 0, cp_layers := replicate max_inline_layers 0\<rparr>)) t))"

text \<open>
  The body attach, detach and reorder share: look up the composition, read its order, and, where
  the edit applies, store the new one and damage the composition.
\<close>

definition edit_order :: "nat \<Rightarrow> (nat list \<Rightarrow> nat list option) \<Rightarrow> transaction \<Rightarrow> transaction option" where
  "edit_order i edit t =
     (case fmlookup (tx_root t) i of
        None \<Rightarrow> Some t
      | Some r \<Rightarrow>
          (case or_body r of
             CompositionBody base \<Rightarrow>
               Option.bind (read_layer_order (tx_root t) base) (\<lambda>(old_order, old_ids).
                 case edit old_order of
                   None \<Rightarrow> Some t
                 | Some new_order \<Rightarrow>
                     (case store_membership i (or_id r) base old_order old_ids new_order t of
                        (t, False) \<Rightarrow> Some t
                      | (t, True) \<Rightarrow> Some (tx_add_damage (full_damage i) t)))
           | _ \<Rightarrow> Some t))"

definition insert_at :: "nat \<Rightarrow> 'a \<Rightarrow> 'a list \<Rightarrow> 'a list" where
  "insert_at n x xs = take n xs @ x # drop n xs"

definition attach_layer :: "nat \<Rightarrow> nat \<Rightarrow> nat \<Rightarrow> transaction \<Rightarrow> transaction option" where
  "attach_layer composition layer at_index t =
     (if tx_status t \<noteq> None then Some t
      else edit_order composition (\<lambda>old.
        if contains_object (tx_root t) layer then Some (insert_at (min at_index (length old)) layer old) else None) t)"

definition attach_layer_on_top :: "nat \<Rightarrow> nat \<Rightarrow> transaction \<Rightarrow> transaction option" where
  "attach_layer_on_top composition layer = attach_layer composition layer uint32_max"

definition detach_layer :: "nat \<Rightarrow> nat \<Rightarrow> transaction \<Rightarrow> transaction option" where
  "detach_layer composition layer t =
     (if tx_status t \<noteq> None then Some t
      else edit_order composition (\<lambda>old. if layer \<in> set old then Some (remove1 layer old) else None) t)"

definition reorder_layer :: "nat \<Rightarrow> nat \<Rightarrow> nat \<Rightarrow> transaction \<Rightarrow> transaction option" where
  "reorder_layer composition from_index to_index t =
     (if tx_status t \<noteq> None then Some t
      else edit_order composition (\<lambda>old.
        if from_index \<ge> length old \<or> to_index \<ge> length old \<or> from_index = to_index then None
        else Some (insert_at to_index (old ! from_index) (take from_index old @ drop (from_index + 1) old))) t)"

subsection \<open>Content\<close>

definition on_content :: "(content_record \<Rightarrow> content_record) \<Rightarrow> record_body \<Rightarrow> record_body option" where
  "on_content f b = (case b of ContentBody c \<Rightarrow> Some (ContentBody (f c)) | _ \<Rightarrow> None)"

definition retain_state :: "nat \<Rightarrow> nat \<Rightarrow> transaction \<Rightarrow> transaction" where
  "retain_state i st t =
     (if st \<noteq> state_none \<and> md_state_sink (tx_model t)
      then t\<lparr>tx_model := (tx_model t)\<lparr>md_retained := md_retained (tx_model t) @ [(i, st)]\<rparr>\<rparr> else t)"

text \<open>The path copy of a content record: the record created takes its own retain on the state it carries.\<close>

definition put_content :: "nat \<Rightarrow> nat \<Rightarrow> content_record \<Rightarrow> transaction \<Rightarrow> transaction \<times> bool" where
  "put_content i oid c t =
     (case create_record t of
        (t, False) \<Rightarrow> (t, False)
      | (t, True) \<Rightarrow> bind_record i oid (ContentBody c) (retain_state i (ct_state c) t))"

fun note_state :: "nat \<Rightarrow> nat \<Rightarrow> nat \<Rightarrow> content_state_edit list \<Rightarrow> content_state_edit list" where
  "note_state i before after [] = [\<lparr>ce_object = i, ce_before = before, ce_after = after\<rparr>]"
| "note_state i before after (e # es) =
     (if ce_object e = i then e\<lparr>ce_after := after\<rparr> # es else e # note_state i before after es)"

definition set_content_state :: "nat \<Rightarrow> nat \<Rightarrow> transaction \<Rightarrow> transaction" where
  "set_content_state i after t =
     (if tx_status t \<noteq> None then t
      else case fmlookup (tx_root t) i of
        None \<Rightarrow> t
      | Some old \<Rightarrow>
          (case or_body old of
             ContentBody c \<Rightarrow>
               (case put_content i (or_id old) (c\<lparr>ct_state := after\<rparr>) t of
                  (t, False) \<Rightarrow> t
                | (t, True) \<Rightarrow> t\<lparr>tx_contents := note_state i (ct_state c) after (tx_contents t)\<rparr>)
           | _ \<Rightarrow> t))"

fun write_chain :: "nat list \<Rightarrow> (nat \<Rightarrow> nat \<Rightarrow> record_body) \<Rightarrow> nat list \<Rightarrow> transaction \<Rightarrow> transaction \<times> bool" where
  "write_chain ids fill [] t = (t, True)"
| "write_chain ids fill (p # ps) t =
     (case put_record (ids ! p) (ids ! p) (fill p (next_chunk ids p)) t of
        (t, False) \<Rightarrow> (t, False)
      | (t, True) \<Rightarrow> write_chain ids fill ps t)"

text \<open>
  \<open>write_content_chain\<close>: \<open>sel\<close> is the chunk kind, \<open>head_of\<close> and \<open>set_head\<close> the member the chain
  hangs from, \<open>fill\<close> the body of a chunk from its position and its successor.
\<close>

definition write_content_chain ::
  "nat \<Rightarrow> (record_body \<Rightarrow> nat option) \<Rightarrow> nat \<Rightarrow> (nat \<Rightarrow> nat \<Rightarrow> record_body) \<Rightarrow> (content_record \<Rightarrow> nat) \<Rightarrow>
   (nat \<Rightarrow> content_record \<Rightarrow> content_record) \<Rightarrow> (content_record \<Rightarrow> content_record) \<Rightarrow> transaction \<Rightarrow>
   (transaction \<times> bool) option" where
  "write_content_chain i sel chunks fill head_of set_head on_record t =
     (case fmlookup (tx_root t) i of
        None \<Rightarrow> Some (t, False)
      | Some old \<Rightarrow>
          (case or_body old of
             ContentBody base \<Rightarrow>
               Option.bind (if head_of base \<noteq> 0 then read_chunk_chain sel (tx_root t) (head_of base) else Some [])
                 (\<lambda>chain. Some (case erase_records (map fst chain) t of
                    (t, False) \<Rightarrow> (t, False)
                  | (t, True) \<Rightarrow>
                      (case allocate_ids chunks t of (t, ids) \<Rightarrow>
                        (case write_chain ids fill (rev [0..<chunks]) t of
                           (t, False) \<Rightarrow> (t, False)
                         | (t, True) \<Rightarrow> put_content i (or_id old)
                             (on_record (set_head (if chunks > 0 then ids ! 0 else 0) base)) t))))
           | _ \<Rightarrow> Some (t, False)))"

definition identity_text :: "string \<Rightarrow> string \<Rightarrow> string" where
  "identity_text kind_id params = (if kind_id = [] \<and> params = [] then [] else kind_id @ nul # params)"

definition text_slice :: "string \<Rightarrow> nat \<Rightarrow> string" where
  "text_slice text p = take text_chunk_bytes (drop (p * text_chunk_bytes) text)"

definition text_fill :: "string \<Rightarrow> nat \<Rightarrow> nat \<Rightarrow> record_body" where
  "text_fill text p nxt =
     (let piece = text_slice text p
      in TextBody \<lparr>tc_count = length piece, tc_total = length text mod 2 ^ 32, tc_next = nxt,
           tc_bytes = piece @ replicate (text_chunk_bytes - length piece) nul\<rparr>)"

definition set_content_identity :: "nat \<Rightarrow> string \<Rightarrow> string \<Rightarrow> transaction \<Rightarrow> transaction option" where
  "set_content_identity i kind_id params t =
     (if tx_status t \<noteq> None then Some t
      else let text = identity_text kind_id params
        in map_option fst (write_content_chain i text_next
             ((length text + text_chunk_bytes - 1) div text_chunk_bytes) (text_fill text)
             ct_identity_root (\<lambda>h c. c\<lparr>ct_identity_root := h\<rparr>) (\<lambda>c. c) t))"

definition inputs_fill :: "nat list \<Rightarrow> nat \<Rightarrow> nat \<Rightarrow> record_body" where
  "inputs_fill inputs p nxt = OrderBody (order_chunk_of (chunk_slice inputs p) nxt)"

definition store_inputs :: "nat list \<Rightarrow> content_record \<Rightarrow> content_record" where
  "store_inputs inputs c = c\<lparr>ct_input_count := length inputs,
     ct_inputs := (if length inputs \<le> max_inline_inputs
       then inputs @ replicate (max_inline_inputs - length inputs) 0 else replicate max_inline_inputs 0)\<rparr>"

definition set_content_inputs :: "nat \<Rightarrow> nat list \<Rightarrow> transaction \<Rightarrow> transaction option" where
  "set_content_inputs i inputs t =
     (if tx_status t \<noteq> None then Some t
      else map_option fst (write_content_chain i order_next
             (if length inputs \<le> max_inline_inputs then 0
              else (length inputs + max_inline_layers - 1) div max_inline_layers) (inputs_fill inputs)
             ct_inputs_root (\<lambda>h c. c\<lparr>ct_inputs_root := h\<rparr>) (store_inputs inputs) t))"

definition tx_remove :: "nat \<Rightarrow> transaction \<Rightarrow> transaction" where
  "tx_remove i t =
     (if tx_status t \<noteq> None then t
      else case fmlookup (tx_root t) i of
        None \<Rightarrow> t
      | Some _ \<Rightarrow>
          (case erase_record i t of
             (t, False) \<Rightarrow> t
           | (t, True) \<Rightarrow> tx_add_damage (full_damage i) t))"

definition tx_coalesced :: "nat \<Rightarrow> transaction \<Rightarrow> transaction" where
  "tx_coalesced key t = t\<lparr>tx_coalesce := key\<rparr>"

subsection \<open>Ending a transaction\<close>

definition tx_abort :: "transaction \<Rightarrow> transaction" where
  "tx_abort t =
     (if \<not> tx_open t then t
      else t\<lparr>tx_open := False, tx_root := fmempty, tx_touched := [], tx_contents := [], tx_damage := []\<rparr>)"

text \<open>The owning edge of an entry: an absent object has none, a refused resolve fails the commit.\<close>

definition resolve_edge :: "doc \<Rightarrow> nat \<Rightarrow> transaction \<Rightarrow> transaction \<times> object_record option \<times> bool" where
  "resolve_edge d i t =
     (case fmlookup d i of
        None \<Rightarrow> (t, None, True)
      | Some r \<Rightarrow>
          (case pool_call t of
             (t, True) \<Rightarrow> (t, Some r, True)
           | (t, False) \<Rightarrow> (t\<lparr>tx_status := Some CapacityExhausted\<rparr>, None, False)))"

fun object_edits :: "nat list \<Rightarrow> transaction \<Rightarrow> transaction \<times> object_edit list option" where
  "object_edits [] t = (t, Some [])"
| "object_edits (i # ids) t =
     (case resolve_edge (dr_root (tx_base t)) i t of
        (t, _, False) \<Rightarrow> (t, None)
      | (t, before, True) \<Rightarrow>
          (case resolve_edge (tx_root t) i t of
             (t, _, False) \<Rightarrow> (t, None)
           | (t, after, True) \<Rightarrow>
               (case object_edits ids t of
                  (t, None) \<Rightarrow> (t, None)
                | (t, Some es) \<Rightarrow> (t, Some (\<lparr>oe_object = i, oe_before = before, oe_after = after\<rparr> # es)))))"

definition flush_damage :: "damage list \<Rightarrow> model \<Rightarrow> model" where
  "flush_damage ds m = (if md_damage_sink m then m\<lparr>md_flushed := md_flushed m @ [ds]\<rparr> else m)"

definition publish :: "transaction \<Rightarrow> model" where
  "publish t = flush_damage (tx_damage t)
     ((tx_model t)\<lparr>md_current := \<lparr>dr_root = tx_root t, dr_revision = tx_publish_revision t\<rparr>\<rparr>)"

definition commit :: "transaction \<Rightarrow> transaction \<times> pool_error option" where
  "commit t =
     (if \<not> tx_open t \<or> tx_status t \<noteq> None then (t, tx_status t)
      else if md_commit_sink (tx_model t) then
        (case object_edits (tx_touched t) t of
           (t, None) \<Rightarrow> (t, tx_status t)
         | (t, Some es) \<Rightarrow>
             (let entry = \<lparr>je_name = tx_name t, je_coalesce_key = tx_coalesce t, je_objects = es,
                je_contents = tx_contents t, je_damage = tx_damage t\<rparr>;
                m = publish t
              in (t\<lparr>tx_model := m\<lparr>md_committed := md_committed m @ [entry]\<rparr>, tx_root := fmempty, tx_open := False\<rparr>, None)))
      else (t\<lparr>tx_model := publish t, tx_root := fmempty, tx_open := False\<rparr>, None))"

definition load_baseline ::
  "(nat \<Rightarrow> pool_error option) \<Rightarrow> (transaction \<Rightarrow> transaction) \<Rightarrow> model \<Rightarrow> model \<times> pool_error option" where
  "load_baseline arena build m =
     (let t = build ((transact arena ''load'' m)\<lparr>tx_publish_revision := 0\<rparr>)
      in case tx_status t of
        Some e \<Rightarrow> (tx_model t, Some e)
      | None \<Rightarrow> (flush_damage (tx_damage t)
          ((tx_model t)\<lparr>md_current := \<lparr>dr_root = tx_root t, dr_revision = 0\<rparr>\<rparr>), None))"

subsection \<open>Navigation\<close>

datatype nav_direction = Undo | Redo

definition nav_target :: "nav_direction \<Rightarrow> object_edit \<Rightarrow> object_record option" where
  "nav_target dir oe = (case dir of Undo \<Rightarrow> oe_before oe | Redo \<Rightarrow> oe_after oe)"

fun rebind :: "(nat \<Rightarrow> pool_error option) \<Rightarrow> nat \<Rightarrow> nav_direction \<Rightarrow> object_edit list \<Rightarrow> doc \<Rightarrow> pool_error + doc" where
  "rebind arena n dir [] d = Inr d"
| "rebind arena n dir (oe # oes) d =
     (case arena n of
        Some e \<Rightarrow> Inl e
      | None \<Rightarrow> rebind arena (n + 1) dir oes
          (case nav_target dir oe of
             Some r \<Rightarrow> fmupd (oe_object oe) r d
           | None \<Rightarrow> fmdrop (oe_object oe) d))"

definition navigate ::
  "(nat \<Rightarrow> pool_error option) \<Rightarrow> journal_entry \<Rightarrow> nav_direction \<Rightarrow> model \<Rightarrow> model \<times> pool_error option" where
  "navigate arena entry dir m =
     (case rebind arena 0 dir (je_objects entry) (dr_root (md_current m)) of
        Inl e \<Rightarrow> (m, Some e)
      | Inr d \<Rightarrow> (flush_damage (je_damage entry)
          (m\<lparr>md_current := \<lparr>dr_root = d, dr_revision = dr_revision (md_current m) + 1\<rparr>\<rparr>), None))"

subsection \<open>What every mutator keeps\<close>

text \<open>
  The touched ids are the only ones whose binding can differ from the base version, and every touched
  record that is present carries the revision the commit publishes.
\<close>

definition tx_ok :: "transaction \<Rightarrow> bool" where
  "tx_ok t \<longleftrightarrow> distinct (tx_touched t) \<and>
     (\<forall>i. i \<notin> set (tx_touched t) \<longrightarrow> fmlookup (tx_root t) i = fmlookup (dr_root (tx_base t)) i) \<and>
     (\<forall>i r. i \<in> set (tx_touched t) \<longrightarrow> fmlookup (tx_root t) i = Some r \<longrightarrow> or_revision r = tx_publish_revision t)"

definition tx_extends :: "transaction \<Rightarrow> transaction \<Rightarrow> bool" where
  "tx_extends t t' \<longleftrightarrow>
     tx_base t' = tx_base t \<and> tx_publish_revision t' = tx_publish_revision t \<and> tx_open t' = tx_open t \<and>
     tx_name t' = tx_name t \<and>
     md_current (tx_model t') = md_current (tx_model t) \<and> md_commit_sink (tx_model t') = md_commit_sink (tx_model t) \<and>
     md_committed (tx_model t') = md_committed (tx_model t) \<and> md_damage_sink (tx_model t') = md_damage_sink (tx_model t) \<and>
     md_flushed (tx_model t') = md_flushed (tx_model t) \<and> md_state_sink (tx_model t') = md_state_sink (tx_model t) \<and>
     md_next_id (tx_model t) \<le> md_next_id (tx_model t') \<and>
     (tx_ok t \<longrightarrow> tx_ok t')"

lemma tx_extends_refl: "tx_extends t t"
  by (auto simp: tx_extends_def)

lemma tx_extends_trans: "tx_extends t u \<Longrightarrow> tx_extends u v \<Longrightarrow> tx_extends t v"
  unfolding tx_extends_def by (elim conjE, intro conjI) simp_all

lemma touch_extends_update:
  assumes "or_revision r = tx_publish_revision t"
  shows "tx_extends t (touch i (t\<lparr>tx_root := fmupd i r (tx_root t)\<rparr>))"
  using assms unfolding tx_extends_def touch_def tx_ok_def
  by (auto)

lemma touch_extends_drop: "tx_extends t (touch i (t\<lparr>tx_root := fmdrop i (tx_root t)\<rparr>))"
  unfolding tx_extends_def touch_def tx_ok_def
  by (auto split: if_splits)

lemma pool_call_extends: "pool_call t = (t', ok) \<Longrightarrow> tx_extends t t'"
  unfolding pool_call_def Let_def tx_extends_def tx_ok_def
  by (auto split: option.splits)

lemma pool_call_simps:
  assumes "pool_call t = (t', ok)"
  shows "tx_root t' = tx_root t" "tx_touched t' = tx_touched t" "tx_publish_revision t' = tx_publish_revision t"
    "tx_model t' = tx_model t" "tx_base t' = tx_base t" "tx_damage t' = tx_damage t"
    "tx_contents t' = tx_contents t" "ok \<Longrightarrow> tx_status t' = tx_status t" "\<not> ok \<Longrightarrow> tx_status t' \<noteq> None"
    "tx_arena t' = tx_arena t" "tx_open t' = tx_open t" "tx_name t' = tx_name t" "tx_coalesce t' = tx_coalesce t"
  using assms unfolding pool_call_def Let_def by (auto split: option.splits)

lemma bind_record_extends:
  assumes "bind_record i oid b t = (t', ok)"
  shows "tx_extends t t'"
proof -
  obtain u ok1 where u: "pool_call t = (u, ok1)" by (cases "pool_call t")
  note e = pool_call_extends [OF u] and s = pool_call_simps [OF u]
  show ?thesis
  proof (cases ok1)
    case True
    then have "t' = touch i (u\<lparr>tx_root := fmupd i \<lparr>or_id = oid, or_revision = tx_publish_revision u, or_body = b\<rparr> (tx_root u)\<rparr>)"
      using assms u unfolding bind_record_def by simp
    then show ?thesis using tx_extends_trans [OF e touch_extends_update] by simp
  next
    case False
    then show ?thesis using assms u e unfolding bind_record_def by simp
  qed
qed

lemma erase_record_extends:
  assumes "erase_record i t = (t', ok)"
  shows "tx_extends t t'"
proof -
  obtain u ok1 where u: "pool_call t = (u, ok1)" by (cases "pool_call t")
  show ?thesis
    using assms u tx_extends_trans [OF pool_call_extends [OF u] touch_extends_drop] pool_call_extends [OF u]
    unfolding erase_record_def by (cases ok1) auto
qed

lemma put_record_extends:
  assumes "put_record i oid b t = (t', ok)"
  shows "tx_extends t t'"
proof -
  obtain u ok1 where u: "pool_call t = (u, ok1)" by (cases "pool_call t")
  show ?thesis
    using assms u tx_extends_trans [OF pool_call_extends [OF u] bind_record_extends] pool_call_extends [OF u]
    unfolding put_record_def create_record_def by (cases ok1) auto
qed

lemma tx_extends_neutral:
  "tx_extends t (tx_add_damage d t)" "tx_extends t (retain_state i st t)"
  "tx_extends t (fst (allocate_id t))" "tx_extends t (tx_coalesced k t)"
  "tx_extends t (t\<lparr>tx_contents := cs\<rparr>)"
  by (auto simp: tx_extends_def tx_add_damage_def retain_state_def allocate_id_def tx_coalesced_def tx_ok_def)

lemma allocate_ids_extends: "allocate_ids n t = (t', ids) \<Longrightarrow> tx_extends t t'"
proof (induction n arbitrary: t t' ids)
  case (Suc n)
  then show ?case using tx_extends_neutral(3) [of t]
    by (auto split: prod.splits dest: tx_extends_trans)
qed (simp add: tx_extends_refl)


lemmas tx_trans = tx_extends_trans [OF _ tx_extends_trans] tx_extends_trans

lemma add_record_extends: "add_record i b t = (t', x) \<Longrightarrow> tx_extends t t'"
  unfolding add_record_def
  by (auto split: prod.splits bool.splits dest!: put_record_extends intro: tx_extends_trans [OF _ tx_extends_neutral(1)])

lemma add_record_extends': "tx_extends t (fst (add_record i b t))"
  by (rule add_record_extends [OF surjective_pairing])

lemma add_composition_at_extends: "tx_extends t (fst (add_composition_at i w h t))"
  unfolding add_composition_at_def by (simp add: tx_extends_refl add_record_extends')

lemma add_mutators_extend:
  "tx_extends t (fst (add_layer c x o' t))" "tx_extends t (fst (add_content k t))"
  "tx_extends t (fst (add_composition w h t))"
  unfolding add_layer_def add_content_def add_composition_def
  using tx_extends_neutral(3) [of t]
  by (auto simp: tx_extends_refl split: prod.splits
    intro: tx_extends_trans [OF _ add_record_extends'] tx_extends_trans [OF _ add_composition_at_extends])

lemma path_copy_extends: "tx_extends t (path_copy f i t)"
  unfolding path_copy_def
  by (auto simp: tx_extends_refl split: option.split prod.split bool.split dest!: put_record_extends
    intro: tx_extends_trans [OF _ tx_extends_neutral(1)])

lemma erase_records_extends: "erase_records ids t = (t', ok) \<Longrightarrow> tx_extends t t'"
proof (induction ids arbitrary: t t' ok)
  case (Cons i ids)
  then show ?case
    by (auto split: prod.splits bool.splits dest!: erase_record_extends intro: tx_extends_trans)
qed (simp add: tx_extends_refl)

lemma write_chunks_extends: "write_chunks oo oi no ids ps t = (t', ok) \<Longrightarrow> tx_extends t t'"
proof (induction ps arbitrary: t t' ok)
  case (Cons p ps)
  then show ?case
    by (auto split: prod.splits bool.splits if_splits dest!: put_record_extends intro: tx_extends_trans)
qed (simp add: tx_extends_refl)

lemma write_chain_extends: "write_chain ids fill ps t = (t', ok) \<Longrightarrow> tx_extends t t'"
proof (induction ps arbitrary: t t' ok)
  case (Cons p ps)
  then show ?case
    by (auto split: prod.splits bool.splits if_splits dest!: put_record_extends intro: tx_extends_trans)
qed (simp add: tx_extends_refl)

lemma store_membership_extends: "store_membership i bid b oo oi no t = (t', ok) \<Longrightarrow> tx_extends t t'"
  unfolding store_membership_def Let_def
  by (auto split: prod.splits bool.splits if_splits
    dest!: put_record_extends erase_records_extends write_chunks_extends allocate_ids_extends
    intro: tx_extends_trans)

lemma edit_order_extends: "edit_order i f t = Some t' \<Longrightarrow> tx_extends t t'"
  unfolding edit_order_def
  by (auto simp: tx_extends_refl split: option.splits prod.splits bool.splits record_body.splits bind_splits
    dest!: store_membership_extends intro: tx_extends_trans [OF _ tx_extends_neutral(1)])

lemma order_mutators_extend:
  "attach_layer c l n t = Some t' \<Longrightarrow> tx_extends t t'" "detach_layer c l t = Some t' \<Longrightarrow> tx_extends t t'"
  "reorder_layer c n n' t = Some t' \<Longrightarrow> tx_extends t t'"
  unfolding attach_layer_def detach_layer_def reorder_layer_def
  by (auto simp: tx_extends_refl split: if_splits dest: edit_order_extends)

lemma put_content_extends: "put_content i oid c t = (t', ok) \<Longrightarrow> tx_extends t t'"
  unfolding put_content_def create_record_def
  by (auto split: prod.splits bool.splits dest!: pool_call_extends bind_record_extends
    intro: tx_extends_trans tx_extends_trans [OF tx_extends_trans [OF _ tx_extends_neutral(2)]])

lemma set_content_state_extends: "tx_extends t (set_content_state i st t)"
  unfolding set_content_state_def
  by (auto simp: tx_extends_refl split: option.split prod.split bool.split record_body.split
    dest!: put_content_extends intro: tx_extends_trans [OF _ tx_extends_neutral(5)])

lemma write_content_chain_extends: "write_content_chain i sel n fill ho sh onr t = Some (t', ok) \<Longrightarrow> tx_extends t t'"
  unfolding write_content_chain_def
  by (auto simp: tx_extends_refl split: option.splits prod.splits bool.splits record_body.splits bind_splits
    dest!: put_content_extends erase_records_extends write_chain_extends allocate_ids_extends
    intro: tx_extends_trans)

lemma content_mutators_extend:
  "set_content_identity i k ps t = Some t' \<Longrightarrow> tx_extends t t'"
  "set_content_inputs i ins t = Some t' \<Longrightarrow> tx_extends t t'"
  unfolding set_content_identity_def set_content_inputs_def Let_def
  by (auto simp: tx_extends_refl split: if_splits dest: write_content_chain_extends)

lemma tx_remove_extends: "tx_extends t (tx_remove i t)"
  unfolding tx_remove_def
  by (auto simp: tx_extends_refl split: option.split prod.split bool.split dest!: erase_record_extends
    intro: tx_extends_trans [OF _ tx_extends_neutral(1)])

subsection \<open>Edits\<close>

datatype edit =
    AddLayer nat affine double
  | AddContent nat
  | AddComposition double double
  | AddCompositionAt nat double double
  | SetWorkingSpace nat surface_format
  | SetWorkingAudioFormat nat audio_format
  | SetTransform nat affine
  | SetSpan nat time_range
  | SetTimeMap nat time_map
  | SetOpacity nat double
  | SetGain nat double
  | SetAudible nat bool
  | SetVisible nat bool
  | SetBlend nat blend_mode
  | AttachLayer nat nat nat
  | DetachLayer nat nat
  | ReorderLayer nat nat nat
  | SetContentState nat nat
  | SetContentIdentity nat string string
  | SetContentInputs nat "nat list"
  | Remove nat
  | Coalesce nat
  | AddDamage damage

fun apply_edit :: "edit \<Rightarrow> transaction \<Rightarrow> transaction option" where
  "apply_edit (AddLayer c x o') t = Some (fst (add_layer c x o' t))"
| "apply_edit (AddContent k) t = Some (fst (add_content k t))"
| "apply_edit (AddComposition w h) t = Some (fst (add_composition w h t))"
| "apply_edit (AddCompositionAt i w h) t = Some (fst (add_composition_at i w h t))"
| "apply_edit (SetWorkingSpace i f) t = Some (set_working_space i f t)"
| "apply_edit (SetWorkingAudioFormat i f) t = Some (set_working_audio_format i f t)"
| "apply_edit (SetTransform i x) t = Some (set_transform i x t)"
| "apply_edit (SetSpan i x) t = Some (set_span i x t)"
| "apply_edit (SetTimeMap i x) t = Some (set_time_map i x t)"
| "apply_edit (SetOpacity i x) t = Some (set_opacity i x t)"
| "apply_edit (SetGain i x) t = Some (set_gain i x t)"
| "apply_edit (SetAudible i b) t = Some (set_audible i b t)"
| "apply_edit (SetVisible i b) t = Some (set_visible i b t)"
| "apply_edit (SetBlend i b) t = Some (set_blend i b t)"
| "apply_edit (AttachLayer c l n) t = attach_layer c l n t"
| "apply_edit (DetachLayer c l) t = detach_layer c l t"
| "apply_edit (ReorderLayer c n n') t = reorder_layer c n n' t"
| "apply_edit (SetContentState i st) t = Some (set_content_state i st t)"
| "apply_edit (SetContentIdentity i k ps) t = set_content_identity i k ps t"
| "apply_edit (SetContentInputs i ins) t = set_content_inputs i ins t"
| "apply_edit (Remove i) t = Some (tx_remove i t)"
| "apply_edit (Coalesce k) t = Some (tx_coalesced k t)"
| "apply_edit (AddDamage d) t = Some (tx_add_damage d t)"

fun apply_edits :: "edit list \<Rightarrow> transaction \<Rightarrow> transaction option" where
  "apply_edits [] t = Some t"
| "apply_edits (e # es) t = Option.bind (apply_edit e t) (apply_edits es)"

lemmas path_copy_mutators = set_working_space_def set_working_audio_format_def set_transform_def set_span_def
  set_time_map_def set_opacity_def set_gain_def set_audible_def set_visible_def set_blend_def

lemma apply_edit_extends: "apply_edit e t = Some t' \<Longrightarrow> tx_extends t t'"
  by (cases e) (auto simp: add_mutators_extend add_composition_at_extends path_copy_mutators path_copy_extends
    set_content_state_extends tx_remove_extends tx_extends_neutral dest: order_mutators_extend content_mutators_extend)

lemma apply_edits_extends: "apply_edits es t = Some t' \<Longrightarrow> tx_extends t t'"
  by (induction es arbitrary: t) (auto simp: tx_extends_refl split: bind_splits dest: apply_edit_extends tx_extends_trans)

lemma transact_ok: "tx_ok (transact arena name m)"
  by (simp add: tx_ok_def transact_def)

lemma transact_simps [simp]:
  "tx_base (transact arena name m) = md_current m" "tx_publish_revision (transact arena name m) = dr_revision (md_current m) + 1"
  "tx_open (transact arena name m)" "tx_model (transact arena name m) = m" "tx_name (transact arena name m) = name"
  by (simp_all add: transact_def)

subsection \<open>Commit\<close>

lemma resolve_edge_simps:
  assumes "resolve_edge d i t = (t', x, ok)"
  shows "tx_root t' = tx_root t" "tx_base t' = tx_base t" "tx_model t' = tx_model t" "tx_touched t' = tx_touched t"
    "tx_publish_revision t' = tx_publish_revision t" "tx_name t' = tx_name t" "tx_coalesce t' = tx_coalesce t"
    "tx_contents t' = tx_contents t" "tx_damage t' = tx_damage t" "tx_open t' = tx_open t"
    "ok \<Longrightarrow> x = fmlookup d i \<and> tx_status t' = tx_status t" "\<not> ok \<Longrightarrow> tx_status t' = Some CapacityExhausted"
  using assms unfolding resolve_edge_def
  by (auto split: option.splits prod.splits bool.splits simp: pool_call_simps)

lemma object_edits_simps:
  assumes "object_edits ids t = (t', res)"
  shows "tx_root t' = tx_root t \<and> tx_base t' = tx_base t \<and> tx_model t' = tx_model t \<and> tx_touched t' = tx_touched t \<and>
    tx_publish_revision t' = tx_publish_revision t \<and> tx_name t' = tx_name t \<and> tx_coalesce t' = tx_coalesce t \<and>
    tx_contents t' = tx_contents t \<and> tx_damage t' = tx_damage t \<and> tx_open t' = tx_open t \<and>
    (res = None \<longrightarrow> tx_status t' \<noteq> None) \<and>
    (\<forall>es. res = Some es \<longrightarrow> es = map (\<lambda>i. \<lparr>oe_object = i, oe_before = fmlookup (dr_root (tx_base t)) i,
      oe_after = fmlookup (tx_root t) i\<rparr>) ids)"
  using assms
proof (induction ids arbitrary: t t' res)
  case (Cons i ids)
  obtain u b ok where u: "resolve_edge (dr_root (tx_base t)) i t = (u, b, ok)" by (cases "resolve_edge (dr_root (tx_base t)) i t")
  note us = resolve_edge_simps [OF u]
  show ?case
  proof (cases ok)
    case False
    then show ?thesis using Cons.prems u us by simp
  next
    case True
    obtain v a ok' where v: "resolve_edge (tx_root u) i u = (v, a, ok')" by (cases "resolve_edge (tx_root u) i u")
    note vs = resolve_edge_simps [OF v]
    show ?thesis
    proof (cases ok')
      case False
      then show ?thesis using Cons.prems u us True v vs by simp
    next
      case ok': True
      obtain w r where w: "object_edits ids v = (w, r)" by (cases "object_edits ids v")
      show ?thesis using Cons.IH [OF w] Cons.prems u us(1-11) \<open>ok\<close> v vs(1-11) ok' w by (cases r) auto
    qed
  qed
qed simp

definition edits_of :: "transaction \<Rightarrow> object_edit list" where
  "edits_of t = map (\<lambda>i. \<lparr>oe_object = i, oe_before = fmlookup (dr_root (tx_base t)) i,
     oe_after = fmlookup (tx_root t) i\<rparr>) (tx_touched t)"

definition entry_of :: "transaction \<Rightarrow> journal_entry" where
  "entry_of t = \<lparr>je_name = tx_name t, je_coalesce_key = tx_coalesce t, je_objects = edits_of t,
     je_contents = tx_contents t, je_damage = tx_damage t\<rparr>"

lemma flush_damage_simps [simp]:
  "md_current (flush_damage ds m) = md_current m" "md_committed (flush_damage ds m) = md_committed m"
  "md_flushed (flush_damage ds m) = md_flushed m @ (if md_damage_sink m then [ds] else [])"
  "md_commit_sink (flush_damage ds m) = md_commit_sink m" "md_damage_sink (flush_damage ds m) = md_damage_sink m"
  by (simp_all add: flush_damage_def)

lemma commit_cases:
  assumes "commit t = (t', r)" "tx_open t" "tx_status t = None"
  obtains (published) "r = None" "md_current (tx_model t') = \<lparr>dr_root = tx_root t, dr_revision = tx_publish_revision t\<rparr>"
      "md_flushed (tx_model t') = md_flushed (tx_model t) @ (if md_damage_sink (tx_model t) then [tx_damage t] else [])"
      "md_committed (tx_model t') = md_committed (tx_model t) @ (if md_commit_sink (tx_model t) then [entry_of t] else [])"
      "\<not> tx_open t'" "md_commit_sink (tx_model t') = md_commit_sink (tx_model t)"
  | (refused) e where "r = Some e" "tx_model t' = tx_model t" "tx_status t' = Some e"
proof -
  show thesis
  proof (cases "md_commit_sink (tx_model t)")
    case False
    then show ?thesis using assms published by (auto simp: commit_def publish_def)
  next
    case True
    obtain u res where u: "object_edits (tx_touched t) t = (u, res)" by (cases "object_edits (tx_touched t) t")
    note us = object_edits_simps [OF u]
    show ?thesis
    proof (cases res)
      case None
      then obtain e where e: "tx_status u = Some e" using us by auto
      have "t' = u" "r = Some e" using assms True u None e by (auto simp: commit_def)
      then show ?thesis using e us by (intro refused) auto
    next
      case (Some es)
      then have "entry_of t = \<lparr>je_name = tx_name u, je_coalesce_key = tx_coalesce u, je_objects = es,
                je_contents = tx_contents u, je_damage = tx_damage u\<rparr>"
        using us by (simp add: entry_of_def edits_of_def)
      then show ?thesis using assms True u Some us published by (auto simp: commit_def Let_def publish_def)
    qed
  qed
qed

lemma commit_not_published:
  assumes "commit t = (t', Some e)"
  shows "tx_model t' = tx_model t \<and> tx_status t' = Some e"
proof (cases "tx_open t \<and> tx_status t = None")
  case True
  with assms show ?thesis by (elim commit_cases) auto
next
  case False
  with assms show ?thesis by (auto simp: commit_def)
qed

text \<open>
  C4: A commit that succeeds publishes exactly once: the revision is the base's plus one; an object the
  transaction did not touch keeps the very record of the base version; a touched object that is
  present carries the published revision; the damage set goes to the damage sink once; and the
  commit sink gets one entry, with for every touched object its record before and after.
\<close>

theorem commit_publishes_exactly:
  assumes "apply_edits es (transact arena name m) = Some t" "commit t = (t', None)"
  shows "md_current (tx_model t') = \<lparr>dr_root = tx_root t, dr_revision = dr_revision (md_current m) + 1\<rparr> \<and>
    (\<forall>i. i \<notin> set (tx_touched t) \<longrightarrow> fmlookup (tx_root t) i = fmlookup (dr_root (md_current m)) i) \<and>
    (\<forall>i. i \<in> set (tx_touched t) \<longrightarrow> contains_object (tx_root t) i \<longrightarrow>
      object_revision (tx_root t) i = dr_revision (md_current m) + 1) \<and>
    md_flushed (tx_model t') = md_flushed m @ (if md_damage_sink m then [tx_damage t] else []) \<and>
    md_committed (tx_model t') = md_committed m @ (if md_commit_sink m
      then [\<lparr>je_name = name, je_coalesce_key = tx_coalesce t,
             je_objects = map (\<lambda>i. \<lparr>oe_object = i, oe_before = fmlookup (dr_root (md_current m)) i,
               oe_after = fmlookup (tx_root t) i\<rparr>) (tx_touched t),
             je_contents = tx_contents t, je_damage = tx_damage t\<rparr>] else [])"
proof -
  have ext: "tx_extends (transact arena name m) t" using assms(1) by (rule apply_edits_extends)
  have ok: "tx_ok t" using ext transact_ok by (simp add: tx_extends_def)
  have o: "tx_open t" "tx_status t = None"
  proof -
    show o: "tx_open t" using ext by (simp add: tx_extends_def)
    show "tx_status t = None" using assms(2) o by (auto simp: commit_def split: if_splits)
  qed
  from assms(2) o show ?thesis
  proof (cases rule: commit_cases)
    case published
    then show ?thesis
      using ext ok unfolding tx_extends_def tx_ok_def
      by (auto simp: entry_of_def edits_of_def contains_object_def object_revision_def)
  qed simp
qed

text \<open>
  C7: A transaction that does not publish leaves nothing behind that a reader can see. When a commit is refused, by a
  failed mutator or a failed resolve, when the transaction is aborted, and when it is aborted after a refused commit, the
  current version, the damage flushed and the entries handed on are those before the transaction, and they stay so
  however many commits of it follow.
\<close>

theorem unpublished_leaves_no_trace:
  assumes "apply_edits es (transact arena name m) = Some t"
    "u = fst (commit t) \<and> snd (commit t) \<noteq> None \<or> u = tx_abort t \<or> u = tx_abort (fst (commit t)) \<and> snd (commit t) \<noteq> None"
    "v = ((fst \<circ> commit) ^^ k) u"
  shows "md_current (tx_model v) = md_current m \<and> md_flushed (tx_model v) = md_flushed m \<and>
    md_committed (tx_model v) = md_committed m"
proof -
  have ext: "tx_extends (transact arena name m) t" using assms(1) by (rule apply_edits_extends)
  have c: "tx_model (fst (commit t)) = tx_model t" "tx_status (fst (commit t)) \<noteq> None" if "snd (commit t) \<noteq> None"
    using commit_not_published [of t "fst (commit t)"] that by (auto simp: prod_eq_iff)
  have a: "tx_model (tx_abort w) = tx_model w" "\<not> tx_open (tx_abort w)" for w
    by (simp_all add: tx_abort_def)
  have "tx_model u = tx_model t \<and> (\<not> tx_open u \<or> tx_status u \<noteq> None)" using assms(2) c a by auto
  then have u: "tx_model u = tx_model t" "fst (commit u) = u" by (auto simp: commit_def)
  have "((fst \<circ> commit) ^^ k) u = u" by (induction k) (simp_all add: u(2))
  then show ?thesis using ext u(1) assms(3) by (simp add: tx_extends_def)
qed

definition never_full :: "nat \<Rightarrow> pool_error option" where "never_full n = None"

lemma commit_publishes_exactly_witness:
  "md_current (tx_model (fst (commit (the (apply_edits [AddContent 3, AddComposition (Fin 4) (Fin 5)] (transact never_full ''add'' model_new)))))) =
     \<lparr>dr_root = fmupd 2 \<lparr>or_id = 2, or_revision = 1, or_body = CompositionBody (composition_record_new (Fin 4) (Fin 5))\<rparr>
        (fmupd 1 \<lparr>or_id = 1, or_revision = 1, or_body = ContentBody (content_record_new 3)\<rparr> fmempty), dr_revision = 1\<rparr>"
proof -
  let ?t0 = "transact never_full ''add'' model_new"
  define t where "t = the (apply_edits [AddContent 3, AddComposition (Fin 4) (Fin 5)] ?t0)"
  have e: "apply_edits [AddContent 3, AddComposition (Fin 4) (Fin 5)] ?t0 = Some t"
    unfolding t_def by simp
  have t: "tx_root t = fmupd 2 \<lparr>or_id = 2, or_revision = 1, or_body = CompositionBody (composition_record_new (Fin 4) (Fin 5))\<rparr>
        (fmupd 1 \<lparr>or_id = 1, or_revision = 1, or_body = ContentBody (content_record_new 3)\<rparr> fmempty)"
    "tx_open t" "tx_status t = None" "\<not> md_commit_sink (tx_model t)"
    unfolding t_def
    by (simp_all add: add_content_def transact_def model_new_def allocate_id_def add_record_def put_record_def
      create_record_def bind_record_def pool_call_def never_full_def touch_def tx_add_damage_def add_composition_def
      add_composition_at_def numeral_2_eq_2)
  have c: "commit t = (fst (commit t), None)" using t by (simp add: commit_def)
  show ?thesis
    using commit_publishes_exactly [OF e c] t(1) unfolding t_def [symmetric]
    by (simp add: model_new_def)
qed

definition full_at :: "nat \<Rightarrow> nat \<Rightarrow> pool_error option" where
  "full_at k n = (if n \<ge> k then Some OutOfMemory else None)"

lemma unpublished_leaves_no_trace_witness:
  "md_current (tx_model (((fst \<circ> commit) ^^ 3) (fst (commit (fst (add_content 3 (transact (full_at 1) ''add'' model_new))))))) = md_current model_new"
proof -
  let ?t = "fst (add_content 3 (transact (full_at 1) ''add'' model_new))"
  have e: "apply_edits [AddContent 3] (transact (full_at 1) ''add'' model_new) = Some ?t" by simp
  have s: "tx_status ?t = Some OutOfMemory"
    by (simp add: add_content_def transact_def model_new_def allocate_id_def add_record_def put_record_def
      create_record_def bind_record_def pool_call_def full_at_def)
  have "snd (commit ?t) \<noteq> None" using s by (simp add: commit_def)
  then show ?thesis using unpublished_leaves_no_trace [OF e, of "fst (commit ?t)" _ 3] by blast
qed

subsection \<open>What a step writes\<close>

text \<open>The fields a write leaves alone; a step that does not succeed leaves an error as the status.\<close>

definition same_ids :: "transaction \<Rightarrow> transaction \<Rightarrow> bool" where
  "same_ids t t' \<longleftrightarrow> tx_publish_revision t' = tx_publish_revision t \<and>
     tx_model t' = tx_model t \<and> tx_status t' = tx_status t"

lemma same_ids_refl: "same_ids t t"
  by (simp add: same_ids_def)

lemma same_ids_trans: "same_ids t u \<Longrightarrow> same_ids u v \<Longrightarrow> same_ids t v"
  by (simp add: same_ids_def)

lemma touch_simps [simp]:
  "tx_root (touch i t) = tx_root t" "tx_publish_revision (touch i t) = tx_publish_revision t"
  "tx_model (touch i t) = tx_model t" "tx_status (touch i t) = tx_status t"
  by (simp_all add: touch_def)

lemma bind_record_ok:
  assumes "bind_record i oid b t = (t', True)"
  shows "tx_root t' = fmupd i \<lparr>or_id = oid, or_revision = tx_publish_revision t, or_body = b\<rparr> (tx_root t) \<and> same_ids t t'"
  using assms unfolding bind_record_def
  by (auto split: prod.splits bool.splits simp: same_ids_def pool_call_simps)

lemma put_record_ok:
  assumes "put_record i oid b t = (t', True)"
  shows "tx_root t' = fmupd i \<lparr>or_id = oid, or_revision = tx_publish_revision t, or_body = b\<rparr> (tx_root t) \<and> same_ids t t'"
  using assms unfolding put_record_def create_record_def
  by (auto split: prod.splits bool.splits simp: same_ids_def pool_call_simps dest!: bind_record_ok)

lemma erase_record_ok:
  assumes "erase_record i t = (t', True)"
  shows "tx_root t' = fmdrop i (tx_root t) \<and> same_ids t t'"
  using assms unfolding erase_record_def
  by (auto split: prod.splits bool.splits simp: same_ids_def pool_call_simps)

lemma failed_steps:
  "bind_record i oid b t = (t', False) \<Longrightarrow> tx_status t' \<noteq> None"
  "put_record i oid b t = (t', False) \<Longrightarrow> tx_status t' \<noteq> None"
  "erase_record i t = (t', False) \<Longrightarrow> tx_status t' \<noteq> None"
  unfolding put_record_def create_record_def bind_record_def erase_record_def
  by (auto split: prod.splits bool.splits dest!: pool_call_simps(9) simp: pool_call_simps)

lemma erase_records_ok:
  "erase_records ids t = (t', ok) \<Longrightarrow> (ok \<longrightarrow> same_ids t t' \<and>
     (\<forall>j. fmlookup (tx_root t') j = (if j \<in> set ids then None else fmlookup (tx_root t) j))) \<and>
   (\<not> ok \<longrightarrow> tx_status t' \<noteq> None)"
proof (induction ids arbitrary: t)
  case (Cons i ids)
  obtain u k where u: "erase_record i t = (u, k)" by (cases "erase_record i t")
  show ?case
  proof (cases k)
    case True
    then show ?thesis using Cons.prems u erase_record_ok [of i t u] Cons.IH [of u] by (auto intro: same_ids_trans)
  next
    case False
    then show ?thesis using Cons.prems u failed_steps(3) [of i t u] by simp
  qed
qed (auto simp: same_ids_refl)

lemma allocate_ids_ok:
  "allocate_ids n t = (t', ids) \<Longrightarrow>
   t' = t\<lparr>tx_model := (tx_model t)\<lparr>md_next_id := md_next_id (tx_model t) + n\<rparr>\<rparr> \<and>
   ids = [md_next_id (tx_model t)..<md_next_id (tx_model t) + n]"
proof (induction n arbitrary: t t' ids)
  case (Suc n)
  define u where "u = t\<lparr>tx_model := (tx_model t)\<lparr>md_next_id := md_next_id (tx_model t) + 1\<rparr>\<rparr>"
  obtain v ks where v: "allocate_ids n u = (v, ks)" by (cases "allocate_ids n u")
  have "t' = v" "ids = md_next_id (tx_model t) # ks"
    using Suc.prems v by (simp_all add: allocate_id_def u_def)
  then show ?case using Suc.IH [OF v] by (simp add: u_def upt_conv_Cons del: upt_Suc)
qed simp

lemma write_chunks_ok:
  "write_chunks oo oi no ids ps t = (t', ok) \<Longrightarrow> distinct ids \<Longrightarrow> distinct ps \<Longrightarrow> set ps \<subseteq> {..<length ids} \<Longrightarrow>
   (ok \<longrightarrow> same_ids t t' \<and>
     (\<forall>p \<in> set ps. \<not> chunk_unchanged oo oi no ids p \<longrightarrow> fmlookup (tx_root t') (ids ! p) =
       Some \<lparr>or_id = ids ! p, or_revision = tx_publish_revision t,
         or_body = OrderBody (order_chunk_of (chunk_slice no p) (next_chunk ids p))\<rparr>) \<and>
     (\<forall>j. j \<notin> {ids ! p | p. p \<in> set ps \<and> \<not> chunk_unchanged oo oi no ids p} \<longrightarrow>
       fmlookup (tx_root t') j = fmlookup (tx_root t) j)) \<and>
   (\<not> ok \<longrightarrow> tx_status t' \<noteq> None)"
proof (induction ps arbitrary: t)
  case (Cons p ps)
  show ?case
  proof (cases "chunk_unchanged oo oi no ids p")
    case True
    then show ?thesis using Cons.IH [of t] Cons.prems by auto
  next
    case False
    let ?b = "OrderBody (order_chunk_of (chunk_slice no p) (next_chunk ids p))"
    obtain u k where u: "put_record (ids ! p) (ids ! p) ?b t = (u, k)" by (cases "put_record (ids ! p) (ids ! p) ?b t")
    show ?thesis
    proof (cases k)
      case True
      have w: "write_chunks oo oi no ids ps u = (t', ok)" using Cons.prems(1) False u True by simp
      note ih = Cons.IH [OF w Cons.prems(2)]
      have ne: "ids ! p \<noteq> ids ! q" if "q \<in> set ps" for q
        using that Cons.prems nth_eq_iff_index_eq [of ids p q] by auto
      have ih': "(ok \<longrightarrow> same_ids u t' \<and>
          (\<forall>p \<in> set ps. \<not> chunk_unchanged oo oi no ids p \<longrightarrow> fmlookup (tx_root t') (ids ! p) =
            Some \<lparr>or_id = ids ! p, or_revision = tx_publish_revision u,
              or_body = OrderBody (order_chunk_of (chunk_slice no p) (next_chunk ids p))\<rparr>) \<and>
          (\<forall>j. j \<notin> {ids ! p | p. p \<in> set ps \<and> \<not> chunk_unchanged oo oi no ids p} \<longrightarrow>
            fmlookup (tx_root t') j = fmlookup (tx_root u) j)) \<and> (\<not> ok \<longrightarrow> tx_status t' \<noteq> None)"
        using ih Cons.prems(3,4) by simp
      have root: "tx_root u = fmupd (ids ! p) \<lparr>or_id = ids ! p, or_revision = tx_publish_revision t, or_body = ?b\<rparr> (tx_root t)"
        and s: "same_ids t u" using put_record_ok [of "ids ! p" "ids ! p" ?b t u] u True by simp_all
      have "ids ! p \<notin> {ids ! q | q. q \<in> set ps \<and> \<not> chunk_unchanged oo oi no ids q}" using ne by auto
      then have p: "ok \<longrightarrow> fmlookup (tx_root t') (ids ! p) = Some \<lparr>or_id = ids ! p, or_revision = tx_publish_revision t, or_body = ?b\<rparr>"
        using ih' root by simp
      have W: "{ids ! q | q. q \<in> set (p # ps) \<and> \<not> chunk_unchanged oo oi no ids q} =
          insert (ids ! p) {ids ! q | q. q \<in> set ps \<and> \<not> chunk_unchanged oo oi no ids q}"
        using False by auto
      have "ok \<longrightarrow> (\<forall>j. j \<notin> {ids ! q | q. q \<in> set (p # ps) \<and> \<not> chunk_unchanged oo oi no ids q} \<longrightarrow>
            fmlookup (tx_root t') j = fmlookup (tx_root t) j)"
      proof (intro impI allI)
        fix j assume "ok" and j: "j \<notin> {ids ! q | q. q \<in> set (p # ps) \<and> \<not> chunk_unchanged oo oi no ids q}"
        then have "fmlookup (tx_root t') j = fmlookup (tx_root u) j" using ih' unfolding W by blast
        moreover have "j \<noteq> ids ! p" using j unfolding W by blast
        ultimately show "fmlookup (tx_root t') j = fmlookup (tx_root t) j" using root by simp
      qed
      moreover have "tx_publish_revision u = tx_publish_revision t" using s by (simp add: same_ids_def)
      ultimately show ?thesis using ih' p same_ids_trans [OF s] by (simp only: set_simps) blast
    next
      case k: False
      then show ?thesis using Cons.prems(1) False u failed_steps(2) [of "ids ! p" "ids ! p" ?b t u] by simp
    qed
  qed
qed (simp add: same_ids_refl)

subsection \<open>How an order is stored\<close>

definition chunk_count :: "nat list \<Rightarrow> nat" where
  "chunk_count order = (length order + max_inline_layers - 1) div max_inline_layers"

definition chunks_stored :: "doc \<Rightarrow> nat list \<Rightarrow> nat list \<Rightarrow> bool" where
  "chunks_stored d order ids \<longleftrightarrow> length ids = chunk_count order \<and> distinct ids \<and> 0 \<notin> set ids \<and>
     (\<forall>p < length ids. \<exists>r. fmlookup d (ids ! p) = Some r \<and>
       or_body r = OrderBody (order_chunk_of (chunk_slice order p) (next_chunk ids p)))"

definition order_stored :: "doc \<Rightarrow> composition_record \<Rightarrow> nat list \<Rightarrow> nat list \<Rightarrow> bool" where
  "order_stored d c order ids \<longleftrightarrow> cp_layer_count c = length order \<and>
     (if length order \<le> max_inline_layers
      then ids = [] \<and> cp_spill_root c = 0 \<and> cp_layers c = order @ replicate (max_inline_layers - length order) 0
      else chunks_stored d order ids \<and> cp_spill_root c = ids ! 0 \<and> cp_layers c = replicate max_inline_layers 0)"

lemma chunk_slices_concat:
  "concat (map (chunk_slice order) [p..<p + k]) = take (k * max_inline_layers) (drop (p * max_inline_layers) order)"
proof (induction k arbitrary: p)
  case (Suc k)
  have "[p..<p + Suc k] = p # [Suc p..<Suc p + k]" by (simp add: upt_conv_Cons del: upt_Suc)
  then have "concat (map (chunk_slice order) [p..<p + Suc k]) = chunk_slice order p @
      take (k * max_inline_layers) (drop (Suc p * max_inline_layers) order)"
    using Suc [of "Suc p"] by simp
  also have "\<dots> = take (Suc k * max_inline_layers) (drop (p * max_inline_layers) order)"
    by (simp add: chunk_slice_def take_add add.commute)
  finally show ?case .
qed simp

lemma chunk_count_covers: "length order \<le> chunk_count order * max_inline_layers"
  by (simp add: chunk_count_def max_inline_layers_def)

lemma order_members_slice: "order_members (OrderBody (order_chunk_of ms n)) = ms"
  by (simp add: order_members_def order_chunk_of_def)

lemma written_chain:
  assumes "\<forall>p < length ids. \<exists>r. fmlookup d (ids ! p) = Some r \<and> or_body r = fill p (next_chunk ids p)"
    "0 \<notin> set ids" "\<And>p nxt. sel (fill p nxt) = Some nxt" "k \<le> length ids"
  shows "chain_of sel d (if k < length ids then ids ! k else 0) (map (\<lambda>p. (ids ! p, fill p (next_chunk ids p))) [k..<length ids])"
  using assms(4)
proof (induction "length ids - k" arbitrary: k)
  case 0
  then show ?case by simp
next
  case (Suc n)
  then have k: "k < length ids" by simp
  then obtain r where r: "fmlookup d (ids ! k) = Some r" "or_body r = fill k (next_chunk ids k)"
    using assms(1) by blast
  have "ids ! k \<noteq> 0" using assms(2) k by (metis nth_mem)
  have nc: "next_chunk ids k = (if Suc k < length ids then ids ! Suc k else 0)" by (simp add: next_chunk_def)
  have "chain_of sel d (next_chunk ids k) (map (\<lambda>p. (ids ! p, fill p (next_chunk ids p))) [Suc k..<length ids])"
    using Suc.hyps(1) [of "Suc k"] Suc.hyps(2) k unfolding nc by simp
  with \<open>ids ! k \<noteq> 0\<close> show ?case
    using r k assms(3) by (simp add: upt_conv_Cons)
qed

lemma read_chunks_stored:
  assumes "chunks_stored d order ids" "order \<noteq> []"
  shows "read_chunk_chain order_next d (ids ! 0) =
    Some (map (\<lambda>p. (ids ! p, OrderBody (order_chunk_of (chunk_slice order p) (next_chunk ids p)))) [0..<length ids])"
proof -
  have "0 < length ids" using assms unfolding chunks_stored_def chunk_count_def max_inline_layers_def
    by (cases order) auto
  then show ?thesis
    using written_chain [of ids d "\<lambda>p n. OrderBody (order_chunk_of (chunk_slice order p) n)" order_next 0] assms(1)
    by (simp add: chunks_stored_def order_next_def order_chunk_of_def read_chunk_chain_of)
qed

lemma read_order_stored:
  assumes "order_stored d c order ids"
  shows "read_layer_order d c = Some (order, ids)"
proof (cases "length order \<le> max_inline_layers")
  case True
  then show ?thesis using assms by (simp add: order_stored_def read_layer_order_def)
next
  case False
  then have c: "chunks_stored d order ids" "cp_spill_root c = ids ! 0" "order \<noteq> []"
    using assms by (auto simp: order_stored_def)
  have "ids ! 0 \<noteq> 0"
    using c(1,3) unfolding chunks_stored_def chunk_count_def max_inline_layers_def
    by (cases order) (auto simp: in_set_conv_nth)
  moreover have "concat (map (chunk_slice order) [0..<length ids]) = order"
    using chunk_slices_concat [of order 0 "length ids"] c(1) chunk_count_covers [of order]
    by (simp add: chunks_stored_def)
  moreover have "map (\<lambda>p. ids ! p) [0..<length ids] = ids" by (rule map_nth)
  ultimately show ?thesis
    using c read_chunks_stored [OF c(1,3)]
    by (simp add: read_layer_order_def o_def order_members_slice)
qed

lemma order_stored_frame:
  assumes "order_stored d c order ids" "\<And>i. i \<in> set ids \<Longrightarrow> fmlookup d' i = fmlookup d i"
  shows "order_stored d' c order ids"
  using assms unfolding order_stored_def chunks_stored_def by (auto simp: nth_mem)

text \<open>The ids of a document are below the counter: a fresh id names nothing.\<close>

definition ids_below :: "doc \<Rightarrow> nat \<Rightarrow> bool" where
  "ids_below d n \<longleftrightarrow> 0 < n \<and> (\<forall>j r. fmlookup d j = Some r \<longrightarrow> 0 < j \<and> j < n)"

definition membership_stored ::
  "nat \<Rightarrow> composition_record \<Rightarrow> nat list \<Rightarrow> nat list \<Rightarrow> nat list \<Rightarrow> doc \<Rightarrow> nat \<Rightarrow> doc \<Rightarrow> nat \<Rightarrow> bool" where
  "membership_stored i base oo oi no d n d' n' \<longleftrightarrow> (\<exists>c ids.
     find_composition d' i = Some c \<and>
     c = base\<lparr>cp_layer_count := cp_layer_count c, cp_layers := cp_layers c, cp_spill_root := cp_spill_root c\<rparr> \<and>
     order_stored d' c no ids \<and> set ids \<subseteq> set oi \<union> {n..<n'} \<and>
     (\<forall>j. j \<noteq> i \<longrightarrow> j \<notin> set oi \<longrightarrow> j \<notin> set ids \<longrightarrow> fmlookup d' j = fmlookup d j) \<and>
     (\<forall>p < length ids. chunk_unchanged oo oi no ids p \<longrightarrow> fmlookup d' (ids ! p) = fmlookup d (ids ! p)))"

lemma stored_ids:
  assumes "order_stored d c order ids" "ids_below d n"
  shows "distinct ids" "\<And>j. j \<in> set ids \<Longrightarrow> 0 < j \<and> j < n"
proof -
  show "distinct ids" using assms(1) by (auto simp: order_stored_def chunks_stored_def split: if_splits)
  fix j assume "j \<in> set ids"
  then obtain p where "p < length ids" "j = ids ! p" by (auto simp: in_set_conv_nth)
  then have "fmlookup d j \<noteq> None" using assms(1)
    by (auto simp: order_stored_def chunks_stored_def split: if_splits)
  then show "0 < j \<and> j < n" using assms(2) by (auto simp: ids_below_def)
qed

lemma store_inline_ok:
  assumes "length no \<le> max_inline_layers" "store_membership i bid base oo oi no t = (t', True)"
    "order_stored (tx_root t) base oo oi" "ids_below (tx_root t) (md_next_id (tx_model t))"
  shows "membership_stored i base oo oi no (tx_root t) (md_next_id (tx_model t)) (tx_root t') (md_next_id (tx_model t'))"
proof -
  let ?c = "base\<lparr>cp_layer_count := length no, cp_spill_root := 0,
    cp_layers := no @ replicate (max_inline_layers - length no) 0\<rparr>"
  obtain u k where u: "erase_records oi t = (u, k)" by (cases "erase_records oi t")
  have k: "k" using assms(1,2) u by (cases k) (simp_all add: store_membership_def Let_def)
  have p: "put_record i bid (CompositionBody ?c) u = (t', True)"
    using assms(1,2) u k by (simp add: store_membership_def Let_def)
  note e = erase_records_ok [OF u] and r = put_record_ok [OF p]
  have f: "find_composition (tx_root t') i = Some ?c" using r by (simp add: find_composition_def)
  have "fmlookup (tx_root t') j = fmlookup (tx_root t) j" if "j \<noteq> i" "j \<notin> set oi" for j
    using e k r that by simp
  moreover have "order_stored (tx_root t') ?c no []" using assms(1) by (simp add: order_stored_def)
  ultimately show ?thesis using f unfolding membership_stored_def
    by (intro exI [of _ ?c] exI [of _ "[]"]) simp
qed

lemma store_spilled_ok:
  assumes "length no > max_inline_layers" "store_membership i bid base oo oi no t = (t', True)"
    "order_stored (tx_root t) base oo oi" "ids_below (tx_root t) (md_next_id (tx_model t))"
    "i \<notin> set oi" "i < md_next_id (tx_model t)"
  shows "membership_stored i base oo oi no (tx_root t) (md_next_id (tx_model t)) (tx_root t') (md_next_id (tx_model t'))"
proof -
  let ?n = "md_next_id (tx_model t)"
  define cn where "cn = chunk_count no"
  define ids where "ids = take cn oi @ [?n..<?n + (cn - length oi)]"
  define t1 where "t1 = t\<lparr>tx_model := (tx_model t)\<lparr>md_next_id := ?n + (cn - length oi)\<rparr>\<rparr>"
  let ?c = "base\<lparr>cp_layer_count := length no, cp_spill_root := ids ! 0, cp_layers := replicate max_inline_layers 0\<rparr>"
  have al: "allocate_ids (cn - length oi) t = (t1, [?n..<?n + (cn - length oi)])"
    using allocate_ids_ok [of "cn - length oi" t] by (cases "allocate_ids (cn - length oi) t") (simp add: t1_def)
  obtain t2 k2 where t2: "erase_records (drop cn oi) t1 = (t2, k2)" by (cases "erase_records (drop cn oi) t1")
  obtain t3 k3 where t3: "write_chunks oo oi no ids [0..<cn] t2 = (t3, k3)" by (cases "write_chunks oo oi no ids [0..<cn] t2")
  have run: "store_membership i bid base oo oi no t = (case (t2, k2) of (t, False) \<Rightarrow> (t, False)
      | (t, True) \<Rightarrow> (case write_chunks oo oi no ids [0..<cn] t of (t, False) \<Rightarrow> (t, False)
        | (t, True) \<Rightarrow> put_record i bid (CompositionBody ?c) t))"
    using assms(1) al t2 unfolding store_membership_def Let_def ids_def cn_def chunk_count_def by simp
  have k: "k2" "k3" using assms(2) t3 unfolding run by (cases k2; cases k3; simp)+
  then have p: "put_record i bid (CompositionBody ?c) t3 = (t', True)" using assms(2) t3 unfolding run by simp
  have old: "distinct oi" "\<And>j. j \<in> set oi \<Longrightarrow> 0 < j \<and> j < ?n" using stored_ids [OF assms(3,4)] by blast+
  have len: "length ids = cn" by (simp add: ids_def)
  have d: "distinct ids" unfolding ids_def using old by (auto dest: in_set_takeD) (fastforce dest: in_set_takeD)
  have pos: "0 \<notin> set ids" unfolding ids_def using old assms(4) by (auto simp: ids_below_def dest: in_set_takeD)
  have sub: "set ids \<subseteq> set oi \<union> {?n..<?n + (cn - length oi)}" unfolding ids_def by (auto dest: in_set_takeD)
  note w = write_chunks_ok [OF t3 d _ , simplified len] and e = erase_records_ok [OF t2] and r = put_record_ok [OF p]
  have i: "i \<notin> set ids" using sub assms(5,6) by auto
  have root2: "fmlookup (tx_root t2) j = (if j \<in> set (drop cn oi) then None else fmlookup (tx_root t) j)" for j
    using e k by (simp add: t1_def)
  have w1: "fmlookup (tx_root t3) (ids ! p) = Some \<lparr>or_id = ids ! p, or_revision = tx_publish_revision t2,
         or_body = OrderBody (order_chunk_of (chunk_slice no p) (next_chunk ids p))\<rparr>"
    if "p < cn" "\<not> chunk_unchanged oo oi no ids p" for p
    using w that k by (simp add: atLeast0LessThan)
  have w2: "fmlookup (tx_root t3) j = fmlookup (tx_root t2) j"
    if "\<And>p. p < cn \<Longrightarrow> j = ids ! p \<Longrightarrow> chunk_unchanged oo oi no ids p" for j
  proof -
    have "j \<notin> {ids ! p | p. p \<in> set [0..<cn] \<and> \<not> chunk_unchanged oo oi no ids p}" using that by auto
    then show ?thesis using w k by (simp add: atLeast0LessThan)
  qed
  have inj: "q = p" if "p < cn" "q < cn" "ids ! p = ids ! q" for p q
    using d len that by (simp add: nth_eq_iff_index_eq)
  have unch: "fmlookup (tx_root t3) (ids ! p) = fmlookup (tx_root t) (ids ! p) \<and> p < length oi \<and> ids ! p = oi ! p"
    if p: "p < cn" "chunk_unchanged oo oi no ids p" for p
  proof -
    have q: "p < length oi" "ids ! p = oi ! p" using p by (auto simp: chunk_unchanged_def ids_def nth_append)
    have "ids ! p \<notin> set (drop cn oi)" using old(1) q p(1)
      by (auto simp: in_set_conv_nth nth_eq_iff_index_eq)
    then show ?thesis using w2 [of "ids ! p"] root2 q p inj by metis
  qed
  have stored: "\<exists>r. fmlookup (tx_root t3) (ids ! p) = Some r \<and>
      or_body r = OrderBody (order_chunk_of (chunk_slice no p) (next_chunk ids p))" if p: "p < cn" for p
  proof (cases "chunk_unchanged oo oi no ids p")
    case True
    then have "oo \<noteq> [] \<and> chunks_stored (tx_root t) oo oi" using assms(3) unch [OF p True]
      by (auto simp: order_stored_def split: if_splits)
    then obtain r where f: "fmlookup (tx_root t) (oi ! p) = Some r"
      and b: "or_body r = OrderBody (order_chunk_of (chunk_slice oo p) (next_chunk oi p))"
      using unch [OF p True] unfolding chunks_stored_def by blast
    have "or_body r = OrderBody (order_chunk_of (chunk_slice no p) (next_chunk ids p))"
      using b True unfolding chunk_unchanged_def by metis
    moreover have "fmlookup (tx_root t3) (ids ! p) = Some r" using f unch [OF p True] by metis
    ultimately show ?thesis by blast
  next
    case False
    then show ?thesis using w1 [OF p] by simp
  qed
  have frame3: "fmlookup (tx_root t') j = fmlookup (tx_root t3) j" if "j \<noteq> i" for j
    using r that by simp
  have st: "order_stored (tx_root t') ?c no ids"
    using assms(1) len d pos stored frame3 i
    by (auto simp: order_stored_def chunks_stored_def cn_def in_set_conv_nth)
  have frame: "fmlookup (tx_root t') j = fmlookup (tx_root t) j" if "j \<noteq> i" "j \<notin> set oi" "j \<notin> set ids" for j
    using that frame3 w2 [of j] root2 len by (metis in_set_dropD nth_mem)
  have share: "fmlookup (tx_root t') (ids ! p) = fmlookup (tx_root t) (ids ! p)"
    if "p < length ids" "chunk_unchanged oo oi no ids p" for p
    using that unch frame3 i len by (metis nth_mem)
  have "md_next_id (tx_model t') = ?n + (cn - length oi)"
    using r e w k by (simp add: same_ids_def t1_def atLeast0LessThan)
  then show ?thesis
    using st frame share sub r unfolding membership_stored_def
    by (intro exI [of _ ?c] exI [of _ ids]) (simp add: find_composition_def)
qed


lemma write_chunks_fails: "write_chunks oo oi no ids ps t = (t', False) \<Longrightarrow> tx_status t' \<noteq> None"
  by (induction ps arbitrary: t) (auto split: prod.splits bool.splits if_splits dest: failed_steps)

lemma store_membership_fails:
  assumes "store_membership i bid base oo oi no t = (t', False)"
  shows "tx_status t' \<noteq> None"
  using assms unfolding store_membership_def Let_def
  by (auto split: prod.splits bool.splits if_splits dest!: failed_steps erase_records_ok write_chunks_fails)

lemma store_membership_ok:
  assumes "store_membership i bid base oo oi no t = (t', True)" "order_stored (tx_root t) base oo oi"
    "ids_below (tx_root t) (md_next_id (tx_model t))" "find_composition (tx_root t) i = Some base"
  shows "membership_stored i base oo oi no (tx_root t) (md_next_id (tx_model t)) (tx_root t') (md_next_id (tx_model t'))"
proof -
  obtain r where r: "fmlookup (tx_root t) i = Some r" "or_body r = CompositionBody base"
    using assms(4) by (auto simp: find_composition_def split: option.splits record_body.splits)
  have "i \<notin> set oi"
  proof
    assume "i \<in> set oi"
    then have "\<exists>c. or_body r = OrderBody c" using assms(2) r(1)
      by (auto simp: order_stored_def chunks_stored_def in_set_conv_nth split: if_splits)
    then show False using r(2) by simp
  qed
  moreover have "i < md_next_id (tx_model t)" using assms(3) r(1) by (auto simp: ids_below_def)
  ultimately show ?thesis using store_inline_ok store_spilled_ok assms(1-3) by (metis linorder_not_le)
qed

text \<open>The list a membership edit asks for; \<open>None\<close> where the edit does not apply.\<close>

fun order_after :: "edit \<Rightarrow> doc \<Rightarrow> nat list \<Rightarrow> nat list option" where
  "order_after (AttachLayer c l n) d order = (if contains_object d l then Some (insert_at (min n (length order)) l order) else None)"
| "order_after (DetachLayer c l) d order = (if l \<in> set order then Some (remove1 l order) else None)"
| "order_after (ReorderLayer c f n) d order =
     (if f < length order \<and> n < length order \<and> f \<noteq> n
      then Some (insert_at n (order ! f) (take f order @ drop (f + 1) order)) else None)"
| "order_after _ d order = None"

fun ordered_composition :: "edit \<Rightarrow> nat option" where
  "ordered_composition (AttachLayer c l n) = Some c"
| "ordered_composition (DetachLayer c l) = Some c"
| "ordered_composition (ReorderLayer c f n) = Some c"
| "ordered_composition _ = None"

lemma apply_order_edit:
  assumes "ordered_composition e = Some i" "tx_status t = None"
  shows "apply_edit e t = edit_order i (order_after e (tx_root t)) t"
  using assms by (cases e) (auto simp: attach_layer_def detach_layer_def reorder_layer_def intro!: arg_cong2 [where f = "edit_order i"])

subsection \<open>An arena that refuses nothing\<close>

definition grants :: "transaction \<Rightarrow> bool" where
  "grants t \<longleftrightarrow> tx_status t = None \<and> (\<forall>n. tx_arena t n = None)"

lemma grants_simps [simp]:
  "grants (touch i t) = grants t" "grants (tx_add_damage d t) = grants t" "grants (retain_state i s t) = grants t"
  "grants (t\<lparr>tx_root := r\<rparr>) = grants t" "grants (t\<lparr>tx_model := m\<rparr>) = grants t" "grants (t\<lparr>tx_calls := n\<rparr>) = grants t"
  by (simp_all add: grants_def touch_def tx_add_damage_def retain_state_def)

lemma grants_pool_call: "grants t \<Longrightarrow> pool_call t = (t\<lparr>tx_calls := tx_calls t + 1\<rparr>, True)"
  by (simp add: grants_def pool_call_def)

lemma grants_record:
  assumes "grants t"
  shows "\<exists>t'. bind_record i oid b t = (t', True) \<and> grants t'" "\<exists>t'. put_record i oid b t = (t', True) \<and> grants t'"
    "\<exists>t'. erase_record i t = (t', True) \<and> grants t'" "\<exists>t'. put_content i oid c t = (t', True) \<and> grants t'"
  using assms grants_pool_call
  by (simp_all add: bind_record_def put_record_def create_record_def erase_record_def put_content_def)

lemma grants_erase_records: "grants t \<Longrightarrow> \<exists>t'. erase_records ids t = (t', True) \<and> grants t'"
proof (induction ids arbitrary: t)
  case (Cons i ids)
  then show ?case using grants_record(3) [of t i] by auto
qed simp

lemma grants_allocate_ids: "grants t \<Longrightarrow> grants (fst (allocate_ids n t))"
  by (induction n arbitrary: t) (simp_all add: allocate_id_def split_def Let_def)

lemma grants_write_chunks: "grants t \<Longrightarrow> \<exists>t'. write_chunks old_order old_ids new_order ids ps t = (t', True) \<and> grants t'"
proof (induction ps arbitrary: t)
  case (Cons p ps)
  then show ?case
    using grants_record(2) [of t "ids ! p" "ids ! p" "OrderBody (order_chunk_of (chunk_slice new_order p) (next_chunk ids p))"] by auto
qed simp

lemma grants_write_chain: "grants t \<Longrightarrow> \<exists>t'. write_chain ids fill ps t = (t', True) \<and> grants t'"
proof (induction ps arbitrary: t)
  case (Cons p ps)
  then show ?case using grants_record(2) [of t "ids ! p" "ids ! p" "fill p (next_chunk ids p)"] by auto
qed simp

lemma grants_store_membership:
  assumes "grants t"
  shows "\<exists>t'. store_membership i base_id base old_order old_ids new_order t = (t', True) \<and> grants t'"
proof (cases "length new_order \<le> max_inline_layers")
  case True
  obtain u where "erase_records old_ids t = (u, True)" "grants u" using grants_erase_records [OF assms] by blast
  then show ?thesis using grants_record(2) True by (simp add: store_membership_def Let_def)
next
  case False
  define n where "n = (length new_order + max_inline_layers - 1) div max_inline_layers"
  obtain u fresh where a: "allocate_ids (n - length old_ids) t = (u, fresh)" "grants u"
    using grants_allocate_ids [OF assms, of "n - length old_ids"] by (cases "allocate_ids (n - length old_ids) t") auto
  obtain v where b: "erase_records (drop n old_ids) u = (v, True)" "grants v" using grants_erase_records [OF a(2)] by blast
  obtain w where "write_chunks old_order old_ids new_order (take n old_ids @ fresh) [0..<n] v = (w, True)" "grants w"
    using grants_write_chunks [OF b(2)] by blast
  then show ?thesis using grants_record(2) False a b by (simp add: store_membership_def Let_def n_def [symmetric] del: One_nat_def)
qed

text \<open>Where the arena grants every request, a mutator that returns has no error to report.\<close>

lemma grants_membership:
  assumes "grants t" "ordered_composition e = Some i" "apply_edit e t = Some t'"
  shows "tx_status t' = None"
proof -
  have "grants u" if run: "edit_order i edit t = Some u" for edit u
  proof -
    have s: "snd (store_membership i a b c d f t)" "grants (fst (store_membership i a b c d f t))" for a b c d f
      using grants_store_membership [OF assms(1), of i a b c d f] by auto
    show ?thesis using run assms(1) s
      by (auto simp: edit_order_def bind_eq_Some_conv prod.case_eq_if split: option.splits record_body.splits)
  qed
  then have "grants t'" using assms
    by (cases e) (auto simp: attach_layer_def detach_layer_def reorder_layer_def split: if_splits)
  then show ?thesis by (simp add: grants_def)
qed

lemma grants_write_content_chain:
  assumes "grants t" "write_content_chain i sel n fill head_of set_head on_record t = Some (t', ok)"
  shows "grants t'"
proof -
  have e: "snd (erase_records ids t)" "grants (fst (erase_records ids t))" for ids
    using grants_erase_records [OF assms(1), of ids] by auto
  have w: "snd (write_chain ids fill ps u) \<and> grants (fst (write_chain ids fill ps u))" if "grants u" for u ids ps
    using grants_write_chain [OF that, of ids fill ps] by auto
  have p: "grants (fst (put_content i oid c u))" if "grants u" for u oid c
    using grants_record(4) [OF that, of i oid c] by auto
  show ?thesis using assms w grants_allocate_ids e p
    by (auto simp: write_content_chain_def bind_eq_Some_conv prod.case_eq_if split: option.splits record_body.splits dest!: arg_cong [of _ _ fst])
qed

lemma grants_content:
  assumes "grants t"
  shows "set_content_identity i kind params t = Some t' \<Longrightarrow> tx_status t' = None"
    "set_content_inputs i inputs t = Some t' \<Longrightarrow> tx_status t' = None"
  using grants_write_content_chain [OF assms] assms
  by (auto simp: set_content_identity_def set_content_inputs_def grants_def Let_def split: if_splits)

text \<open>
  C3: Attach, detach and reorder refine the list operations they name, inline and spilled alike. On a transaction
  with no error and a well-stored composition the mutator returns; an edit that does not apply changes nothing; otherwise,
  unless the arena refuses, the composition reads back as exactly the edited list, stored well again
  (inline up to eight members, else in as many chunks as needed, the surplus erased), every other
  field of the composition and every record but its own chunks is the one before, and a chunk whose
  members and successor do not change keeps its very record.
\<close>

theorem membership_edits_refine_lists:
  assumes "ordered_composition e = Some i" "tx_status t = None" "find_composition (tx_root t) i = Some c"
    "order_stored (tx_root t) c order ids" "ids_below (tx_root t) (md_next_id (tx_model t))"
  shows "\<exists>t'. apply_edit e t = Some t' \<and>
    (case order_after e (tx_root t) order of
       None \<Rightarrow> t' = t
     | Some order' \<Rightarrow> tx_status t' = None \<longrightarrow>
         for_each_layer_in (tx_root t') i = Some order' \<and>
         (\<exists>c' ids'. find_composition (tx_root t') i = Some c' \<and> order_stored (tx_root t') c' order' ids' \<and>
           c' = c\<lparr>cp_layer_count := cp_layer_count c', cp_layers := cp_layers c', cp_spill_root := cp_spill_root c'\<rparr> \<and>
           (\<forall>j. j \<noteq> i \<longrightarrow> j \<notin> set ids \<longrightarrow> j \<notin> set ids' \<longrightarrow> fmlookup (tx_root t') j = fmlookup (tx_root t) j) \<and>
           (\<forall>j \<in> set ids'. j \<in> set ids \<or> fmlookup (tx_root t) j = None) \<and>
           (\<forall>p < length ids'. chunk_unchanged order ids order' ids' p \<longrightarrow>
             fmlookup (tx_root t') (ids' ! p) = fmlookup (tx_root t) (ids' ! p))))"
proof -
  obtain r where r: "fmlookup (tx_root t) i = Some r" "or_body r = CompositionBody c"
    using assms(3) by (auto simp: find_composition_def split: option.splits record_body.splits)
  note run = apply_order_edit [OF assms(1,2)]
  have rd: "read_layer_order (tx_root t) c = Some (order, ids)" using assms(4) by (rule read_order_stored)
  show ?thesis
  proof (cases "order_after e (tx_root t) order")
    case None
    then show ?thesis using run r rd by (simp add: edit_order_def)
  next
    case (Some order')
    obtain u k where u: "store_membership i (or_id r) c order ids order' t = (u, k)"
      by (cases "store_membership i (or_id r) c order ids order' t")
    have v: "apply_edit e t = Some (if k then tx_add_damage (full_damage i) u else u)"
      using run r rd Some u by (simp add: edit_order_def)
    show ?thesis
    proof (cases k)
      case False
      then have "tx_status u \<noteq> None" using store_membership_fails [of i "or_id r" c order ids order' t u] u by simp
      then show ?thesis using v Some False by (intro exI [of _ u]) auto
    next
      case True
      have m: "membership_stored i c order ids order' (tx_root t) (md_next_id (tx_model t)) (tx_root u) (md_next_id (tx_model u))"
        using store_membership_ok [OF _ assms(4,5,3)] u True by simp
      then obtain c' ids' where c': "find_composition (tx_root u) i = Some c'" "order_stored (tx_root u) c' order' ids'"
        "c' = c\<lparr>cp_layer_count := cp_layer_count c', cp_layers := cp_layers c', cp_spill_root := cp_spill_root c'\<rparr>"
        "\<forall>j. j \<noteq> i \<longrightarrow> j \<notin> set ids \<longrightarrow> j \<notin> set ids' \<longrightarrow> fmlookup (tx_root u) j = fmlookup (tx_root t) j"
        "\<forall>p < length ids'. chunk_unchanged order ids order' ids' p \<longrightarrow>
             fmlookup (tx_root u) (ids' ! p) = fmlookup (tx_root t) (ids' ! p)"
        "set ids' \<subseteq> set ids \<union> {md_next_id (tx_model t)..<md_next_id (tx_model u)}"
        unfolding membership_stored_def by blast
      have fresh: "j \<in> set ids \<or> fmlookup (tx_root t) j = None" if "j \<in> set ids'" for j
      proof (cases "j \<in> set ids")
        case False
        then have "md_next_id (tx_model t) \<le> j" using that c'(6) by auto
        then show ?thesis using assms(5) unfolding ids_below_def
          by (cases "fmlookup (tx_root t) j") (auto dest: leD)
      qed simp
      have "for_each_layer_in (tx_root u) i = Some order'"
        using c'(1) read_order_stored [OF c'(2)] by (simp add: for_each_layer_in_def)
      moreover have "\<exists>c' ids'. find_composition (tx_root u) i = Some c' \<and> order_stored (tx_root u) c' order' ids' \<and>
           c' = c\<lparr>cp_layer_count := cp_layer_count c', cp_layers := cp_layers c', cp_spill_root := cp_spill_root c'\<rparr> \<and>
           (\<forall>j. j \<noteq> i \<longrightarrow> j \<notin> set ids \<longrightarrow> j \<notin> set ids' \<longrightarrow> fmlookup (tx_root u) j = fmlookup (tx_root t) j) \<and>
           (\<forall>j \<in> set ids'. j \<in> set ids \<or> fmlookup (tx_root t) j = None) \<and>
           (\<forall>p < length ids'. chunk_unchanged order ids order' ids' p \<longrightarrow>
             fmlookup (tx_root u) (ids' ! p) = fmlookup (tx_root t) (ids' ! p))"
        by (intro exI [of _ c'] exI [of _ ids'] conjI c'(1-5) ballI fresh)
      moreover have d: "tx_root (tx_add_damage (full_damage i) u) = tx_root u" by (simp add: tx_add_damage_def)
      moreover have "apply_edit e t = Some (tx_add_damage (full_damage i) u)" using v True by simp
      ultimately show ?thesis unfolding Some option.case
        by (intro exI [of _ "tx_add_damage (full_damage i) u"] conjI impI) (simp only: d)+
    qed
  qed
qed

definition full_inline :: transaction where
  "full_inline = (transact never_full ''spill'' (model_new\<lparr>md_next_id := 3\<rparr>))\<lparr>tx_root :=
     fmupd 1 \<lparr>or_id = 1, or_revision = 0, or_body = CompositionBody
       ((composition_record_new (Fin 1) (Fin 1))\<lparr>cp_layer_count := 8, cp_layers := replicate 8 2\<rparr>)\<rparr>
     (fmupd 2 \<lparr>or_id = 2, or_revision = 0, or_body = LayerBody (layer_record_new 0 affine_identity (Fin 1))\<rparr> fmempty)\<rparr>"

lemma membership_edits_refine_lists_witness:
  "\<exists>t'. apply_edit (AttachLayer 1 2 0) full_inline = Some t' \<and> tx_status t' = None \<and>
     for_each_layer_in (tx_root t') 1 = Some (replicate 9 2)"
proof -
  let ?c = "(composition_record_new (Fin 1) (Fin 1))\<lparr>cp_layer_count := 8, cp_layers := replicate 8 2\<rparr>"
  have c: "find_composition (tx_root full_inline) 1 = Some ?c" by (simp add: full_inline_def find_composition_def)
  have s: "tx_status full_inline = None" by (simp add: full_inline_def transact_def)
  have o: "order_stored (tx_root full_inline) ?c (replicate 8 2) []"
    by (simp add: order_stored_def max_inline_layers_def composition_record_new_def)
  have b: "ids_below (tx_root full_inline) (md_next_id (tx_model full_inline))"
    by (simp add: ids_below_def full_inline_def transact_def)
  have a: "order_after (AttachLayer 1 2 0) (tx_root full_inline) (replicate 8 2) = Some (replicate 9 2)"
    by (simp add: contains_object_def full_inline_def insert_at_def eval_nat_numeral)
  have g: "grants full_inline" using s by (simp add: grants_def full_inline_def transact_def never_full_def)
  show ?thesis
    using membership_edits_refine_lists [OF _ s c o b, of "AttachLayer 1 2 0"] a grants_membership [OF g, of "AttachLayer 1 2 0" 1]
    by auto
qed

subsection \<open>Chains of a content\<close>

text \<open>The chain write: chunks at fresh ids, back to front, each naming its successor.\<close>

lemma write_chain_ok:
  "write_chain ids fill ps t = (t', ok) \<Longrightarrow> distinct ids \<Longrightarrow> distinct ps \<Longrightarrow> set ps \<subseteq> {..<length ids} \<Longrightarrow>
   (ok \<longrightarrow> same_ids t t' \<and>
     (\<forall>p \<in> set ps. \<exists>r. fmlookup (tx_root t') (ids ! p) = Some r \<and> or_body r = fill p (next_chunk ids p)) \<and>
     (\<forall>j. j \<notin> (!) ids ` set ps \<longrightarrow> fmlookup (tx_root t') j = fmlookup (tx_root t) j)) \<and>
   (\<not> ok \<longrightarrow> tx_status t' \<noteq> None)"
proof (induction ps arbitrary: t)
  case (Cons p ps)
  let ?b = "fill p (next_chunk ids p)"
  obtain u k where u: "put_record (ids ! p) (ids ! p) ?b t = (u, k)" by (cases "put_record (ids ! p) (ids ! p) ?b t")
  show ?case
  proof (cases k)
    case True
    have w: "write_chain ids fill ps u = (t', ok)" using Cons.prems(1) u True by simp
    have ih: "(ok \<longrightarrow> same_ids u t' \<and>
       (\<forall>p \<in> set ps. \<exists>r. fmlookup (tx_root t') (ids ! p) = Some r \<and> or_body r = fill p (next_chunk ids p)) \<and>
       (\<forall>j. j \<notin> (!) ids ` set ps \<longrightarrow> fmlookup (tx_root t') j = fmlookup (tx_root u) j)) \<and>
       (\<not> ok \<longrightarrow> tx_status t' \<noteq> None)"
      using Cons.IH [OF w Cons.prems(2)] Cons.prems(3,4) by simp
    have ne: "ids ! p \<notin> (!) ids ` set ps"
      using Cons.prems by (auto simp: nth_eq_iff_index_eq)
    have r: "tx_root u = fmupd (ids ! p) \<lparr>or_id = ids ! p, or_revision = tx_publish_revision t, or_body = ?b\<rparr> (tx_root t)"
      "same_ids t u" using put_record_ok [of "ids ! p" "ids ! p" ?b t u] u True by simp_all
    show ?thesis using ih ne r by (auto intro: same_ids_trans)
  next
    case False
    then show ?thesis using Cons.prems(1) u failed_steps(2) [of "ids ! p" "ids ! p" ?b t u] by simp
  qed
qed (simp add: same_ids_refl)

lemma put_content_ok:
  assumes "put_content i oid c t = (t', ok)"
  shows "(ok \<longrightarrow> tx_status t' = tx_status t \<and>
      (\<exists>r. tx_root t' = fmupd i r (tx_root t) \<and> or_body r = ContentBody c \<and> or_id r = oid) \<and>
      tx_model t' = (tx_model t)\<lparr>md_retained := md_retained (tx_model t) @
        (if ct_state c \<noteq> state_none \<and> md_state_sink (tx_model t) then [(i, ct_state c)] else [])\<rparr>) \<and>
    (\<not> ok \<longrightarrow> tx_status t' \<noteq> None)"
proof -
  obtain u k where u: "pool_call t = (u, k)" by (cases "pool_call t")
  show ?thesis
  proof (cases k)
    case True
    then have b: "bind_record i oid (ContentBody c) (retain_state i (ct_state c) u) = (t', ok)"
      using assms u by (simp add: put_content_def create_record_def)
    have m: "tx_model (retain_state i (ct_state c) u) = (tx_model t)\<lparr>md_retained := md_retained (tx_model t) @
        (if ct_state c \<noteq> state_none \<and> md_state_sink (tx_model t) then [(i, ct_state c)] else [])\<rparr>"
      "tx_root (retain_state i (ct_state c) u) = tx_root t" "tx_status (retain_state i (ct_state c) u) = tx_status t"
      using pool_call_simps [OF u] True by (simp_all add: retain_state_def)
    show ?thesis
    proof (cases ok)
      case True
      then show ?thesis
        using bind_record_ok [of i oid "ContentBody c" "retain_state i (ct_state c) u" t'] b m
        by (auto simp: same_ids_def)
    next
      case False
      then show ?thesis using failed_steps(1) [of i oid "ContentBody c" "retain_state i (ct_state c) u" t'] b by simp
    qed
  next
    case False
    then show ?thesis using assms u pool_call_simps(9) [OF u] by (simp add: put_content_def create_record_def)
  qed
qed

definition content_written ::
  "nat \<Rightarrow> content_record \<Rightarrow> content_record \<Rightarrow> nat list \<Rightarrow> nat list \<Rightarrow> (nat \<Rightarrow> nat \<Rightarrow> record_body) \<Rightarrow> transaction \<Rightarrow> transaction \<Rightarrow> bool" where
  "content_written i base c old ids fill t t' \<longleftrightarrow>
     find_content (tx_root t') i = Some c \<and> distinct ids \<and> 0 \<notin> set ids \<and>
     (\<forall>p < length ids. \<exists>r. fmlookup (tx_root t') (ids ! p) = Some r \<and> or_body r = fill p (next_chunk ids p)) \<and>
     (\<forall>j. j \<noteq> i \<longrightarrow> j \<notin> set ids \<longrightarrow> fmlookup (tx_root t') j = (if j \<in> set old then None else fmlookup (tx_root t) j)) \<and>
     (\<forall>j \<in> set ids. fmlookup (tx_root t) j = None) \<and>
     md_retained (tx_model t') = md_retained (tx_model t) @
       (if ct_state c \<noteq> state_none \<and> md_state_sink (tx_model t) then [(i, ct_state c)] else [])"

lemma write_content_chain_ok:
  assumes "find_content (tx_root t) i = Some base" "read_chunk_chain sel (tx_root t) (head_of base) = Some old"
    "ids_below (tx_root t) (md_next_id (tx_model t))"
  shows "\<exists>t' ok. write_content_chain i sel n fill head_of set_head on_record t = Some (t', ok) \<and>
    (ok \<longrightarrow> (\<exists>ids. length ids = n \<and> tx_status t' = tx_status t \<and>
      content_written i base (on_record (set_head (if n > 0 then ids ! 0 else 0) base)) (map fst old) ids fill t t')) \<and>
    (\<not> ok \<longrightarrow> tx_status t' \<noteq> None)"
proof -
  let ?n = "md_next_id (tx_model t)"
  obtain r where r: "fmlookup (tx_root t) i = Some r" "or_body r = ContentBody base"
    using assms(1) by (auto simp: find_content_def split: option.splits record_body.splits)
  obtain t1 k1 where t1: "erase_records (map fst old) t = (t1, k1)" by (cases "erase_records (map fst old) t")
  obtain t2 ids where t2: "allocate_ids n t1 = (t2, ids)" by (cases "allocate_ids n t1")
  obtain t3 k3 where t3: "write_chain ids fill (rev [0..<n]) t2 = (t3, k3)" by (cases "write_chain ids fill (rev [0..<n]) t2")
  let ?c = "on_record (set_head (if n > 0 then ids ! 0 else 0) base)"
  obtain t4 k4 where t4: "put_content i (or_id r) ?c t3 = (t4, k4)" by (cases "put_content i (or_id r) ?c t3")
  have rd: "(if head_of base \<noteq> 0 then read_chunk_chain sel (tx_root t) (head_of base) else Some []) = Some old"
    using assms(2) by (auto simp: read_chunk_chain.simps)
  have run: "write_content_chain i sel n fill head_of set_head on_record t =
      Some (if k1 then if k3 then (t4, k4) else (t3, False) else (t1, False))"
    using r rd t1 t2 t3 t4 unfolding write_content_chain_def by (cases k1; cases k3) simp_all
  note e = erase_records_ok [OF t1] and a = allocate_ids_ok [OF t2]
  have len: "length ids = n" "distinct ids" using a by auto
  note w = write_chain_ok [OF t3 len(2)] and p = put_content_ok [OF t4]
  have w': "(k3 \<longrightarrow> same_ids t2 t3 \<and>
     (\<forall>p < n. \<exists>r. fmlookup (tx_root t3) (ids ! p) = Some r \<and> or_body r = fill p (next_chunk ids p)) \<and>
     (\<forall>j. j \<notin> set ids \<longrightarrow> fmlookup (tx_root t3) j = fmlookup (tx_root t2) j)) \<and>
   (\<not> k3 \<longrightarrow> tx_status t3 \<noteq> None)"
  proof -
    have "(!) ids ` set (rev [0..<n]) = set ids" using len(1) by (auto simp: in_set_conv_nth)
    then show ?thesis using w len(1) by (auto simp: atLeast0LessThan)
  qed
  show ?thesis
  proof (cases "k1 \<and> k3 \<and> k4")
    case True
    then have k: "k1" "k3" "k4" by simp_all
    have ids: "ids = [?n..<?n + n]" using a e k by (simp add: same_ids_def)
    have i: "i \<notin> set ids" using r(1) assms(3) ids by (auto simp: ids_below_def)
    have fresh: "fmlookup (tx_root t) j = None" if "j \<in> set ids" for j
      using that assms(3) ids by (cases "fmlookup (tx_root t) j") (auto simp: ids_below_def)
    have m: "tx_model t3 = (tx_model t)\<lparr>md_next_id := ?n + n\<rparr>" "tx_root t2 = tx_root t1" "tx_status t3 = tx_status t"
      using e a w' k by (simp_all add: same_ids_def)
    have "content_written i base ?c (map fst old) ids fill t t4"
      unfolding content_written_def
    proof (intro conjI allI impI ballI fresh len(2))
      show "find_content (tx_root t4) i = Some ?c" using p k by (auto simp: find_content_def)
      show "0 \<notin> set ids" using ids assms(3) by (simp add: ids_below_def)
      show "\<exists>r. fmlookup (tx_root t4) (ids ! q) = Some r \<and> or_body r = fill q (next_chunk ids q)" if "q < length ids" for q
      proof -
        have "ids ! q \<noteq> i" using i that by auto
        then show ?thesis using p w' k that len(1) by auto
      qed
      show "fmlookup (tx_root t4) j = (if j \<in> set (map fst old) then None else fmlookup (tx_root t) j)"
        if "j \<noteq> i" "j \<notin> set ids" for j
        using p w' e m(2) k that by (auto simp del: set_map)
      show "md_retained (tx_model t4) = md_retained (tx_model t) @
         (if ct_state ?c \<noteq> state_none \<and> md_state_sink (tx_model t) then [(i, ct_state ?c)] else [])"
        using p k m(1) by simp
    qed
    then show ?thesis using run k m(3) p len(1) by (intro exI [of _ t4] exI [of _ True]) auto
  next
    case False
    then show ?thesis using run e w' p by (cases k1; cases k3; cases k4) auto
  qed
qed


lemma nul_split:
  assumes "nul \<notin> set kind"
  shows "takeWhile ((\<noteq>) nul) (kind @ nul # rest) = kind" "tl (dropWhile ((\<noteq>) nul) (kind @ nul # rest)) = rest"
  using assms by (induction kind) auto

lemma text_slices_concat:
  "concat (map (text_slice text) [p..<p + k]) = take (k * text_chunk_bytes) (drop (p * text_chunk_bytes) text)"
proof (induction k arbitrary: p)
  case (Suc k)
  have "[p..<p + Suc k] = p # [Suc p..<Suc p + k]" by (simp add: upt_conv_Cons del: upt_Suc)
  then have "concat (map (text_slice text) [p..<p + Suc k]) = text_slice text p @
      take (k * text_chunk_bytes) (drop (Suc p * text_chunk_bytes) text)"
    using Suc [of "Suc p"] by simp
  also have "\<dots> = take (Suc k * text_chunk_bytes) (drop (p * text_chunk_bytes) text)"
    by (simp add: text_slice_def take_add add.commute)
  finally show ?case .
qed simp

lemma text_of_fill: "text_of (text_fill text p n) = text_slice text p"
  by (simp add: text_of_def text_fill_def Let_def text_slice_def min.commute min_def)

lemma content_identity_written:
  assumes "find_content d i = Some c" "ct_identity_root c = (if ids = [] then 0 else ids ! 0)" "0 \<notin> set ids"
    "\<forall>p < length ids. \<exists>r. fmlookup d (ids ! p) = Some r \<and> or_body r = text_fill text p (next_chunk ids p)"
    "length ids = (length text + text_chunk_bytes - 1) div text_chunk_bytes" "text = identity_text kind params" "nul \<notin> set kind"
  shows "content_identity d i = Some (kind, params)"
proof (cases "text = []")
  case True
  then have "kind = [] \<and> params = []" using assms(6) by (auto simp: identity_text_def split: if_splits)
  moreover have "ids = []" using True assms(5) by (simp add: text_chunk_bytes_def)
  ultimately show ?thesis using assms(1,2) by (simp add: content_identity_def)
next
  case False
  then have ne: "ids \<noteq> []" using assms(5) by (cases "text") (auto simp: text_chunk_bytes_def)
  have head: "ct_identity_root c = ids ! 0" "ids ! 0 \<noteq> 0" using assms(2,3) ne by (auto simp: in_set_conv_nth)
  have "read_chunk_chain text_next d (ids ! 0) = Some (map (\<lambda>p. (ids ! p, text_fill text p (next_chunk ids p))) [0..<length ids])"
    using written_chain [of ids d "text_fill text" text_next 0] assms(3,4) ne
    by (simp add: text_next_def text_fill_def Let_def read_chunk_chain_of)
  then have "read_identity_text d (ids ! 0) = Some (concat (map (text_slice text) [0..<0 + length ids]))"
    by (simp add: read_identity_text_def o_def text_of_fill)
  also have "length text \<le> length ids * text_chunk_bytes" using assms(5) by (simp add: text_chunk_bytes_def)
  then have "concat (map (text_slice text) [0..<0 + length ids]) = text"
    unfolding text_slices_concat by simp
  finally have rd: "read_identity_text d (ids ! 0) = Some text" .
  have t: "text = kind @ nul # params" using False assms(6) by (simp add: identity_text_def split: if_splits)
  show ?thesis using assms(1) head rd nul_split [OF assms(7), of params] t by (simp add: content_identity_def)
qed

lemma content_inputs_written:
  assumes "find_content d i = Some c" "0 \<notin> set ids" "ct_inputs_root c = (if ids = [] then 0 else ids ! 0)"
    "\<forall>p < length ids. \<exists>r. fmlookup d (ids ! p) = Some r \<and> or_body r = inputs_fill inputs p (next_chunk ids p)"
    "length ids = (if length inputs \<le> max_inline_inputs then 0 else chunk_count inputs)"
    "ct_input_count c = length inputs" "length inputs \<le> max_inline_inputs \<longrightarrow> take (length inputs) (ct_inputs c) = inputs"
  shows "content_inputs d i = Some inputs"
proof (cases "length inputs \<le> max_inline_inputs")
  case True
  then have "ids = []" using assms(5) by simp
  then show ?thesis using assms True by (auto simp: content_inputs_def)
next
  case False
  then have ne: "ids \<noteq> []" "inputs \<noteq> []" using assms(5)
    by (auto simp: chunk_count_def max_inline_layers_def max_inline_inputs_def)
  have head: "ct_inputs_root c = ids ! 0" "ids ! 0 \<noteq> 0" using assms(2,3) ne by (auto simp: in_set_conv_nth)
  have "read_chunk_chain order_next d (ids ! 0) = Some (map (\<lambda>p. (ids ! p, inputs_fill inputs p (next_chunk ids p))) [0..<length ids])"
    using written_chain [of ids d "inputs_fill inputs" order_next 0] assms(2,4) ne
    by (simp add: order_next_def inputs_fill_def order_chunk_of_def read_chunk_chain_of)
  moreover have "concat (map (chunk_slice inputs) [0..<length ids]) = inputs"
    using chunk_slices_concat [of inputs 0 "length ids"] assms(5) False chunk_count_covers [of inputs] by simp
  ultimately show ?thesis using assms(1,6) head ne(2)
    by (simp add: content_inputs_def o_def inputs_fill_def order_members_slice)
qed

text \<open>
  C19: A content's construction identity round-trips through its chunk chain: writing it returns on a
  content whose old chain ends, and unless the arena refuses, the content reads back as the kind and
  the parameters written (a kind holds no NUL), keeps its kind number, state and inputs root, and takes
  one more retain on the state it carries; the old chunks are gone, the new ones are fresh ids, and no
  other record changes.
\<close>

theorem content_identity_roundtrip:
  assumes "tx_status t = None" "find_content (tx_root t) i = Some c" "nul \<notin> set kind"
    "read_chunk_chain text_next (tx_root t) (ct_identity_root c) = Some old"
    "ids_below (tx_root t) (md_next_id (tx_model t))"
  shows "\<exists>t'. set_content_identity i kind params t = Some t' \<and>
    (tx_status t' = None \<longrightarrow> content_identity (tx_root t') i = Some (kind, params) \<and>
      (\<exists>h ids. find_content (tx_root t') i = Some (c\<lparr>ct_identity_root := h\<rparr>) \<and> (\<forall>j \<in> set ids. fmlookup (tx_root t) j = None) \<and>
        (\<forall>j. j \<noteq> i \<longrightarrow> j \<notin> set ids \<longrightarrow>
          fmlookup (tx_root t') j = (if j \<in> fst ` set old then None else fmlookup (tx_root t) j))) \<and>
      md_retained (tx_model t') = md_retained (tx_model t) @
        (if ct_state c \<noteq> state_none \<and> md_state_sink (tx_model t) then [(i, ct_state c)] else []))"
proof -
  let ?text = "identity_text kind params"
  let ?n = "(length ?text + text_chunk_bytes - 1) div text_chunk_bytes"
  obtain t' ok where run: "write_content_chain i text_next ?n (text_fill ?text) ct_identity_root
      (\<lambda>h c. c\<lparr>ct_identity_root := h\<rparr>) (\<lambda>c. c) t = Some (t', ok)"
    and bad: "\<not> ok \<longrightarrow> tx_status t' \<noteq> None"
    and good: "ok \<longrightarrow> (\<exists>ids. length ids = ?n \<and> tx_status t' = tx_status t \<and>
      content_written i c (c\<lparr>ct_identity_root := if ?n > 0 then ids ! 0 else 0\<rparr>) (map fst old) ids (text_fill ?text) t t')"
    using write_content_chain_ok [where head_of = ct_identity_root, OF assms(2,4,5), of ?n "text_fill ?text" "\<lambda>h c. c\<lparr>ct_identity_root := h\<rparr>" "\<lambda>c. c"]
    by blast
  have s: "set_content_identity i kind params t = Some t'"
    using run assms(1) by (simp add: set_content_identity_def Let_def)
  show ?thesis
  proof (intro exI [of _ t'] conjI s impI)
    assume "tx_status t' = None"
    then obtain ids where ids: "length ids = ?n"
      "content_written i c (c\<lparr>ct_identity_root := if ?n > 0 then ids ! 0 else 0\<rparr>) (map fst old) ids (text_fill ?text) t t'"
      using good bad by blast
    note cw = ids(2) [unfolded content_written_def]
    show "content_identity (tx_root t') i = Some (kind, params)"
      by (rule content_identity_written [of _ _ "c\<lparr>ct_identity_root := if ?n > 0 then ids ! 0 else 0\<rparr>" ids ?text])
        (use cw ids(1) assms(3) in auto)
    show "\<exists>h ids. find_content (tx_root t') i = Some (c\<lparr>ct_identity_root := h\<rparr>) \<and> (\<forall>j \<in> set ids. fmlookup (tx_root t) j = None) \<and>
        (\<forall>j. j \<noteq> i \<longrightarrow> j \<notin> set ids \<longrightarrow>
          fmlookup (tx_root t') j = (if j \<in> fst ` set old then None else fmlookup (tx_root t) j))"
      using cw by (intro exI [of _ "if ?n > 0 then ids ! 0 else 0"] exI [of _ ids]) simp
    show "md_retained (tx_model t') = md_retained (tx_model t) @
        (if ct_state c \<noteq> state_none \<and> md_state_sink (tx_model t) then [(i, ct_state c)] else [])"
      using cw by simp
  qed
qed

text \<open>
  A content's declared inputs round-trip, in the record itself up to four and through order chunks
  past that, with the count authoritative in both forms; nothing but the content and its input chain
  changes.
\<close>

theorem content_inputs_roundtrip:
  assumes "tx_status t = None" "find_content (tx_root t) i = Some c"
    "read_chunk_chain order_next (tx_root t) (ct_inputs_root c) = Some old"
    "ids_below (tx_root t) (md_next_id (tx_model t))"
  shows "\<exists>t'. set_content_inputs i inputs t = Some t' \<and>
    (tx_status t' = None \<longrightarrow> content_inputs (tx_root t') i = Some inputs \<and>
      (\<exists>c' ids. find_content (tx_root t') i = Some c' \<and> ct_input_count c' = length inputs \<and>
        c' = c\<lparr>ct_inputs_root := ct_inputs_root c', ct_input_count := ct_input_count c', ct_inputs := ct_inputs c'\<rparr> \<and>
        (length inputs \<le> max_inline_inputs \<longrightarrow> ids = []) \<and> (\<forall>j \<in> set ids. fmlookup (tx_root t) j = None) \<and>
        (\<forall>j. j \<noteq> i \<longrightarrow> j \<notin> set ids \<longrightarrow>
          fmlookup (tx_root t') j = (if j \<in> fst ` set old then None else fmlookup (tx_root t) j))))"
proof -
  let ?n = "if length inputs \<le> max_inline_inputs then 0 else (length inputs + max_inline_layers - 1) div max_inline_layers"
  let ?c = "\<lambda>ids. store_inputs inputs (c\<lparr>ct_inputs_root := if ?n > 0 then ids ! 0 else 0\<rparr>)"
  obtain t' ok where run: "write_content_chain i order_next ?n (inputs_fill inputs) ct_inputs_root
      (\<lambda>h c. c\<lparr>ct_inputs_root := h\<rparr>) (store_inputs inputs) t = Some (t', ok)"
    and bad: "\<not> ok \<longrightarrow> tx_status t' \<noteq> None"
    and good: "ok \<longrightarrow> (\<exists>ids. length ids = ?n \<and> tx_status t' = tx_status t \<and>
      content_written i c (?c ids) (map fst old) ids (inputs_fill inputs) t t')"
    using write_content_chain_ok [where head_of = ct_inputs_root, OF assms(2-4), of ?n "inputs_fill inputs" "\<lambda>h c. c\<lparr>ct_inputs_root := h\<rparr>" "store_inputs inputs"]
    by blast
  have s: "set_content_inputs i inputs t = Some t'"
    using run assms(1) by (simp add: set_content_inputs_def)
  show ?thesis
  proof (intro exI [of _ t'] conjI s impI)
    assume "tx_status t' = None"
    then obtain ids where ids: "length ids = ?n" "content_written i c (?c ids) (map fst old) ids (inputs_fill inputs) t t'"
      using good bad by blast
    note cw = ids(2) [unfolded content_written_def]
    show "content_inputs (tx_root t') i = Some inputs"
      by (rule content_inputs_written [of _ _ "?c ids" ids])
        (use cw ids(1) in \<open>auto simp: store_inputs_def chunk_count_def\<close>)
    have "length inputs \<le> max_inline_inputs \<longrightarrow> ids = []" using ids(1) by auto
    then show "\<exists>c' ids. find_content (tx_root t') i = Some c' \<and> ct_input_count c' = length inputs \<and>
        c' = c\<lparr>ct_inputs_root := ct_inputs_root c', ct_input_count := ct_input_count c', ct_inputs := ct_inputs c'\<rparr> \<and>
        (length inputs \<le> max_inline_inputs \<longrightarrow> ids = []) \<and> (\<forall>j \<in> set ids. fmlookup (tx_root t) j = None) \<and>
        (\<forall>j. j \<noteq> i \<longrightarrow> j \<notin> set ids \<longrightarrow>
          fmlookup (tx_root t') j = (if j \<in> fst ` set old then None else fmlookup (tx_root t) j))"
      using cw by (intro exI [of _ "?c ids"] exI [of _ ids]) (simp add: store_inputs_def)
  qed
qed

definition one_content :: transaction where
  "one_content = (transact never_full ''identity'' (model_new\<lparr>md_next_id := 2\<rparr>))\<lparr>tx_root :=
     fmupd 1 \<lparr>or_id = 1, or_revision = 0, or_body = ContentBody (content_record_new 7)\<rparr> fmempty\<rparr>"

lemma one_content_facts:
  "tx_status one_content = None" "find_content (tx_root one_content) 1 = Some (content_record_new 7)"
  "ids_below (tx_root one_content) (md_next_id (tx_model one_content))" "grants one_content"
  by (simp_all add: one_content_def transact_def find_content_def ids_below_def grants_def never_full_def)

lemma content_identity_roundtrip_witness:
  "\<exists>t'. set_content_identity 1 ''org.solid'' ''{}'' one_content = Some t' \<and>
     tx_status t' = None \<and> content_identity (tx_root t') 1 = Some (''org.solid'', ''{}'')"
  using grants_content(1) [OF one_content_facts(4), of 1] content_identity_roundtrip [OF one_content_facts(1,2) _ _ one_content_facts(3), of "''org.solid''" "[]" "''{}''"]
  by (auto simp: nul_def content_record_new_def read_chunk_chain.simps)

lemma content_inputs_roundtrip_witness:
  "\<exists>t'. set_content_inputs 1 [3, 4, 5, 6, 7] one_content = Some t' \<and>
     tx_status t' = None \<and> content_inputs (tx_root t') 1 = Some [3, 4, 5, 6, 7]"
  using grants_content(2) [OF one_content_facts(4), of 1] content_inputs_roundtrip [OF one_content_facts(1,2) _ one_content_facts(3), of "[]" "[3, 4, 5, 6, 7]"]
  by (auto simp: content_record_new_def read_chunk_chain.simps)

subsection \<open>Placement flags\<close>

lemma path_copy_on_layer:
  assumes "tx_status t = None" "find_layer (tx_root t) i = Some l" "tx_status (path_copy (on_layer f) i t) = None"
  shows "find_layer (tx_root (path_copy (on_layer f) i t)) i = Some (f l) \<and>
    (\<forall>j. j \<noteq> i \<longrightarrow> fmlookup (tx_root (path_copy (on_layer f) i t)) j = fmlookup (tx_root t) j)"
proof -
  obtain r where r: "fmlookup (tx_root t) i = Some r" "or_body r = LayerBody l"
    using assms(2) by (auto simp: find_layer_def split: option.splits record_body.splits)
  obtain u k where u: "put_record i (or_id r) (LayerBody (f l)) t = (u, k)" by (cases "put_record i (or_id r) (LayerBody (f l)) t")
  have p: "path_copy (on_layer f) i t = (if k then tx_add_damage (full_damage i) u else u)"
    using assms(1) r u by (simp add: path_copy_def on_layer_def)
  then have k using assms(3) u failed_steps(2) [of i "or_id r" "LayerBody (f l)" t u] by (cases k) auto
  then show ?thesis using p put_record_ok [of i "or_id r" "LayerBody (f l)" t u] u
    by (simp add: find_layer_def tx_add_damage_def)
qed

lemma layer_visible_bit: "bit layer_visible n \<longleftrightarrow> n = 0"
  by (auto simp: layer_visible_def bit_simps)

lemma layer_audible_bit: "bit layer_audible n \<longleftrightarrow> n = 1"
  unfolding layer_audible_def by (auto simp: bit_simps)

lemma blend_mask_bit: "bit blend_mask n \<longleftrightarrow> 8 \<le> n \<and> n < 16"
proof -
  have m: "(0xFF :: 32 word) = mask 8" by code_simp
  show ?thesis unfolding blend_mask_def blend_shift_def m by (auto simp: bit_simps)
qed

lemma is_visible_bit: "is_visible l \<longleftrightarrow> bit (ly_flags l) 0"
proof -
  have "ly_flags l AND layer_visible = (if bit (ly_flags l) 0 then layer_visible else 0)"
    by (intro bit_word_eqI) (auto simp: bit_and_iff layer_visible_bit intro!: gr0I)
  moreover have "layer_visible \<noteq> 0" by (simp add: layer_visible_def)
  ultimately show ?thesis by (simp add: is_visible_def)
qed

lemma is_audible_bit: "is_audible l \<longleftrightarrow> bit (ly_flags l) 1"
proof -
  have "ly_flags l AND layer_audible = (if bit (ly_flags l) 1 then layer_audible else 0)"
    by (intro bit_word_eqI) (auto simp: bit_and_iff layer_audible_bit)
  moreover have "layer_audible \<noteq> 0" by (simp add: layer_audible_def)
  ultimately show ?thesis by (simp add: is_audible_def)
qed

lemma layer_blend_bits: "layer_blend l = unat (take_bit 8 (drop_bit 8 (ly_flags l)))"
proof -
  have "drop_bit blend_shift (ly_flags l AND blend_mask) = take_bit 8 (drop_bit 8 (ly_flags l))"
    by (intro bit_word_eqI) (auto simp: bit_simps blend_mask_bit blend_shift_def)
  then show ?thesis by (simp add: layer_blend_def)
qed

lemma flag_visible_bits: "n < 32 \<Longrightarrow> bit (flag_visible on w) n = (if n = 0 then on else bit w n)"
  by (simp add: flag_visible_def bit_simps layer_visible_bit)

lemma flag_audible_bits: "n < 32 \<Longrightarrow> bit (flag_audible on w) n = (if n = 1 then on else bit w n)"
  by (simp add: flag_audible_def bit_simps layer_audible_bit)

lemma flag_blend_bits: "n < 32 \<Longrightarrow> bit (flag_blend b w) n =
    (if 8 \<le> n \<and> n < 16 then bit (blend_code b) (n - 8) else bit w n)"
  by (auto simp: flag_blend_def bit_simps blend_mask_bit blend_shift_def)

lemma blend_code_byte: "blend_code b < 2 ^ 8"
  by (cases b) simp_all

lemma blend_read_back: "layer_blend (l\<lparr>ly_flags := flag_blend b w\<rparr>) = blend_code b"
proof -
  have "take_bit 8 (drop_bit 8 (flag_blend b w)) = (of_nat (blend_code b) :: 32 word)"
  proof (rule bit_word_eqI)
    fix n assume n: "n < LENGTH(32)"
    have "bit (blend_code b) n \<Longrightarrow> n < 8" using blend_code_byte [of b] bit_take_bit_iff [of 8 "blend_code b" n]
      by (simp add: take_bit_nat_eq_self)
    then show "bit (take_bit 8 (drop_bit 8 (flag_blend b w))) n = bit (of_nat (blend_code b) :: 32 word) n"
      using n by (auto simp: bit_take_bit_iff bit_drop_bit_eq flag_blend_bits bit_of_nat_iff)
  qed
  moreover have "unat (of_nat (blend_code b) :: 32 word) = blend_code b"
    using blend_code_byte [of b] by (simp add: unat_of_nat take_bit_nat_eq_self)
  ultimately show ?thesis by (simp add: layer_blend_bits)
qed

lemma blend_kept:
  assumes "\<And>n. 8 \<le> n \<Longrightarrow> n < 16 \<Longrightarrow> bit w n = bit (ly_flags l) n"
  shows "layer_blend (l\<lparr>ly_flags := w\<rparr>) = layer_blend l"
proof -
  have "take_bit 8 (drop_bit 8 w) = take_bit 8 (drop_bit 8 (ly_flags l))"
  proof (rule bit_word_eqI)
    show "bit (take_bit 8 (drop_bit 8 w)) n = bit (take_bit 8 (drop_bit 8 (ly_flags l))) n" for n
      using assms [of "8 + n"] by (auto simp: bit_take_bit_iff bit_drop_bit_eq)
  qed
  then show ?thesis by (simp add: layer_blend_bits)
qed

text \<open>
  Visibility, audibility and the blend mode share one flag word without disturbing one another:
  each of the three setters, unless the arena refuses, reads back as what was set, keeps the other two
  and every other field of the layer, and no other record of the document changes.
\<close>

theorem flag_setters_independent:
  assumes "tx_status t = None" "find_layer (tx_root t) i = Some l" "e \<in> {SetVisible i on, SetAudible i on, SetBlend i b}"
    "apply_edit e t = Some t'" "tx_status t' = None"
  shows "\<exists>w. find_layer (tx_root t') i = Some (l\<lparr>ly_flags := w\<rparr>) \<and>
    (\<forall>j. j \<noteq> i \<longrightarrow> fmlookup (tx_root t') j = fmlookup (tx_root t) j) \<and>
    is_visible (l\<lparr>ly_flags := w\<rparr>) = (if e = SetVisible i on then on else is_visible l) \<and>
    is_audible (l\<lparr>ly_flags := w\<rparr>) = (if e = SetAudible i on then on else is_audible l) \<and>
    layer_blend (l\<lparr>ly_flags := w\<rparr>) = (if e = SetBlend i b then blend_code b else layer_blend l)"
proof -
  define g where "g = (if e = SetVisible i on then flag_visible on else if e = SetAudible i on then flag_audible on else flag_blend b)"
  have t': "t' = path_copy (on_layer (\<lambda>l. l\<lparr>ly_flags := g (ly_flags l)\<rparr>)) i t"
    using assms(3,4) by (auto simp: g_def set_visible_def set_audible_def set_blend_def)
  note p = path_copy_on_layer [OF assms(1,2), folded t', OF assms(5) [unfolded t'], folded t']
  show ?thesis
  proof (intro exI [of _ "g (ly_flags l)"] conjI)
    show "find_layer (tx_root t') i = Some (l\<lparr>ly_flags := g (ly_flags l)\<rparr>)"
      "\<forall>j. j \<noteq> i \<longrightarrow> fmlookup (tx_root t') j = fmlookup (tx_root t) j" using p by auto
    show "is_visible (l\<lparr>ly_flags := g (ly_flags l)\<rparr>) = (if e = SetVisible i on then on else is_visible l)"
      using assms(3) by (auto simp: is_visible_bit g_def flag_visible_bits flag_audible_bits flag_blend_bits)
    show "is_audible (l\<lparr>ly_flags := g (ly_flags l)\<rparr>) = (if e = SetAudible i on then on else is_audible l)"
      using assms(3) by (auto simp: is_audible_bit g_def flag_visible_bits flag_audible_bits flag_blend_bits)
    show "layer_blend (l\<lparr>ly_flags := g (ly_flags l)\<rparr>) = (if e = SetBlend i b then blend_code b else layer_blend l)"
      using assms(3) by (auto simp: g_def blend_read_back flag_visible_bits flag_audible_bits intro!: blend_kept)
  qed
qed

definition one_layer :: transaction where
  "one_layer = (transact never_full ''flags'' (model_new\<lparr>md_next_id := 2\<rparr>))\<lparr>tx_root :=
     fmupd 1 \<lparr>or_id = 1, or_revision = 0, or_body = LayerBody (layer_record_new 0 affine_identity (Fin 1))\<rparr> fmempty\<rparr>"

lemma flag_setters_independent_witness:
  "\<exists>w. find_layer (tx_root (set_blend 1 Screen one_layer)) 1 =
       Some ((layer_record_new 0 affine_identity (Fin 1))\<lparr>ly_flags := w\<rparr>) \<and>
     layer_blend ((layer_record_new 0 affine_identity (Fin 1))\<lparr>ly_flags := w\<rparr>) = 2"
proof -
  have l: "find_layer (tx_root one_layer) 1 = Some (layer_record_new 0 affine_identity (Fin 1))"
    by (simp add: one_layer_def find_layer_def)
  have s: "tx_status one_layer = None" by (simp add: one_layer_def transact_def)
  have s': "tx_status (set_blend 1 Screen one_layer) = None"
    by (simp add: one_layer_def transact_def set_blend_def path_copy_def on_layer_def put_record_def create_record_def
      bind_record_def pool_call_def never_full_def tx_add_damage_def)
  show ?thesis
    using flag_setters_independent [OF s l, of "SetBlend 1 Screen" True Screen "set_blend 1 Screen one_layer"] s' by auto
qed

end
