(* ===== verification/Journal.thy ===== *)
theory Journal
  imports Transaction
begin

text \<open>
  \<open>model/journal.hpp\<close>, \<open>model/journal.cpp\<close> and \<open>coalesce_entries\<close> of \<open>model/model.cpp\<close>: the
  byte-budgeted undo history. \<open>jn_record_bytes\<close> is the size of an object record, the compiler's; the
  state coster and the restore sink are abstract seams of the code: the coster is an argument function,
  the restore sink the list of what it was told. A history row carries the identity of its allocation,
  so that sharing rows between snapshots is visible. Byte counts are naturals.
\<close>

subsection \<open>Coalescing\<close>

fun merge_object :: "object_edit list \<Rightarrow> object_edit \<Rightarrow> object_edit list" where
  "merge_object [] fe = [fe]"
| "merge_object (be # bs) fe =
     (if oe_object be = oe_object fe then be\<lparr>oe_after := oe_after fe\<rparr> # bs else be # merge_object bs fe)"

fun merge_content :: "content_state_edit list \<Rightarrow> content_state_edit \<Rightarrow> content_state_edit list" where
  "merge_content [] fc = [fc]"
| "merge_content (bc # bs) fc =
     (if ce_object bc = ce_object fc then bc\<lparr>ce_after := ce_after fc\<rparr> # bs else bc # merge_content bs fc)"

definition coalesce_entries :: "journal_entry \<Rightarrow> journal_entry \<Rightarrow> journal_entry" where
  "coalesce_entries base follow = base\<lparr>je_objects := foldl merge_object (je_objects base) (je_objects follow),
     je_contents := foldl merge_content (je_contents base) (je_contents follow),
     je_damage := foldl damage_add (je_damage base) (je_damage follow)\<rparr>"

subsection \<open>The journal\<close>

record stored =
  st_entry :: journal_entry
  st_cost :: nat

record history_row =
  hr_alloc :: nat
  hr_name :: string
  hr_cost :: nat

record journal =
  jn_record_bytes :: nat
  jn_budget :: nat
  jn_cost_fn :: "(nat \<Rightarrow> nat \<Rightarrow> nat) option"
  jn_restore_sink :: bool
  jn_restored :: "(nat \<times> nat) list"
  jn_entries :: "stored list"
  jn_cursor :: nat
  jn_published :: "64 word"
  jn_history :: "history_row list"
  jn_rows_made :: nat
  jn_total_cost :: nat

definition no_budget :: nat where "no_budget = 2 ^ 64 - 1"

definition journal_new :: "nat \<Rightarrow> nat \<Rightarrow> journal" where
  "journal_new record_bytes budget = \<lparr>jn_record_bytes = record_bytes, jn_budget = budget, jn_cost_fn = None,
     jn_restore_sink = False, jn_restored = [], jn_entries = [], jn_cursor = 0, jn_published = 0,
     jn_history = [], jn_rows_made = 0, jn_total_cost = 0\<rparr>"

definition edge_bytes :: "nat \<Rightarrow> object_record option \<Rightarrow> nat" where
  "edge_bytes bytes e = (case e of None \<Rightarrow> 0 | Some _ \<Rightarrow> bytes)"

definition entry_cost :: "journal \<Rightarrow> journal_entry \<Rightarrow> nat" where
  "entry_cost j e =
     sum_list (map (\<lambda>oe. edge_bytes (jn_record_bytes j) (oe_before oe) + edge_bytes (jn_record_bytes j) (oe_after oe)) (je_objects e)) +
     (case jn_cost_fn j of None \<Rightarrow> 0
      | Some cost \<Rightarrow> sum_list (map (\<lambda>ce. cost (ce_object ce) (ce_before ce) + cost (ce_object ce) (ce_after ce)) (je_contents e)))"

subsection \<open>Publishing\<close>

definition published_max :: nat where "published_max = 0xFFFFFFFF"

definition clamp_count :: "nat \<Rightarrow> 64 word" where
  "clamp_count v = of_nat (min v published_max)"

definition pack :: "nat \<Rightarrow> nat \<Rightarrow> 64 word" where
  "pack cursor depth = push_bit 32 (clamp_count depth) OR clamp_count cursor"

definition published_cursor :: "64 word \<Rightarrow> nat" where
  "published_cursor w = unat (w AND of_nat published_max)"

definition published_depth :: "64 word \<Rightarrow> nat" where
  "published_depth w = unat (drop_bit 32 w)"

definition can_undo :: "journal \<Rightarrow> bool" where
  "can_undo j \<longleftrightarrow> published_cursor (jn_published j) > 0"

definition can_redo :: "journal \<Rightarrow> bool" where
  "can_redo j \<longleftrightarrow> published_cursor (jn_published j) < published_depth (jn_published j)"

definition reusable_row :: "history_row list \<Rightarrow> nat \<Rightarrow> stored \<Rightarrow> bool" where
  "reusable_row prev i s \<longleftrightarrow> i < length prev \<and> hr_name (prev ! i) = je_name (st_entry s) \<and> hr_cost (prev ! i) = st_cost s"

fun history_rows :: "history_row list \<Rightarrow> nat \<Rightarrow> nat \<Rightarrow> stored list \<Rightarrow> history_row list \<times> nat" where
  "history_rows prev i made [] = ([], made)"
| "history_rows prev i made (s # ss) =
     (if reusable_row prev i s
      then (case history_rows prev (i + 1) made ss of (rows, made) \<Rightarrow> (prev ! i # rows, made))
      else (case history_rows prev (i + 1) (made + 1) ss of (rows, made') \<Rightarrow>
        (\<lparr>hr_alloc = made, hr_name = je_name (st_entry s), hr_cost = st_cost s\<rparr> # rows, made')))"

definition publish_history :: "journal \<Rightarrow> journal" where
  "publish_history j = (case history_rows (jn_history j) 0 (jn_rows_made j) (jn_entries j) of
     (rows, made) \<Rightarrow> j\<lparr>jn_history := rows, jn_rows_made := made\<rparr>)"

definition journal_publish :: "journal \<Rightarrow> journal" where
  "journal_publish j = (publish_history j)\<lparr>jn_published := pack (jn_cursor j) (length (jn_entries j))\<rparr>"

subsection \<open>Trimming and appending\<close>

fun trim_entries :: "nat \<Rightarrow> stored list \<Rightarrow> nat \<Rightarrow> nat \<Rightarrow> stored list \<times> nat \<times> nat" where
  "trim_entries budget (s # s' # ss) cursor tot =
     (if tot > budget then trim_entries budget (s' # ss) (cursor - 1) (tot - st_cost s)
      else (s # s' # ss, cursor, tot))"
| "trim_entries budget ss cursor tot = (ss, cursor, tot)"

definition trim :: "journal \<Rightarrow> journal" where
  "trim j = (case trim_entries (jn_budget j) (jn_entries j) (jn_cursor j) (jn_total_cost j) of
     (ss, cursor, tot) \<Rightarrow> journal_publish (j\<lparr>jn_entries := ss, jn_cursor := cursor, jn_total_cost := tot\<rparr>))"

definition set_byte_budget :: "nat \<Rightarrow> journal \<Rightarrow> journal" where
  "set_byte_budget bytes j = journal_publish (trim (j\<lparr>jn_budget := bytes\<rparr>))"

definition set_state_cost_fn :: "(nat \<Rightarrow> nat \<Rightarrow> nat) option \<Rightarrow> journal \<Rightarrow> journal" where
  "set_state_cost_fn f j = j\<lparr>jn_cost_fn := f\<rparr>"

definition set_restore_sink :: "bool \<Rightarrow> journal \<Rightarrow> journal" where
  "set_restore_sink on j = j\<lparr>jn_restore_sink := on\<rparr>"

definition coalesces :: "journal_entry \<Rightarrow> journal \<Rightarrow> bool" where
  "coalesces entry j \<longleftrightarrow> je_coalesce_key entry \<noteq> 0 \<and> jn_cursor j = length (jn_entries j) \<and> jn_entries j \<noteq> [] \<and>
     je_coalesce_key (st_entry (last (jn_entries j))) = je_coalesce_key entry"

definition on_commit :: "journal_entry \<Rightarrow> journal \<Rightarrow> journal" where
  "on_commit entry j =
     (if coalesces entry j then
        let tip = last (jn_entries j); merged = coalesce_entries (st_entry tip) entry;
            cost = entry_cost j merged
        in trim (j\<lparr>jn_entries := butlast (jn_entries j) @ [\<lparr>st_entry = merged, st_cost = cost\<rparr>],
             jn_total_cost := jn_total_cost j - st_cost tip + cost\<rparr>)
      else
        let gone = drop (jn_cursor j) (jn_entries j); kept = take (jn_cursor j) (jn_entries j);
            cost = entry_cost j entry
        in trim (j\<lparr>jn_entries := kept @ [\<lparr>st_entry = entry, st_cost = cost\<rparr>],
             jn_total_cost := foldl (\<lambda>tot s. tot - st_cost s) (jn_total_cost j) gone + cost,
             jn_cursor := length kept + 1\<rparr>))"

subsection \<open>Undo and redo\<close>

definition notify_restore :: "nav_direction \<Rightarrow> journal_entry \<Rightarrow> journal \<Rightarrow> journal" where
  "notify_restore dir entry j =
     (if jn_restore_sink j
      then j\<lparr>jn_restored := jn_restored j @ map (\<lambda>ce. (ce_object ce,
        case dir of Undo \<Rightarrow> ce_before ce | Redo \<Rightarrow> ce_after ce)) (je_contents entry)\<rparr>
      else j)"

definition undo :: "(nat \<Rightarrow> pool_error option) \<Rightarrow> model \<times> journal \<Rightarrow> (model \<times> journal) \<times> bool" where
  "undo arena s =
     (let (m, j) = s in
      if jn_cursor j = 0 then ((m, j), False)
      else let entry = st_entry (jn_entries j ! (jn_cursor j - 1)) in
        case navigate arena entry Undo m of
          (m, Some _) \<Rightarrow> ((m, j), False)
        | (m, None) \<Rightarrow>
            ((m, journal_publish ((notify_restore Undo entry j)\<lparr>jn_cursor := jn_cursor j - 1\<rparr>)), True))"

definition redo :: "(nat \<Rightarrow> pool_error option) \<Rightarrow> model \<times> journal \<Rightarrow> (model \<times> journal) \<times> bool" where
  "redo arena s =
     (let (m, j) = s in
      if jn_cursor j \<ge> length (jn_entries j) then ((m, j), False)
      else let entry = st_entry (jn_entries j ! jn_cursor j) in
        case navigate arena entry Redo m of
          (m, Some _) \<Rightarrow> ((m, j), False)
        | (m, None) \<Rightarrow>
            ((m, journal_publish ((notify_restore Redo entry j)\<lparr>jn_cursor := jn_cursor j + 1\<rparr>)), True))"

text \<open>A commit with the journal as the commit sink: every entry handed on reaches it.\<close>

definition commit_to_journal ::
  "(nat \<Rightarrow> pool_error option) \<Rightarrow> string \<Rightarrow> edit list \<Rightarrow> model \<times> journal \<Rightarrow> ((model \<times> journal) \<times> pool_error option) option" where
  "commit_to_journal arena name es s =
     (let (m, j) = s in
      map_option (\<lambda>t. let (t, r) = commit t; m' = tx_model t
        in ((m', foldl (\<lambda>j e. on_commit e j) j (drop (length (md_committed m)) (md_committed m'))), r))
        (apply_edits es (transact arena name m)))"

subsection \<open>Entries between versions\<close>

definition entry_links :: "object_edit list \<Rightarrow> doc \<Rightarrow> doc \<Rightarrow> bool" where
  "entry_links oes d d' \<longleftrightarrow> distinct (map oe_object oes) \<and>
     (\<forall>oe \<in> set oes. fmlookup d (oe_object oe) = oe_before oe \<and> fmlookup d' (oe_object oe) = oe_after oe) \<and>
     (\<forall>i. i \<notin> oe_object ` set oes \<longrightarrow> fmlookup d' i = fmlookup d i)"

definition nav_source :: "nav_direction \<Rightarrow> doc \<Rightarrow> doc \<Rightarrow> doc" where
  "nav_source dir d d' = (case dir of Undo \<Rightarrow> d' | Redo \<Rightarrow> d)"

definition nav_result :: "nav_direction \<Rightarrow> doc \<Rightarrow> doc \<Rightarrow> doc" where
  "nav_result dir d d' = (case dir of Undo \<Rightarrow> d | Redo \<Rightarrow> d')"

lemma rebind_lookup:
  assumes "rebind arena n dir oes d = Inr d'" "distinct (map oe_object oes)"
  shows "(\<forall>oe \<in> set oes. fmlookup d' (oe_object oe) = nav_target dir oe) \<and>
    (\<forall>i. i \<notin> oe_object ` set oes \<longrightarrow> fmlookup d' i = fmlookup d i)"
  using assms
proof (induction oes arbitrary: n d)
  case (Cons oe oes)
  then have "arena n = None" by (cases "arena n") auto
  then show ?case using Cons by (cases "nav_target dir oe") auto
qed simp

lemma rebind_links:
  assumes "entry_links oes d d'" "rebind arena n dir oes (nav_source dir d d') = Inr r"
  shows "r = nav_result dir d d'"
proof (rule fmap_ext)
  fix i
  note l = assms(1) [unfolded entry_links_def]
  note rb = rebind_lookup [OF assms(2)]
  show "fmlookup r i = fmlookup (nav_result dir d d') i"
  proof (cases "i \<in> oe_object ` set oes")
    case True
    then obtain oe where "oe \<in> set oes" "i = oe_object oe" by blast
    then show ?thesis using l rb by (cases dir) (auto simp: nav_result_def nav_target_def)
  next
    case False
    then show ?thesis using l rb by (cases dir) (auto simp: nav_result_def nav_source_def)
  qed
qed

text \<open>
  What a history needs of the document it navigates: along an entry that links two versions, a
  navigation that succeeds lands exactly on the version of its direction, one revision up, and one that
  is refused changes nothing.
\<close>

locale navigator =
  fixes nav :: "journal_entry \<Rightarrow> nav_direction \<Rightarrow> 'm \<Rightarrow> 'm \<times> 'e option"
    and version :: "'m \<Rightarrow> doc"
    and rev :: "'m \<Rightarrow> nat"
  assumes nav_done: "entry_links (je_objects e) d d' \<Longrightarrow> version m = nav_source dir d d' \<Longrightarrow> nav e dir m = (m', None) \<Longrightarrow>
      version m' = nav_result dir d d' \<and> rev m' = rev m + 1"
    and nav_refused: "nav e dir m = (m', Some err) \<Longrightarrow> m' = m"
begin

lemma nav_there_and_back:
  assumes "entry_links (je_objects e) d d'" "version m = d'" "nav e Undo m = (m1, None)" "nav e Redo m1 = (m2, r)"
  shows "version m1 = d \<and> version m2 = (if r = None then d' else d) \<and> rev m2 = (if r = None then rev m + 2 else rev m + 1)"
proof -
  have 1: "version m1 = d \<and> rev m1 = rev m + 1"
    using nav_done [OF assms(1), of m Undo m1] assms(2,3) by (simp add: nav_source_def nav_result_def)
  show ?thesis
  proof (cases r)
    case None
    then show ?thesis using 1 nav_done [OF assms(1), of m1 Redo m2] assms(4) by (simp add: nav_source_def nav_result_def)
  next
    case (Some err)
    then have "m2 = m1" using nav_refused assms(4) by blast
    then show ?thesis using 1 Some by simp
  qed
qed

end

interpretation document: navigator "navigate arena" "\<lambda>m. dr_root (md_current m)" "\<lambda>m. dr_revision (md_current m)"
proof
  fix e d d' m dir m'
  assume "entry_links (je_objects e) d d'" "dr_root (md_current m) = nav_source dir d d'" "navigate arena e dir m = (m', None)"
  then show "dr_root (md_current m') = nav_result dir d d' \<and> dr_revision (md_current m') = dr_revision (md_current m) + 1"
    unfolding navigate_def by (auto split: sum.splits dest: rebind_links)
next
  fix e dir m m' err
  assume "navigate arena e dir m = (m', Some err)"
  then show "m' = m" unfolding navigate_def by (auto split: sum.splits)
qed

lemma navigate_total: "\<exists>m'. navigate never_full e dir m = (m', None)"
proof -
  have "\<exists>d'. rebind never_full n dir oes d = Inr d'" for n oes d
    by (induction oes arbitrary: n d) (simp_all add: never_full_def)
  then show ?thesis unfolding navigate_def by (metis (no_types, lifting) sum.case(2))
qed

lemma navigate_frame:
  assumes "navigate arena e dir m = (m', r)"
  shows "md_commit_sink m' = md_commit_sink m \<and> md_committed m' = md_committed m \<and> md_next_id m' = md_next_id m"
  using assms unfolding navigate_def flush_damage_def by (auto split: sum.splits if_splits)

subsection \<open>Coalescing composes entries\<close>

lemma merge_object_ids: "oe_object ` set (merge_object bs fe) = insert (oe_object fe) (oe_object ` set bs)"
  by (induction bs) auto

lemma merge_object_distinct: "distinct (map oe_object bs) \<Longrightarrow> distinct (map oe_object (merge_object bs fe))"
  using merge_object_ids by (induction bs) (auto simp flip: set_map)

lemma merge_object_mem:
  "x \<in> set (merge_object bs fe) \<Longrightarrow> distinct (map oe_object bs) \<Longrightarrow>
   x \<in> set bs \<and> oe_object x \<noteq> oe_object fe \<or>
   (\<exists>b \<in> set bs. oe_object b = oe_object fe \<and> x = b\<lparr>oe_after := oe_after fe\<rparr>) \<or>
   x = fe \<and> oe_object fe \<notin> oe_object ` set bs"
proof (induction bs)
  case (Cons b bs)
  show ?case
  proof (cases "oe_object b = oe_object fe")
    case True
    then show ?thesis using Cons.prems by (auto simp: image_iff)
  next
    case False
    then show ?thesis using Cons by auto
  qed
qed simp

lemma merge_object_links:
  assumes "entry_links bs d e" "fmlookup e (oe_object fe) = oe_before fe" "fmlookup e' (oe_object fe) = oe_after fe"
    "\<And>i. i \<noteq> oe_object fe \<Longrightarrow> fmlookup e' i = fmlookup e i"
  shows "entry_links (merge_object bs fe) d e'"
  unfolding entry_links_def
proof (intro conjI ballI allI impI)
  note l = assms(1) [unfolded entry_links_def]
  show "distinct (map oe_object (merge_object bs fe))" using l merge_object_distinct by blast
  fix x assume "x \<in> set (merge_object bs fe)"
  then have x: "x \<in> set bs \<and> oe_object x \<noteq> oe_object fe \<or>
   (\<exists>b \<in> set bs. oe_object b = oe_object fe \<and> x = b\<lparr>oe_after := oe_after fe\<rparr>) \<or>
   x = fe \<and> oe_object fe \<notin> oe_object ` set bs" using l merge_object_mem by blast
  show "fmlookup d (oe_object x) = oe_before x" using x l assms(2) by auto
  show "fmlookup e' (oe_object x) = oe_after x" using x l assms(3,4) by auto
next
  note l = assms(1) [unfolded entry_links_def]
  fix i assume "i \<notin> oe_object ` set (merge_object bs fe)"
  then show "fmlookup e' i = fmlookup d i" using l assms(4) by (auto simp: merge_object_ids)
qed

lemma merge_objects_link:
  assumes "entry_links bs d e" "entry_links fs e e'"
  shows "entry_links (foldl merge_object bs fs) d e'"
  using assms
proof (induction fs arbitrary: bs e)
  case Nil
  then have "e' = e" by (intro fmap_ext) (simp add: entry_links_def)
  then show ?case using Nil by simp
next
  case (Cons fe fs)
  define e1 where "e1 = (case oe_after fe of None \<Rightarrow> fmdrop (oe_object fe) e | Some r \<Rightarrow> fmupd (oe_object fe) r e)"
  have e1: "fmlookup e1 (oe_object fe) = oe_after fe" "\<And>i. i \<noteq> oe_object fe \<Longrightarrow> fmlookup e1 i = fmlookup e i"
    by (cases "oe_after fe"; simp add: e1_def)+
  note l = Cons.prems(2) [unfolded entry_links_def]
  have "entry_links (merge_object bs fe) d e1"
    using Cons.prems(1) l e1 by (intro merge_object_links [of bs d e]) auto
  moreover have "entry_links fs e1 e'"
    unfolding entry_links_def using l e1 by (auto simp: image_iff) metis
  ultimately show ?case using Cons.IH by simp
qed

subsection \<open>Chains of versions\<close>

definition version_chain :: "stored list \<Rightarrow> doc list \<Rightarrow> bool" where
  "version_chain ss vs \<longleftrightarrow> length vs = length ss + 1 \<and>
     (\<forall>k < length ss. entry_links (je_objects (st_entry (ss ! k))) (vs ! k) (vs ! Suc k))"

lemma version_chain_link:
  "version_chain ss vs \<Longrightarrow> 0 < k \<Longrightarrow> k \<le> length ss \<Longrightarrow>
   entry_links (je_objects (st_entry (ss ! (k - 1)))) (vs ! (k - 1)) (vs ! k)"
  by (cases k) (auto simp: version_chain_def)

lemma version_chain_take: "version_chain ss vs \<Longrightarrow> version_chain (take n ss) (take (Suc n) vs)"
  by (auto simp: version_chain_def)

lemma version_chain_drop: "version_chain ss vs \<Longrightarrow> n \<le> length ss \<Longrightarrow> version_chain (drop n ss) (drop n vs)"
  by (auto simp: version_chain_def)

lemma version_chain_snoc:
  assumes "version_chain ss vs" "entry_links (je_objects (st_entry s)) (vs ! length ss) d"
  shows "version_chain (ss @ [s]) (vs @ [d])"
  using assms by (auto simp: version_chain_def nth_append less_Suc_eq)

lemma trim_entries_spec:
  "trim_entries b ss c tot = (ss', c', tot') \<Longrightarrow> \<exists>k. ss' = drop k ss \<and> (k = 0 \<or> k < length ss) \<and> c' = c - k \<and>
    (tot = sum_list (map st_cost ss) \<longrightarrow> tot' = sum_list (map st_cost ss')) \<and> (length ss' \<le> 1 \<or> tot' \<le> b)"
proof (induction b ss c tot rule: trim_entries.induct)
  case (1 b s s' ss c tot)
  show ?case
  proof (cases "tot > b")
    case True
    then obtain k where k: "ss' = drop k (s' # ss)" "k = 0 \<or> k < length (s' # ss)" "c' = c - 1 - k"
      "tot - st_cost s = sum_list (map st_cost (s' # ss)) \<longrightarrow> tot' = sum_list (map st_cost ss')" "length ss' \<le> 1 \<or> tot' \<le> b"
      using 1 by auto
    then show ?thesis by (intro exI [of _ "Suc k"]) auto
  next
    case False
    then show ?thesis using "1.prems" by (intro exI [of _ 0]) auto
  qed
qed auto

lemma history_rows_view:
  "map (\<lambda>r. (hr_name r, hr_cost r)) (fst (history_rows prev i made ss)) = map (\<lambda>s. (je_name (st_entry s), st_cost s)) ss"
  by (induction prev i made ss rule: history_rows.induct) (auto simp: reusable_row_def split: prod.splits)

definition published_ok :: "journal \<Rightarrow> bool" where
  "published_ok j \<longleftrightarrow> jn_published j = pack (jn_cursor j) (length (jn_entries j)) \<and>
     map (\<lambda>r. (hr_name r, hr_cost r)) (jn_history j) = map (\<lambda>s. (je_name (st_entry s), st_cost s)) (jn_entries j)"

lemma journal_publish_simps [simp]:
  "jn_entries (journal_publish j) = jn_entries j" "jn_cursor (journal_publish j) = jn_cursor j"
  "jn_total_cost (journal_publish j) = jn_total_cost j" "jn_budget (journal_publish j) = jn_budget j"
  "jn_restored (journal_publish j) = jn_restored j" "published_ok (journal_publish j)"
  using history_rows_view [of "jn_history j" 0 "jn_rows_made j" "jn_entries j"]
  by (simp_all add: journal_publish_def publish_history_def published_ok_def split_beta)

text \<open>The state of a history: the versions it can reach, oldest first, and where it stands among them.\<close>

definition hist_ok :: "model \<times> journal \<Rightarrow> doc list \<Rightarrow> bool" where
  "hist_ok s vs \<longleftrightarrow> (case s of (m, j) \<Rightarrow>
     version_chain (jn_entries j) vs \<and> jn_cursor j \<le> length (jn_entries j) \<and> dr_root (md_current m) = vs ! jn_cursor j \<and>
     jn_total_cost j = sum_list (map st_cost (jn_entries j)) \<and>
     (length (jn_entries j) \<le> 1 \<or> jn_total_cost j \<le> jn_budget j) \<and> published_ok j)"

lemma trim_ok:
  assumes "version_chain (jn_entries j) vs" "jn_cursor j = length (jn_entries j)" "dr_root (md_current m) = last vs"
    "jn_total_cost j = sum_list (map st_cost (jn_entries j))"
  shows "hist_ok (m, trim j) (drop (length (jn_entries j) - length (jn_entries (trim j))) vs) \<and>
    jn_cursor (trim j) = length (jn_entries (trim j))"
proof -
  obtain ss c tot where t: "trim_entries (jn_budget j) (jn_entries j) (jn_cursor j) (jn_total_cost j) = (ss, c, tot)"
    by (cases "trim_entries (jn_budget j) (jn_entries j) (jn_cursor j) (jn_total_cost j)")
  obtain k where k: "ss = drop k (jn_entries j)" "k = 0 \<or> k < length (jn_entries j)" "c = jn_cursor j - k"
    "tot = sum_list (map st_cost ss)" "length ss \<le> 1 \<or> tot \<le> jn_budget j"
    using trim_entries_spec [OF t] assms(4) by blast
  have kl: "k \<le> length (jn_entries j)" using k(2) by auto
  have tr: "trim j = journal_publish (j\<lparr>jn_entries := ss, jn_cursor := c, jn_total_cost := tot\<rparr>)"
    using t by (simp add: trim_def)
  have n: "length (jn_entries j) - length (jn_entries (trim j)) = k" using tr k(1) kl by simp
  have l: "length vs = length (jn_entries j) + 1" using assms(1) by (simp add: version_chain_def)
  have "drop k vs ! c = last vs"
    using k(3) kl l assms(2) last_conv_nth [of vs] by (cases "vs = []") auto
  then show ?thesis
    unfolding n using tr k kl assms version_chain_drop [OF assms(1) kl] by (simp add: hist_ok_def)
qed

lemma foldl_costs: "foldl (\<lambda>tot s. tot - st_cost s) (n + sum_list (map st_cost ss)) ss = n"
  by (induction ss arbitrary: n) (simp_all add: algebra_simps)

definition versions_after :: "journal_entry \<Rightarrow> journal \<Rightarrow> doc \<Rightarrow> doc list \<Rightarrow> doc list" where
  "versions_after e j d vs =
     (let ws = take (if coalesces e j then jn_cursor j else Suc (jn_cursor j)) vs @ [d]
      in drop (length ws - Suc (length (jn_entries (on_commit e j)))) ws)"

lemma sum_list_last: "xs \<noteq> [] \<Longrightarrow> sum_list (map f xs) = sum_list (map f (butlast xs)) + (f (last xs) :: nat)"
  by (induction xs rule: rev_induct) auto

lemma on_commit_ok:
  assumes "hist_ok (m, j) vs" "entry_links (je_objects e) (vs ! jn_cursor j) d" "dr_root (md_current m') = d"
  shows "hist_ok (m', on_commit e j) (versions_after e j d vs) \<and>
    jn_cursor (on_commit e j) = length (jn_entries (on_commit e j))"
proof (cases "coalesces e j")
  case True
  define tip where "tip = last (jn_entries j)"
  define merged where "merged = coalesce_entries (st_entry tip) e"
  define j1 where "j1 = j\<lparr>jn_entries := butlast (jn_entries j) @ [\<lparr>st_entry = merged, st_cost = entry_cost j merged\<rparr>],
             jn_total_cost := jn_total_cost j - st_cost tip + entry_cost j merged\<rparr>"
  let ?n = "length (jn_entries j)"
  have c: "jn_cursor j = ?n" "jn_entries j \<noteq> []" using True by (auto simp: coalesces_def)
  have chain: "version_chain (jn_entries j) vs" "length vs = ?n + 1"
    using assms(1) by (auto simp: hist_ok_def version_chain_def)
  have oc: "on_commit e j = trim j1" using True by (simp add: on_commit_def Let_def j1_def merged_def tip_def)
  have link: "entry_links (je_objects (st_entry tip)) (vs ! (?n - 1)) (vs ! ?n)"
    using version_chain_link [OF chain(1), of ?n] c(2) by (simp add: tip_def last_conv_nth)
  have merged: "entry_links (je_objects merged) (vs ! (?n - 1)) d"
    using merge_objects_link [OF link] assms(2) c(1) by (simp add: merged_def coalesce_entries_def)
  have bl: "version_chain (butlast (jn_entries j)) (take ?n vs)"
    using version_chain_take [OF chain(1), of "?n - 1"] c(2) by (simp add: butlast_conv_take)
  have ch1: "version_chain (jn_entries j1) (take ?n vs @ [d])"
    unfolding j1_def using version_chain_snoc [OF bl, of "\<lparr>st_entry = merged, st_cost = entry_cost j merged\<rparr>" d] merged c(2)
    by simp
  have "sum_list (map st_cost (jn_entries j)) = sum_list (map st_cost (butlast (jn_entries j))) + st_cost tip"
    using sum_list_last [OF c(2)] by (simp add: tip_def)
  then have tot: "jn_total_cost j1 = sum_list (map st_cost (jn_entries j1))"
    using assms(1) by (simp add: j1_def hist_ok_def)
  have len: "length (jn_entries j1) = ?n" "jn_cursor j1 = ?n" using c by (simp_all add: j1_def)
  note t = trim_ok [OF ch1 _ _ tot, of m']
  have "versions_after e j d vs = drop (?n - length (jn_entries (trim j1))) (take ?n vs @ [d])"
    using True chain(2) c by (simp add: versions_after_def Let_def oc)
  then show ?thesis using t len assms(3) oc by simp
next
  case False
  let ?c = "jn_cursor j" and ?s = "\<lparr>st_entry = e, st_cost = entry_cost j e\<rparr>"
  define j1 where "j1 = j\<lparr>jn_entries := take ?c (jn_entries j) @ [?s],
             jn_total_cost := foldl (\<lambda>tot s. tot - st_cost s) (jn_total_cost j) (drop ?c (jn_entries j)) + entry_cost j e,
             jn_cursor := length (take ?c (jn_entries j)) + 1\<rparr>"
  have oc: "on_commit e j = trim j1" using False by (simp add: on_commit_def Let_def j1_def)
  have chain: "version_chain (jn_entries j) vs" "length vs = length (jn_entries j) + 1" "?c \<le> length (jn_entries j)"
    using assms(1) by (auto simp: hist_ok_def version_chain_def)
  have ch1: "version_chain (jn_entries j1) (take (Suc ?c) vs @ [d])"
    unfolding j1_def using version_chain_snoc [OF version_chain_take [OF chain(1), of ?c], of ?s d] assms(2) chain
    by simp
  have "jn_total_cost j = sum_list (map st_cost (take ?c (jn_entries j))) + sum_list (map st_cost (drop ?c (jn_entries j)))"
    using assms(1) by (simp add: hist_ok_def flip: sum_list_append map_append)
  then have tot: "jn_total_cost j1 = sum_list (map st_cost (jn_entries j1))"
    by (simp add: j1_def foldl_costs)
  have len: "length (jn_entries j1) = Suc ?c" "jn_cursor j1 = Suc ?c" using chain(3) by (simp_all add: j1_def)
  note t = trim_ok [OF ch1 _ _ tot, of m']
  have "versions_after e j d vs = drop (Suc ?c - length (jn_entries (trim j1))) (take (Suc ?c) vs @ [d])"
    using False chain by (simp add: versions_after_def Let_def oc)
  then show ?thesis using t len assms(3) oc by simp
qed

lemma notify_restore_simps [simp]:
  "jn_entries (notify_restore dir e j) = jn_entries j" "jn_total_cost (notify_restore dir e j) = jn_total_cost j"
  "jn_budget (notify_restore dir e j) = jn_budget j" "jn_cursor (notify_restore dir e j) = jn_cursor j"
  by (simp_all add: notify_restore_def)

lemma undo_ok:
  assumes "hist_ok (m, j) vs" "undo arena (m, j) = ((m', j'), ok)"
  shows "hist_ok (m', j') vs \<and> jn_entries j' = jn_entries j \<and> (\<not> ok \<longrightarrow> m' = m \<and> j' = j) \<and>
    (ok \<longrightarrow> jn_cursor j = Suc (jn_cursor j') \<and> dr_revision (md_current m') = dr_revision (md_current m) + 1)"
proof (cases "jn_cursor j = 0")
  case True
  then show ?thesis using assms by (simp add: undo_def)
next
  case False
  let ?e = "st_entry (jn_entries j ! (jn_cursor j - 1))"
  obtain m1 r where n: "navigate arena ?e Undo m = (m1, r)" by (cases "navigate arena ?e Undo m")
  show ?thesis
  proof (cases r)
    case (Some err)
    then show ?thesis using assms False n document.nav_refused [of arena ?e Undo m m1 err] by (simp add: undo_def Let_def)
  next
    case None
    have ch: "version_chain (jn_entries j) vs" "jn_cursor j \<le> length (jn_entries j)" "dr_root (md_current m) = vs ! jn_cursor j"
      using assms(1) by (auto simp: hist_ok_def)
    have "entry_links (je_objects ?e) (vs ! (jn_cursor j - 1)) (vs ! jn_cursor j)"
      using version_chain_link [OF ch(1), of "jn_cursor j"] ch(2) False by simp
    then have "dr_root (md_current m1) = vs ! (jn_cursor j - 1) \<and> dr_revision (md_current m1) = dr_revision (md_current m) + 1"
      using document.nav_done [of ?e _ "vs ! jn_cursor j" m Undo arena m1] n None ch(3) by (simp add: nav_source_def nav_result_def)
    then show ?thesis using assms False n None by (auto simp: undo_def Let_def hist_ok_def)
  qed
qed

lemma redo_ok:
  assumes "hist_ok (m, j) vs" "redo arena (m, j) = ((m', j'), ok)"
  shows "hist_ok (m', j') vs \<and> jn_entries j' = jn_entries j \<and> (\<not> ok \<longrightarrow> m' = m \<and> j' = j) \<and>
    (ok \<longrightarrow> jn_cursor j' = Suc (jn_cursor j) \<and> dr_revision (md_current m') = dr_revision (md_current m) + 1)"
proof (cases "jn_cursor j \<ge> length (jn_entries j)")
  case True
  then show ?thesis using assms by (simp add: redo_def)
next
  case False
  let ?e = "st_entry (jn_entries j ! jn_cursor j)"
  obtain m1 r where n: "navigate arena ?e Redo m = (m1, r)" by (cases "navigate arena ?e Redo m")
  show ?thesis
  proof (cases r)
    case (Some err)
    then show ?thesis using assms False n document.nav_refused [of arena ?e Redo m m1 err] by (simp add: redo_def Let_def)
  next
    case None
    have ch: "version_chain (jn_entries j) vs" "dr_root (md_current m) = vs ! jn_cursor j"
      using assms(1) by (auto simp: hist_ok_def)
    have "entry_links (je_objects ?e) (vs ! jn_cursor j) (vs ! Suc (jn_cursor j))"
      using ch(1) False by (auto simp: version_chain_def)
    then have "dr_root (md_current m1) = vs ! Suc (jn_cursor j) \<and> dr_revision (md_current m1) = dr_revision (md_current m) + 1"
      using document.nav_done [of ?e "vs ! jn_cursor j" _ m Redo arena m1] n None ch(2) by (simp add: nav_source_def nav_result_def)
    then show ?thesis using assms False n None by (auto simp: redo_def Let_def hist_ok_def)
  qed
qed

subsection \<open>Reachable histories\<close>

text \<open>
  The sessions of a document with its journal and the versions the history spans. The budget is set
  only with every entry applied; the last property below shows what happens otherwise.
\<close>

inductive history :: "model \<times> journal \<Rightarrow> doc list \<Rightarrow> bool" where
  opened: "md_commit_sink m \<Longrightarrow> history (m, journal_new bytes budget) [dr_root (md_current m)]"
| committed: "history (m, j) vs \<Longrightarrow> commit_to_journal arena name es (m, j) = Some ((m', j'), None) \<Longrightarrow>
    history (m', j') (versions_after (last (md_committed m')) j (dr_root (md_current m')) vs)"
| refused: "history (m, j) vs \<Longrightarrow> commit_to_journal arena name es (m, j) = Some (s', Some err) \<Longrightarrow> history s' vs"
| undone: "history (m, j) vs \<Longrightarrow> undo arena (m, j) = (s', ok) \<Longrightarrow> history s' vs"
| redone: "history (m, j) vs \<Longrightarrow> redo arena (m, j) = (s', ok) \<Longrightarrow> history s' vs"
| rebudgeted: "history (m, j) vs \<Longrightarrow> jn_cursor j = length (jn_entries j) \<Longrightarrow>
    history (m, set_byte_budget b j) (drop (length (jn_entries j) - length (jn_entries (set_byte_budget b j))) vs)"
| coster: "history (m, j) vs \<Longrightarrow> history (m, set_state_cost_fn f j) vs"
| restorer: "history (m, j) vs \<Longrightarrow> history (m, set_restore_sink on j) vs"

lemma commit_to_journal_ok:
  assumes "commit_to_journal arena name es (m, j) = Some ((m', j'), r)" "md_commit_sink m"
  shows "md_commit_sink m' \<and> (r \<noteq> None \<longrightarrow> md_current m' = md_current m \<and> j' = j) \<and>
    (r = None \<longrightarrow> (\<exists>e. last (md_committed m') = e \<and> j' = on_commit e j \<and> je_name e = name \<and>
      entry_links (je_objects e) (dr_root (md_current m)) (dr_root (md_current m')) \<and>
      dr_revision (md_current m') = dr_revision (md_current m) + 1))"
proof -
  obtain t where t: "apply_edits es (transact arena name m) = Some t" using assms(1) by (auto simp: commit_to_journal_def)
  obtain t' r' where c: "commit t = (t', r')" by (cases "commit t")
  have run: "m' = tx_model t'" "r = r'" "j' = foldl (\<lambda>j e. on_commit e j) j (drop (length (md_committed m)) (md_committed m'))"
    using assms(1) t c by (auto simp: commit_to_journal_def Let_def)
  have ext: "tx_extends (transact arena name m) t" using t by (rule apply_edits_extends)
  then have sink: "md_commit_sink (tx_model t)" "md_committed (tx_model t) = md_committed m" "md_current (tx_model t) = md_current m"
    "tx_base t = md_current m" "tx_publish_revision t = dr_revision (md_current m) + 1" "tx_open t" "tx_name t = name"
    using assms(2) by (auto simp: tx_extends_def)
  have ok: "tx_ok t" using ext transact_ok by (simp add: tx_extends_def)
  show ?thesis
  proof (cases r')
    case (Some err)
    then have "tx_model t' = tx_model t" using commit_not_published c by blast
    then show ?thesis using run sink Some by simp
  next
    case None
    have st: "tx_status t = None" using c None sink(6) by (auto simp: commit_def split: if_splits)
    have l: "entry_links (je_objects (entry_of t)) (dr_root (md_current m)) (tx_root t)"
      using ok sink(4) by (auto simp: entry_links_def entry_of_def edits_of_def tx_ok_def o_def image_image)
    from c sink(6) st show ?thesis
    proof (cases rule: commit_cases)
      case published
      then have "md_committed m' = md_committed m @ [entry_of t]" "md_commit_sink m'"
        "md_current m' = \<lparr>dr_root = tx_root t, dr_revision = dr_revision (md_current m) + 1\<rparr>"
        using run(1) sink by simp_all
      then show ?thesis using run l sink(7) None by (simp add: entry_of_def)
    next
      case (refused e)
      then show ?thesis using None by simp
    qed
  qed
qed

lemma hist_ok_budget:
  assumes "hist_ok (m, j) vs" "jn_cursor j = length (jn_entries j)"
  shows "hist_ok (m, set_byte_budget b j) (drop (length (jn_entries j) - length (jn_entries (set_byte_budget b j))) vs)"
proof -
  let ?j = "j\<lparr>jn_budget := b\<rparr>"
  have v: "version_chain (jn_entries j) vs" "length vs = length (jn_entries j) + 1"
    using assms(1) by (auto simp: hist_ok_def version_chain_def)
  then have "last vs = vs ! jn_cursor j" using assms(2) last_conv_nth [of vs] by (cases "vs = []") auto
  then have d: "dr_root (md_current m) = last vs" "jn_total_cost j = sum_list (map st_cost (jn_entries j))"
    using assms by (auto simp: hist_ok_def)
  have t: "hist_ok (m, trim ?j) (drop (length (jn_entries j) - length (jn_entries (trim ?j))) vs)"
    using trim_ok [of ?j vs m] assms(2) v(1) d by simp
  have "hist_ok (m, journal_publish k) ws" if "hist_ok (m, k) ws" for k ws
    using that by (auto simp: hist_ok_def)
  from this [OF t] show ?thesis by (simp add: set_byte_budget_def)
qed

lemma navigation_keeps_sink:
  "undo arena (m, j) = (s', ok) \<Longrightarrow> md_commit_sink (fst s') = md_commit_sink m"
  "redo arena (m, j) = (s', ok) \<Longrightarrow> md_commit_sink (fst s') = md_commit_sink m"
  by (auto simp: undo_def redo_def Let_def split: if_splits prod.splits option.splits dest: navigate_frame)

lemma history_inv: "history s vs \<Longrightarrow> hist_ok s vs \<and> md_commit_sink (fst s)"
proof (induction rule: history.induct)
  case (opened m bytes budget)
  then show ?case by (simp add: hist_ok_def journal_new_def version_chain_def published_ok_def pack_def clamp_count_def)
next
  case (committed m j vs arena name es m' j')
  obtain e where e: "last (md_committed m') = e" "j' = on_commit e j" "md_commit_sink m'"
    "entry_links (je_objects e) (dr_root (md_current m)) (dr_root (md_current m'))"
    using commit_to_journal_ok [OF committed.hyps(2)] committed.IH by auto
  have "dr_root (md_current m) = vs ! jn_cursor j" using committed.IH by (simp add: hist_ok_def)
  then show ?case using on_commit_ok [of m j vs e "dr_root (md_current m')" m'] committed.IH e by simp
next
  case (refused m j vs arena name es s' err)
  then show ?case using commit_to_journal_ok [of arena name es m j "fst s'" "snd s'" "Some err"]
    by (auto simp: hist_ok_def)
next
  case (undone m j vs arena s' ok)
  then show ?case using undo_ok [of m j vs arena "fst s'" "snd s'" ok] navigation_keeps_sink(1) by simp
next
  case (redone m j vs arena s' ok)
  then show ?case using redo_ok [of m j vs arena "fst s'" "snd s'" ok] navigation_keeps_sink(2) by simp
next
  case (rebudgeted m j vs b)
  then show ?case using hist_ok_budget by simp
qed (auto simp: hist_ok_def published_ok_def set_state_cost_fn_def set_restore_sink_def)

text \<open>
  C5: The journal is a walk along fixed versions: in every reachable session the current document is
  exactly the version at the cursor, record for record, where a commit appends the version it
  published (in place of the tip it coalesces with) and drops the versions above the cursor and those
  trimmed, and an undo, a redo and a refused operation change none of them; the history keeps one
  entry per step between versions, the running cost is the sum of the entries', and past one entry it
  stays within the budget.
\<close>

theorem history_walks_versions:
  assumes "history (m, j) vs"
  shows "dr_root (md_current m) = vs ! jn_cursor j \<and> jn_cursor j \<le> length (jn_entries j) \<and>
    length vs = length (jn_entries j) + 1 \<and> jn_total_cost j = sum_list (map st_cost (jn_entries j)) \<and>
    (length (jn_entries j) \<le> 1 \<or> jn_total_cost j \<le> jn_budget j)"
  using history_inv [OF assms] by (auto simp: hist_ok_def version_chain_def)

text \<open>
  C6: Undo and redo are exact inverses and always possible while the arena grants: with an entry
  applied, undo succeeds, publishes the version below under the next revision, and a redo after it
  publishes the very version before the undo; both keep the entries, and the restore sink is told the
  states before, then the states after.
\<close>

theorem undo_then_redo_exact:
  assumes "history (m, j) vs" "jn_cursor j > 0"
  shows "\<exists>m1 j1 m2 j2. undo never_full (m, j) = ((m1, j1), True) \<and> redo never_full (m1, j1) = ((m2, j2), True) \<and>
    md_current m1 = \<lparr>dr_root = vs ! (jn_cursor j - 1), dr_revision = dr_revision (md_current m) + 1\<rparr> \<and>
    md_current m2 = \<lparr>dr_root = dr_root (md_current m), dr_revision = dr_revision (md_current m) + 2\<rparr> \<and>
    jn_entries j1 = jn_entries j \<and> jn_entries j2 = jn_entries j \<and> jn_cursor j2 = jn_cursor j \<and>
    jn_restored j2 = jn_restored j @ (let es = je_contents (st_entry (jn_entries j ! (jn_cursor j - 1))) in
      if jn_restore_sink j then map (\<lambda>e. (ce_object e, ce_before e)) es @ map (\<lambda>e. (ce_object e, ce_after e)) es else [])"
proof -
  let ?e = "st_entry (jn_entries j ! (jn_cursor j - 1))"
  have h: "hist_ok (m, j) vs" using history_inv [OF assms(1)] by simp
  then have c: "jn_cursor j \<le> length (jn_entries j)" "dr_root (md_current m) = vs ! jn_cursor j" by (auto simp: hist_ok_def)
  have l: "entry_links (je_objects ?e) (vs ! (jn_cursor j - 1)) (vs ! jn_cursor j)"
    using h version_chain_link assms(2) by (simp add: hist_ok_def)
  obtain m1 where m1: "navigate never_full ?e Undo m = (m1, None)" using navigate_total by blast
  obtain m2 where m2: "navigate never_full ?e Redo m1 = (m2, None)" using navigate_total by blast
  note home = document.nav_there_and_back [OF l c(2) m1 m2]
  note there = document.nav_done [OF l _ m1] 
  let ?j1 = "journal_publish ((notify_restore Undo ?e j)\<lparr>jn_cursor := jn_cursor j - 1\<rparr>)"
  have u: "undo never_full (m, j) = ((m1, ?j1), True)" using assms(2) m1 by (simp add: undo_def Let_def)
  let ?j2 = "journal_publish ((notify_restore Redo ?e ?j1)\<lparr>jn_cursor := jn_cursor ?j1 + 1\<rparr>)"
  have r: "redo never_full (m1, ?j1) = ((m2, ?j2), True)"
    using assms(2) m2 c(1) by (simp add: redo_def Let_def)
  show ?thesis
  proof (rule exI [of _ m1], rule exI [of _ ?j1], rule exI [of _ m2], rule exI [of _ ?j2], intro conjI u r)
    show "md_current m1 = \<lparr>dr_root = vs ! (jn_cursor j - 1), dr_revision = dr_revision (md_current m) + 1\<rparr>"
      using home there c(2) by (intro doc_root.equality) (simp_all add: nav_source_def nav_result_def)
    show "md_current m2 = \<lparr>dr_root = dr_root (md_current m), dr_revision = dr_revision (md_current m) + 2\<rparr>"
      using home c(2) by (intro doc_root.equality) simp_all
    show "jn_cursor ?j2 = jn_cursor j" using assms(2) by simp
    have rs: "jn_restore_sink ?j1 = jn_restore_sink j"
      by (simp add: journal_publish_def publish_history_def notify_restore_def split: prod.split)
    have cu: "(\<lambda>ce. (ce_object ce, case Undo of Undo \<Rightarrow> ce_before ce | Redo \<Rightarrow> ce_after ce)) = (\<lambda>ce. (ce_object ce, ce_before ce))"
      "(\<lambda>ce. (ce_object ce, case Redo of Undo \<Rightarrow> ce_before ce | Redo \<Rightarrow> ce_after ce)) = (\<lambda>ce. (ce_object ce, ce_after ce))" by simp_all
    show "jn_restored ?j2 = jn_restored j @ (let es = je_contents ?e in
      if jn_restore_sink j then map (\<lambda>e. (ce_object e, ce_before e)) es @ map (\<lambda>e. (ce_object e, ce_after e)) es else [])"
      using rs by (simp add: notify_restore_def Let_def)
  qed simp_all
qed


subsection \<open>The published counts\<close>

lemma clamp_count_unat: "unat (clamp_count v) = min v published_max"
  by (simp add: clamp_count_def unat_of_nat published_max_def min_def)

lemma clamp_count_bits: "bit (clamp_count v) n \<Longrightarrow> n < 32"
proof -
  have "take_bit 32 (clamp_count v) = clamp_count v"
    by (simp add: word_unat_eq_iff unsigned_take_bit_eq clamp_count_unat take_bit_nat_eq_self published_max_def min_def)
  then show "bit (clamp_count v) n \<Longrightarrow> n < 32" by (metis bit_take_bit_iff)
qed

lemma pack_read_back:
  "published_cursor (pack c d) = min c published_max" "published_depth (pack c d) = min d published_max"
proof -
  have m: "(of_nat published_max :: 64 word) = mask 32" by (simp add: published_max_def mask_eq_exp_minus_1)
  have "pack c d AND mask 32 = clamp_count c"
    by (rule bit_word_eqI) (auto simp: pack_def bit_simps dest: clamp_count_bits)
  then show "published_cursor (pack c d) = min c published_max"
    by (simp add: published_cursor_def m clamp_count_unat)
  have "drop_bit 32 (pack c d) = clamp_count d"
    by (rule bit_word_eqI) (auto simp: pack_def bit_simps dest: clamp_count_bits)
  then show "published_depth (pack c d) = min d published_max"
    by (simp add: published_depth_def clamp_count_unat)
qed

text \<open>
  The affordances a UI thread reads never promise what the writer does not have: in every reachable
  session \<open>can_undo\<close> holds exactly if an entry is applied, \<open>can_redo\<close> only if one is undone (and
  exactly then below 2^32 entries; past that the saturated pair offers no redo rather than a false
  one), and the history panel lists exactly the names and costs of the stored entries.
\<close>

theorem published_state_sound:
  assumes "history (m, j) vs"
  shows "(can_undo j \<longleftrightarrow> jn_cursor j > 0) \<and> (can_redo j \<longrightarrow> jn_cursor j < length (jn_entries j)) \<and>
    (length (jn_entries j) < 2 ^ 32 \<longrightarrow> (can_redo j \<longleftrightarrow> jn_cursor j < length (jn_entries j))) \<and>
    map (\<lambda>r. (hr_name r, hr_cost r)) (jn_history j) = map (\<lambda>s. (je_name (st_entry s), st_cost s)) (jn_entries j)"
proof -
  have h: "published_ok j" "jn_cursor j \<le> length (jn_entries j)" using history_inv [OF assms] by (auto simp: hist_ok_def)
  then have p: "published_cursor (jn_published j) = min (jn_cursor j) published_max"
    "published_depth (jn_published j) = min (length (jn_entries j)) published_max"
    by (simp_all add: published_ok_def pack_read_back)
  have max: "0 < published_max" "2 ^ 32 = published_max + 1" by (simp_all add: published_max_def)
  have u: "can_undo j \<longleftrightarrow> jn_cursor j > 0" using p max by (auto simp: can_undo_def)
  have r: "can_redo j \<longrightarrow> jn_cursor j < length (jn_entries j)" using p by (auto simp: can_redo_def)
  have e: "can_redo j \<longleftrightarrow> jn_cursor j < length (jn_entries j)" if "length (jn_entries j) < 2 ^ 32"
    using p h(2) that unfolding can_redo_def max(2) by (auto simp: min_def)
  show ?thesis using u r e h(1) by (intro conjI impI) (simp_all add: published_ok_def)
qed

definition covered_by :: "damage list \<Rightarrow> damage \<Rightarrow> bool" where
  "covered_by ds x \<longleftrightarrow> (\<exists>y \<in> set ds. dm_object y = dm_object x \<and> rect_points (dm_rect x) \<subseteq> rect_points (dm_rect y) \<and>
     (\<forall>t. range_contains (dm_range x) t \<longrightarrow> range_contains (dm_range y) t))"

lemma covered_by_add: "x = d \<or> covered_by ds x \<Longrightarrow> covered_by (damage_add ds d) x"
proof (elim disjE)
  assume "x = d"
  then show ?thesis using damage_add_covers [of d "dm_object d" d ds] by (auto simp: covered_by_def)
next
  assume "covered_by ds x"
  then obtain y where y: "y \<in> set ds" "dm_object y = dm_object x" "rect_points (dm_rect x) \<subseteq> rect_points (dm_rect y)"
    "\<forall>t. range_contains (dm_range x) t \<longrightarrow> range_contains (dm_range y) t" by (auto simp: covered_by_def)
  show ?thesis
  proof (cases "dm_object y = dm_object d")
    case True
    then obtain z where "z \<in> set (damage_add ds d)" "dm_object z = dm_object d" "rect_points (dm_rect y) \<subseteq> rect_points (dm_rect z)"
      "\<forall>t. range_contains (dm_range y) t \<longrightarrow> range_contains (dm_range z) t"
      using damage_add_covers [OF refl, of y d ds] y(1) by auto
    then show ?thesis using True y(2-4) unfolding covered_by_def by (intro bexI [of _ z]) auto
  next
    case False
    then show ?thesis using y damage_add_keeps [OF False, of ds] unfolding covered_by_def by (intro bexI [of _ y]) auto
  qed
qed

lemma covered_by_fold: "x \<in> set fs \<or> covered_by ds x \<Longrightarrow> covered_by (foldl damage_add ds fs) x"
proof (induction fs arbitrary: ds)
  case (Cons f fs)
  then show ?case using covered_by_add [of x f ds] by auto
qed simp

text \<open>
  Coalescing composes: where one entry leads from a version to a second and another from there to a
  third, the merged entry leads from the first to the third, so undoing it skips the middle version
  exactly; it keeps the name and key of the first, and its damage covers, in space and time, all that
  either covered.
\<close>

theorem coalescing_composes:
  assumes "entry_links (je_objects e1) d1 d2" "entry_links (je_objects e2) d2 d3"
  shows "entry_links (je_objects (coalesce_entries e1 e2)) d1 d3 \<and> je_name (coalesce_entries e1 e2) = je_name e1 \<and>
    je_coalesce_key (coalesce_entries e1 e2) = je_coalesce_key e1 \<and>
    (\<forall>x \<in> set (je_damage e1) \<union> set (je_damage e2). \<exists>y \<in> set (je_damage (coalesce_entries e1 e2)).
      dm_object y = dm_object x \<and> rect_points (dm_rect x) \<subseteq> rect_points (dm_rect y) \<and>
      (\<forall>t. range_contains (dm_range x) t \<longrightarrow> range_contains (dm_range y) t))"
proof (intro conjI)
  show "entry_links (je_objects (coalesce_entries e1 e2)) d1 d3"
    using merge_objects_link [OF assms] by (simp add: coalesce_entries_def)
  have "covered_by (foldl damage_add (je_damage e1) (je_damage e2)) x" if "x \<in> set (je_damage e1) \<union> set (je_damage e2)" for x
    using that by (intro covered_by_fold) (auto simp: covered_by_def)
  then show "\<forall>x \<in> set (je_damage e1) \<union> set (je_damage e2). \<exists>y \<in> set (je_damage (coalesce_entries e1 e2)).
      dm_object y = dm_object x \<and> rect_points (dm_rect x) \<subseteq> rect_points (dm_rect y) \<and>
      (\<forall>t. range_contains (dm_range x) t \<longrightarrow> range_contains (dm_range y) t)"
    by (simp add: covered_by_def coalesce_entries_def)
qed (simp_all add: coalesce_entries_def)

subsection \<open>A session\<close>

definition fresh_session :: "model \<times> journal" where
  "fresh_session = (model_new\<lparr>md_commit_sink := True\<rparr>, journal_new 1 no_budget)"

definition committed_session :: "nat \<Rightarrow> model \<times> journal \<Rightarrow> model \<times> journal" where
  "committed_session k s = fst (the (commit_to_journal never_full [] [AddContent k] s))"

definition content_object :: "nat \<Rightarrow> nat \<Rightarrow> nat \<Rightarrow> object_record" where
  "content_object i rv k = \<lparr>or_id = i, or_revision = rv, or_body = ContentBody (content_record_new k)\<rparr>"

definition added_entry :: "nat \<Rightarrow> nat \<Rightarrow> nat \<Rightarrow> journal_entry" where
  "added_entry i rv k = \<lparr>je_name = [], je_coalesce_key = 0,
     je_objects = [\<lparr>oe_object = i, oe_before = None, oe_after = Some (content_object i rv k)\<rparr>],
     je_contents = [], je_damage = [full_damage i]\<rparr>"

lemma commit_added:
  assumes "md_commit_sink m" "fmlookup (dr_root (md_current m)) (md_next_id m) = None" "\<not> md_damage_sink m"
  defines "i \<equiv> md_next_id m" and "r \<equiv> dr_revision (md_current m) + 1"
  shows "commit_to_journal never_full [] [AddContent k] (m, j) =
    Some ((m\<lparr>md_next_id := i + 1, md_current := \<lparr>dr_root = fmupd i (content_object i r k) (dr_root (md_current m)), dr_revision = r\<rparr>,
      md_committed := md_committed m @ [added_entry i r k]\<rparr>, on_commit (added_entry i r k) j), None)"
  using assms
  by (simp add: commit_to_journal_def add_content_def transact_def allocate_id_def add_record_def put_record_def
    create_record_def bind_record_def pool_call_def never_full_def touch_def tx_add_damage_def commit_def
    resolve_edge_def publish_def flush_damage_def content_object_def added_entry_def Let_def)


definition one_commit :: "model \<times> journal" where "one_commit = committed_session 7 fresh_session"
definition two_commits :: "model \<times> journal" where "two_commits = committed_session 8 one_commit"

abbreviation doc_one :: doc where "doc_one \<equiv> fmupd 1 (content_object 1 1 7) fmempty"
abbreviation doc_two :: doc where "doc_two \<equiv> fmupd 2 (content_object 2 2 8) doc_one"

lemma one_commit_eq:
  "commit_to_journal never_full [] [AddContent 7] fresh_session = Some (one_commit, None)"
  "fst one_commit = model_new\<lparr>md_commit_sink := True, md_next_id := 2, md_current := \<lparr>dr_root = doc_one, dr_revision = 1\<rparr>,
     md_committed := [added_entry 1 1 7]\<rparr>"
  "snd one_commit = on_commit (added_entry 1 1 7) (journal_new 1 no_budget)"
  using commit_added [of "model_new\<lparr>md_commit_sink := True\<rparr>" 7 "journal_new 1 no_budget"]
  by (simp_all add: one_commit_def committed_session_def fresh_session_def model_new_def numeral_2_eq_2)

lemma two_commits_eq:
  "commit_to_journal never_full [] [AddContent 8] one_commit = Some (two_commits, None)"
  "fst two_commits = model_new\<lparr>md_commit_sink := True, md_next_id := 3, md_current := \<lparr>dr_root = doc_two, dr_revision = 2\<rparr>,
     md_committed := [added_entry 1 1 7, added_entry 2 2 8]\<rparr>"
  "snd two_commits = on_commit (added_entry 2 2 8) (snd one_commit)"
proof -
  have c: "commit_to_journal never_full [] [AddContent 8] one_commit = Some ((model_new\<lparr>md_commit_sink := True, md_next_id := 3,
      md_current := \<lparr>dr_root = doc_two, dr_revision = 2\<rparr>, md_committed := [added_entry 1 1 7, added_entry 2 2 8]\<rparr>,
      on_commit (added_entry 2 2 8) (snd one_commit)), None)"
    using commit_added [of "fst one_commit" 8 "snd one_commit", unfolded prod.collapse]
    by (simp add: one_commit_eq(2) model_new_def numeral_2_eq_2 numeral_3_eq_3)
  then show "commit_to_journal never_full [] [AddContent 8] one_commit = Some (two_commits, None)"
    "fst two_commits = model_new\<lparr>md_commit_sink := True, md_next_id := 3, md_current := \<lparr>dr_root = doc_two, dr_revision = 2\<rparr>,
     md_committed := [added_entry 1 1 7, added_entry 2 2 8]\<rparr>"
    "snd two_commits = on_commit (added_entry 2 2 8) (snd one_commit)"
    by (simp_all add: two_commits_def committed_session_def)
qed

lemma trim_entries_id: "tot \<le> b \<Longrightarrow> trim_entries b ss c tot = (ss, c, tot)"
  by (cases "(b, ss, c, tot)" rule: trim_entries.cases) simp_all

lemma on_commit_append:
  assumes "\<not> coalesces e j" "jn_cursor j = length (jn_entries j)" "jn_total_cost j + entry_cost j e \<le> jn_budget j"
  shows "jn_entries (on_commit e j) = jn_entries j @ [\<lparr>st_entry = e, st_cost = entry_cost j e\<rparr>] \<and>
    jn_cursor (on_commit e j) = Suc (length (jn_entries j)) \<and> jn_total_cost (on_commit e j) = jn_total_cost j + entry_cost j e \<and>
    jn_budget (on_commit e j) = jn_budget j \<and> jn_record_bytes (on_commit e j) = jn_record_bytes j \<and>
    jn_cost_fn (on_commit e j) = jn_cost_fn j"
  using assms
  by (simp add: on_commit_def Let_def trim_def trim_entries_id journal_publish_def publish_history_def split: prod.split)

lemma added_entry_plain:
  "\<not> coalesces (added_entry i rv k) j" "entry_cost j (added_entry i rv k) = jn_record_bytes j + (case jn_cost_fn j of None \<Rightarrow> 0 | Some _ \<Rightarrow> 0)"
  by (simp_all add: coalesces_def added_entry_def entry_cost_def edge_bytes_def split: option.split)

lemma one_commit_journal:
  "jn_entries (snd one_commit) = [\<lparr>st_entry = added_entry 1 1 7, st_cost = 1\<rparr>] \<and> jn_cursor (snd one_commit) = 1 \<and>
   jn_total_cost (snd one_commit) = 1 \<and> jn_budget (snd one_commit) = no_budget \<and> jn_record_bytes (snd one_commit) = 1 \<and>
   jn_cost_fn (snd one_commit) = None"
  using on_commit_append [of "added_entry 1 1 7" "journal_new 1 no_budget"]
  by (simp add: added_entry_plain one_commit_eq(3)) (simp add: journal_new_def no_budget_def)

lemma two_commits_journal:
  "jn_entries (snd two_commits) = [\<lparr>st_entry = added_entry 1 1 7, st_cost = 1\<rparr>, \<lparr>st_entry = added_entry 2 2 8, st_cost = 1\<rparr>] \<and>
   jn_cursor (snd two_commits) = 2 \<and> jn_total_cost (snd two_commits) = 2"
  using on_commit_append [of "added_entry 2 2 8" "snd one_commit"] one_commit_journal
  by (simp add: added_entry_plain two_commits_eq(3) no_budget_def)

lemma two_commits_history: "history two_commits [fmempty, doc_one, doc_two]"
proof -
  have 0: "history fresh_session [fmempty]"
    using history.opened [of "model_new\<lparr>md_commit_sink := True\<rparr>" 1 no_budget] by (simp add: fresh_session_def model_new_def)
  let ?m1 = "fst one_commit" and ?j1 = "snd one_commit" and ?m2 = "fst two_commits" and ?j2 = "snd two_commits"
  let ?m0 = "model_new\<lparr>md_commit_sink := True\<rparr>" and ?j0 = "journal_new 1 no_budget"
  have 1: "versions_after (added_entry 1 1 7) ?j0 doc_one [fmempty] = [fmempty, doc_one]"
  proof -
    have "jn_cursor ?j0 = 0" by (simp add: journal_new_def)
    then show ?thesis using one_commit_journal added_entry_plain(1)
      unfolding versions_after_def one_commit_eq(3) [symmetric] by simp
  qed
  have c1: "commit_to_journal never_full [] [AddContent 7] (?m0, ?j0) = Some ((?m1, ?j1), None)"
    using one_commit_eq(1) by (simp add: fresh_session_def)
  have h1: "history (?m1, ?j1) [fmempty, doc_one]"
    using history.committed [OF 0 [unfolded fresh_session_def] c1] 1 unfolding one_commit_eq(2) by simp
  have 2: "versions_after (added_entry 2 2 8) ?j1 doc_two [fmempty, doc_one] = [fmempty, doc_one, doc_two]"
    using two_commits_journal one_commit_journal added_entry_plain(1) [of 2 2 8 ?j1]
    by (simp add: versions_after_def flip: two_commits_eq(3))
  have c2: "commit_to_journal never_full [] [AddContent 8] (?m1, ?j1) = Some ((?m2, ?j2), None)"
    using two_commits_eq(1) by simp
  have "history (?m2, ?j2) [fmempty, doc_one, doc_two]"
    using history.committed [OF h1 c2] 2 unfolding two_commits_eq(2) by simp
  then show ?thesis by simp
qed

lemma history_walks_versions_witness: "dr_root (md_current (fst two_commits)) = [fmempty, doc_one, doc_two] ! 2"
  using history_walks_versions [of "fst two_commits" "snd two_commits" "[fmempty, doc_one, doc_two]"] two_commits_history
    two_commits_journal by simp

lemma undo_then_redo_exact_witness:
  "\<exists>m1 j1. undo never_full two_commits = ((m1, j1), True) \<and> md_current m1 = \<lparr>dr_root = doc_one, dr_revision = 3\<rparr>"
proof -
  have h: "history (fst two_commits, snd two_commits) [fmempty, doc_one, doc_two]" using two_commits_history by simp
  have f: "jn_cursor (snd two_commits) = 2" "dr_revision (md_current (fst two_commits)) = 2"
    using two_commits_journal two_commits_eq(2) by simp_all
  show ?thesis using undo_then_redo_exact [OF h] f unfolding prod.collapse by auto
qed

lemma published_state_sound_witness: "can_undo (snd two_commits) \<and> \<not> can_redo (snd two_commits)"
  using published_state_sound [of "fst two_commits" "snd two_commits" "[fmempty, doc_one, doc_two]"] two_commits_history
    two_commits_journal by simp

lemma entry_links_example:
  "entry_links (je_objects (added_entry 1 1 7)) fmempty doc_one" "entry_links (je_objects (added_entry 2 2 8)) doc_one doc_two"
  by (auto simp: entry_links_def added_entry_def)

lemma coalescing_composes_witness:
  "entry_links (je_objects (coalesce_entries (added_entry 1 1 7) (added_entry 2 2 8))) fmempty doc_two"
  using coalescing_composes [OF entry_links_example] by simp

text \<open>
  Re-budgeting below the cursor breaks the walk: \<open>set_byte_budget\<close> trims from the front whatever
  the cursor, although \<open>trim\<close> counts on it being at the tip. With two commits both undone, lowering the
  budget drops the first, and the redo that follows succeeds and publishes a document the history
  never held: the second commit's object without the first's.
\<close>

theorem rebudget_below_cursor_invents_a_version:
  "\<exists>m j vs m' j'. history (m, j) vs \<and> jn_cursor j = 0 \<and> redo never_full (m, set_byte_budget 0 j) = ((m', j'), True) \<and>
     dr_root (md_current m') = fmupd 2 (content_object 2 2 8) fmempty \<and> dr_root (md_current m') \<notin> set vs"
proof -
  let ?vs = "[fmempty, doc_one, doc_two]"
  have h2: "history (fst two_commits, snd two_commits) ?vs" using two_commits_history by simp
  have u2: "\<exists>m j. history (m, j) ?vs \<and> jn_cursor j = 1 \<and> jn_entries j = jn_entries (snd two_commits)"
  proof -
    obtain m1 j1 where u: "undo never_full (fst two_commits, snd two_commits) = ((m1, j1), True)"
      using undo_then_redo_exact [OF h2] two_commits_journal by auto
    have "jn_cursor j1 = 1 \<and> jn_entries j1 = jn_entries (snd two_commits)"
      using undo_ok [OF conjunct1 [OF history_inv [OF h2]] u] two_commits_journal by simp
    then show ?thesis using history.undone [OF h2 u] by blast
  qed
  then obtain m j where mj: "history (m, j) ?vs" "jn_cursor j = 1" "jn_entries j = jn_entries (snd two_commits)" by blast
  obtain m1 j1 where u: "undo never_full (m, j) = ((m1, j1), True)"
    using undo_then_redo_exact [OF mj(1)] mj(2) by auto
  have h: "history (m1, j1) ?vs" using history.undone [OF mj(1) u] .
  have j1: "jn_cursor j1 = 0" "jn_entries j1 = jn_entries (snd two_commits)" "jn_total_cost j1 = 2" "dr_root (md_current m1) = fmempty"
  proof -
    show c: "jn_cursor j1 = 0" and e: "jn_entries j1 = jn_entries (snd two_commits)"
      using undo_ok [OF conjunct1 [OF history_inv [OF mj(1)]] u] mj by auto
    show "jn_total_cost j1 = 2" "dr_root (md_current m1) = fmempty"
      using history_walks_versions [OF h] c e two_commits_journal by simp_all
  qed
  let ?k = "set_byte_budget 0 j1"
  have k: "jn_entries ?k = [\<lparr>st_entry = added_entry 2 2 8, st_cost = 1\<rparr>]" "jn_cursor ?k = 0"
    using j1 two_commits_journal by (simp_all add: set_byte_budget_def trim_def)
  obtain m2 where n: "navigate never_full (added_entry 2 2 8) Redo m1 = (m2, None)" using navigate_total by blast
  have d: "dr_root (md_current m2) = fmupd 2 (content_object 2 2 8) fmempty"
    using n j1(4) by (auto simp: navigate_def added_entry_def never_full_def nav_target_def)
  have "redo never_full (m1, ?k) = ((m2, journal_publish ((notify_restore Redo (added_entry 2 2 8) ?k)\<lparr>jn_cursor := 1\<rparr>)), True)"
    using k n by (simp add: redo_def)
  moreover have "fmupd 2 (content_object 2 2 8) fmempty \<notin> set ?vs"
    by (auto dest: arg_cong [where f = "\<lambda>f. fmlookup f 1"] arg_cong [where f = "\<lambda>f. fmlookup f 2"])
  ultimately show ?thesis using h j1(1) d by metis
qed

end
