(* ===== verification/Operator_Graph.thy ===== *)
theory Operator_Graph
  imports Document Damage
begin

text \<open>
  \<open>compositor/operator_graph.cpp\<close> and the identity descent at the head of \<open>compositor/pull_service.cpp\<close>'s
  \<open>pull\<close>: the walks over a content's input edges. A content is a value of type \<open>'n\<close>; its virtual functions are
  parameters: \<open>inputs\<close> its edges in order, null ones \<open>None\<close>, \<open>map_input\<close> its \<open>map_input_damage\<close>,
  \<open>identity\<close> its answer for the request at hand, \<open>contribution\<close> the caller's revision of a node.
\<close>

subsection \<open>The aggregate revision\<close>

text \<open>One \<open>for_each_input\<close>: unvisited inputs are marked and pushed. The head of the list is the stack's top.\<close>

fun push_inputs :: "'n option list \<Rightarrow> 'n list \<Rightarrow> 'n set \<Rightarrow> 'n list \<times> 'n set" where
  "push_inputs [] stack visited = (stack, visited)"
| "push_inputs (None # es) stack visited = push_inputs es stack visited"
| "push_inputs (Some m # es) stack visited =
     (if m \<in> visited then push_inputs es stack visited else push_inputs es (m # stack) (insert m visited))"

partial_function (option) aggregate_loop ::
  "('n \<Rightarrow> 'n option list) \<Rightarrow> ('n \<Rightarrow> 64 word) \<Rightarrow> 'n list \<Rightarrow> 'n set \<Rightarrow> 64 word \<Rightarrow> 64 word option" where
  "aggregate_loop inputs contribution stack visited acc =
     (case stack of
        [] \<Rightarrow> Some acc
      | node # stack \<Rightarrow>
          (case push_inputs (inputs node) stack visited of (stack, visited) \<Rightarrow>
             aggregate_loop inputs contribution stack visited (acc + mix64 (contribution node))))"

definition aggregate_revision ::
  "('n \<Rightarrow> 'n option list) \<Rightarrow> ('n \<Rightarrow> 64 word) \<Rightarrow> 'n option \<Rightarrow> 64 word option" where
  "aggregate_revision inputs contribution content =
     (case content of None \<Rightarrow> Some 0 | Some r \<Rightarrow> aggregate_loop inputs contribution [r] {r} 0)"

definition is_operator :: "('n \<Rightarrow> 'n option list) \<Rightarrow> 'n option \<Rightarrow> bool" where
  "is_operator inputs content = (case content of None \<Rightarrow> False | Some c \<Rightarrow> inputs c \<noteq> [])"

subsection \<open>Damage routed up the graph\<close>

definition k_max_recursion_depth :: nat where
  "k_max_recursion_depth = 64"

definition union_opt :: "rect option \<Rightarrow> rect \<Rightarrow> rect" where
  "union_opt result mapped = (case result of Some r \<Rightarrow> rect_union r mapped | None \<Rightarrow> mapped)"

text \<open>\<open>left\<close> is the budget not yet used, \<open>max_depth - depth\<close>; the memo's \<open>emplace\<close> keeps an entry that is there.\<close>

fun map_damage_up ::
  "('n \<Rightarrow> 'n option list) \<Rightarrow> ('n \<Rightarrow> nat \<Rightarrow> rect \<Rightarrow> rect) \<Rightarrow> 'n \<Rightarrow> rect \<Rightarrow> nat \<Rightarrow> 'n \<Rightarrow> ('n \<rightharpoonup> rect option) \<Rightarrow> 'n set \<Rightarrow>
     rect option \<times> ('n \<rightharpoonup> rect option)"
and map_inputs_up ::
  "('n \<Rightarrow> 'n option list) \<Rightarrow> ('n \<Rightarrow> nat \<Rightarrow> rect \<Rightarrow> rect) \<Rightarrow> 'n \<Rightarrow> rect \<Rightarrow> nat \<Rightarrow> 'n \<Rightarrow> nat \<Rightarrow> 'n option list \<Rightarrow>
     ('n \<rightharpoonup> rect option) \<Rightarrow> 'n set \<Rightarrow> rect option \<Rightarrow> rect option \<times> ('n \<rightharpoonup> rect option)" where
  "map_damage_up inputs map_input changed rect left node memo on_stack =
     (if node = changed then (Some rect, memo)
      else case memo node of
        Some r \<Rightarrow> (r, memo)
      | None \<Rightarrow>
          (case left of
             0 \<Rightarrow> (None, memo)
           | Suc left' \<Rightarrow>
               if node \<in> on_stack then (None, memo)
               else case map_inputs_up inputs map_input changed rect left' node 0 (inputs node) memo (insert node on_stack) None of
                 (result, memo) \<Rightarrow> (result, if memo node = None then memo(node \<mapsto> result) else memo)))"
| "map_inputs_up inputs map_input changed rect left node i [] memo on_stack result = (result, memo)"
| "map_inputs_up inputs map_input changed rect left node i (None # es) memo on_stack result =
     map_inputs_up inputs map_input changed rect left node (Suc i) es memo on_stack result"
| "map_inputs_up inputs map_input changed rect left node i (Some m # es) memo on_stack result =
     (case map_damage_up inputs map_input changed rect left m memo on_stack of
        (None, memo) \<Rightarrow> map_inputs_up inputs map_input changed rect left node (Suc i) es memo on_stack result
      | (Some sub, memo) \<Rightarrow> map_inputs_up inputs map_input changed rect left node (Suc i) es memo on_stack
          (Some (union_opt result (map_input node i sub))))"

declare map_damage_up.simps [simp del] map_inputs_up.simps [simp del]

record 'n operator_layer =
  ol_object :: nat
  ol_content :: "'n option"

fun route_operator_damage ::
  "('n \<Rightarrow> 'n option list) \<Rightarrow> ('n \<Rightarrow> nat \<Rightarrow> rect \<Rightarrow> rect) \<Rightarrow> nat \<Rightarrow> 'n option \<Rightarrow> rect \<Rightarrow> time_range \<Rightarrow>
     'n operator_layer list \<Rightarrow> damage list \<Rightarrow> damage list" where
  "route_operator_damage inputs map_input budget None rect tr ops out = out"
| "route_operator_damage inputs map_input budget (Some changed) rect tr [] out = out"
| "route_operator_damage inputs map_input budget (Some changed) rect tr (op # ops) out =
     (case ol_content op of
        None \<Rightarrow> route_operator_damage inputs map_input budget (Some changed) rect tr ops out
      | Some c \<Rightarrow>
          if c = changed then route_operator_damage inputs map_input budget (Some changed) rect tr ops out
          else case map_damage_up inputs map_input changed rect budget c Map.empty {} of
            (None, memo) \<Rightarrow> route_operator_damage inputs map_input budget (Some changed) rect tr ops out
          | (Some mapped, memo) \<Rightarrow> route_operator_damage inputs map_input budget (Some changed) rect tr ops
              (damage_add out \<lparr>dm_object = ol_object op, dm_rect = mapped, dm_range = tr\<rparr>))"

subsection \<open>Identity chains\<close>

record 'n graph_diagnostic =
  gd_content :: 'n
  gd_depth :: nat
  gd_path :: "'n list"

record 'n identity_resolution =
  ir_terminal :: "'n option"
  ir_short_circuited :: bool
  ir_budget_exceeded :: bool

definition selected :: "('n \<Rightarrow> 'n option list) \<Rightarrow> 'n \<Rightarrow> nat \<Rightarrow> 'n option" where
  "selected inputs node idx = (if idx < length (inputs node) then inputs node ! idx else None)"

function resolve_loop ::
  "('n \<Rightarrow> 'n option list) \<Rightarrow> ('n \<Rightarrow> nat option) \<Rightarrow> nat \<Rightarrow> 'n \<Rightarrow> nat \<Rightarrow> 'n list \<Rightarrow> bool \<Rightarrow>
     'n identity_resolution \<times> 'n graph_diagnostic list" where
  "resolve_loop inputs identity max_depth node depth path short =
     (let path = path @ [node] in
      case identity node of
        None \<Rightarrow> (\<lparr>ir_terminal = Some node, ir_short_circuited = short, ir_budget_exceeded = False\<rparr>, [])
      | Some idx \<Rightarrow>
          if depth \<ge> max_depth
          then (\<lparr>ir_terminal = None, ir_short_circuited = True, ir_budget_exceeded = True\<rparr>,
                [\<lparr>gd_content = node, gd_depth = depth, gd_path = path\<rparr>])
          else case selected inputs node idx of
            None \<Rightarrow> (\<lparr>ir_terminal = Some node, ir_short_circuited = True, ir_budget_exceeded = False\<rparr>, [])
          | Some next \<Rightarrow> resolve_loop inputs identity max_depth next (depth + 1) path True)"
  by pat_completeness auto
termination
  by (relation "measure (\<lambda>(inputs, identity, max_depth, node, depth, path, short). max_depth - depth)") auto

declare resolve_loop.simps [simp del]

definition resolve_identity ::
  "('n \<Rightarrow> 'n option list) \<Rightarrow> ('n \<Rightarrow> nat option) \<Rightarrow> nat \<Rightarrow> 'n option \<Rightarrow> 'n identity_resolution \<times> 'n graph_diagnostic list" where
  "resolve_identity inputs identity max_depth content =
     (case content of
        None \<Rightarrow> (\<lparr>ir_terminal = None, ir_short_circuited = False, ir_budget_exceeded = False\<rparr>, [])
      | Some c \<Rightarrow> resolve_loop inputs identity max_depth c 0 [] False)"

text \<open>
  What a pull comes down to, before any tile is looked up: nothing, the placeholder with its diagnostics, or the
  content whose tiles it serves. \<open>left\<close> is the recursion budget not yet used.
\<close>

datatype 'n pull_target = PullFails | Placeholder "'n graph_diagnostic list" | Serves 'n

fun pull_descent ::
  "('n \<Rightarrow> 'n option list) \<Rightarrow> ('n \<Rightarrow> nat option) \<Rightarrow> nat \<Rightarrow> nat \<Rightarrow> 'n option \<Rightarrow> 'n pull_target" where
  "pull_descent inputs identity max_depth left None = PullFails"
| "pull_descent inputs identity max_depth 0 (Some input) =
     Placeholder [\<lparr>gd_content = input, gd_depth = max_depth, gd_path = [input]\<rparr>]"
| "pull_descent inputs identity max_depth (Suc left) (Some input) =
     (if is_operator inputs (Some input)
      then case resolve_identity inputs identity max_depth (Some input) of (ident, diags) \<Rightarrow>
        if ir_budget_exceeded ident then Placeholder diags
        else if ir_short_circuited ident \<and> ir_terminal ident \<noteq> None
        then pull_descent inputs identity max_depth left (ir_terminal ident)
        else Serves input
      else Serves input)"

subsection \<open>The fold visits the reachable nodes, each once\<close>

inductive reachable :: "('n \<Rightarrow> 'n option list) \<Rightarrow> 'n \<Rightarrow> 'n \<Rightarrow> bool" for inputs r where
  self: "reachable inputs r r"
| edge: "reachable inputs r n \<Longrightarrow> Some m \<in> set (inputs n) \<Longrightarrow> reachable inputs r m"

lemma push_inputs_spec:
  "distinct stack \<Longrightarrow> set stack \<subseteq> visited \<Longrightarrow> push_inputs es stack visited = (stack', visited') \<Longrightarrow>
    visited' = visited \<union> {m. Some m \<in> set es} \<and> distinct stack' \<and> set stack' = set stack \<union> ({m. Some m \<in> set es} - visited)"
proof (induction es stack visited arbitrary: stack' visited' rule: push_inputs.induct)
  case (3 m es stack visited)
  show ?case
  proof (cases "m \<in> visited")
    case True
    then have "push_inputs es stack visited = (stack', visited')" using "3.prems"(3) by simp
    from "3.IH"(1) [OF True "3.prems"(1,2) this] show ?thesis using True by auto
  next
    case False
    have st: "distinct (m # stack)" "set (m # stack) \<subseteq> insert m visited" using "3.prems"(1,2) False by auto
    have "push_inputs es (m # stack) (insert m visited) = (stack', visited')" using "3.prems"(3) False by simp
    from "3.IH"(2) [OF False st this] show ?thesis using False by auto
  qed
qed auto

lemma aggregate_loop_sum:
  fixes inputs :: "'n \<Rightarrow> 'n option list" and r :: 'n
  defines "R \<equiv> {n. reachable inputs r n}"
  assumes "finite R"
  shows "distinct stack \<Longrightarrow> set stack \<subseteq> visited \<Longrightarrow> visited \<subseteq> R \<Longrightarrow> r \<in> visited \<Longrightarrow>
      (\<And>n m. n \<in> visited - set stack \<Longrightarrow> Some m \<in> set (inputs n) \<Longrightarrow> m \<in> visited) \<Longrightarrow>
    aggregate_loop inputs f stack visited acc = Some (acc + (\<Sum>n \<in> R - (visited - set stack). mix64 (f n)))"
proof (induction "card (R - (visited - set stack))" arbitrary: stack visited acc rule: less_induct)
  case less
  show ?case
  proof (cases stack)
    case Nil
    have "n \<in> visited" if "reachable inputs r n" for n
      using that by induction (use less.prems(4,5) Nil in auto)
    then have "R - (visited - set stack) = {}" using Nil by (auto simp: R_def)
    then have "(\<Sum>n \<in> R - (visited - set stack). mix64 (f n)) = 0" by (simp only: sum.empty)
    then show ?thesis by (subst aggregate_loop.simps) (simp add: Nil)
  next
    case (Cons node st)
    obtain stack' visited' where p: "push_inputs (inputs node) st visited = (stack', visited')"
      by (cases "push_inputs (inputs node) st visited")
    have nodeR: "node \<in> R" "node \<in> visited" "node \<notin> set st" "distinct st" "set st \<subseteq> visited"
      using less.prems(1-3) Cons by auto
    note s = push_inputs_spec [OF nodeR(4,5) p]
    have done': "visited' - set stack' = insert node (visited - set stack)" using s nodeR Cons by auto
    have sub: "{m. Some m \<in> set (inputs node)} \<subseteq> R" using nodeR(1) by (auto simp: R_def intro: reachable.edge)
    let ?D = "R - (visited - set stack)"
    have D: "node \<in> ?D" "R - (visited' - set stack') = ?D - {node}" using nodeR(1) Cons done' by auto
    have fin: "finite ?D" using assms(2) by simp
    have "aggregate_loop inputs f stack' visited' (acc + mix64 (f node)) =
      Some (acc + mix64 (f node) + (\<Sum>n \<in> R - (visited' - set stack'). mix64 (f n)))"
    proof (rule less.hyps)
      show "card (R - (visited' - set stack')) < card ?D" unfolding D(2) using fin D(1) by (rule card_Diff1_less)
      show "distinct stack'" "set stack' \<subseteq> visited'" using s nodeR by auto
      show "visited' \<subseteq> R" "r \<in> visited'" using s sub less.prems(3,4) by auto
      show "m \<in> visited'" if "n \<in> visited' - set stack'" "Some m \<in> set (inputs n)" for n m
        using that less.prems(5) s unfolding done' by auto
    qed
    also have "\<dots> = Some (acc + (\<Sum>n \<in> ?D. mix64 (f n)))" unfolding D(2) using sum.remove [OF fin D(1), of "\<lambda>n. mix64 (f n)"]
      by (simp add: add.assoc)
    finally show ?thesis by (subst aggregate_loop.simps) (simp add: Cons p)
  qed
qed

lemma aggregate_sum:
  assumes "finite {n. reachable inputs r n}"
  shows "aggregate_revision inputs contribution (Some r) = Some (\<Sum>n \<in> {n. reachable inputs r n}. mix64 (contribution n))"
  using aggregate_loop_sum [OF assms, of "[r]" "{r}" contribution 0] by (simp add: aggregate_revision_def reachable.self)

text \<open>
  C16: The aggregate revision ends, and is the sum of the mixed contributions of the reachable nodes, each counted
  once: in a diamond, on a cycle, and whatever the order of the inputs.
\<close>

theorem aggregate_revision_sums_reachable:
  assumes "finite {n. reachable inputs r n}"
  shows "aggregate_revision inputs contribution (Some r) = Some (\<Sum>n \<in> {n. reachable inputs r n}. mix64 (contribution n))"
  by (rule aggregate_sum [OF assms])

definition feedback_graph :: "nat \<Rightarrow> nat option list" where
  "feedback_graph n = (if n = 0 then [Some 1, None, Some 1] else if n = 1 then [Some 0] else [])"

lemma feedback_reachable: "reachable feedback_graph 0 n \<Longrightarrow> n \<in> {0, 1}"
  by (induction rule: reachable.induct) (auto simp: feedback_graph_def split: if_splits)

theorem aggregate_revision_sums_reachable_witness:
  "aggregate_revision feedback_graph (\<lambda>n. of_nat n) (Some 0) = Some (\<Sum>n \<in> {n. reachable feedback_graph 0 n}. mix64 (of_nat n))"
  by (rule aggregate_revision_sums_reachable) (rule finite_subset [of _ "{0, 1}"], use feedback_reachable in auto)

text \<open>One node's contribution cannot change unnoticed: the mixer is injective.\<close>

lemma aggregate_detects_one:
  assumes "finite {n. reachable inputs r n}" "reachable inputs r n" "\<And>m. m \<noteq> n \<Longrightarrow> g m = f m"
  shows "aggregate_revision inputs g (Some r) = aggregate_revision inputs f (Some r) \<longleftrightarrow> g n = f n"
proof -
  let ?R = "{n. reachable inputs r n}"
  have s: "(\<Sum>m \<in> ?R. mix64 (h m)) = mix64 (h n) + (\<Sum>m \<in> ?R - {n}. mix64 (h m))" for h
    by (rule sum.remove [OF assms(1)]) (use assms(2) in simp)
  have "(\<Sum>m \<in> ?R - {n}. mix64 (g m)) = (\<Sum>m \<in> ?R - {n}. mix64 (f m))" using assms(3) by (intro sum.cong) auto
  then show ?thesis unfolding aggregate_sum [OF assms(1)] s by (simp add: inj_eq [OF mix64_inj])
qed

subsection \<open>Routed damage covers every change\<close>

text \<open>
  An image gives each point of the output a value, and \<open>render\<close> is a kind's render: the node's image from the images
  of its edges, null ones \<open>None\<close>. \<open>covering_kinds\<close> is the covering requirement \<open>contract/content.hpp\<close> puts on
  \<open>map_input_damage\<close>: when one input changes inside \<open>r\<close> only, the output changes inside the mapped rectangle only.
\<close>

definition changed_at :: "('p \<Rightarrow> 'v) \<Rightarrow> ('p \<Rightarrow> 'v) \<Rightarrow> 'p set" where
  "changed_at f g = {p. f p \<noteq> g p}"

definition edge_images :: "('n \<Rightarrow> 'n option list) \<Rightarrow> ('n \<Rightarrow> 'img) \<Rightarrow> 'n \<Rightarrow> 'img option list" where
  "edge_images inputs img n = map (map_option img) (inputs n)"

definition covering_kinds ::
  "('n \<Rightarrow> (double \<times> double \<Rightarrow> 'v) option list \<Rightarrow> double \<times> double \<Rightarrow> 'v) \<Rightarrow> ('n \<Rightarrow> nat \<Rightarrow> rect \<Rightarrow> rect) \<Rightarrow> bool" where
  "covering_kinds render map_input \<longleftrightarrow>
     (\<forall>n es i f g r. i < length es \<longrightarrow> es ! i = Some f \<longrightarrow> changed_at f g \<subseteq> rect_points r \<longrightarrow>
        changed_at (render n es) (render n (es[i := Some g])) \<subseteq> rect_points (map_input n i r))"

definition renders :: "('n \<Rightarrow> 'n option list) \<Rightarrow> ('n \<Rightarrow> 'img option list \<Rightarrow> 'img) \<Rightarrow> 'n \<Rightarrow> ('n \<Rightarrow> 'img) \<Rightarrow> bool" where
  "renders inputs render changed img \<longleftrightarrow> (\<forall>n. n \<noteq> changed \<longrightarrow> img n = render n (edge_images inputs img n))"

definition region :: "rect option \<Rightarrow> (double \<times> double) set" where
  "region r = (case r of None \<Rightarrow> {} | Some r \<Rightarrow> rect_points r)"

definition layered :: "('n \<Rightarrow> 'n option list) \<Rightarrow> ('n \<Rightarrow> nat) \<Rightarrow> bool" where
  "layered inputs rank \<longleftrightarrow> (\<forall>n m. Some m \<in> set (inputs n) \<longrightarrow> rank m < rank n)"

definition repaint where
  "repaint inputs rank render map_input changed r img img' \<longleftrightarrow>
     layered inputs rank \<and> covering_kinds render map_input \<and> renders inputs render changed img \<and>
     renders inputs render changed img' \<and> changed_at (img changed) (img' changed) \<subseteq> rect_points r"

definition memo_covers where
  "memo_covers img img' memo \<longleftrightarrow> (\<forall>n res. memo n = Some res \<longrightarrow> changed_at (img n) (img' n) \<subseteq> region res)"

text \<open>The edges half way: those before \<open>i\<close> show the new images, the others the old ones.\<close>

definition edges_upto where
  "edges_upto inputs img img' n i = map (map_option img') (take i (inputs n)) @ map (map_option img) (drop i (inputs n))"

lemma edges_upto_ends:
  "edges_upto inputs img img' n 0 = edge_images inputs img n"
  "edges_upto inputs img img' n (length (inputs n)) = edge_images inputs img' n"
  by (simp_all add: edges_upto_def edge_images_def)

lemma edges_upto_step:
  assumes "i < length (inputs n)"
  shows "edges_upto inputs img img' n (Suc i) = (edges_upto inputs img img' n i)[i := map_option img' (inputs n ! i)]"
    "edges_upto inputs img img' n i ! i = map_option img (inputs n ! i)" "length (edges_upto inputs img img' n i) = length (inputs n)"
  using assms by (simp_all add: edges_upto_def take_Suc_conv_app_nth nth_append list_update_append flip: Cons_nth_drop_Suc)

lemma changed_at_empty: "changed_at f g = {} \<longleftrightarrow> f = g"
  by (auto simp: changed_at_def)

lemma changed_at_trans: "changed_at f g \<subseteq> A \<Longrightarrow> changed_at g h \<subseteq> A \<Longrightarrow> changed_at f h \<subseteq> A"
  by (fastforce simp: changed_at_def)

lemma region_union: "region (Some (union_opt r m)) \<supseteq> region r \<union> rect_points m"
  using rect_union_covers by (auto simp: region_def union_opt_def split: option.split)

lemma edge_step_covered:
  assumes "covering_kinds render map_input" "i < length (inputs n)" "inputs n ! i = Some m"
    "changed_at (img m) (img' m) \<subseteq> region sub" "\<And>x. sub = Some x \<Longrightarrow> rect_points (map_input n i x) \<subseteq> A"
  shows "changed_at (render n (edges_upto inputs img img' n i)) (render n (edges_upto inputs img img' n (Suc i))) \<subseteq> A"
proof (cases sub)
  case None
  then have "img m = img' m" using assms(4) by (simp add: region_def changed_at_empty)
  then have "edges_upto inputs img img' n (Suc i) = edges_upto inputs img img' n i"
    using assms(3) list_update_id [of "edges_upto inputs img img' n i" i] by (simp add: edges_upto_step [where inputs = inputs and n = n, OF assms(2)])
  then show ?thesis by (simp add: changed_at_def)
next
  case (Some x)
  then have "changed_at (img m) (img' m) \<subseteq> rect_points x" using assms(4) by (simp add: region_def)
  then have "changed_at (render n (edges_upto inputs img img' n i)) (render n ((edges_upto inputs img img' n i)[i := Some (img' m)]))
      \<subseteq> rect_points (map_input n i x)"
    using assms(1) edges_upto_step(2,3) [of i inputs n img img', OF assms(2)] assms(2,3) by (simp add: covering_kinds_def)
  then show ?thesis using assms(3) assms(5) [OF Some] edges_upto_step(1) [of i inputs n img img', OF assms(2)] by auto
qed

lemma map_up_covers:
  shows "repaint inputs rank render map_input changed r img img' \<Longrightarrow> rank node \<le> left \<Longrightarrow> (\<And>s. s \<in> on_stack \<Longrightarrow> rank node < rank s) \<Longrightarrow>
      memo_covers img img' memo \<Longrightarrow>
      map_damage_up inputs map_input changed r left node memo on_stack = (res, memo') \<Longrightarrow>
      memo_covers img img' memo' \<and> changed_at (img node) (img' node) \<subseteq> region res"
    and "repaint inputs rank render map_input changed r img img' \<Longrightarrow>
      (\<And>m. Some m \<in> set es \<Longrightarrow> rank m \<le> left \<and> (\<forall>s \<in> on_stack. rank m < rank s)) \<Longrightarrow> memo_covers img img' memo \<Longrightarrow>
      i \<le> length (inputs node) \<Longrightarrow> es = drop i (inputs node) \<Longrightarrow>
      map_inputs_up inputs map_input changed r left node i es memo on_stack result = (res, memo') \<Longrightarrow>
      memo_covers img img' memo' \<and> region result \<subseteq> region res \<and>
      changed_at (render node (edges_upto inputs img img' node i)) (render node (edge_images inputs img' node)) \<subseteq> region res"
proof (induction inputs map_input changed r left node memo on_stack
    and inputs map_input changed r left node i es memo on_stack result
    arbitrary: res memo' and res memo' rule: map_damage_up_map_inputs_up.induct)
  case (1 inputs map_input changed r left node memo on_stack)
  note ly = "1.prems"(1) [unfolded repaint_def]
  show ?case
  proof (cases "node = changed")
    case True
    then show ?thesis using 1 by (auto simp: map_damage_up.simps region_def repaint_def)
  next
    case False
    have img: "img node = render node (edges_upto inputs img img' node 0)" "img' node = render node (edge_images inputs img' node)"
      using ly False by (simp_all add: renders_def edges_upto_ends)
    show ?thesis
    proof (cases "memo node")
      case (Some m)
      then have "m = res" "memo' = memo" using "1.prems"(5) False by (simp_all add: map_damage_up.simps)
      then show ?thesis using Some "1.prems"(4) by (auto simp: memo_covers_def)
    next
      case None
      have below: "rank m < rank node" if "Some m \<in> set (inputs node)" for m using ly that by (auto simp: layered_def)
      show ?thesis
      proof (cases left)
        case 0
        then have "\<forall>e \<in> set (inputs node). e = None" using below "1.prems"(2) by (metis le_zero_eq not_less_zero option.exhaust)
        then have "edge_images inputs img node = edge_images inputs img' node" by (auto simp: edge_images_def)
        then have "changed_at (img node) (img' node) = {}" using img by (simp add: edges_upto_ends changed_at_def)
        then show ?thesis using "1.prems"(4,5) False None 0 by (auto simp: map_damage_up.simps)
      next
        case (Suc l)
        have ns: "node \<notin> on_stack" using "1.prems"(3) by blast
        obtain res1 memo1 where m: "map_inputs_up inputs map_input changed r l node 0 (inputs node) memo (insert node on_stack) None = (res1, memo1)"
          by (cases "map_inputs_up inputs map_input changed r l node 0 (inputs node) memo (insert node on_stack) None")
        have stk: "rank m \<le> l \<and> (\<forall>s \<in> insert node on_stack. rank m < rank s)" if "Some m \<in> set (inputs node)" for m
          using below [OF that] "1.prems"(2,3) Suc by fastforce
        from "1.IH" [OF False None Suc ns "1.prems"(1) stk "1.prems"(4) _ _ m]
        have ih: "memo_covers img img' memo1" "changed_at (img node) (img' node) \<subseteq> region res1" using img by simp_all
        have "res = res1" "memo' = (if memo1 node = None then memo1(node \<mapsto> res1) else memo1)"
          using "1.prems"(5) False None Suc ns m by (simp_all add: map_damage_up.simps split: if_splits)
        then show ?thesis using ih by (simp add: memo_covers_def)
      qed
    qed
  qed
next
  case (2 inputs map_input changed r left node i memo on_stack result)
  then have "i = length (inputs node)" by simp
  then show ?case using 2 by (auto simp: map_inputs_up.simps edges_upto_ends changed_at_def)
next
  case (3 inputs map_input changed r left node i es memo on_stack result)
  have m: "map_inputs_up inputs map_input changed r left node (Suc i) es memo on_stack result = (res, memo')"
    using "3.prems"(6) by (simp add: map_inputs_up.simps)
  have stk: "\<And>m. Some m \<in> set es \<Longrightarrow> rank m \<le> left \<and> (\<forall>s \<in> on_stack. rank m < rank s)" using "3.prems"(2) by simp
  have i: "i < length (inputs node)" using "3.prems"(4,5) by (cases "i = length (inputs node)") auto
  then have e: "inputs node ! i = None" "es = drop (Suc i) (inputs node)" using "3.prems"(5) by (simp_all flip: Cons_nth_drop_Suc)
  have "edges_upto inputs img img' node (Suc i) = edges_upto inputs img img' node i"
    using edges_upto_step [of i inputs node img img', OF i] e(1) by (metis list_update_id option.map(1))
  then show ?case using "3.IH" [OF "3.prems"(1) stk "3.prems"(3) _ e(2) m] i by simp
next
  case (4 inputs map_input changed r left node i m es memo on_stack result)
  obtain sub memo1 where s: "map_damage_up inputs map_input changed r left m memo on_stack = (sub, memo1)"
    by (cases "map_damage_up inputs map_input changed r left m memo on_stack")
  have "rank m \<le> left" "\<And>s. s \<in> on_stack \<Longrightarrow> rank m < rank s" using "4.prems"(2) [of m] by simp_all
  from "4.IH"(1) [OF "4.prems"(1) this "4.prems"(3) s]
  have mm: "memo_covers img img' memo1" "changed_at (img m) (img' m) \<subseteq> region sub" by auto
  have stk: "\<And>m. Some m \<in> set es \<Longrightarrow> rank m \<le> left \<and> (\<forall>s \<in> on_stack. rank m < rank s)" using "4.prems"(2) by simp
  have i: "i < length (inputs node)" using "4.prems"(4,5) by (cases "i = length (inputs node)") auto
  then have e: "inputs node ! i = Some m" "es = drop (Suc i) (inputs node)" using "4.prems"(5) by (simp_all flip: Cons_nth_drop_Suc)
  have i': "Suc i \<le> length (inputs node)" using i by simp
  define result1 where "result1 = (case sub of None \<Rightarrow> result | Some sub \<Rightarrow> Some (union_opt result (map_input node i sub)))"
  have run: "map_inputs_up inputs map_input changed r left node (Suc i) es memo1 on_stack result1 = (res, memo')"
    using "4.prems"(6) s by (cases sub) (simp_all add: map_inputs_up.simps result1_def)
  have ih: "memo_covers img img' memo' \<and> region result1 \<subseteq> region res \<and>
      changed_at (render node (edges_upto inputs img img' node (Suc i))) (render node (edge_images inputs img' node)) \<subseteq> region res"
  proof (cases sub)
    case None
    show ?thesis using "4.IH"(2) [OF s [symmetric] None "4.prems"(1) stk mm(1) i' e(2)] run None by (simp add: result1_def)
  next
    case (Some x)
    show ?thesis using "4.IH"(3) [OF s [symmetric] Some "4.prems"(1) stk mm(1) i' e(2)] run Some by (simp add: result1_def)
  qed
  have grow: "region result \<subseteq> region result1" "\<And>x. sub = Some x \<Longrightarrow> rect_points (map_input node i x) \<subseteq> region result1"
    using region_union by (auto simp: result1_def split: option.split)
  have "changed_at (render node (edges_upto inputs img img' node i)) (render node (edges_upto inputs img img' node (Suc i))) \<subseteq> region res"
    by (rule edge_step_covered [where inputs = inputs and n = node and img = img and img' = img', OF _ i e(1) mm(2)]) (use "4.prems"(1) grow ih in \<open>auto simp: repaint_def\<close>)
  from changed_at_trans [OF this] ih grow show ?case by blast
qed

definition holds_damage :: "damage list \<Rightarrow> nat \<Rightarrow> rect \<Rightarrow> time_range \<Rightarrow> bool" where
  "holds_damage out i q tr \<longleftrightarrow> (\<exists>d \<in> set out. dm_object d = i \<and> rect_points q \<subseteq> rect_points (dm_rect d) \<and>
     (\<forall>t. range_contains tr t \<longrightarrow> range_contains (dm_range d) t))"

lemma holds_damage_add:
  "holds_damage (damage_add out d) (dm_object d) (dm_rect d) (dm_range d)"
  "holds_damage out i q tr \<Longrightarrow> holds_damage (damage_add out d) i q tr"
proof -
  show "holds_damage (damage_add out d) (dm_object d) (dm_rect d) (dm_range d)"
    using damage_add_covers [of d "dm_object d" d out] unfolding holds_damage_def by blast
  assume "holds_damage out i q tr"
  then obtain e where e: "e \<in> set out" "dm_object e = i" "rect_points q \<subseteq> rect_points (dm_rect e)"
    "\<forall>t. range_contains tr t \<longrightarrow> range_contains (dm_range e) t" by (auto simp: holds_damage_def)
  show "holds_damage (damage_add out d) i q tr"
  proof (cases "dm_object d = i")
    case True
    from damage_add_covers [of d i e out] True e show ?thesis unfolding holds_damage_def by blast
  next
    case False
    then have "e \<in> set (damage_add out d)" using damage_add_keeps [of e d out] e(1,2) by simp
    then show ?thesis using e(2-) unfolding holds_damage_def by blast
  qed
qed

lemma route_keeps:
  "holds_damage out i q t \<Longrightarrow> holds_damage (route_operator_damage inputs map_input budget c r tr ops out) i q t"
  by (induction inputs map_input budget c r tr ops out rule: route_operator_damage.induct)
    (auto simp: holds_damage_add(2) split: option.split prod.split)

lemma route_covers:
  assumes g: "repaint inputs rank render map_input changed r img img'"
    and op: "ol_content op = Some c" "c \<noteq> changed" "rank c \<le> budget" and p: "p \<in> changed_at (img c) (img' c)"
  shows "op \<in> set ops \<Longrightarrow> \<exists>x. p \<in> rect_points x \<and>
    holds_damage (route_operator_damage inputs map_input budget (Some changed) r tr ops out) (ol_object op) x tr"
proof (induction ops arbitrary: out)
  case (Cons o1 ops)
  show ?case
  proof (cases "o1 = op")
    case True
    obtain res memo where m: "map_damage_up inputs map_input changed r budget c Map.empty {} = (res, memo)"
      by (cases "map_damage_up inputs map_input changed r budget c Map.empty {}")
    have "p \<in> region res"
      using map_up_covers(1) [OF g op(3) _ _ m] p by (auto simp: memo_covers_def)
    then obtain x where x: "res = Some x" "p \<in> rect_points x" by (auto simp: region_def split: option.splits)
    let ?d = "\<lparr>dm_object = ol_object op, dm_rect = x, dm_range = tr\<rparr>"
    have "holds_damage (damage_add out ?d) (ol_object op) x tr" using holds_damage_add(1) [of out ?d] by simp
    from route_keeps [OF this] show ?thesis using True op(1,2) m x by (simp del: damage_add.simps) blast
  next
    case False
    then have "op \<in> set ops" using Cons.prems by simp
    then show ?thesis using Cons.IH by (auto split: option.split prod.split)
  qed
qed simp

text \<open>
  C15: Routed damage never under-reports. On an acyclic graph no higher than the recursion budget, with kinds that meet
  the covering requirement of \<open>map_input_damage\<close>, let the changed content differ between two renderings inside the
  damaged rectangle only. Then every point at which an operator's own image differs lies in the rectangle of the
  record routed to that operator, and the record's range covers the damaged range: sharing, the memo, null edges and
  the order of the edges lose nothing.
\<close>

theorem routed_damage_covers_every_change:
  assumes "layered inputs rank" "covering_kinds render map_input"
    "renders inputs render changed img" "renders inputs render changed img'" "changed_at (img changed) (img' changed) \<subseteq> rect_points r"
    "op \<in> set ops" "ol_content op = Some c" "c \<noteq> changed" "rank c \<le> k_max_recursion_depth" "p \<in> changed_at (img c) (img' c)"
  shows "\<exists>d \<in> set (route_operator_damage inputs map_input k_max_recursion_depth (Some changed) r tr ops []).
    dm_object d = ol_object op \<and> p \<in> rect_points (dm_rect d) \<and> (\<forall>t. range_contains tr t \<longrightarrow> range_contains (dm_range d) t)"
proof -
  have "repaint inputs rank render map_input changed r img img'" using assms(1-5) by (simp add: repaint_def)
  from route_covers [OF this assms(7-10,6), of tr "[]"] show ?thesis unfolding holds_damage_def by blast
qed

text \<open>
  A chain of blurs of radius 2, each lighting the points two away from a lit one. As the documentation asks, its
  damage map inflates the rectangle by the radius; on an empty rectangle the result is not empty.
\<close>

definition moved :: "rat \<Rightarrow> double \<Rightarrow> double" where
  "moved d x = (case x of Fin a \<Rightarrow> Fin (a + d) | _ \<Rightarrow> x)"

definition inflate :: "rect \<Rightarrow> rect" where
  "inflate r = \<lparr>rx0 = moved (- 2) (rx0 r), ry0 = moved (- 2) (ry0 r), rx1 = moved 2 (rx1 r), ry1 = moved 2 (ry1 r)\<rparr>"

definition blur :: "(double \<times> double \<Rightarrow> bool) \<Rightarrow> double \<times> double \<Rightarrow> bool" where
  "blur f p = (case p of (x, y) \<Rightarrow>
     f (x, y) \<or> f (moved 2 x, y) \<or> f (moved (- 2) x, y) \<or> f (x, moved 2 y) \<or> f (x, moved (- 2) y))"

definition blur_render :: "nat \<Rightarrow> (double \<times> double \<Rightarrow> bool) option list \<Rightarrow> double \<times> double \<Rightarrow> bool" where
  "blur_render n es = (case es of [Some f] \<Rightarrow> blur f | _ \<Rightarrow> (\<lambda>p. False))"

definition blur_inputs :: "nat \<Rightarrow> nat option list" where
  "blur_inputs n = (case n of 0 \<Rightarrow> [] | Suc m \<Rightarrow> [Some m])"

lemma moved_order:
  "a \<le> x \<Longrightarrow> moved (- 2) a \<le> x" "a \<le> moved 2 x \<Longrightarrow> moved (- 2) a \<le> x" "a \<le> moved (- 2) x \<Longrightarrow> moved (- 2) a \<le> x"
  "x < b \<Longrightarrow> x < moved 2 b" "moved 2 x < b \<Longrightarrow> x < moved 2 b" "moved (- 2) x < b \<Longrightarrow> x < moved 2 b"
  by (cases a; cases x; simp add: moved_def; fail | cases b; cases x; simp add: moved_def less_double_def; fail)+

lemma blur_covers: "changed_at f g \<subseteq> rect_points r \<Longrightarrow> changed_at (blur f) (blur g) \<subseteq> rect_points (inflate r)"
proof
  fix p assume c: "changed_at f g \<subseteq> rect_points r" and p: "p \<in> changed_at (blur f) (blur g)"
  obtain x y where xy: "p = (x, y)" by (cases p)
  have "f q = g q" if "q \<notin> rect_points r" for q using c that by (auto simp: changed_at_def)
  then have "(x, y) \<in> rect_points r \<or> (moved 2 x, y) \<in> rect_points r \<or> (moved (- 2) x, y) \<in> rect_points r \<or>
      (x, moved 2 y) \<in> rect_points r \<or> (x, moved (- 2) y) \<in> rect_points r"
    using p by (auto simp: changed_at_def blur_def xy)
  then show "p \<in> rect_points (inflate r)" by (auto simp: rect_points_def inflate_def xy moved_order)
qed

lemma blur_kinds: "covering_kinds blur_render (\<lambda>n i. inflate)"
proof -
  have "changed_at (blur_render n es) (blur_render n (es[i := Some g])) \<subseteq> rect_points (inflate r)"
    if "i < length es" "es ! i = Some f" "changed_at f g \<subseteq> rect_points r" for n es i f g r
  proof (cases "length es = 1")
    case True
    then have "i = 0" "es = [Some f]" using that(1,2) by (cases es; simp)+
    then show ?thesis using blur_covers [OF that(3)] by (simp add: blur_render_def)
  next
    case False
    then have "blur_render n es' = (\<lambda>p. False)" if "length es' = length es" for es'
      using that by (auto simp: blur_render_def split: list.split option.split)
    then show ?thesis by (simp add: changed_at_def)
  qed
  then show ?thesis by (auto simp: covering_kinds_def)
qed

primrec blurred :: "(double \<times> double \<Rightarrow> bool) \<Rightarrow> nat \<Rightarrow> double \<times> double \<Rightarrow> bool" where
  "blurred f 0 = f"
| "blurred f (Suc n) = blur (blurred f n)"

lemma blurred_renders: "renders blur_inputs blur_render 0 (blurred f)"
  by (auto simp: renders_def blur_inputs_def edge_images_def blur_render_def split: nat.split)

definition spot :: "double \<times> double \<Rightarrow> bool" where
  "spot p \<longleftrightarrow> p = (Fin 0, Fin 0)"

theorem routed_damage_covers_every_change_witness:
  "\<exists>d \<in> set (route_operator_damage blur_inputs (\<lambda>n i. inflate) k_max_recursion_depth (Some 0) (small_rect 0 1) time_range_all
      [\<lparr>ol_object = 7, ol_content = Some 2\<rparr>] []).
    dm_object d = 7 \<and> (Fin 4, Fin 0) \<in> rect_points (dm_rect d) \<and> (\<forall>t. range_contains time_range_all t \<longrightarrow> range_contains (dm_range d) t)"
proof -
  have l: "layered blur_inputs id" by (auto simp: layered_def blur_inputs_def split: nat.splits)
  have c: "changed_at (blurred (\<lambda>p. False) 0) (blurred spot 0) \<subseteq> rect_points (small_rect 0 1)"
    by (auto simp: changed_at_def spot_def rect_points_def small_rect_def less_double_def)
  have "(Fin 4, Fin 0) \<in> changed_at (blurred (\<lambda>p. False) 2) (blurred spot 2)"
    by (simp add: changed_at_def numeral_2_eq_2 blur_def spot_def moved_def)
  from routed_damage_covers_every_change [OF l blur_kinds blurred_renders blurred_renders c _ _ _ _ this,
      of "\<lparr>ol_object = 7, ol_content = Some 2\<rparr>" "[\<lparr>ol_object = 7, ol_content = Some 2\<rparr>]" time_range_all]
  show ?thesis by (simp add: k_max_recursion_depth_def)
qed

text \<open>The rectangle that damage becomes on the way up one path of input edges.\<close>

inductive path_rect :: "('n \<Rightarrow> 'n option list) \<Rightarrow> ('n \<Rightarrow> nat \<Rightarrow> rect \<Rightarrow> rect) \<Rightarrow> 'n \<Rightarrow> rect \<Rightarrow> 'n \<Rightarrow> rect \<Rightarrow> bool"
  for inputs map_input changed r where
  here: "path_rect inputs map_input changed r changed r"
| up: "path_rect inputs map_input changed r m q \<Longrightarrow> i < length (inputs n) \<Longrightarrow> inputs n ! i = Some m \<Longrightarrow> n \<noteq> changed \<Longrightarrow>
    path_rect inputs map_input changed r n (map_input n i q)"

text \<open>
  On a cycle the memo loses damage. Content 0 shows 1 and, displaced, 2; 2 shows 1, and 1 shows 2 and the changed
  content 3. The walk below 0 enters 2 while 1 is open, records that 2 reaches nothing, and reads that record when
  it comes to 0's own edge to 2: the damage routed to 0 misses the displaced region, though 2 shows the change
  through 1.
\<close>

definition loop_graph :: "nat \<Rightarrow> nat option list" where
  "loop_graph n = (if n = 0 then [Some 1, Some 2] else if n = 1 then [Some 2, Some 3] else if n = 2 then [Some 1] else [])"

definition displaced :: "nat \<Rightarrow> nat \<Rightarrow> rect \<Rightarrow> rect" where
  "displaced n i r = (if n = 0 \<and> i = 1 then (if rect_empty r then r else small_rect 8 9) else r)"

theorem cycle_memo_loses_damage:
  "route_operator_damage loop_graph displaced k_max_recursion_depth (Some 3) (small_rect 0 1) time_range_all
     [\<lparr>ol_object = 7, ol_content = Some 0\<rparr>] [] = [\<lparr>dm_object = 7, dm_rect = small_rect 0 1, dm_range = time_range_all\<rparr>] \<and>
   path_rect loop_graph displaced 3 (small_rect 0 1) 0 (small_rect 8 9)"
proof
  show "route_operator_damage loop_graph displaced k_max_recursion_depth (Some 3) (small_rect 0 1) time_range_all
     [\<lparr>ol_object = 7, ol_content = Some 0\<rparr>] [] = [\<lparr>dm_object = 7, dm_rect = small_rect 0 1, dm_range = time_range_all\<rparr>]"
    by (simp add: k_max_recursion_depth_def map_damage_up.simps map_inputs_up.simps loop_graph_def displaced_def union_opt_def
      numeral_eq_Suc)
  have "path_rect loop_graph displaced 3 (small_rect 0 1) 1 (displaced 1 1 (small_rect 0 1))"
    by (rule path_rect.up [OF path_rect.here]) (simp_all add: loop_graph_def)
  then have "path_rect loop_graph displaced 3 (small_rect 0 1) 2 (displaced 2 0 (displaced 1 1 (small_rect 0 1)))"
    by (rule path_rect.up) (simp_all add: loop_graph_def)
  then have "path_rect loop_graph displaced 3 (small_rect 0 1) 0 (displaced 0 1 (displaced 2 0 (displaced 1 1 (small_rect 0 1))))"
    by (rule path_rect.up) (simp_all add: loop_graph_def)
  then show "path_rect loop_graph displaced 3 (small_rect 0 1) 0 (small_rect 8 9)"
    by (simp add: displaced_def rect_empty_def small_rect_def less_double_def)
qed

subsection \<open>Identity chains resolve within the budget\<close>

definition passes_to :: "('n \<Rightarrow> 'n option list) \<Rightarrow> ('n \<Rightarrow> nat option) \<Rightarrow> 'n \<Rightarrow> 'n \<Rightarrow> bool" where
  "passes_to inputs identity n m \<longleftrightarrow> (\<exists>idx. identity n = Some idx \<and> selected inputs n idx = Some m)"

fun identity_chain :: "('n \<Rightarrow> 'n option list) \<Rightarrow> ('n \<Rightarrow> nat option) \<Rightarrow> 'n list \<Rightarrow> bool" where
  "identity_chain inputs identity (n # m # ns) \<longleftrightarrow> passes_to inputs identity n m \<and> identity_chain inputs identity (m # ns)"
| "identity_chain inputs identity ns \<longleftrightarrow> True"

lemma resolve_chain:
  "identity_chain inputs identity (n # ns) \<Longrightarrow> depth + length ns \<le> b \<Longrightarrow>
    identity (last (n # ns)) = None \<or> depth + length ns = b \<Longrightarrow>
    resolve_loop inputs identity b n depth path short =
      (if identity (last (n # ns)) = None
       then (\<lparr>ir_terminal = Some (last (n # ns)), ir_short_circuited = (short \<or> ns \<noteq> []), ir_budget_exceeded = False\<rparr>, [])
       else (\<lparr>ir_terminal = None, ir_short_circuited = True, ir_budget_exceeded = True\<rparr>,
             [\<lparr>gd_content = last (n # ns), gd_depth = b, gd_path = path @ n # ns\<rparr>]))"
proof (induction ns arbitrary: n depth path short)
  case Nil
  then show ?case by (subst resolve_loop.simps) (auto split: option.split)
next
  case (Cons m ns)
  obtain idx where idx: "identity n = Some idx" "selected inputs n idx = Some m" using Cons.prems(1) by (auto simp: passes_to_def)
  have "resolve_loop inputs identity b n depth path short = resolve_loop inputs identity b m (depth + 1) (path @ [n]) True"
    using idx Cons.prems(2) by (subst resolve_loop.simps) simp
  then show ?case using Cons.IH [of m "depth + 1" "path @ [n]" True] Cons.prems by simp
qed

text \<open>
  Identity resolution follows a chain of pass-through operators to its end. If the chain ends within the budget
  its last content is the terminal, short-circuited exactly if an edge was followed; if it goes on at the budget
  the result is the placeholder with one diagnostic that names the content and the whole path.
\<close>

theorem identity_chain_resolves:
  assumes "identity_chain inputs identity ns" "ns \<noteq> []" "length ns \<le> Suc budget"
    "identity (last ns) = None \<or> length ns = Suc budget"
  shows "resolve_identity inputs identity budget (Some (hd ns)) =
    (if identity (last ns) = None
     then (\<lparr>ir_terminal = Some (last ns), ir_short_circuited = (length ns > 1), ir_budget_exceeded = False\<rparr>, [])
     else (\<lparr>ir_terminal = None, ir_short_circuited = True, ir_budget_exceeded = True\<rparr>,
           [\<lparr>gd_content = last ns, gd_depth = budget, gd_path = ns\<rparr>]))"
proof -
  obtain n ms where ns: "ns = n # ms" using assms(2) by (cases ns) auto
  show ?thesis using resolve_chain [of inputs identity n ms 0 budget "[]" False] assms unfolding ns resolve_identity_def
    by (simp only: option.case list.sel append_Nil list.size) simp
qed

definition fade_chain :: "nat \<Rightarrow> nat option list" where
  "fade_chain n = (if n = 0 then [] else [Some (n - 1)])"

definition fade_identity :: "nat \<Rightarrow> nat option" where
  "fade_identity n = (if n = 0 then None else Some 0)"

theorem identity_chain_resolves_witness:
  "resolve_identity fade_chain fade_identity 8 (Some 2) =
     (\<lparr>ir_terminal = Some 0, ir_short_circuited = True, ir_budget_exceeded = False\<rparr>, [])"
  using identity_chain_resolves [of fade_chain fade_identity "[2, 1, 0]" 8]
  by (simp add: passes_to_def fade_chain_def fade_identity_def selected_def)

lemma resolve_broken:
  assumes "identity n = Some idx" "selected inputs n idx = None" "0 < budget"
  shows "resolve_identity inputs identity budget (Some n) =
    (\<lparr>ir_terminal = Some n, ir_short_circuited = True, ir_budget_exceeded = False\<rparr>, [])"
  using assms by (simp add: resolve_identity_def resolve_loop.simps)

text \<open>
  A broken identity index under a pull. Resolution promises that such a node is rendered itself, but it reports the
  node as short-circuited to itself, and the pull of a content with at least one edge, null edges included, follows that
  result: it descends to the same node until the budget is gone and serves the placeholder with a budget diagnostic. A
  content with no edges is not resolved at all: it is served, except at an exhausted budget.
\<close>

lemma broken_identity_pulls_placeholder:
  assumes "identity n = Some idx" "selected inputs n idx = None"
  shows "pull_descent inputs identity k_max_recursion_depth left (Some n) =
    (if inputs n = [] \<and> 0 < left then Serves n
     else Placeholder [\<lparr>gd_content = n, gd_depth = k_max_recursion_depth, gd_path = [n]\<rparr>])"
proof (induction left)
  case (Suc left)
  have "0 < k_max_recursion_depth" by (simp add: k_max_recursion_depth_def)
  from resolve_broken [of identity n idx inputs, OF assms(1,2) this] show ?case using Suc by (simp add: is_operator_def)
qed simp

definition broken_inputs :: "nat \<Rightarrow> nat option list" where
  "broken_inputs n = [None]"

theorem broken_identity_pulls_placeholder_witness:
  "pull_descent broken_inputs (\<lambda>n. Some 0) k_max_recursion_depth 64 (Some 5) =
    Placeholder [\<lparr>gd_content = 5, gd_depth = k_max_recursion_depth, gd_path = [5]\<rparr>]"
  "pull_descent (\<lambda>n. []) (\<lambda>n. Some 0) k_max_recursion_depth 64 (Some 5) = Serves 5"
  using broken_identity_pulls_placeholder [of "\<lambda>n. Some 0" 5 0 broken_inputs 64]
    broken_identity_pulls_placeholder [of "\<lambda>n. Some 0" 5 0 "\<lambda>n. []" 64]
  by (simp_all add: broken_inputs_def selected_def)

end
