(* ===== verification/Keyed_Store.thy ===== *)
theory Keyed_Store
  imports Prelude "HOL-Library.Multiset" "HOL-Library.Product_Lexorder"
begin

text \<open>
  \<open>cache/keyed_store.hpp\<close>: the budgeted store behind the tile and block caches. An entry carries the
  identity of its allocation, which is what a \<open>CacheHold\<close> names; the multiset of outstanding holds is
  the caller's and appears in the invariant only. The unordered map is an association list: nothing
  below depends on its order. Byte counts, ticks and counters are naturals.
\<close>

subsection \<open>State\<close>

datatype priority_class = Speculative | Recent | Temporal | Adjacent | Visible

definition cache_eviction_order :: "priority_class list" where
  "cache_eviction_order = [Speculative, Recent, Temporal, Adjacent, Visible]"

record 'v cache_entry =
  en_id :: nat
  en_value :: 'v
  en_bytes :: nat
  en_class :: priority_class
  en_recency :: nat
  en_pins :: nat
  en_removed :: bool

record ('k, 'v) keyed_store =
  ks_budget :: nat
  ks_resident :: nat
  ks_tick :: nat
  ks_hits :: nat
  ks_misses :: nat
  ks_evictions :: nat
  ks_map :: "('k \<times> 'v cache_entry) list"
  ks_orphans :: "'v cache_entry list"
  ks_next_id :: nat

definition keyed_store_new :: "nat \<Rightarrow> ('k, 'v) keyed_store" where
  "keyed_store_new budget = \<lparr>ks_budget = budget, ks_resident = 0, ks_tick = 0, ks_hits = 0, ks_misses = 0,
     ks_evictions = 0, ks_map = [], ks_orphans = [], ks_next_id = 0\<rparr>"

subsection \<open>Operations\<close>

definition update_entries :: "nat \<Rightarrow> ('v cache_entry \<Rightarrow> 'v cache_entry) \<Rightarrow> ('k, 'v) keyed_store \<Rightarrow> ('k, 'v) keyed_store" where
  "update_entries i f s = s\<lparr>ks_map := map (\<lambda>(k, e). (k, if en_id e = i then f e else e)) (ks_map s),
     ks_orphans := map (\<lambda>e. if en_id e = i then f e else e) (ks_orphans s)\<rparr>"

definition find_entry :: "nat \<Rightarrow> ('k, 'v) keyed_store \<Rightarrow> 'v cache_entry option" where
  "find_entry i s = find (\<lambda>e. en_id e = i) (map snd (ks_map s) @ ks_orphans s)"

text \<open>The release of a hold. \<open>--pins\<close> on an entry with none would wrap; no hold names such an entry.\<close>

definition unpin :: "nat \<Rightarrow> ('k, 'v) keyed_store \<Rightarrow> ('k, 'v) keyed_store" where
  "unpin i s =
     (let s = update_entries i (\<lambda>e. e\<lparr>en_pins := en_pins e - 1\<rparr>) s in
      case find_entry i s of
        None \<Rightarrow> s
      | Some e \<Rightarrow>
          if en_pins e = 0 \<and> en_removed e
          then s\<lparr>ks_resident := ks_resident s - en_bytes e, ks_orphans := filter (\<lambda>o'. en_id o' \<noteq> i) (ks_orphans s)\<rparr>
          else s)"

definition erase_key :: "'k \<Rightarrow> ('k \<times> 'v cache_entry) list \<Rightarrow> ('k \<times> 'v cache_entry) list" where
  "erase_key k = filter (\<lambda>(k', e). k' \<noteq> k)"

definition detach :: "'k \<Rightarrow> 'v cache_entry \<Rightarrow> ('k, 'v) keyed_store \<Rightarrow> ('k, 'v) keyed_store" where
  "detach k e s =
     (if en_pins e = 0 then s\<lparr>ks_resident := ks_resident s - en_bytes e, ks_map := erase_key k (ks_map s)\<rparr>
      else s\<lparr>ks_orphans := ks_orphans s @ [e\<lparr>en_removed := True\<rparr>], ks_map := erase_key k (ks_map s)\<rparr>)"

fun victim_in :: "priority_class \<Rightarrow> ('k \<times> 'v cache_entry) option \<Rightarrow> ('k \<times> 'v cache_entry) list \<Rightarrow> ('k \<times> 'v cache_entry) option" where
  "victim_in c victim [] = victim"
| "victim_in c victim ((k, e) # es) =
     (if en_class e \<noteq> c \<or> en_pins e \<noteq> 0 then victim_in c victim es
      else case victim of
        None \<Rightarrow> victim_in c (Some (k, e)) es
      | Some (_, v) \<Rightarrow> if en_recency e < en_recency v then victim_in c (Some (k, e)) es else victim_in c victim es)"

fun pick_victim_from :: "priority_class list \<Rightarrow> ('k \<times> 'v cache_entry) list \<Rightarrow> ('k \<times> 'v cache_entry) option" where
  "pick_victim_from [] es = None"
| "pick_victim_from (c # cs) es = (case victim_in c None es of None \<Rightarrow> pick_victim_from cs es | v \<Rightarrow> v)"

definition pick_victim :: "('k, 'v) keyed_store \<Rightarrow> ('k \<times> 'v cache_entry) option" where
  "pick_victim s = pick_victim_from cache_eviction_order (ks_map s)"

lemma victim_in_mem: "victim_in c v es = Some x \<Longrightarrow> x \<in> set es \<or> v = Some x"
proof (induction es arbitrary: v)
  case (Cons p es)
  then obtain v' where "victim_in c v' es = Some x" "v' = v \<or> v' = Some p"
    by (cases p; cases v) (auto split: if_splits)
  then show ?case using Cons.IH [of v'] by auto
qed simp

lemma pick_victim_from_mem: "pick_victim_from cs es = Some x \<Longrightarrow> x \<in> set es"
  by (induction cs) (auto split: option.splits dest: victim_in_mem)

lemma erase_key_length: "(k, e) \<in> set es \<Longrightarrow> length (erase_key k es) < length es"
  unfolding erase_key_def by (rule length_filter_less [where x = "(k, e)"]) simp_all

function evict_to_fit :: "nat \<Rightarrow> ('k, 'v) keyed_store \<Rightarrow> ('k, 'v) keyed_store" where
  "evict_to_fit incoming s =
     (if ks_resident s + incoming > ks_budget s then
        case pick_victim s of
          None \<Rightarrow> s
        | Some (k, e) \<Rightarrow> evict_to_fit incoming (s\<lparr>ks_resident := ks_resident s - en_bytes e,
            ks_evictions := ks_evictions s + 1, ks_map := erase_key k (ks_map s)\<rparr>)
      else s)"
  by pat_completeness auto
termination
  by (relation "measure (\<lambda>(n, s). length (ks_map s))")
    (auto simp: pick_victim_def dest: pick_victim_from_mem intro: erase_key_length)

declare evict_to_fit.simps [simp del]

definition insert_entry :: "'k \<Rightarrow> 'v \<Rightarrow> nat \<Rightarrow> priority_class \<Rightarrow> ('k, 'v) keyed_store \<Rightarrow> ('k, 'v) keyed_store \<times> nat" where
  "insert_entry k v bytes c s =
     (let s = (case map_of (ks_map s) k of None \<Rightarrow> s | Some e \<Rightarrow> detach k e s);
          s = evict_to_fit bytes s;
          i = ks_next_id s;
          e = \<lparr>en_id = i, en_value = v, en_bytes = bytes, en_class = c, en_recency = ks_tick s + 1, en_pins = 1, en_removed = False\<rparr>
      in (s\<lparr>ks_next_id := i + 1, ks_tick := ks_tick s + 1, ks_resident := ks_resident s + bytes, ks_map := (k, e) # ks_map s\<rparr>, i))"

definition lookup_entry :: "'k \<Rightarrow> ('k, 'v) keyed_store \<Rightarrow> ('k, 'v) keyed_store \<times> nat option" where
  "lookup_entry k s =
     (case map_of (ks_map s) k of
        None \<Rightarrow> (s\<lparr>ks_misses := ks_misses s + 1\<rparr>, None)
      | Some e \<Rightarrow>
          (update_entries (en_id e) (\<lambda>e. e\<lparr>en_recency := ks_tick s + 1, en_pins := en_pins e + 1\<rparr>)
             (s\<lparr>ks_hits := ks_hits s + 1, ks_tick := ks_tick s + 1\<rparr>), Some (en_id e)))"

definition reclassify :: "'k \<Rightarrow> priority_class \<Rightarrow> ('k, 'v) keyed_store \<Rightarrow> ('k, 'v) keyed_store" where
  "reclassify k c s =
     (case map_of (ks_map s) k of
        None \<Rightarrow> s
      | Some e \<Rightarrow> update_entries (en_id e) (\<lambda>e. e\<lparr>en_class := c\<rparr>) s)"

definition remove_entry :: "'k \<Rightarrow> ('k, 'v) keyed_store \<Rightarrow> ('k, 'v) keyed_store" where
  "remove_entry k s = (case map_of (ks_map s) k of None \<Rightarrow> s | Some e \<Rightarrow> detach k e s)"

fun remove_loop :: "('k \<Rightarrow> bool) \<Rightarrow> ('k \<times> 'v cache_entry) list \<Rightarrow> ('k, 'v) keyed_store \<Rightarrow> ('k, 'v) keyed_store \<times> nat" where
  "remove_loop p [] s = (s, 0)"
| "remove_loop p ((k, e) # es) s =
     (if p k then (case remove_loop p es (detach k e s) of (s, n) \<Rightarrow> (s, n + 1)) else remove_loop p es s)"

definition remove_if :: "('k \<Rightarrow> bool) \<Rightarrow> ('k, 'v) keyed_store \<Rightarrow> ('k, 'v) keyed_store \<times> nat" where
  "remove_if p s = remove_loop p (ks_map s) s"

text \<open>The value a hold dereferences to.\<close>

definition held_value :: "nat \<Rightarrow> ('k, 'v) keyed_store \<Rightarrow> 'v option" where
  "held_value i s = map_option en_value (find_entry i s)"

subsection \<open>Victims\<close>

fun class_rank :: "priority_class \<Rightarrow> nat" where
  "class_rank Speculative = 0" | "class_rank Recent = 1" | "class_rank Temporal = 2" | "class_rank Adjacent = 3" | "class_rank Visible = 4"

text \<open>The eviction order: by class, then by age.\<close>

definition goes_before :: "'v cache_entry \<Rightarrow> 'v cache_entry \<Rightarrow> bool" where
  "goes_before e f \<longleftrightarrow> class_rank (en_class e) < class_rank (en_class f) \<or>
     class_rank (en_class e) = class_rank (en_class f) \<and> en_recency e < en_recency f"

lemma class_rank_inj: "class_rank a = class_rank b \<longleftrightarrow> a = b"
  by (cases a; cases b) simp_all

lemma goes_before_trans: "goes_before e f \<Longrightarrow> goes_before f g \<Longrightarrow> goes_before e g"
  by (auto simp: goes_before_def)

definition candidate :: "priority_class \<Rightarrow> 'v cache_entry \<Rightarrow> bool" where
  "candidate c e \<longleftrightarrow> en_class e = c \<and> en_pins e = 0"

lemma victim_in_spec:
  assumes "case v of None \<Rightarrow> True | Some (k, e) \<Rightarrow> candidate c e"
  shows "case victim_in c v es of
     None \<Rightarrow> v = None \<and> (\<forall>(k, e) \<in> set es. \<not> candidate c e)
   | Some (k, e) \<Rightarrow> candidate c e \<and> ((k, e) \<in> set es \<or> v = Some (k, e)) \<and> (\<forall>(k', f) \<in> set es. candidate c f \<longrightarrow> en_recency e \<le> en_recency f) \<and>
       (\<forall>k' f. v = Some (k', f) \<longrightarrow> en_recency e \<le> en_recency f)"
  using assms
proof (induction es arbitrary: v)
  case Nil
  then show ?case by (auto split: option.splits)
next
  case (Cons p es)
  obtain k e where p: "p = (k, e)" by (cases p)
  show ?case
  proof (cases "candidate c e")
    case False
    then have "victim_in c v (p # es) = victim_in c v es" by (auto simp: p candidate_def)
    then show ?thesis using Cons.IH [OF Cons.prems] False
      by (auto simp: p split: option.splits prod.splits)
  next
    case True
    define w where "w = (case v of None \<Rightarrow> (k, e) | Some (k', f) \<Rightarrow> if en_recency e < en_recency f then (k, e) else (k', f))"
    have eq: "victim_in c v (p # es) = victim_in c (Some w) es" using True
      by (auto simp: p candidate_def w_def split: option.splits)
    have wc: "case Some w of None \<Rightarrow> True | Some (k, e) \<Rightarrow> candidate c e" using True Cons.prems
      by (auto simp: w_def split: option.splits)
    obtain k1 e1 where r: "victim_in c (Some w) es = Some (k1, e1)"
      using Cons.IH [OF wc] by (cases "victim_in c (Some w) es") auto
    note ih = Cons.IH [OF wc, unfolded r]
    have wr: "en_recency (snd w) \<le> en_recency e" "v = Some (k', f) \<Longrightarrow> en_recency (snd w) \<le> en_recency f"
      "w = (k, e) \<or> v = Some w" for k' f
      by (auto simp: w_def split: option.splits)
    have c1: "candidate c e1" "(k1, e1) \<in> set es \<or> w = (k1, e1)" "\<forall>(k', f) \<in> set es. candidate c f \<longrightarrow> en_recency e1 \<le> en_recency f"
      using ih by auto
    have c4: "en_recency e1 \<le> en_recency (snd w)" using ih by (cases w) auto
    show ?thesis unfolding eq unfolding r p option.case prod.case
    proof (intro conjI)
      show "(k1, e1) \<in> set ((k, e) # es) \<or> v = Some (k1, e1)" using c1(2) wr(3) by auto
      show "\<forall>(k', f) \<in> set ((k, e) # es). candidate c f \<longrightarrow> en_recency e1 \<le> en_recency f"
        using c1(3) c4 wr(1) by auto
      show "\<forall>k' f. v = Some (k', f) \<longrightarrow> en_recency e1 \<le> en_recency f" using c4 wr(2) by (auto intro: order_trans)
    qed (rule c1(1))
  qed
qed

lemma pick_victim_from_spec:
  assumes "sorted (map class_rank cs)"
  shows "case pick_victim_from cs es of
     None \<Rightarrow> \<forall>(k, e) \<in> set es. en_class e \<in> set cs \<longrightarrow> en_pins e \<noteq> 0
   | Some (k, e) \<Rightarrow> (k, e) \<in> set es \<and> en_pins e = 0 \<and> en_class e \<in> set cs \<and>
       (\<forall>(k', f) \<in> set es. en_pins f = 0 \<and> en_class f \<in> set cs \<longrightarrow> \<not> goes_before f e)"
  using assms
proof (induction cs)
  case (Cons c cs)
  note v = victim_in_spec [of c None es]
  show ?case
  proof (cases "victim_in c None es")
    case None
    then have n: "\<forall>(k, e) \<in> set es. \<not> candidate c e" using v by simp
    show ?thesis using Cons n None by (auto simp: candidate_def split: option.splits prod.splits)
  next
    case (Some ke)
    obtain k e where ke: "ke = (k, e)" by (cases ke)
    have r: "pick_victim_from (c # cs) es = Some (k, e)" using Some ke by simp
    have "candidate c e" "(k, e) \<in> set es" and m: "\<forall>(k', f) \<in> set es. candidate c f \<longrightarrow> en_recency e \<le> en_recency f"
      using v Some ke by auto
    moreover have "\<not> goes_before f e" if "(k', f) \<in> set es" "en_pins f = 0" "en_class f \<in> set (c # cs)" for k' f
    proof -
      have "class_rank c \<le> class_rank (en_class f)" using that(3) Cons.prems by auto
      moreover have "en_class f = c \<Longrightarrow> en_recency e \<le> en_recency f" using m that(1,2) by (auto simp: candidate_def)
      ultimately show ?thesis using \<open>candidate c e\<close> by (auto simp: goes_before_def candidate_def class_rank_inj)
    qed
    ultimately show ?thesis unfolding r by (auto simp: candidate_def)
  qed
qed simp

lemma pick_victim_spec:
  "case pick_victim s of
     None \<Rightarrow> \<forall>(k, e) \<in> set (ks_map s). en_pins e \<noteq> 0
   | Some (k, e) \<Rightarrow> (k, e) \<in> set (ks_map s) \<and> en_pins e = 0 \<and>
       (\<forall>(k', f) \<in> set (ks_map s). en_pins f = 0 \<longrightarrow> \<not> goes_before f e)"
proof -
  have c: "c \<in> set cache_eviction_order" for c by (cases c) (simp_all add: cache_eviction_order_def)
  have "sorted (map class_rank cache_eviction_order)" by (simp add: cache_eviction_order_def)
  from pick_victim_from_spec [OF this, of "ks_map s"] show ?thesis
    by (simp add: pick_victim_def c split: option.splits prod.splits)
qed

subsection \<open>The invariant\<close>

definition all_entries :: "('k, 'v) keyed_store \<Rightarrow> 'v cache_entry list" where
  "all_entries s = map snd (ks_map s) @ ks_orphans s"

text \<open>\<open>holds\<close> is the multiset of entries the outstanding \<open>CacheHold\<close>s name.\<close>

definition ks_inv :: "nat multiset \<Rightarrow> ('k, 'v) keyed_store \<Rightarrow> bool" where
  "ks_inv holds s \<longleftrightarrow>
     distinct (map fst (ks_map s)) \<and> distinct (map en_id (all_entries s)) \<and> (\<forall>e \<in> set (all_entries s). en_id e < ks_next_id s) \<and>
     distinct (map (en_recency \<circ> snd) (ks_map s)) \<and>
     (\<forall>e \<in> snd ` set (ks_map s). \<not> en_removed e \<and> en_recency e \<le> ks_tick s) \<and>
     (\<forall>e \<in> set (ks_orphans s). en_removed e \<and> en_pins e > 0) \<and>
     (\<forall>e \<in> set (all_entries s). en_pins e = count holds (en_id e)) \<and>
     (\<forall>i \<in># holds. i \<in> en_id ` set (all_entries s)) \<and>
     ks_resident s = sum_list (map en_bytes (all_entries s))"

lemma erase_key_mem [simp]: "(k', e) \<in> set (erase_key k es) \<longleftrightarrow> (k', e) \<in> set es \<and> k' \<noteq> k"
  by (auto simp: erase_key_def)

lemma map_of_erase_key: "map_of (erase_key k es) = (map_of es)(k := None)"
  by (rule ext, induction es) (auto simp: erase_key_def)

lemma erase_key_distinct: "distinct (map f es) \<Longrightarrow> distinct (map f (erase_key k es))"
  unfolding erase_key_def by (rule distinct_map_filter)

lemma erase_key_mset:
  assumes "distinct (map fst es)" "(k, e) \<in> set es"
  shows "mset (map snd es) = add_mset e (mset (map snd (erase_key k es)))"
  using assms
proof (induction es)
  case (Cons p es)
  obtain k' f where p: "p = (k', f)" by (cases p)
  show ?case
  proof (cases "k' = k")
    case True
    then have "k \<notin> fst ` set es" using Cons.prems p by auto
    then have "erase_key k es = es" unfolding erase_key_def by (intro filter_True) force
    moreover have "e = f" using Cons.prems p True by (auto simp: image_iff)
    ultimately show ?thesis using p True by (simp add: erase_key_def)
  next
    case False
    then show ?thesis using Cons p by (auto simp: erase_key_def)
  qed
qed simp

lemma all_entries_erase:
  assumes "ks_inv holds s" "(k, e) \<in> set (ks_map s)"
  shows "mset (all_entries s) = add_mset e (mset (map snd (erase_key k (ks_map s)) @ ks_orphans s))"
  using erase_key_mset [of "ks_map s" k e] assms by (simp add: ks_inv_def all_entries_def)

lemma ks_inv_map_of: "ks_inv holds s \<Longrightarrow> (k, e) \<in> set (ks_map s) \<longleftrightarrow> map_of (ks_map s) k = Some e"
  by (simp add: ks_inv_def)

text \<open>The entries of one multiset agree on everything the invariant sums or keeps apart.\<close>

lemma entries_mset:
  assumes "mset es = add_mset e (mset fs)"
  shows "distinct (map en_id es) \<longleftrightarrow> en_id e \<notin> en_id ` set fs \<and> distinct (map en_id fs)"
    "sum_list (map en_bytes es) = en_bytes e + sum_list (map en_bytes fs)" "set es = insert e (set fs)"
proof -
  have "mset (map en_id es) = mset (map en_id (e # fs))" using assms by simp
  then have "distinct (map en_id es) \<longleftrightarrow> distinct (map en_id (e # fs))" by (rule mset_eq_imp_distinct_iff)
  then show "distinct (map en_id es) \<longleftrightarrow> en_id e \<notin> en_id ` set fs \<and> distinct (map en_id fs)" by auto
  have "mset (map en_bytes es) = mset (map en_bytes (e # fs))" using assms by simp
  then show "sum_list (map en_bytes es) = en_bytes e + sum_list (map en_bytes fs)"
    by (metis list.simps(9) sum_list.Cons sum_mset_sum_list)
  have "set_mset (mset es) = set_mset (add_mset e (mset fs))" using assms by simp
  then show "set es = insert e (set fs)" by simp
qed

lemma ks_invI:
  assumes "distinct (map fst (ks_map s))" "distinct (map en_id (all_entries s))"
    "\<And>e. e \<in> set (all_entries s) \<Longrightarrow> en_id e < ks_next_id s" "distinct (map (en_recency \<circ> snd) (ks_map s))"
    "\<And>e. e \<in> snd ` set (ks_map s) \<Longrightarrow> \<not> en_removed e \<and> en_recency e \<le> ks_tick s"
    "\<And>e. e \<in> set (ks_orphans s) \<Longrightarrow> en_removed e \<and> en_pins e > 0"
    "\<And>e. e \<in> set (all_entries s) \<Longrightarrow> en_pins e = count holds (en_id e)"
    "\<And>i. i \<in># holds \<Longrightarrow> i \<in> en_id ` set (all_entries s)" "ks_resident s = sum_list (map en_bytes (all_entries s))"
  shows "ks_inv holds s"
  using assms unfolding ks_inv_def by blast

lemma ks_invD:
  assumes "ks_inv holds s"
  shows "distinct (map fst (ks_map s))" "distinct (map en_id (all_entries s))"
    "\<And>e. e \<in> set (all_entries s) \<Longrightarrow> en_id e < ks_next_id s" "distinct (map (en_recency \<circ> snd) (ks_map s))"
    "\<And>e. e \<in> snd ` set (ks_map s) \<Longrightarrow> \<not> en_removed e \<and> en_recency e \<le> ks_tick s"
    "\<And>e. e \<in> set (ks_orphans s) \<Longrightarrow> en_removed e \<and> en_pins e > 0"
    "\<And>e. e \<in> set (all_entries s) \<Longrightarrow> en_pins e = count holds (en_id e)"
    "\<And>i. i \<in># holds \<Longrightarrow> i \<in> en_id ` set (all_entries s)" "ks_resident s = sum_list (map en_bytes (all_entries s))"
  using assms unfolding ks_inv_def by blast+

lemma drop_entry_inv:
  assumes "ks_inv holds s" "(k, e) \<in> set (ks_map s)" "en_pins e = 0"
  shows "ks_inv holds (s\<lparr>ks_resident := ks_resident s - en_bytes e, ks_evictions := n, ks_map := erase_key k (ks_map s)\<rparr>)"
    (is "ks_inv holds ?s")
proof -
  note inv = ks_invD [OF assms(1)]
  let ?fs = "map snd (erase_key k (ks_map s)) @ ks_orphans s"
  note m = entries_mset [OF all_entries_erase [OF assms(1,2)]]
  have fs: "all_entries ?s = ?fs" by (simp add: all_entries_def)
  have sub: "f \<in> set (all_entries s)" if "f \<in> set ?fs" for f using that m(3) by blast
  have "en_id e \<notin># holds" using inv(7) [of e] m(3) assms(3) by (simp add: not_in_iff)
  then have held: "i \<in> en_id ` set ?fs" if "i \<in># holds" for i
    using that inv(8) [OF that] m(3) by (metis image_insert insertE)
  show ?thesis
  proof (rule ks_invI; (unfold fs)?)
    show "distinct (map en_id ?fs)" using m(1) inv(2) by blast
    show "ks_resident ?s = sum_list (map en_bytes ?fs)" using inv(9) m(2) by simp
    show "f \<in> set ?fs \<Longrightarrow> en_pins f = count holds (en_id f)" for f using inv(7) sub by blast
    show "f \<in> set ?fs \<Longrightarrow> en_id f < ks_next_id ?s" for f using inv(3) sub by simp
    show "i \<in># holds \<Longrightarrow> i \<in> en_id ` set ?fs" for i by (rule held)
    show "f \<in> set (ks_orphans ?s) \<Longrightarrow> en_removed f \<and> en_pins f > 0" for f using inv(6) by simp
    show "f \<in> snd ` set (ks_map ?s) \<Longrightarrow> \<not> en_removed f \<and> en_recency f \<le> ks_tick ?s" for f using inv(5) by force
  qed (use inv(1,4) in \<open>simp_all add: erase_key_distinct\<close>)
qed

lemma orphan_entry_inv:
  assumes "ks_inv holds s" "(k, e) \<in> set (ks_map s)" "en_pins e \<noteq> 0"
  shows "ks_inv holds (s\<lparr>ks_orphans := ks_orphans s @ [e\<lparr>en_removed := True\<rparr>], ks_map := erase_key k (ks_map s)\<rparr>)"
    (is "ks_inv holds ?s")
proof -
  note inv = ks_invD [OF assms(1)]
  let ?fs = "map snd (erase_key k (ks_map s)) @ ks_orphans s" and ?e = "e\<lparr>en_removed := True\<rparr>"
  note m = entries_mset [OF all_entries_erase [OF assms(1,2)]]
  have fs: "all_entries ?s = ?fs @ [?e]" by (simp add: all_entries_def)
  have sub: "f \<in> set (all_entries s)" if "f \<in> set ?fs \<or> f = e" for f using that m(3) by blast
  show ?thesis
  proof (rule ks_invI; (unfold fs)?)
    show "distinct (map en_id (?fs @ [?e]))" using m(1) inv(2) by (simp add: image_Un image_image)
    show "ks_resident ?s = sum_list (map en_bytes (?fs @ [?e]))" using inv(9) m(2) by simp
    show "en_pins f = count holds (en_id f)" if "f \<in> set (?fs @ [?e])" for f
      using inv(7) [of e] inv(7) [of f] sub [of f] sub [of e] that by (cases "f = ?e") auto
    show "en_id f < ks_next_id ?s" if "f \<in> set (?fs @ [?e])" for f
      using inv(3) [of e] inv(3) [of f] sub [of f] sub [of e] that by (cases "f = ?e") auto
    show "i \<in># holds \<Longrightarrow> i \<in> en_id ` set (?fs @ [?e])" for i using inv(8) m(3) by auto
    show "f \<in> set (ks_orphans ?s) \<Longrightarrow> en_removed f \<and> en_pins f > 0" for f using inv(6) assms(3) by auto
    show "f \<in> snd ` set (ks_map ?s) \<Longrightarrow> \<not> en_removed f \<and> en_recency f \<le> ks_tick ?s" for f using inv(5) by force
  qed (use inv(1,4) in \<open>simp_all add: erase_key_distinct\<close>)
qed

lemma detach_inv:
  assumes "ks_inv holds s" "map_of (ks_map s) k = Some e"
  shows "ks_inv holds (detach k e s)"
proof -
  have "(k, e) \<in> set (ks_map s)" using ks_inv_map_of [OF assms(1), of k e] assms(2) by simp
  note d = drop_entry_inv [OF assms(1) this, of "ks_evictions s"] and o = orphan_entry_inv [OF assms(1) this]
  show ?thesis
  proof (cases "en_pins e = 0")
    case True
    have "detach k e s = s\<lparr>ks_resident := ks_resident s - en_bytes e, ks_evictions := ks_evictions s, ks_map := erase_key k (ks_map s)\<rparr>"
      using True by (simp add: detach_def)
    then show ?thesis using d True by metis
  qed (use o in \<open>simp add: detach_def\<close>)
qed

subsection \<open>Every operation keeps the invariant\<close>

lemma all_entries_update:
  "all_entries (update_entries i f s) = map (\<lambda>e. if en_id e = i then f e else e) (all_entries s)"
  by (simp add: all_entries_def update_entries_def o_def split_beta)

lemma update_entries_simps [simp]:
  "ks_budget (update_entries i f s) = ks_budget s" "ks_resident (update_entries i f s) = ks_resident s"
  "ks_tick (update_entries i f s) = ks_tick s" "ks_evictions (update_entries i f s) = ks_evictions s"
  "ks_hits (update_entries i f s) = ks_hits s" "ks_misses (update_entries i f s) = ks_misses s"
  "ks_next_id (update_entries i f s) = ks_next_id s" "map fst (ks_map (update_entries i f s)) = map fst (ks_map s)"
  by (simp_all add: update_entries_def o_def split_beta)

lemma map_of_update_entries:
  "map_of (ks_map (update_entries i f s)) k = map_option (\<lambda>e. if en_id e = i then f e else e) (map_of (ks_map s) k)"
  unfolding update_entries_def by (induction "ks_map s") (auto simp: map_of_map)

definition keeps_identity :: "('v cache_entry \<Rightarrow> 'v cache_entry) \<Rightarrow> bool" where
  "keeps_identity f \<longleftrightarrow> (\<forall>e. en_id (f e) = en_id e \<and> en_bytes (f e) = en_bytes e \<and> en_removed (f e) = en_removed e)"

lemma update_keeps:
  assumes "keeps_identity f"
  shows "map en_id (all_entries (update_entries i f s)) = map en_id (all_entries s)"
    "map en_bytes (all_entries (update_entries i f s)) = map en_bytes (all_entries s)"
    "en_id ` set (all_entries (update_entries i f s)) = en_id ` set (all_entries s)"
proof -
  show 1: "map en_id (all_entries (update_entries i f s)) = map en_id (all_entries s)"
    and "map en_bytes (all_entries (update_entries i f s)) = map en_bytes (all_entries s)"
    using assms by (simp_all add: all_entries_update keeps_identity_def)
  show "en_id ` set (all_entries (update_entries i f s)) = en_id ` set (all_entries s)"
    using arg_cong [OF 1, of set] by simp
qed

text \<open>Updating one entry: what has to be checked is its pins, its age and, for an orphan, that it stays held.\<close>

lemma update_inv:
  fixes s :: "('k, 'v) keyed_store"
  assumes inv: "ks_inv holds s" and f: "keeps_identity f"
    and pins: "\<And>e. e \<in> set (all_entries s) \<Longrightarrow> en_pins (if en_id e = i then f e else e) = count holds' (en_id e)"
    and held: "\<And>j. j \<in># holds' \<Longrightarrow> j \<in> en_id ` set (all_entries s)"
    and orphans: "\<And>e. e \<in> set (ks_orphans s) \<Longrightarrow> en_id e = i \<Longrightarrow> en_pins (f e) > 0"
    and age: "\<And>k e. (k, e) \<in> set (ks_map s) \<Longrightarrow> en_id e = i \<Longrightarrow> en_recency (f e) = en_recency e \<or> en_recency (f e) = Suc (ks_tick s)"
    and tick: "t = Suc (ks_tick s) \<or> t = ks_tick s \<and> (\<forall>k e. (k, e) \<in> set (ks_map s) \<longrightarrow> en_id e = i \<longrightarrow> en_recency (f e) = en_recency e)"
  shows "ks_inv holds' ((update_entries i f s)\<lparr>ks_tick := t, ks_hits := h\<rparr>)" (is "ks_inv holds' ?s")
proof -
  note d = ks_invD [OF inv] and k = update_keeps [OF f, of i s]
  have a: "all_entries ?s = all_entries (update_entries i f s)" by (simp add: all_entries_def)
  have m: "ks_map ?s = map (\<lambda>(k, e). (k, if en_id e = i then f e else e)) (ks_map s)" by (simp add: update_entries_def)
  have uniq: "p = q" if "p \<in> set (ks_map s)" "q \<in> set (ks_map s)" "en_id (snd p) = en_id (snd q)" for p q
  proof -
    have "distinct (map (en_id \<circ> snd) (ks_map s))" using d(2) by (simp add: all_entries_def)
    then show ?thesis using that inj_onD [of "en_id \<circ> snd" "set (ks_map s)" p q] by (simp add: distinct_map)
  qed
  show ?thesis
  proof (rule ks_invI; (unfold a)?)
    show "distinct (map fst (ks_map ?s))" using d(1) by (simp add: m o_def split_beta)
    show "distinct (map en_id (all_entries (update_entries i f s)))" using d(2) k(1) by simp
    show "ks_resident ?s = sum_list (map en_bytes (all_entries (update_entries i f s)))" using d(9) k(2) by simp
    show "j \<in># holds' \<Longrightarrow> j \<in> en_id ` set (all_entries (update_entries i f s))" for j using held k(3) by simp
    show "en_id e < ks_next_id ?s" if "e \<in> set (all_entries (update_entries i f s))" for e
    proof -
      have "en_id e \<in> en_id ` set (all_entries s)" using that k(3) by blast
      then show ?thesis using d(3) by auto
    qed
    show "en_pins e = count holds' (en_id e)" if "e \<in> set (all_entries (update_entries i f s))" for e
    proof -
      obtain e0 where "e0 \<in> set (all_entries s)" "e = (if en_id e0 = i then f e0 else e0)"
        using \<open>e \<in> set (all_entries (update_entries i f s))\<close> by (auto simp: all_entries_update)
      then show ?thesis using pins [of e0] f by (simp add: keeps_identity_def split: if_splits)
    qed
    show "en_removed e \<and> en_pins e > 0" if "e \<in> set (ks_orphans ?s)" for e
    proof -
      obtain e0 where e0: "e0 \<in> set (ks_orphans s)" "e = (if en_id e0 = i then f e0 else e0)"
        using \<open>e \<in> set (ks_orphans ?s)\<close> by (auto simp: update_entries_def)
      then show ?thesis using d(6) [OF e0(1)] orphans [OF e0(1)] f by (simp add: keeps_identity_def split: if_splits)
    qed
    show "\<not> en_removed e \<and> en_recency e \<le> ks_tick ?s" if e: "e \<in> snd ` set (ks_map ?s)" for e
    proof -
      obtain k e0 where e0: "(k, e0) \<in> set (ks_map s)" "e = (if en_id e0 = i then f e0 else e0)" using e by (auto simp: m)
      have o: "\<not> en_removed e0" "en_recency e0 \<le> ks_tick s" using d(5) [of e0] image_eqI [of e0 snd "(k, e0)"] e0(1) by simp_all
      have t: "t = Suc (ks_tick s) \<or> t = ks_tick s \<and> (en_id e0 = i \<longrightarrow> en_recency (f e0) = en_recency e0)"
        using tick e0(1) by blast
      have r: "en_removed (f e0) = en_removed e0" using f by (simp add: keeps_identity_def)
      show ?thesis using o t r age [OF e0(1)] unfolding e0(2) by (cases "en_id e0 = i") auto
    qed
    define g where "g = (\<lambda>p :: 'k \<times> 'v cache_entry. if en_id (snd p) = i then f (snd p) else snd p)"
    have "inj_on (\<lambda>p. en_recency (g p)) (set (ks_map s))"
    proof (rule inj_onI)
      fix p q assume pq: "p \<in> set (ks_map s)" "q \<in> set (ks_map s)" and eq: "en_recency (g p) = en_recency (g q)"
      have old: "en_recency (snd r) \<le> ks_tick s" if "r \<in> set (ks_map s)" for r using d(5) that by force
      have new: "en_recency (g r) = en_recency (snd r) \<or> en_id (snd r) = i \<and> en_recency (g r) = Suc (ks_tick s)" if "r \<in> set (ks_map s)" for r
        using age [of "fst r" "snd r"] that by (auto simp: g_def)
      have "en_recency (snd p) = en_recency (snd q) \<or> en_id (snd p) = en_id (snd q)"
        using new [OF pq(1)] new [OF pq(2)] old [OF pq(1)] old [OF pq(2)] eq by auto
      then show "p = q"
        using uniq [OF pq] inj_onD [of "en_recency \<circ> snd" "set (ks_map s)" p q] pq d(4) by (auto simp: distinct_map)
    qed
    then show "distinct (map (en_recency \<circ> snd) (ks_map ?s))"
      using d(1) by (simp add: m distinct_map o_def split_beta g_def)
  qed
qed


lemma update_same: "(update_entries i f s)\<lparr>ks_tick := ks_tick s, ks_hits := ks_hits s\<rparr> = update_entries i f s"
  by (simp add: update_entries_def)

lemma update_inv_same:
  assumes "ks_inv holds s" "keeps_identity f" "\<And>e. en_recency (f e) = en_recency e"
    "\<And>e. e \<in> set (all_entries s) \<Longrightarrow> en_pins (if en_id e = i then f e else e) = count holds' (en_id e)"
    "\<And>j. j \<in># holds' \<Longrightarrow> j \<in> en_id ` set (all_entries s)"
    "\<And>e. e \<in> set (ks_orphans s) \<Longrightarrow> en_id e = i \<Longrightarrow> en_pins (f e) > 0"
  shows "ks_inv holds' (update_entries i f s)"
  using update_inv [OF assms(1,2), of i holds' "ks_tick s" "ks_hits s"] assms(3-) by (simp add: update_same)

lemma reclassify_inv: "ks_inv holds s \<Longrightarrow> ks_inv holds (reclassify k c s)"
  unfolding reclassify_def
  by (auto split: option.split simp: keeps_identity_def intro!: update_inv_same dest: ks_invD)

lemma ks_inv_counters [simp]:
  "ks_inv holds (s\<lparr>ks_misses := n\<rparr>) = ks_inv holds s" "ks_inv holds (s\<lparr>ks_evictions := n\<rparr>) = ks_inv holds s"
  by (simp_all add: ks_inv_def all_entries_def)

lemma lookup_inv:
  assumes "ks_inv holds s" "lookup_entry k s = (s', r)"
  shows "ks_inv (case r of None \<Rightarrow> holds | Some i \<Rightarrow> add_mset i holds) s'"
proof (cases "map_of (ks_map s) k")
  case None
  then have "s' = s\<lparr>ks_misses := ks_misses s + 1\<rparr>" "r = None" using assms(2) by (auto simp: lookup_entry_def)
  then show ?thesis using assms(1) by simp
next
  case (Some e)
  let ?f = "\<lambda>e. e\<lparr>en_recency := ks_tick s + 1, en_pins := en_pins e + 1\<rparr>"
  have s': "s' = (update_entries (en_id e) ?f s)\<lparr>ks_tick := Suc (ks_tick s), ks_hits := ks_hits s + 1\<rparr>" and r: "r = Some (en_id e)"
    using assms(2) Some by (auto simp: lookup_entry_def update_entries_def)
  have mem: "e \<in> set (all_entries s)" using Some by (force simp: all_entries_def dest: map_of_SomeD)
  show ?thesis unfolding s' r option.case
  proof (rule update_inv [OF assms(1)])
    show "j \<in> en_id ` set (all_entries s)" if "j \<in># add_mset (en_id e) holds" for j
      using that ks_invD(8) [OF assms(1)] mem by auto
    show "en_pins (if en_id f = en_id e then ?f f else f) = count (add_mset (en_id e) holds) (en_id f)"
      if "f \<in> set (all_entries s)" for f using that ks_invD(7) [OF assms(1)] by simp
  qed (auto simp: keeps_identity_def)
qed

lemma find_mem: "find P xs = Some x \<Longrightarrow> x \<in> set xs \<and> P x"
  by (induction xs) (auto split: if_splits)

lemma find_entry_unique:
  assumes "ks_inv holds s" "e \<in> set (all_entries s)"
  shows "find_entry (en_id e) s = Some e"
proof -
  have "find (\<lambda>f. en_id f = en_id e) (all_entries s) \<noteq> None" using assms(2) by (auto simp: find_None_iff)
  then obtain f where f: "find (\<lambda>f. en_id f = en_id e) (all_entries s) = Some f" by auto
  then have "f = e" using find_mem [OF f] assms ks_invD(2) [OF assms(1)] by (auto simp: distinct_map dest: inj_onD)
  then show ?thesis using f by (simp add: find_entry_def all_entries_def)
qed

lemma find_entry_all: "find_entry i s = find (\<lambda>e. en_id e = i) (all_entries s)"
  by (simp only: find_entry_def all_entries_def)

lemma find_update: "(\<And>e. en_id (f e) = en_id e) \<Longrightarrow> find_entry i (update_entries i f s) = map_option f (find_entry i s)"
proof -
  assume f: "\<And>e. en_id (f e) = en_id e"
  have "find (\<lambda>e. en_id e = i) (map (\<lambda>e. if en_id e = i then f e else e) es) = map_option f (find (\<lambda>e. en_id e = i) es)" for es
    by (induction es) (auto simp: f)
  then show ?thesis by (simp only: find_entry_all all_entries_update)
qed

lemma unpin_eq:
  assumes "find_entry i s = Some e"
  shows "unpin i s = (let s1 = update_entries i (\<lambda>e. e\<lparr>en_pins := en_pins e - 1\<rparr>) s in
    if en_pins e \<le> 1 \<and> en_removed e
    then s1\<lparr>ks_resident := ks_resident s - en_bytes e, ks_orphans := filter (\<lambda>o'. en_id o' \<noteq> i) (ks_orphans s1)\<rparr> else s1)"
  using find_update [of "\<lambda>e. e\<lparr>en_pins := en_pins e - 1\<rparr>" i s] assms by (simp add: unpin_def Let_def)

text \<open>A hold that goes away takes one pin with it; the last one of a removed entry takes the entry too.\<close>

lemma filter_id_mset:
  "distinct (map en_id es) \<Longrightarrow> e \<in> set es \<Longrightarrow> mset es = add_mset e (mset (filter (\<lambda>f. en_id f \<noteq> en_id e) es))"
proof (induction es)
  case (Cons x es)
  show ?case
  proof (cases "x = e")
    case True
    then have "filter (\<lambda>f. en_id f \<noteq> en_id e) es = es" using Cons.prems(1) by (intro filter_True) (auto, metis imageI)
    then show ?thesis using True by simp
  next
    case False
    then have "en_id x \<noteq> en_id e" using Cons.prems by auto
    then show ?thesis using False Cons by simp
  qed
qed simp

lemma drop_orphan_inv:
  assumes inv: "ks_inv holds s" and o: "e \<in> set (ks_orphans s)" and one: "count holds (en_id e) = 1"
  shows "ks_inv (holds - {#en_id e#}) (s\<lparr>ks_resident := ks_resident s - en_bytes e,
    ks_orphans := filter (\<lambda>o'. en_id o' \<noteq> en_id e) (ks_orphans s)\<rparr>)" (is "ks_inv ?h ?s")
proof -
  note d = ks_invD [OF inv]
  let ?fs = "map snd (ks_map s) @ filter (\<lambda>o'. en_id o' \<noteq> en_id e) (ks_orphans s)"
  have fs: "all_entries ?s = ?fs" by (simp add: all_entries_def)
  have dist: "distinct (map en_id (ks_orphans s))" "en_id e \<notin> en_id ` snd ` set (ks_map s)"
    using d(2) o by (auto simp: all_entries_def)
  have "mset (ks_orphans s) = add_mset e (mset (filter (\<lambda>o'. en_id o' \<noteq> en_id e) (ks_orphans s)))"
    by (rule filter_id_mset [OF dist(1) o])
  then have "mset (all_entries s) = add_mset e (mset ?fs)" by (simp add: all_entries_def)
  note m = entries_mset [OF this]
  have other: "en_id f \<noteq> en_id e" if "f \<in> set ?fs" for f
  proof (cases "f \<in> snd ` set (ks_map s)")
    case True
    then show ?thesis using dist(2) by (metis imageI)
  qed (use that in auto)
  have sub: "f \<in> set (all_entries s)" if "f \<in> set ?fs" for f using that m(3) by blast
  show ?thesis
  proof (rule ks_invI; (unfold fs)?)
    show "distinct (map en_id ?fs)" using m(1) d(2) by blast
    show "ks_resident ?s = sum_list (map en_bytes ?fs)" using d(9) m(2) by simp
    show "f \<in> set ?fs \<Longrightarrow> en_pins f = count ?h (en_id f)" for f using d(7) sub other [of f] by simp
    show "f \<in> set ?fs \<Longrightarrow> en_id f < ks_next_id ?s" for f using d(3) sub by simp
    show "i \<in> en_id ` set ?fs" if "i \<in># ?h" for i
    proof -
      have "i \<noteq> en_id e" using that one by (auto simp: in_diff_count)
      then show ?thesis using d(8) [OF in_diffD [OF that]] m(3) by auto
    qed
    show "f \<in> set (ks_orphans ?s) \<Longrightarrow> en_removed f \<and> en_pins f > 0" for f using d(6) by simp
    show "f \<in> snd ` set (ks_map ?s) \<Longrightarrow> \<not> en_removed f \<and> en_recency f \<le> ks_tick ?s" for f using d(5) by simp
  qed (use d(1,4) in simp_all)
qed

lemma unpin_inv:
  assumes inv: "ks_inv holds s" and h: "i \<in># holds"
  shows "ks_inv (holds - {#i#}) (unpin i s)"
proof -
  note d = ks_invD [OF inv]
  obtain e where e: "e \<in> set (all_entries s)" "en_id e = i" using d(8) [OF h] by auto
  have pins: "en_pins e = count holds i" using d(7) [OF e(1)] e(2) by simp
  have f: "find_entry i s = Some e" using find_entry_unique [OF inv e(1)] e(2) by simp
  let ?f = "\<lambda>e :: 'b cache_entry. e\<lparr>en_pins := en_pins e - 1\<rparr>"
  have same: "x = e" if "x \<in> set (all_entries s)" "en_id x = i" for x
    using that e d(2) by (auto simp: distinct_map dest: inj_onD)
  have held: "j \<in> en_id ` set (all_entries s)" if "j \<in># holds - {#i#}" for j using d(8) in_diffD [OF that] by blast
  have upd: "en_pins (if en_id x = i then ?f x else x) = count (holds - {#i#}) (en_id x)" if "x \<in> set (all_entries s)" for x
    using d(7) [OF that] by simp
  show ?thesis
  proof (cases "en_pins e \<le> 1 \<and> en_removed e")
    case False
    have "en_pins (?f x) > 0" if "x \<in> set (ks_orphans s)" "en_id x = i" for x
    proof -
      have "x = e" using same that by (simp add: all_entries_def)
      then show ?thesis using False d(6) [OF that(1)] by simp
    qed
    then have "ks_inv (holds - {#i#}) (update_entries i ?f s)"
      by (intro update_inv_same [OF inv]) (use held upd in \<open>simp_all add: keeps_identity_def\<close>)
    moreover have "unpin i s = update_entries i ?f s" unfolding unpin_eq [OF f] Let_def using False by (simp only: if_False)
    ultimately show ?thesis by simp
  next
    case True
    have one: "count holds i = 1" using True pins h count_greater_zero_iff [of holds i] by linarith
    have "e \<notin> snd ` set (ks_map s)" using d(5) [of e] True by blast
    then have o: "e \<in> set (ks_orphans s)" using e(1) by (auto simp: all_entries_def)
    have none: "en_id x \<noteq> i" if "x \<in> snd ` set (ks_map s)" for x
      using same [of x] that \<open>e \<notin> snd ` set (ks_map s)\<close> by (auto simp: all_entries_def)
    have "ks_map (update_entries i ?f s) = ks_map s"
      using none by (force simp: update_entries_def intro!: map_idI)
    moreover have oeq: "filter (\<lambda>o'. en_id o' \<noteq> i) (map (\<lambda>e. if en_id e = i then e\<lparr>en_pins := en_pins e - Suc 0\<rparr> else e) os) = filter (\<lambda>o'. en_id o' \<noteq> i) os" for os
      by (induction os) auto
    ultimately have "unpin i s = s\<lparr>ks_resident := ks_resident s - en_bytes e, ks_orphans := filter (\<lambda>o'. en_id o' \<noteq> en_id e) (ks_orphans s)\<rparr>"
      using unpin_eq [OF f] True e(2) oeq [of "ks_orphans s"] by (simp add: Let_def update_entries_def)
    then show ?thesis using drop_orphan_inv [OF inv o] one e(2) by simp
  qed
qed

subsection \<open>Eviction takes the unpinned entries in order\<close>

definition evict_key :: "'k \<times> 'v cache_entry \<Rightarrow> nat \<times> nat" where
  "evict_key p = (class_rank (en_class (snd p)), en_recency (snd p))"

definition evictable :: "('k, 'v) keyed_store \<Rightarrow> ('k \<times> 'v cache_entry) list" where
  "evictable s = sort_key evict_key (filter (\<lambda>p. en_pins (snd p) = 0) (ks_map s))"

text \<open>The reference: walk the unpinned entries from the worst, dropping them as long as the bytes do not fit.\<close>

fun evict_in_order :: "nat \<Rightarrow> ('k \<times> 'v cache_entry) list \<Rightarrow> ('k, 'v) keyed_store \<Rightarrow> ('k, 'v) keyed_store" where
  "evict_in_order incoming [] s = s"
| "evict_in_order incoming ((k, e) # vs) s =
     (if ks_resident s + incoming > ks_budget s
      then evict_in_order incoming vs (s\<lparr>ks_resident := ks_resident s - en_bytes e,
             ks_evictions := ks_evictions s + 1, ks_map := erase_key k (ks_map s)\<rparr>)
      else s)"

lemma evictable_set: "set (evictable s) = {p \<in> set (ks_map s). en_pins (snd p) = 0}"
  by (auto simp: evictable_def)

lemma goes_before_key: "goes_before (snd p) (snd q) \<longleftrightarrow> evict_key p < evict_key q"
  by (auto simp: goes_before_def evict_key_def)

lemma pick_victim_head:
  assumes "ks_inv holds s"
  shows "pick_victim s = (case evictable s of [] \<Rightarrow> None | p # ps \<Rightarrow> Some p)"
proof (cases "evictable s")
  case Nil
  then have "\<forall>p \<in> set (ks_map s). en_pins (snd p) \<noteq> 0" using evictable_set [of s] by auto
  then show ?thesis using Nil pick_victim_spec [of s] by (cases "pick_victim s") auto
next
  case (Cons h ps)
  have h: "h \<in> set (ks_map s)" "en_pins (snd h) = 0" using evictable_set [of s] Cons by auto
  then obtain k e where v: "pick_victim s = Some (k, e)"
    using pick_victim_spec [of s] by (cases "pick_victim s") auto
  then have ke: "(k, e) \<in> set (ks_map s)" "en_pins e = 0" "\<not> goes_before (snd h) e"
    using pick_victim_spec [of s] h by (auto simp: split_beta)
  have "sorted (map evict_key (evictable s))" by (simp add: evictable_def)
  moreover have "(k, e) \<in> set (evictable s)" using ke by (simp add: evictable_set)
  ultimately have "evict_key h \<le> evict_key (k, e)" using Cons by auto
  then have "evict_key h = evict_key (k, e)" using ke(3) goes_before_key [of h "(k, e)"] by simp
  then have "en_recency (snd h) = en_recency e" by (simp add: evict_key_def)
  then have "h = (k, e)" using ks_invD(4) [OF assms] inj_onD [of "en_recency \<circ> snd" "set (ks_map s)" h "(k, e)"] h(1) ke(1)
    by (simp add: distinct_map)
  then show ?thesis using v Cons by simp
qed

lemma evictable_erase:
  assumes "ks_inv holds s" "evictable s = (k, e) # vs"
  shows "evictable (s\<lparr>ks_resident := r, ks_evictions := n, ks_map := erase_key k (ks_map s)\<rparr>) = vs"
proof -
  have "distinct (map fst (filter (\<lambda>p. en_pins (snd p) = 0) (ks_map s)))"
    by (rule distinct_map_filter) (rule ks_invD(1) [OF assms(1)])
  moreover have "mset (map fst (evictable s)) = mset (map fst (filter (\<lambda>p. en_pins (snd p) = 0) (ks_map s)))"
    by (simp add: evictable_def)
  ultimately have "distinct (map fst (evictable s))" using mset_eq_imp_distinct_iff by blast
  then have k: "k \<notin> fst ` set vs" using assms(2) by simp
  have "evictable (s\<lparr>ks_resident := r, ks_evictions := n, ks_map := erase_key k (ks_map s)\<rparr>) =
    sort_key evict_key (filter (\<lambda>p. fst p \<noteq> k) (filter (\<lambda>p. en_pins (snd p) = 0) (ks_map s)))"
    by (simp add: evictable_def erase_key_def split_beta conj_commute)
  also have "\<dots> = filter (\<lambda>p. fst p \<noteq> k) (evictable s)"
    unfolding evictable_def by (rule filter_sort [symmetric])
  also have "\<dots> = vs" unfolding assms(2) using k by (auto intro!: filter_True)
  finally show ?thesis .
qed

lemma evict_step:
  assumes "ks_inv holds s" "evictable s = (k, e) # vs"
  shows "ks_inv holds (s\<lparr>ks_resident := ks_resident s - en_bytes e, ks_evictions := n, ks_map := erase_key k (ks_map s)\<rparr>)"
proof -
  have "(k, e) \<in> set (evictable s)" using assms(2) by simp
  then show ?thesis using drop_entry_inv [OF assms(1)] by (simp add: evictable_set)
qed

lemma evict_refines:
  "ks_inv holds s \<Longrightarrow> evict_to_fit n s = evict_in_order n (evictable s) s"
proof (induction "evictable s" arbitrary: s)
  case Nil
  then show ?case using pick_victim_head [OF Nil.prems] by (subst evict_to_fit.simps) (simp add: Nil.hyps [symmetric])
next
  case (Cons p vs)
  obtain k e where p: "p = (k, e)" by (cases p)
  have ev: "evictable s = (k, e) # vs" using Cons.hyps(2) p by simp
  let ?s = "s\<lparr>ks_resident := ks_resident s - en_bytes e, ks_evictions := ks_evictions s + 1, ks_map := erase_key k (ks_map s)\<rparr>"
  have "evict_to_fit n ?s = evict_in_order n vs ?s"
    using Cons.hyps(1) [of ?s] evictable_erase [OF Cons.prems ev] evict_step [OF Cons.prems ev] by metis
  moreover have "pick_victim s = Some (k, e)" using pick_victim_head [OF Cons.prems] ev by simp
  ultimately show ?case unfolding ev by (subst evict_to_fit.simps) simp
qed

lemma evict_in_order_inv:
  "ks_inv holds s \<Longrightarrow> vs = evictable s \<Longrightarrow> ks_inv holds (evict_in_order n vs s)"
proof (induction n vs s rule: evict_in_order.induct)
  case (2 n k e vs s)
  have ev: "evictable s = (k, e) # vs" using 2(3) by simp
  show ?case using 2(1) [OF _ evict_step [OF 2(2) ev] evictable_erase [OF 2(2) ev, symmetric]] 2(2) by simp
qed simp

lemma evict_inv: "ks_inv holds s \<Longrightarrow> ks_inv holds (evict_to_fit n s)"
  by (simp add: evict_refines evict_in_order_inv)

lemma evict_frame [simp]:
  "ks_budget (evict_to_fit n s) = ks_budget s" "ks_tick (evict_to_fit n s) = ks_tick s"
  "ks_orphans (evict_to_fit n s) = ks_orphans s" "ks_next_id (evict_to_fit n s) = ks_next_id s"
  "ks_hits (evict_to_fit n s) = ks_hits s" "ks_misses (evict_to_fit n s) = ks_misses s"
  by (induction n s rule: evict_to_fit.induct; subst evict_to_fit.simps; simp split: option.split prod.split)+

lemma evict_sub: "set (ks_map (evict_to_fit n s)) \<subseteq> set (ks_map s)"
proof (induction n s rule: evict_to_fit.induct)
  case (1 n s)
  show ?case
  proof (cases "ks_resident s + n > ks_budget s \<and> pick_victim s \<noteq> None")
    case True
    then obtain k e where ke: "pick_victim s = Some (k, e)" by auto
    show ?thesis using 1 [OF _ ke refl] True ke by (subst evict_to_fit.simps) (auto simp: erase_key_def)
  next
    case False
    then show ?thesis by (subst evict_to_fit.simps) (auto split: option.split)
  qed
qed

text \<open>Nothing pinned is evicted.\<close>

lemma evict_keeps_pinned:
  "p \<in> set (ks_map s) \<Longrightarrow> en_pins (snd p) \<noteq> 0 \<Longrightarrow> ks_inv holds s \<Longrightarrow> p \<in> set (ks_map (evict_to_fit n s))"
proof (induction n s rule: evict_to_fit.induct)
  case (1 n s)
  show ?case
  proof (cases "ks_resident s + n > ks_budget s \<and> pick_victim s \<noteq> None")
    case True
    then obtain k e where ke: "pick_victim s = Some (k, e)" by auto
    then have v: "(k, e) \<in> set (ks_map s)" "en_pins e = 0" using pick_victim_spec [of s] by auto
    have "fst p \<noteq> k"
    proof
      assume "fst p = k"
      then have "snd p = e" using 1(2) v(1) ks_invD(1) [OF 1(4)] by (cases p) (auto dest: eq_key_imp_eq_value)
      then show False using 1(3) v(2) by simp
    qed
    then have "p \<in> set (erase_key k (ks_map s))" using 1(2) by (cases p) simp
    then show ?thesis using 1(1) [OF _ ke refl _ 1(3)] drop_entry_inv [OF 1(4) v] True ke
      by (subst evict_to_fit.simps) simp
  next
    case False
    then show ?thesis using 1(2) by (subst evict_to_fit.simps) (auto split: option.split)
  qed
qed

text \<open>It stops when the bytes fit or only pinned entries are left.\<close>

lemma evict_fits:
  "ks_resident (evict_to_fit n s) + n \<le> ks_budget s \<or> (\<forall>p \<in> set (ks_map (evict_to_fit n s)). en_pins (snd p) \<noteq> 0)"
proof (induction n s rule: evict_to_fit.induct)
  case (1 n s)
  show ?case
  proof (cases "ks_resident s + n > ks_budget s")
    case True
    show ?thesis
    proof (cases "pick_victim s")
      case None
      then show ?thesis using pick_victim_spec [of s] True by (subst (2) evict_to_fit.simps) auto
    next
      case (Some ke)
      obtain k e where ke: "ke = (k, e)" by (cases ke)
      show ?thesis using 1 [OF True Some ke [symmetric]] True Some ke by (subst (1 2) evict_to_fit.simps) simp
    qed
  qed (subst evict_to_fit.simps, simp)
qed

lemma next_id_fresh: "ks_inv holds s \<Longrightarrow> i \<in># holds \<Longrightarrow> i < ks_next_id s"
  using ks_invD(3,8) by (metis imageE)

lemma detach_frame [simp]:
  "ks_next_id (detach k e s) = ks_next_id s" "ks_tick (detach k e s) = ks_tick s" "ks_map (detach k e s) = erase_key k (ks_map s)"
  by (simp_all add: detach_def)

lemma remove_inv: "ks_inv holds s \<Longrightarrow> ks_inv holds (remove_entry k s)"
  by (simp add: remove_entry_def detach_inv split: option.split)

lemma admit_inv:
  assumes inv: "ks_inv holds s" and k: "k \<notin> fst ` set (ks_map s)"
  shows "ks_inv (add_mset (ks_next_id s) holds) (s\<lparr>ks_next_id := Suc (ks_next_id s), ks_tick := Suc (ks_tick s), ks_resident := ks_resident s + bytes,
    ks_map := (k, \<lparr>en_id = ks_next_id s, en_value = v, en_bytes = bytes, en_class = c, en_recency = Suc (ks_tick s), en_pins = 1, en_removed = False\<rparr>) # ks_map s\<rparr>)"
    (is "ks_inv ?h ?s")
proof -
  note d = ks_invD [OF inv]
  let ?e = "\<lparr>en_id = ks_next_id s, en_value = v, en_bytes = bytes, en_class = c, en_recency = Suc (ks_tick s), en_pins = 1, en_removed = False\<rparr>"
  have fs: "all_entries ?s = ?e # all_entries s" by (simp add: all_entries_def)
  have fresh: "ks_next_id s \<notin> en_id ` set (all_entries s)" using d(3) by fastforce
  have n: "count holds (ks_next_id s) = 0" using next_id_fresh [OF inv] by (meson not_in_iff less_irrefl)
  have age: "Suc (ks_tick s) \<notin> (en_recency \<circ> snd) ` set (ks_map s)" using d(5) by fastforce
  show ?thesis
  proof (rule ks_invI; (unfold fs)?)
    show "distinct (map fst (ks_map ?s))" using d(1) k by simp
    show "distinct (map en_id (?e # all_entries s))" using d(2) fresh by simp
    show "distinct (map (en_recency \<circ> snd) (ks_map ?s))" using d(4) age by simp
    show "f \<in> set (?e # all_entries s) \<Longrightarrow> en_id f < ks_next_id ?s" for f using d(3) [of f] by auto
    show "f \<in> snd ` set (ks_map ?s) \<Longrightarrow> \<not> en_removed f \<and> en_recency f \<le> ks_tick ?s" for f using d(5) [of f] by fastforce
    show "f \<in> set (ks_orphans ?s) \<Longrightarrow> en_removed f \<and> en_pins f > 0" for f using d(6) by simp
    show "en_pins f = count ?h (en_id f)" if "f \<in> set (?e # all_entries s)" for f
    proof (cases "f = ?e")
      case False
      then have "f \<in> set (all_entries s)" using that by simp
      moreover then have "en_id f \<noteq> ks_next_id s" using fresh by (metis imageI)
      ultimately show ?thesis using d(7) [of f] by simp
    qed (use n in simp)
    show "i \<in># ?h \<Longrightarrow> i \<in> en_id ` set (?e # all_entries s)" for i using d(8) [of i] by auto
    show "ks_resident ?s = sum_list (map en_bytes (?e # all_entries s))" using d(9) by simp
  qed
qed

text \<open>What \<open>insert\<close> makes room with: the old entry of the key detached, then the eviction.\<close>

definition made_room :: "'k \<Rightarrow> nat \<Rightarrow> ('k, 'v) keyed_store \<Rightarrow> ('k, 'v) keyed_store" where
  "made_room k bytes s = evict_to_fit bytes (case map_of (ks_map s) k of None \<Rightarrow> s | Some e \<Rightarrow> detach k e s)"

lemma insert_entry_eq:
  "insert_entry k v bytes c s = (let t = made_room k bytes s in
     (t\<lparr>ks_next_id := Suc (ks_next_id t), ks_tick := Suc (ks_tick t), ks_resident := ks_resident t + bytes,
        ks_map := (k, \<lparr>en_id = ks_next_id t, en_value = v, en_bytes = bytes, en_class = c, en_recency = Suc (ks_tick t), en_pins = 1, en_removed = False\<rparr>) # ks_map t\<rparr>, ks_next_id t))"
  by (simp add: insert_entry_def made_room_def Let_def)

lemma made_room_inv: "ks_inv holds s \<Longrightarrow> ks_inv holds (made_room k bytes s)"
  unfolding made_room_def by (intro evict_inv) (auto split: option.split intro: detach_inv)

lemma made_room_absent: "k \<notin> fst ` set (ks_map (made_room k bytes s))"
proof -
  let ?s = "case map_of (ks_map s) k of None \<Rightarrow> s | Some e \<Rightarrow> detach k e s"
  have "k \<notin> fst ` set (ks_map ?s)"
  proof (cases "map_of (ks_map s) k")
    case None
    then show ?thesis using None map_of_eq_None_iff [of "ks_map s" k] by simp
  next
    case (Some e)
    show ?thesis unfolding Some option.case by (auto simp: erase_key_def)
  qed
  then show ?thesis using evict_sub [of bytes ?s] unfolding made_room_def by blast
qed

lemma made_room_next [simp]: "ks_next_id (made_room k bytes s) = ks_next_id s"
  by (simp add: made_room_def split: option.split)

lemma insert_inv: "ks_inv holds s \<Longrightarrow> insert_entry k v bytes c s = (s', i) \<Longrightarrow> ks_inv (add_mset i holds) s'"
  using admit_inv [OF made_room_inv made_room_absent, of holds s k bytes] by (auto simp: insert_entry_eq Let_def)

subsection \<open>The removal sweep\<close>

lemma remove_loop_inv:
  "ks_inv holds s \<Longrightarrow> distinct (map fst es) \<Longrightarrow> \<forall>(k, e) \<in> set es. map_of (ks_map s) k = Some e \<Longrightarrow>
    ks_inv holds (fst (remove_loop p es s)) \<and>
    ks_map (fst (remove_loop p es s)) = filter (\<lambda>a. \<not> (p (fst a) \<and> fst a \<in> fst ` set es)) (ks_map s) \<and>
    snd (remove_loop p es s) = length (filter p (map fst es))"
proof (induction p es s rule: remove_loop.induct)
  case (1 p s)
  then show ?case by (auto intro!: filter_True [symmetric])
next
  case (2 p k e es s)
  show ?case
  proof (cases "p k")
    case True
    have "map_of (ks_map (detach k e s)) k' = Some e'" if "(k', e') \<in> set es" for k' e'
      using 2(4,5) that by (auto simp: map_of_erase_key image_iff)
    then have ih: "ks_inv holds (fst (remove_loop p es (detach k e s)))"
      "ks_map (fst (remove_loop p es (detach k e s))) = filter (\<lambda>a. \<not> (p (fst a) \<and> fst a \<in> fst ` set es)) (erase_key k (ks_map s))"
      "snd (remove_loop p es (detach k e s)) = length (filter p (map fst es))"
      using 2(1) [OF True] detach_inv [OF 2(3), of k e] 2(4,5) by auto
    have "filter (\<lambda>a. \<not> (p (fst a) \<and> fst a \<in> fst ` set es)) (erase_key k (ks_map s)) = filter (\<lambda>a. \<not> (p (fst a) \<and> fst a \<in> fst ` set ((k, e) # es))) (ks_map s)"
      unfolding erase_key_def using True by (auto intro!: filter_cong)
    then show ?thesis using ih True by (simp add: split_beta o_def)
  next
    case False
    have "filter (\<lambda>a. \<not> (p (fst a) \<and> fst a \<in> fst ` set es)) (ks_map s) = filter (\<lambda>a. \<not> (p (fst a) \<and> fst a \<in> fst ` set ((k, e) # es))) (ks_map s)"
      using False by (auto intro!: filter_cong)
    then show ?thesis using 2(2) [OF False 2(3)] 2(4,5) False by simp
  qed
qed

lemma remove_if_sweep:
  assumes "ks_inv holds s"
  shows "ks_inv holds (fst (remove_if p s))" "ks_map (fst (remove_if p s)) = filter (\<lambda>a. \<not> p (fst a)) (ks_map s)"
    "snd (remove_if p s) = length (filter p (map fst (ks_map s)))"
proof -
  note r = remove_loop_inv [OF assms ks_invD(1) [OF assms], of p]
  have e: "\<forall>(k, e) \<in> set (ks_map s). map_of (ks_map s) k = Some e" using ks_inv_map_of [OF assms] by auto
  have "filter (\<lambda>a. \<not> (p (fst a) \<and> fst a \<in> fst ` set (ks_map s))) (ks_map s) = filter (\<lambda>a. \<not> p (fst a)) (ks_map s)"
    by (rule filter_cong) force+
  then show "ks_inv holds (fst (remove_if p s))" "ks_map (fst (remove_if p s)) = filter (\<lambda>a. \<not> p (fst a)) (ks_map s)"
    "snd (remove_if p s) = length (filter p (map fst (ks_map s)))"
    using r [OF e] by (simp_all add: remove_if_def)
qed

subsection \<open>Runs of the store\<close>

text \<open>One call against the store and the holds its clients have: an insert and a hit hand out a hold, a hold is
  released once.\<close>

inductive cache_step :: "nat multiset \<times> ('k, 'v) keyed_store \<Rightarrow> nat multiset \<times> ('k, 'v) keyed_store \<Rightarrow> bool" where
  insert: "insert_entry k v bytes c s = (s', i) \<Longrightarrow> cache_step (h, s) (add_mset i h, s')"
| hit: "lookup_entry k s = (s', Some i) \<Longrightarrow> cache_step (h, s) (add_mset i h, s')"
| miss: "lookup_entry k s = (s', None) \<Longrightarrow> cache_step (h, s) (h, s')"
| release: "i \<in># h \<Longrightarrow> cache_step (h, s) (h - {#i#}, unpin i s)"
| reclassify: "cache_step (h, s) (h, reclassify k c s)"
| remove: "cache_step (h, s) (h, remove_entry k s)"
| remove_if: "cache_step (h, s) (h, fst (remove_if p s))"

inductive cache_run :: "nat \<Rightarrow> nat multiset \<Rightarrow> ('k, 'v) keyed_store \<Rightarrow> bool" for budget where
  start: "cache_run budget {#} (keyed_store_new budget)"
| step: "cache_run budget h s \<Longrightarrow> cache_step (h, s) (h', s') \<Longrightarrow> cache_run budget h' s'"

inductive_cases cache_stepE: "cache_step (h, s) (h', s')"

lemma new_inv: "ks_inv {#} (keyed_store_new budget)"
  by (simp add: ks_inv_def keyed_store_new_def all_entries_def)

lemma step_inv: "cache_step (h, s) (h', s') \<Longrightarrow> ks_inv h s \<Longrightarrow> ks_inv h' s'"
  by (erule cache_stepE)
    (auto simp: reclassify_inv remove_inv unpin_inv remove_if_sweep(1) intro: insert_inv dest: lookup_inv)

lemma run_inv: "cache_run budget h s \<Longrightarrow> ks_inv h s"
  by (induction rule: cache_run.induct) (auto intro: new_inv step_inv)

text \<open>An entry outlives an operation with its value.\<close>

definition keeps_entry :: "nat \<Rightarrow> ('k, 'v) keyed_store \<Rightarrow> ('k, 'v) keyed_store \<Rightarrow> bool" where
  "keeps_entry i s s' \<longleftrightarrow> (\<forall>e \<in> set (all_entries s). en_id e = i \<longrightarrow>
     (\<exists>e' \<in> set (all_entries s'). en_id e' = i \<and> en_value e' = en_value e))"

lemma keeps_entry_refl: "keeps_entry i s s"
  by (auto simp: keeps_entry_def)

lemma keeps_entry_trans: "keeps_entry i s t \<Longrightarrow> keeps_entry i t u \<Longrightarrow> keeps_entry i s u"
  unfolding keeps_entry_def by metis

lemma keeps_entryI:
  "(\<And>e. e \<in> set (all_entries s) \<Longrightarrow> en_id e = i \<Longrightarrow> \<exists>e' \<in> set (all_entries s'). en_id e' = i \<and> en_value e' = en_value e) \<Longrightarrow> keeps_entry i s s'"
  by (simp add: keeps_entry_def)

lemma keeps_entry_held:
  assumes "ks_inv h s" "ks_inv h' s'" "keeps_entry i s s'" "i \<in># h"
  shows "held_value i s \<noteq> None \<and> held_value i s' = held_value i s"
proof -
  obtain e where e: "e \<in> set (all_entries s)" "en_id e = i" using ks_invD(8) [OF assms(1,4)] by auto
  then obtain e' where e': "e' \<in> set (all_entries s')" "en_id e' = i" "en_value e' = en_value e"
    using assms(3) unfolding keeps_entry_def by blast
  then show ?thesis using find_entry_unique [OF assms(1) e(1)] find_entry_unique [OF assms(2) e'(1)] e(2)
    by (simp add: held_value_def)
qed

lemma keeps_update:
  assumes "\<And>e. en_id (f e) = en_id e" "\<And>e. en_value (f e) = en_value e"
  shows "keeps_entry i s (update_entries j f s)"
proof (rule keeps_entryI)
  fix e assume e: "e \<in> set (all_entries s)" "en_id e = i"
  show "\<exists>e' \<in> set (all_entries (update_entries j f s)). en_id e' = i \<and> en_value e' = en_value e"
    unfolding all_entries_update
    by (rule bexI [of _ "if en_id e = j then f e else e"]) (use e assms in auto)
qed

lemma keeps_same: "all_entries s' = all_entries s \<Longrightarrow> keeps_entry i s s'"
  by (auto simp: keeps_entry_def)

lemma keeps_detach:
  assumes "ks_inv h s" "map_of (ks_map s) k = Some e" "i \<in># h"
  shows "keeps_entry i s (detach k e s)"
proof (rule keeps_entryI)
  fix f assume f: "f \<in> set (all_entries s)" "en_id f = i"
  have pins: "en_pins f \<noteq> 0" using ks_invD(7) [OF assms(1) f(1)] f(2) assms(3) by simp
  have "(k, e) \<in> set (ks_map s)" using ks_inv_map_of [OF assms(1), of k e] assms(2) by simp
  then have "set (all_entries s) = insert e (snd ` set (erase_key k (ks_map s)) \<union> set (ks_orphans s))"
    using entries_mset(3) [OF all_entries_erase [OF assms(1)]] by simp
  then have "f \<in> set (all_entries (detach k e s)) \<or> f = e" using f(1)
    by (auto simp: all_entries_def detach_def)
  then show "\<exists>e' \<in> set (all_entries (detach k e s)). en_id e' = i \<and> en_value e' = en_value f"
  proof
    assume "f = e"
    then have "e\<lparr>en_removed := True\<rparr> \<in> set (all_entries (detach k e s))" using pins by (simp add: detach_def all_entries_def)
    then show ?thesis using f(2) \<open>f = e\<close> by (intro bexI [of _ "e\<lparr>en_removed := True\<rparr>"]) simp_all
  qed (use f in blast)
qed

lemma keeps_evict:
  assumes "ks_inv h s" "i \<in># h"
  shows "keeps_entry i s (evict_to_fit n s)"
proof (rule keeps_entryI)
  fix f assume f: "f \<in> set (all_entries s)" "en_id f = i"
  have "en_pins f \<noteq> 0" using ks_invD(7) [OF assms(1) f(1)] f(2) assms(2) by simp
  then have "f \<in> set (all_entries (evict_to_fit n s))"
    using f(1) evict_keeps_pinned [OF _ _ assms(1), of _ n] by (force simp: all_entries_def)
  then show "\<exists>e' \<in> set (all_entries (evict_to_fit n s)). en_id e' = i \<and> en_value e' = en_value f" using f(2) by blast
qed

lemma keeps_insert:
  assumes "ks_inv h s" "i \<in># h" "insert_entry k v bytes c s = (s', j)"
  shows "keeps_entry i s s'"
proof -
  have "keeps_entry i s (made_room k bytes s)"
  proof (cases "map_of (ks_map s) k")
    case None
    then show ?thesis unfolding made_room_def using keeps_evict [OF assms(1,2)] by simp
  next
    case (Some e)
    then show ?thesis unfolding made_room_def
      using keeps_entry_trans [OF keeps_detach [OF assms(1) Some assms(2)] keeps_evict [OF detach_inv [OF assms(1) Some] assms(2)]]
      by simp
  qed
  moreover have "keeps_entry i (made_room k bytes s) s'"
  proof (rule keeps_entryI)
    fix e assume e: "e \<in> set (all_entries (made_room k bytes s))" "en_id e = i"
    then have "e \<in> set (all_entries s')" using assms(3) by (auto simp: insert_entry_eq Let_def all_entries_def)
    then show "\<exists>e' \<in> set (all_entries s'). en_id e' = i \<and> en_value e' = en_value e" using e(2) by blast
  qed
  ultimately show ?thesis by (rule keeps_entry_trans)
qed

lemma keeps_unpin:
  assumes "ks_inv h s" "j \<in># h" "i \<in># h - {#j#}"
  shows "keeps_entry i s (unpin j s)"
proof (rule keeps_entryI)
  fix e assume e: "e \<in> set (all_entries s)" "en_id e = i"
  let ?f = "\<lambda>e :: 'b cache_entry. e\<lparr>en_pins := en_pins e - 1\<rparr>"
  let ?e = "if en_id e = j then ?f e else e"
  have u: "?e \<in> set (all_entries (update_entries j ?f s))" "en_id ?e = i" "en_value ?e = en_value e"
    using e by (auto simp: all_entries_update)
  obtain x where x: "x \<in> set (all_entries s)" "en_id x = j" using ks_invD(8) [OF assms(1,2)] by auto
  then have fx: "find_entry j s = Some x" using find_entry_unique [OF assms(1)] by blast
  have "?e \<in> set (all_entries (unpin j s))"
  proof (cases "i = j")
    case True
    then have "x = e" using x e ks_invD(2) [OF assms(1)] by (auto simp: distinct_map dest: inj_onD)
    have "count h j > 1" using assms(3) True by (metis count_diff count_single count_greater_zero_iff One_nat_def zero_less_diff)
    then have "\<not> (en_pins x \<le> 1 \<and> en_removed x)" using ks_invD(7) [OF assms(1) x(1)] x(2) by simp
    then have "unpin j s = update_entries j ?f s" unfolding unpin_eq [OF fx] Let_def by (simp only: if_False)
    then show ?thesis using u(1) by simp
  next
    case False
    then show ?thesis using u e(2) unfolding unpin_eq [OF fx] Let_def
      by (auto simp: all_entries_def)
  qed
  then show "\<exists>e' \<in> set (all_entries (unpin j s)). en_id e' = i \<and> en_value e' = en_value e" using u by blast
qed

lemma keeps_remove_loop:
  "ks_inv h s \<Longrightarrow> i \<in># h \<Longrightarrow> distinct (map fst es) \<Longrightarrow> \<forall>(k, e) \<in> set es. map_of (ks_map s) k = Some e \<Longrightarrow>
    keeps_entry i s (fst (remove_loop p es s))"
proof (induction p es s rule: remove_loop.induct)
  case (1 p s)
  then show ?case by (simp add: keeps_entry_refl)
next
  case (2 p k e es s)
  show ?case
  proof (cases "p k")
    case True
    have m: "map_of (ks_map s) k = Some e" using 2(6) by simp
    have "map_of (ks_map (detach k e s)) k' = Some e'" if "(k', e') \<in> set es" for k' e'
      using 2(5,6) that by (auto simp: map_of_erase_key image_iff)
    then have "keeps_entry i (detach k e s) (fst (remove_loop p es (detach k e s)))"
      using 2(1) [OF True detach_inv [OF 2(3) m] 2(4)] 2(5) by auto
    then show ?thesis using keeps_entry_trans [OF keeps_detach [OF 2(3) m 2(4)]] True by (simp add: split_beta)
  next
    case False
    then show ?thesis using 2(2) [OF False 2(3,4)] 2(5,6) by simp
  qed
qed

lemma keeps_remove_if:
  assumes "ks_inv h s" "i \<in># h"
  shows "keeps_entry i s (fst (remove_if p s))"
  unfolding remove_if_def
  by (rule keeps_remove_loop [OF assms ks_invD(1) [OF assms(1)]]) (use ks_inv_map_of [OF assms(1)] in auto)

lemma keeps_lookup: "lookup_entry k s = (s', r) \<Longrightarrow> keeps_entry i s s'"
proof (cases "map_of (ks_map s) k")
  case None
  assume "lookup_entry k s = (s', r)"
  then show ?thesis using None by (auto simp: lookup_entry_def all_entries_def intro: keeps_same)
next
  case (Some e)
  assume "lookup_entry k s = (s', r)"
  then have s': "s' = update_entries (en_id e) (\<lambda>e. e\<lparr>en_recency := ks_tick s + 1, en_pins := en_pins e + 1\<rparr>)
      (s\<lparr>ks_hits := ks_hits s + 1, ks_tick := ks_tick s + 1\<rparr>)" using Some by (auto simp: lookup_entry_def)
  show ?thesis unfolding s'
    by (rule keeps_entry_trans [OF keeps_same keeps_update]) (simp_all add: all_entries_def)
qed

lemma keeps_reclassify: "keeps_entry i s (reclassify k c s)"
  by (auto simp: reclassify_def intro: keeps_update keeps_entry_refl split: option.split)

lemma step_keeps:
  assumes "cache_step (h, s) (h', s')" "ks_inv h s" "i \<in># h" "i \<in># h'"
  shows "keeps_entry i s s'"
proof -
  have r: "keeps_entry i s (remove_entry k s)" for k
    using keeps_detach [OF assms(2) _ assms(3)]
    by (cases "map_of (ks_map s) k") (auto simp: remove_entry_def keeps_entry_refl)
  show ?thesis using assms(1)
    by (rule cache_stepE)
      (use assms r in \<open>auto intro: keeps_insert keeps_lookup keeps_unpin keeps_remove_if keeps_reclassify\<close>)
qed

subsection \<open>What the clients rely on\<close>

definition cached :: "('k, 'v) keyed_store \<Rightarrow> 'k \<rightharpoonup> 'v" where
  "cached s k = map_option en_value (map_of (ks_map s) k)"

lemma cached_evict:
  assumes "ks_inv h s"
  shows "cached (evict_to_fit n s) \<subseteq>\<^sub>m cached s"
  unfolding map_le_def
proof
  fix k assume "k \<in> dom (cached (evict_to_fit n s))"
  then obtain e where e: "map_of (ks_map (evict_to_fit n s)) k = Some e" by (auto simp: cached_def)
  then have "(k, e) \<in> set (ks_map s)" using evict_sub [of n s] by (auto dest: map_of_SomeD)
  then show "cached (evict_to_fit n s) k = cached s k" using ks_inv_map_of [OF assms, of k e] e by (simp add: cached_def)
qed

lemma cached_detach: "cached (detach k e s) = (cached s)(k := None)"
  by (rule ext) (simp add: cached_def map_of_erase_key)

text \<open>
  C8: The byte ledger and the pins are exact in every run. From an empty store, whatever clients insert, look up,
  release, reclassify, remove and sweep, the resident bytes are those of the live entries and of the removed
  ones still held, every entry has exactly as many pins as there are holds on it, the removed entries kept are
  exactly held ones, and keys, allocations and ages stay distinct.
\<close>

theorem cache_ledger_exact: "cache_run budget h s \<Longrightarrow> ks_inv h s"
  by (rule run_inv)

definition ledger_example :: "(nat, bool) keyed_store" where
  "ledger_example = fst (insert_entry 7 True 10 Visible (keyed_store_new 16))"

lemma ledger_example_run: "cache_run 16 {#0#} ledger_example"
proof -
  have "insert_entry (7::nat) True 10 Visible (keyed_store_new 16) = (ledger_example, 0)"
    unfolding ledger_example_def
    by (simp add: insert_entry_def keyed_store_new_def Let_def evict_to_fit.simps)
  from cache_run.step [OF cache_run.start cache_step.insert [OF this]] show ?thesis by simp
qed

theorem cache_ledger_exact_witness: "ks_inv {#0#} ledger_example"
  by (rule cache_ledger_exact [OF ledger_example_run])

text \<open>
  C10: A hold keeps its value. Whatever call is made on the store - an insert that evicts, an overwrite or a removal
  of its key, an invalidation sweep, the release of other holds - a hold that is still outstanding
  dereferences to the value it was handed out for.
\<close>

theorem hold_keeps_its_value:
  assumes "cache_run budget h s" "cache_step (h, s) (h', s')" "i \<in># h" "i \<in># h'"
  shows "\<exists>v. held_value i s = Some v \<and> held_value i s' = Some v"
proof -
  note inv = run_inv [OF assms(1)]
  from keeps_entry_held [OF inv step_inv [OF assms(2) inv] step_keeps [OF assms(2) inv assms(3,4)] assms(3)]
  show ?thesis by auto
qed

theorem hold_keeps_its_value_witness: "\<exists>v. held_value 0 ledger_example = Some v \<and> held_value 0 (remove_entry 7 ledger_example) = Some v"
  by (rule hold_keeps_its_value [OF ledger_example_run cache_step.remove]) simp_all

text \<open>
  C9: Eviction is least recently used within the classes. The eviction loop, which searches the map anew for each
  victim, does what walking the unpinned entries in the order of class, then age, does: drop them from the worst
  while the incoming bytes do not fit, and no further.
\<close>

theorem eviction_takes_worst_first:
  assumes "cache_run budget h s"
  shows "evict_to_fit n s = evict_in_order n (evictable s) s"
  by (rule evict_refines [OF run_inv [OF assms]])

theorem eviction_takes_worst_first_witness:
  "evict_to_fit 8 ledger_example = evict_in_order 8 (evictable ledger_example) ledger_example"
  by (rule eviction_takes_worst_first [OF ledger_example_run])

text \<open>
  The store is a map that forgets. After an insert the key has the new value, and another key has the value it
  had or none: an insert never leaves a stale value and never makes one up.
\<close>

theorem insert_updates_or_forgets:
  assumes "cache_run budget h s" "insert_entry k v bytes c s = (s', i)"
  shows "cached s' k' = (if k' = k then Some v else if k' \<in> dom (cached s') then cached s k' else None)"
proof -
  note inv = run_inv [OF assms(1)]
  let ?t = "case map_of (ks_map s) k of None \<Rightarrow> s | Some e \<Rightarrow> detach k e s"
  have t: "ks_inv h ?t" by (auto split: option.split intro: detach_inv inv)
  have "cached ?t \<subseteq>\<^sub>m cached s"
    by (cases "map_of (ks_map s) k") (auto simp: cached_detach map_le_def)
  then have "cached (made_room k bytes s) \<subseteq>\<^sub>m cached s"
    unfolding made_room_def using cached_evict [OF t] map_le_trans by blast
  moreover have "cached s' k' = (if k' = k then Some v else cached (made_room k bytes s) k')"
    using assms(2) by (auto simp: insert_entry_eq Let_def cached_def)
  ultimately show ?thesis by (auto simp: map_le_def dom_def)
qed

theorem insert_updates_or_forgets_witness:
  "\<exists>s' i. insert_entry 9 False 4 Recent ledger_example = (s', i) \<and> cached s' 7 = (if 7 \<in> dom (cached s') then cached ledger_example 7 else None)"
proof (intro exI conjI)
  show *: "insert_entry 9 False 4 Recent ledger_example =
    (fst (insert_entry 9 False 4 Recent ledger_example), snd (insert_entry 9 False 4 Recent ledger_example))" by simp
  show "cached (fst (insert_entry 9 False 4 Recent ledger_example)) 7 =
    (if 7 \<in> dom (cached (fst (insert_entry 9 False 4 Recent ledger_example))) then cached ledger_example 7 else None)"
    using insert_updates_or_forgets [OF ledger_example_run *, of 7] by simp
qed

subsection \<open>What an invalidation may assume of the store\<close>

text \<open>A sweep takes the keys its predicate names out of the map and reports how many there were.\<close>

locale sweepable =
  fixes inv :: "'s \<Rightarrow> bool" and entries :: "'s \<Rightarrow> 'k \<rightharpoonup> 'v" and sweep :: "('k \<Rightarrow> bool) \<Rightarrow> 's \<Rightarrow> 's \<times> nat"
  assumes sweep_inv: "inv s \<Longrightarrow> inv (fst (sweep p s))"
    and sweep_entries: "inv s \<Longrightarrow> entries (fst (sweep p s)) k = (if p k then None else entries s k)"
    and sweep_count: "inv s \<Longrightarrow> snd (sweep p s) = card {k \<in> dom (entries s). p k}"
begin

lemma sweep_dom: "inv s \<Longrightarrow> dom (entries (fst (sweep p s))) = {k \<in> dom (entries s). \<not> p k}"
  by (auto simp: sweep_entries dom_def split: if_splits)

lemma sweep_none_left: "inv s \<Longrightarrow> (\<And>k. q k \<Longrightarrow> p k) \<Longrightarrow> snd (sweep q (fst (sweep p s))) = 0"
  using sweep_count [OF sweep_inv, of s q p] sweep_dom [of s p] by (simp add: card_eq_0_iff) blast

lemma sweep_twice:
  assumes "inv s"
  shows "entries (fst (sweep q (fst (sweep p s)))) = entries (fst (sweep (\<lambda>k. p k \<or> q k) s))"
  by (rule ext) (simp add: sweep_entries [OF sweep_inv [OF assms]] sweep_entries [OF assms])

lemma sweep_twice_count:
  assumes "inv s" "finite (dom (entries s))"
  shows "snd (sweep p s) + snd (sweep q (fst (sweep p s))) = snd (sweep (\<lambda>k. p k \<or> q k) s)"
proof -
  have "{k \<in> dom (entries s). p k \<or> q k} = {k \<in> dom (entries s). p k} \<union> {k \<in> {k \<in> dom (entries s). \<not> p k}. q k}" by blast
  moreover have "card ({k \<in> dom (entries s). p k} \<union> {k \<in> {k \<in> dom (entries s). \<not> p k}. q k}) =
      card {k \<in> dom (entries s). p k} + card {k \<in> {k \<in> dom (entries s). \<not> p k}. q k}"
    by (rule card_Un_disjoint) (use assms(2) in auto)
  ultimately show ?thesis by (simp add: sweep_count assms sweep_inv sweep_dom)
qed

end

lemma sweep_view:
  assumes "ks_inv h s"
  shows "cached (fst (remove_if p s)) k = (if p k then None else cached s k)"
    "snd (remove_if p s) = card {k \<in> dom (cached s). p k}"
proof -
  have m: "map_of (filter (\<lambda>a. \<not> p (fst a)) es) k = (if p k then None else map_of es k)" for es :: "('a \<times> 'b cache_entry) list" and k
    by (induction es) auto
  then show "cached (fst (remove_if p s)) k = (if p k then None else cached s k)"
    using remove_if_sweep(2) [OF assms, of p] by (simp add: cached_def)
  have "distinct (filter p (map fst (ks_map s)))" using ks_invD(1) [OF assms] by simp
  then have "snd (remove_if p s) = card (set (filter p (map fst (ks_map s))))"
    unfolding remove_if_sweep(3) [OF assms] by (rule distinct_card [symmetric])
  moreover have "dom (cached s) = fst ` set (ks_map s)"
    unfolding dom_map_of_conv_image_fst [symmetric] by (simp only: cached_def dom_def option.map_disc_iff)
  ultimately show "snd (remove_if p s) = card {k \<in> dom (cached s). p k}" by (simp only: set_filter set_map)
qed

interpretation store: sweepable "\<lambda>s. \<exists>h. ks_inv h s" cached remove_if
proof unfold_locales
  fix s :: "('a, 'b) keyed_store" and p k assume "\<exists>h. ks_inv h s"
  then obtain h where h: "ks_inv h s" by blast
  show "\<exists>h. ks_inv h (fst (remove_if p s))" using remove_if_sweep(1) [OF h] by blast
  show "cached (fst (remove_if p s)) k = (if p k then None else cached s k)" by (rule sweep_view(1) [OF h])
  show "snd (remove_if p s) = card {k \<in> dom (cached s). p k}" by (rule sweep_view(2) [OF h])
qed


text \<open>
  A sweep removes what its predicate names and nothing else, and reports how many keys it removed. Its matches
  stop being found at once, held or not.
\<close>

theorem sweep_removes_exactly:
  assumes "cache_run budget h s" "remove_if p s = (s', n)"
  shows "(\<forall>k. cached s' k = (if p k then None else cached s k)) \<and> n = card {k \<in> dom (cached s). p k}"
proof -
  note inv = run_inv [OF assms(1)]
  show ?thesis using sweep_view [OF inv, of p] assms(2) by simp
qed

theorem sweep_removes_exactly_witness:
  "\<exists>s' n. remove_if (\<lambda>k. k < 8) ledger_example = (s', n) \<and> cached s' 7 = None \<and> n = card {k \<in> dom (cached ledger_example). k < 8}"
proof (intro exI conjI)
  show *: "remove_if (\<lambda>k. k < 8) ledger_example = (fst (remove_if (\<lambda>k. k < 8) ledger_example), snd (remove_if (\<lambda>k. k < 8) ledger_example))" by simp
  show "cached (fst (remove_if (\<lambda>k. k < 8) ledger_example)) 7 = None"
    "snd (remove_if (\<lambda>k. k < 8) ledger_example) = card {k \<in> dom (cached ledger_example). k < 8}"
    using sweep_removes_exactly [OF ledger_example_run *] by simp_all
qed

end
