(* ===== verification/Cache_Policy.thy ===== *)
theory Cache_Policy
  imports Keyed_Store Damage
begin

text \<open>
  \<open>cache/key_shapes.hpp\<close>, \<open>cache/invalidation.hpp\<close> and \<open>cache/prefetch.hpp\<close>: the tile and block keys, the
  three invalidations and the two prefetch rings over the keyed store. Grid coordinates and flicks are integers:
  the code's sums leave their range only where it is undefined. A hash set is the list of its members.
\<close>

subsection \<open>Keys\<close>

record tile_key =
  tk_content :: nat
  tk_revision :: nat
  tk_rung :: int
  tk_col :: int
  tk_row :: int
  tk_achieved :: "time option"

record block_key =
  bk_content :: nat
  bk_revision :: nat
  bk_index :: int
  bk_rate :: nat
  bk_digest :: nat

subsection \<open>Invalidation\<close>

text \<open>\<open>tile_rect\<close> is the caller's geometry.\<close>

definition invalidate_region ::
  "(int \<Rightarrow> int \<times> int \<Rightarrow> rect) \<Rightarrow> nat \<Rightarrow> rect \<Rightarrow> (tile_key, 'v) keyed_store \<Rightarrow> (tile_key, 'v) keyed_store \<times> nat" where
  "invalidate_region tile_rect c region s =
     remove_if (\<lambda>key. if tk_content key \<noteq> c then False
       else \<not> rect_empty (rect_intersect (tile_rect (tk_rung key) (tk_col key, tk_row key)) region)) s"

definition invalidate_content :: "nat \<Rightarrow> (tile_key, 'v) keyed_store \<Rightarrow> (tile_key, 'v) keyed_store \<times> nat" where
  "invalidate_content c s = remove_if (\<lambda>key. tk_content key = c) s"

definition drop_superseded :: "nat \<Rightarrow> nat \<Rightarrow> (tile_key, 'v) keyed_store \<Rightarrow> (tile_key, 'v) keyed_store \<times> nat" where
  "drop_superseded c live s = remove_if (\<lambda>key. tk_content key = c \<and> tk_revision key < live) s"

subsection \<open>Prefetch rings\<close>

text \<open>A static key has no temporal axis; the compositor never passes one.\<close>

definition tile_temporal_step :: "tile_key \<Rightarrow> int \<Rightarrow> time \<Rightarrow> tile_key" where
  "tile_temporal_step k buckets step =
     (case tk_achieved k of None \<Rightarrow> k | Some t \<Rightarrow> k\<lparr>tk_achieved := Some (Time (flicks t + buckets * flicks step))\<rparr>)"

definition block_temporal_step :: "block_key \<Rightarrow> int \<Rightarrow> time \<Rightarrow> block_key" where
  "block_temporal_step k buckets step = k\<lparr>bk_index := bk_index k + buckets\<rparr>"

definition neighbour :: "tile_key \<Rightarrow> int \<Rightarrow> int \<Rightarrow> tile_key" where
  "neighbour v dr dc = v\<lparr>tk_col := tk_col v + dc, tk_row := tk_row v + dr\<rparr>"

text \<open>One visible tile: the two coordinate loops, with the ring so far as the emitted set.\<close>

definition ring_cell :: "tile_key list \<Rightarrow> tile_key \<Rightarrow> tile_key list \<Rightarrow> int \<times> int \<Rightarrow> tile_key list" where
  "ring_cell visible v ring d = (case d of (dr, dc) \<Rightarrow>
     if dc = 0 \<and> dr = 0 then ring
     else let n = neighbour v dr dc in
       if n \<in> set visible then ring else if n \<in> set ring then ring else ring @ [n])"

definition ring_around :: "tile_key list \<Rightarrow> int \<Rightarrow> tile_key list \<Rightarrow> tile_key \<Rightarrow> tile_key list" where
  "ring_around visible radius ring v =
     foldl (ring_cell visible v) ring (concat (map (\<lambda>dr. map (\<lambda>dc. (dr, dc)) [- radius..radius]) [- radius..radius]))"

definition pan_prefetch_ring :: "tile_key list \<Rightarrow> int \<Rightarrow> tile_key list" where
  "pan_prefetch_ring visible radius = foldl (ring_around visible radius) [] visible"

definition temporal_prefetch_ring :: "('k \<Rightarrow> int \<Rightarrow> time \<Rightarrow> 'k) \<Rightarrow> 'k \<Rightarrow> int \<Rightarrow> time \<Rightarrow> time \<Rightarrow> 'k list" where
  "temporal_prefetch_ring temporal_step base direction step horizon =
     (if flicks step \<le> 0 \<or> flicks horizon \<le> 0 then []
      else let max_k = flicks horizon sdiv flicks step; sign = (if direction < 0 then - 1 else 1) in
        map (\<lambda>k. temporal_step base (sign * k) step) [1..max_k])"

fun prime_ring :: "'k list \<Rightarrow> priority_class \<Rightarrow> ('k, 'v) keyed_store \<Rightarrow> ('k, 'v) keyed_store \<times> 'k list" where
  "prime_ring [] c s = (s, [])"
| "prime_ring (k # ks) c s =
     (case lookup_entry k s of
        (s, Some i) \<Rightarrow> prime_ring ks c (reclassify k c (unpin i s))
      | (s, None) \<Rightarrow> (case prime_ring ks c s of (s, absent) \<Rightarrow> (s, k # absent)))"

subsection \<open>Invalidation by contents\<close>

lemma rect_empty_iff: "rect_empty r \<longleftrightarrow> rect_points r = {}"
  using rect_points_empty [of r] rect_points_nonempty [of r] by blast

text \<open>The tiles a region names: those of the content whose footprint shares a point with it.\<close>

definition overlaps :: "(int \<Rightarrow> int \<times> int \<Rightarrow> rect) \<Rightarrow> tile_key \<Rightarrow> rect \<Rightarrow> bool" where
  "overlaps tile_rect key region \<longleftrightarrow>
     (\<exists>pt. pt \<in> rect_points (tile_rect (tk_rung key) (tk_col key, tk_row key)) \<and> pt \<in> rect_points region)"

lemma invalidate_region_sweep:
  "invalidate_region tile_rect c region s = remove_if (\<lambda>key. tk_content key = c \<and> overlaps tile_rect key region) s"
proof -
  have "(\<lambda>key. if tk_content key \<noteq> c then False
       else \<not> rect_empty (rect_intersect (tile_rect (tk_rung key) (tk_col key, tk_row key)) region)) =
     (\<lambda>key. tk_content key = c \<and> overlaps tile_rect key region)"
    by (rule ext) (simp add: rect_empty_iff rect_points_intersect overlaps_def disjoint_iff)
  then show ?thesis unfolding invalidate_region_def by metis
qed

text \<open>
  Damage to a region drops exactly the tiles it touches. Afterwards no tile of the content whose footprint
  shares a point with the region is found, at any rung, revision or achieved time, and every other tile is found
  as before; repeating the call finds nothing more.
\<close>

theorem region_damage_is_exact:
  assumes "cache_run budget h s" "invalidate_region tile_rect c region s = (s', n)"
  shows "(\<forall>key. cached s' key = (if tk_content key = c \<and> overlaps tile_rect key region then None else cached s key)) \<and>
    snd (invalidate_region tile_rect c region s') = 0"
proof -
  have inv: "\<exists>h. ks_inv h s" using run_inv [OF assms(1)] by blast
  have s': "s' = fst (remove_if (\<lambda>key. tk_content key = c \<and> overlaps tile_rect key region) s)"
    using assms(2) by (simp add: invalidate_region_sweep)
  show ?thesis unfolding s' invalidate_region_sweep
    using store.sweep_entries [OF inv] store.sweep_none_left [OF inv] by simp
qed

definition grid_rect :: "int \<Rightarrow> int \<times> int \<Rightarrow> rect" where
  "grid_rect rung p = \<lparr>rx0 = Fin (of_int (256 * fst p)), ry0 = Fin (of_int (256 * snd p)),
     rx1 = Fin (of_int (256 * fst p + 256)), ry1 = Fin (of_int (256 * snd p + 256))\<rparr>"

definition origin_tile :: tile_key where
  "origin_tile = \<lparr>tk_content = 3, tk_revision = 9, tk_rung = 0, tk_col = 0, tk_row = 0, tk_achieved = None\<rparr>"

definition tile_store :: "(tile_key, nat) keyed_store" where
  "tile_store = fst (insert_entry origin_tile 1 64 Visible (keyed_store_new 1000))"

lemma tile_store_run: "cache_run 1000 {#0#} tile_store"
proof -
  have "insert_entry origin_tile 1 64 Visible (keyed_store_new 1000) = (tile_store, 0)"
    unfolding tile_store_def by (simp add: insert_entry_def keyed_store_new_def Let_def evict_to_fit.simps)
  from cache_run.step [OF cache_run.start cache_step.insert [OF this]] show ?thesis by simp
qed

theorem region_damage_is_exact_witness:
  "\<exists>s' n. invalidate_region grid_rect 3 rect_infinite tile_store = (s', n) \<and> cached s' origin_tile = None"
proof (intro exI conjI)
  show *: "invalidate_region grid_rect 3 rect_infinite tile_store = (fst (invalidate_region grid_rect 3 rect_infinite tile_store),
    snd (invalidate_region grid_rect 3 rect_infinite tile_store))" by simp
  have "(Fin 0, Fin 0) \<in> rect_points (grid_rect 0 (0, 0))" "(Fin 0, Fin 0) \<in> rect_points rect_infinite"
    by (simp_all add: rect_points_def grid_rect_def rect_infinite_def less_double_def)
  then have "overlaps grid_rect origin_tile rect_infinite" unfolding overlaps_def by (auto simp: origin_tile_def)
  moreover have "tk_content origin_tile = 3" by (simp add: origin_tile_def)
  ultimately show "cached (fst (invalidate_region grid_rect 3 rect_infinite tile_store)) origin_tile = None"
    using region_damage_is_exact [OF tile_store_run *] by simp
qed

lemma invalidate_content_entries:
  "ks_inv h s \<Longrightarrow> cached (fst (invalidate_content c s)) key = (if tk_content key = c then None else cached s key)"
  unfolding invalidate_content_def by (rule store.sweep_entries) blast

text \<open>Reclaiming superseded revisions commutes into one sweep with a later reclaim, and the larger one decides.\<close>

lemma drop_superseded_twice:
  assumes "ks_inv h s"
  shows "cached (fst (drop_superseded c r' (fst (drop_superseded c r s)))) = cached (fst (drop_superseded c (max r r') s))"
proof -
  have "\<exists>h. ks_inv h s" using assms by blast
  from store.sweep_twice [OF this] show ?thesis
    unfolding drop_superseded_def by (simp add: less_max_iff_disj conj_disj_distribL)
qed

subsection \<open>The pan ring\<close>

lemma ring_cells:
  assumes "distinct ring"
  shows "distinct (foldl (ring_cell visible v) ring ds) \<and>
    set (foldl (ring_cell visible v) ring ds) =
      set ring \<union> ({neighbour v dr dc | dr dc. (dr, dc) \<in> set ds \<and> \<not> (dc = 0 \<and> dr = 0)} - set visible)"
  using assms
proof (induction ds arbitrary: ring)
  case (Cons d ds)
  obtain dr dc where d: "d = (dr, dc)" by (cases d)
  have step: "distinct (ring_cell visible v ring d)"
    "set (ring_cell visible v ring d) = set ring \<union> ({n. n = neighbour v dr dc \<and> \<not> (dc = 0 \<and> dr = 0)} - set visible)"
    using Cons.prems by (auto simp: ring_cell_def d Let_def)
  show ?case using Cons.IH [OF step(1)] unfolding foldl.simps step(2) by (auto simp: d)
qed simp

lemma neighbour_self: "neighbour v 0 0 = v"
  by (simp add: neighbour_def)

lemma ring_around_spec:
  assumes "distinct ring" "v \<in> set visible"
  shows "distinct (ring_around visible radius ring v)"
    "set (ring_around visible radius ring v) =
      set ring \<union> ({neighbour v dr dc | dr dc. \<bar>dr\<bar> \<le> radius \<and> \<bar>dc\<bar> \<le> radius} - set visible)"
proof -
  let ?ds = "concat (map (\<lambda>dr. map (\<lambda>dc. (dr, dc)) [- radius..radius]) [- radius..radius])"
  note c = ring_cells [OF assms(1), of visible v ?ds]
  have ds: "set ?ds = {(dr, dc). \<bar>dr\<bar> \<le> radius \<and> \<bar>dc\<bar> \<le> radius}" by (force simp: abs_le_iff)
  have "neighbour v dr dc \<in> set visible" if "dc = 0 \<and> dr = 0" for dr dc
    using that assms(2) neighbour_self [of v] by simp
  then have "{neighbour v dr dc | dr dc. (dr, dc) \<in> set ?ds \<and> \<not> (dc = 0 \<and> dr = 0)} - set visible =
    {neighbour v dr dc | dr dc. \<bar>dr\<bar> \<le> radius \<and> \<bar>dc\<bar> \<le> radius} - set visible"
    unfolding ds by blast
  then show "distinct (ring_around visible radius ring v)"
    "set (ring_around visible radius ring v) =
      set ring \<union> ({neighbour v dr dc | dr dc. \<bar>dr\<bar> \<le> radius \<and> \<bar>dc\<bar> \<le> radius} - set visible)"
    using c by (simp_all add: ring_around_def)
qed

text \<open>Same plane, at most \<open>radius\<close> tiles away in either direction.\<close>

definition near :: "int \<Rightarrow> tile_key \<Rightarrow> tile_key \<Rightarrow> bool" where
  "near radius v k \<longleftrightarrow> k\<lparr>tk_col := tk_col v, tk_row := tk_row v\<rparr> = v \<and>
     \<bar>tk_col k - tk_col v\<bar> \<le> radius \<and> \<bar>tk_row k - tk_row v\<bar> \<le> radius"

lemma near_neighbour: "{neighbour v dr dc | dr dc. \<bar>dr\<bar> \<le> radius \<and> \<bar>dc\<bar> \<le> radius} = {k. near radius v k}"
proof -
  have "k = neighbour v (tk_row k - tk_row v) (tk_col k - tk_col v)" if "near radius v k" for k
    using that by (cases k; cases v) (simp add: near_def neighbour_def)
  moreover have "near radius v (neighbour v dr dc)" if "\<bar>dr\<bar> \<le> radius" "\<bar>dc\<bar> \<le> radius" for dr dc
    using that by (simp add: near_def neighbour_def)
  ultimately show ?thesis by (auto simp: near_def)
qed

lemma pan_rings:
  "distinct ring \<Longrightarrow> set vs \<subseteq> set visible \<Longrightarrow>
    distinct (foldl (ring_around visible radius) ring vs) \<and>
    set (foldl (ring_around visible radius) ring vs) = set ring \<union> ({k. \<exists>v \<in> set vs. near radius v k} - set visible)"
proof (induction vs arbitrary: ring)
  case (Cons v vs)
  have v: "v \<in> set visible" "set vs \<subseteq> set visible" using Cons.prems(2) by simp_all
  note r = ring_around_spec [OF Cons.prems(1) v(1), of radius, unfolded near_neighbour]
  show ?case using Cons.IH [OF r(1) v(2)] unfolding foldl.simps r(2) by auto
qed simp

text \<open>
  The pan ring is the annulus a pan reveals: every tile of the same content, revision, rung and time within the
  radius of a visible tile that is not itself visible, each once; nothing for a radius that is not positive.
\<close>

theorem pan_ring_is_annulus:
  "distinct (pan_prefetch_ring visible radius) \<and>
   set (pan_prefetch_ring visible radius) = {k. (\<exists>v \<in> set visible. near radius v k)} - set visible"
  using pan_rings [of "[]" visible visible radius] by (simp add: pan_prefetch_ring_def)

subsection \<open>The temporal ring\<close>

lemma temporal_ring_within:
  assumes "tk_achieved base = Some t" "k \<in> set (temporal_prefetch_ring tile_temporal_step base direction step horizon)"
  shows "\<exists>u. tk_achieved k = Some u \<and> \<bar>flicks u - flicks t\<bar> \<le> flicks horizon \<and>
    (if direction < 0 then flicks u < flicks t else flicks u > flicks t)"
proof -
  have pos: "flicks step > 0" "flicks horizon > 0" using assms(2) by (auto simp: temporal_prefetch_ring_def split: if_splits)
  then obtain j where j: "1 \<le> j" "j \<le> flicks horizon sdiv flicks step"
    "k = tile_temporal_step base ((if direction < 0 then - 1 else 1) * j) step"
    using assms(2) by (auto simp: temporal_prefetch_ring_def Let_def)
  have "flicks horizon sdiv flicks step = flicks horizon div flicks step" using pos by (simp add: signed_divide_int_def)
  then have "j * flicks step \<le> (flicks horizon div flicks step) * flicks step" using j(2) pos(1) by (intro mult_right_mono) simp_all
  also have "\<dots> \<le> flicks horizon" using div_mult_mod_eq [of "flicks horizon" "flicks step"] pos_mod_sign [OF pos(1), of "flicks horizon"] by linarith
  finally have "j * flicks step \<le> flicks horizon" .
  moreover have "j * flicks step > 0" using j(1) pos(1) by simp
  ultimately show ?thesis using assms(1) j(3) by (simp add: tile_temporal_step_def abs_mult split: if_splits)
qed

subsection \<open>Priming a ring\<close>

definition class_of :: "('k, 'v) keyed_store \<Rightarrow> 'k \<rightharpoonup> priority_class" where
  "class_of s k = map_option en_class (map_of (ks_map s) k)"

text \<open>One resident key probed and retagged: a pin taken and given back, the age and the class renewed.\<close>

lemma update_entries_twice:
  "(\<And>e. en_id (f e) = en_id e) \<Longrightarrow> update_entries i g (update_entries i f s) = update_entries i (\<lambda>e. g (f e)) s"
  by (simp add: update_entries_def o_def split_beta if_distrib [of g] cong: if_cong)

lemma probe_hit:
  assumes inv: "ks_inv h s" and e: "map_of (ks_map s) k = Some e" and probe: "lookup_entry k s = (s1, r)"
  shows "r = Some (en_id e)" "ks_inv h (reclassify k c (unpin (en_id e) s1))"
    "cached (reclassify k c (unpin (en_id e) s1)) = cached s"
    "ks_resident (reclassify k c (unpin (en_id e) s1)) = ks_resident s"
    "ks_evictions (reclassify k c (unpin (en_id e) s1)) = ks_evictions s"
    "class_of (reclassify k c (unpin (en_id e) s1)) = (class_of s)(k \<mapsto> c)"
proof -
  let ?i = "en_id e"
  let ?s = "s\<lparr>ks_hits := ks_hits s + 1, ks_tick := ks_tick s + 1\<rparr>"
  let ?f = "\<lambda>e :: 'b cache_entry. e\<lparr>en_recency := ks_tick s + 1, en_pins := en_pins e + 1\<rparr>"
  let ?g = "\<lambda>e :: 'b cache_entry. e\<lparr>en_pins := en_pins e - 1\<rparr>"
  let ?c = "\<lambda>e :: 'b cache_entry. e\<lparr>en_class := c\<rparr>"
  show r: "r = Some ?i" using probe e by (auto simp: lookup_entry_def)
  have s1: "s1 = update_entries ?i ?f ?s" using probe e by (auto simp: lookup_entry_def)
  have inv1: "ks_inv (add_mset ?i h) s1" using lookup_inv [OF inv probe] r by simp
  have "ks_inv (add_mset ?i h - {#?i#}) (unpin ?i s1)" by (rule unpin_inv [OF inv1]) simp
  then show inv2: "ks_inv h (reclassify k c (unpin ?i s1))" by (simp add: reclassify_inv)
  have mem: "e \<in> set (all_entries s)" "\<not> en_removed e"
    using map_of_SomeD [OF e] ks_invD(5) [OF inv, of e] by (force simp: all_entries_def)+
  have e1: "map_of (ks_map s1) k = Some (?f e)" unfolding s1 map_of_update_entries using e by simp
  then have "?f e \<in> set (all_entries s1)" by (force simp: all_entries_def dest: map_of_SomeD)
  from find_entry_unique [OF inv1 this] have "find_entry ?i s1 = Some (?f e)" by simp
  from unpin_eq [OF this] mem(2) have "unpin ?i s1 = update_entries ?i ?g s1" by (simp add: Let_def)
  then have u: "unpin ?i s1 = update_entries ?i (\<lambda>e. ?g (?f e)) ?s" unfolding s1 by (simp add: update_entries_twice)
  have "map_of (ks_map (unpin ?i s1)) k = Some (?g (?f e))" unfolding u map_of_update_entries using e by simp
  then have "reclassify k c (unpin ?i s1) = update_entries ?i ?c (unpin ?i s1)" by (simp add: reclassify_def)
  then have all: "reclassify k c (unpin ?i s1) = update_entries ?i (\<lambda>e. ?c (?g (?f e))) ?s" unfolding u by (simp add: update_entries_twice)
  then show "ks_resident (reclassify k c (unpin ?i s1)) = ks_resident s"
    "ks_evictions (reclassify k c (unpin ?i s1)) = ks_evictions s" by simp_all
  show "cached (reclassify k c (unpin ?i s1)) = cached s"
  proof
    fix k'
    show "cached (reclassify k c (unpin ?i s1)) k' = cached s k'"
      unfolding all cached_def map_of_update_entries by (cases "map_of (ks_map s) k'") simp_all
  qed
  have only: "k' = k" if "map_of (ks_map s) k' = Some f" "en_id f = ?i" for k' f
  proof -
    have m: "(k', f) \<in> set (ks_map s)" "(k, e) \<in> set (ks_map s)" using that(1) e by (simp_all add: map_of_SomeD)
    have "distinct (map (en_id \<circ> snd) (ks_map s))" using ks_invD(2) [OF inv] by (simp add: all_entries_def)
    then show ?thesis using m that(2) inj_onD [of "en_id \<circ> snd" "set (ks_map s)" "(k', f)" "(k, e)"]
      by (simp add: distinct_map)
  qed
  show "class_of (reclassify k c (unpin ?i s1)) = (class_of s)(k \<mapsto> c)"
  proof
    fix k'
    show "class_of (reclassify k c (unpin ?i s1)) k' = ((class_of s)(k \<mapsto> c)) k'"
    proof (cases "k' = k")
      case True
      then show ?thesis unfolding all class_of_def map_of_update_entries using e by simp
    next
      case False
      then show ?thesis unfolding all class_of_def map_of_update_entries using only [of k']
        by (cases "map_of (ks_map s) k'") auto
    qed
  qed
qed

lemma probe_miss:
  assumes "map_of (ks_map s) k = None" "lookup_entry k s = (s1, r)"
  shows "r = None" "s1 = s\<lparr>ks_misses := ks_misses s + 1\<rparr>"
  using assms by (auto simp: lookup_entry_def)

lemma cached_misses [simp]: "cached (s\<lparr>ks_misses := n\<rparr>) = cached s" "class_of (s\<lparr>ks_misses := n\<rparr>) = class_of s"
  by (simp_all add: cached_def class_of_def fun_eq_iff)

definition retagged :: "'k list \<Rightarrow> priority_class \<Rightarrow> ('k, 'v) keyed_store \<Rightarrow> 'k \<rightharpoonup> priority_class" where
  "retagged ks c s k = (if k \<in> set ks \<and> cached s k \<noteq> None then Some c else class_of s k)"

lemma prime_ring_spec:
  "ks_inv h s \<Longrightarrow> prime_ring ks c s = (s', absent) \<Longrightarrow>
    ks_inv h s' \<and> absent = filter (\<lambda>k. cached s k = None) ks \<and> cached s' = cached s \<and>
    ks_resident s' = ks_resident s \<and> ks_evictions s' = ks_evictions s \<and> class_of s' = retagged ks c s"
proof (induction ks arbitrary: s absent)
  case Nil
  then show ?case by (auto simp: retagged_def)
next
  case (Cons k ks)
  obtain s1 r where p: "lookup_entry k s = (s1, r)" by (cases "lookup_entry k s")
  show ?case
  proof (cases "map_of (ks_map s) k")
    case None
    note m = probe_miss [OF None p]
    have n: "cached s k = None" using None by (simp add: cached_def)
    obtain a where a: "prime_ring ks c s1 = (s', a)" "absent = k # a" using Cons.prems(2) p m(1) by (auto split: prod.splits)
    have "ks_inv h s1" using Cons.prems(1) m(2) by simp
    from Cons.IH [OF this a(1)] show ?thesis using a(2) n m(2) by (auto simp: retagged_def fun_eq_iff)
  next
    case (Some e)
    note m1 = probe_hit(1) [OF Cons.prems(1) Some p] and m = probe_hit(2-6) [OF Cons.prems(1) Some p, where c = c]
    have n: "cached s k \<noteq> None" using Some by (simp add: cached_def)
    have a: "prime_ring ks c (reclassify k c (unpin (en_id e) s1)) = (s', absent)" using Cons.prems(2) p m1 by simp
    have "retagged ks c (reclassify k c (unpin (en_id e) s1)) = retagged (k # ks) c s"
      using n unfolding fun_eq_iff retagged_def m(2) m(5) by auto
    then show ?thesis using Cons.IH [OF m(1) a] m(2-4) n by simp
  qed
qed

text \<open>
  Priming a ring classifies and reports, and moves nothing. The keys returned are exactly the absent ones, in
  order; no entry, no resident byte and no eviction count changes; the resident members carry the ring's class and
  every other entry the class it had.
\<close>

theorem prime_ring_reports_absent:
  assumes "cache_run budget h s" "prime_ring ring c s = (s', absent)"
  shows "absent = filter (\<lambda>k. cached s k = None) ring \<and> cached s' = cached s \<and> ks_resident s' = ks_resident s \<and>
    ks_evictions s' = ks_evictions s \<and> class_of s' = retagged ring c s"
  using prime_ring_spec [OF run_inv [OF assms(1)] assms(2)] by blast

theorem prime_ring_reports_absent_witness:
  "\<exists>s'. prime_ring [7, 8] Adjacent ledger_example = (s', [8]) \<and> class_of s' 7 = Some Adjacent"
proof -
  obtain s' a where p: "prime_ring [7, 8] Adjacent ledger_example = (s', a)" by (cases "prime_ring [7, 8] Adjacent ledger_example")
  have "cached ledger_example 7 = Some True" "cached ledger_example 8 = None"
    by (simp_all add: cached_def ledger_example_def insert_entry_def keyed_store_new_def Let_def evict_to_fit.simps)
  then show ?thesis using prime_ring_reports_absent [OF ledger_example_run p] p by (simp add: retagged_def)
qed

end
