(* ===== verification/Damage_Planning.thy ===== *)
theory Damage_Planning
  imports Cache_Policy
begin

text \<open>
  \<open>compositor/damage_planning.cpp\<close>: the repaint region of a frame - its bounding box and its decomposition into
  disjoint pixel rectangles - and the cache invalidation a frame's damage drives. A viewport is its width and
  height; the projection of damage through the layer tree is a parameter of none of these.
\<close>

subsection \<open>Rounding out\<close>

fun dfloor :: "double \<Rightarrow> double" where
  "dfloor (Fin q) = Fin (of_int \<lfloor>q\<rfloor>)"
| "dfloor d = d"

fun dceil :: "double \<Rightarrow> double" where
  "dceil (Fin q) = Fin (of_int \<lceil>q\<rceil>)"
| "dceil d = d"

definition round_out :: "rect \<Rightarrow> rect" where
  "round_out r = \<lparr>rx0 = dfloor (rx0 r), ry0 = dfloor (ry0 r), rx1 = dceil (rx1 r), ry1 = dceil (ry1 r)\<rparr>"

definition rect_from_size :: "int \<Rightarrow> int \<Rightarrow> rect" where
  "rect_from_size w h = \<lparr>rx0 = Fin 0, ry0 = Fin 0, rx1 = Fin (of_int w), ry1 = Fin (of_int h)\<rparr>"

fun is_finite :: "double \<Rightarrow> bool" where
  "is_finite (Fin q) = True"
| "is_finite d = False"

definition rect_is_finite :: "rect \<Rightarrow> bool" where
  "rect_is_finite r \<longleftrightarrow> is_finite (rx0 r) \<and> is_finite (ry0 r) \<and> is_finite (rx1 r) \<and> is_finite (ry1 r)"

subsection \<open>The bounding box\<close>

definition box_step :: "rect \<Rightarrow> rect \<Rightarrow> rect \<Rightarrow> rect" where
  "box_step device box r =
     (let clipped = rect_intersect r device in if rect_empty clipped then box else rect_union box clipped)"

definition repaint_region :: "rect list \<Rightarrow> int \<times> int \<Rightarrow> rect" where
  "repaint_region dirty viewport =
     (let device = rect_from_size (fst viewport) (snd viewport); box = foldl (box_step device) rect_default dirty in
      if rect_empty box then rect_default else rect_intersect (round_out box) device)"

subsection \<open>The band sweep\<close>

definition k_max_repaint_rects :: nat where
  "k_max_repaint_rects = 64"

fun integer_inputs :: "rect \<Rightarrow> rect list \<Rightarrow> rect list" where
  "integer_inputs device [] = []"
| "integer_inputs device (r # rs) =
     (let clipped = rect_intersect r device in
      if rect_empty clipped then integer_inputs device rs
      else let bounded = rect_intersect (round_out clipped) device in
        if rect_empty bounded then integer_inputs device rs else bounded # integer_inputs device rs)"

type_synonym x_run = "double \<times> double"

fun merge_runs :: "x_run \<Rightarrow> x_run list \<Rightarrow> x_run list" where
  "merge_runs kept [] = [kept]"
| "merge_runs kept (r # rs) =
     (if fst r \<le> snd kept then merge_runs (fst kept, max (snd kept) (snd r)) rs
      else kept # merge_runs r rs)"

definition spanning :: "rect list \<Rightarrow> double \<Rightarrow> double \<Rightarrow> x_run list" where
  "spanning inputs y0 y1 = map (\<lambda>r. (rx0 r, rx1 r)) (filter (\<lambda>r. ry0 r \<le> y0 \<and> ry1 r \<ge> y1) inputs)"

definition band_runs :: "rect list \<Rightarrow> double \<Rightarrow> double \<Rightarrow> x_run list" where
  "band_runs inputs y0 y1 = (case sort (spanning inputs y0 y1) of [] \<Rightarrow> [] | r # rs \<Rightarrow> merge_runs r rs)"

definition band_edges :: "rect list \<Rightarrow> double list" where
  "band_edges inputs = remdups_adj (sort (concat (map (\<lambda>r. [ry0 r, ry1 r]) inputs)))"

definition extend_rects :: "nat \<Rightarrow> nat \<Rightarrow> double \<Rightarrow> rect list \<Rightarrow> rect list" where
  "extend_rects prev_at n y1 regions =
     foldl (\<lambda>rs j. rs[prev_at + j := (rs ! (prev_at + j))\<lparr>ry1 := y1\<rparr>]) regions [0..<n]"

text \<open>The loop over the bands; \<open>None\<close> is the sweep given up at the cap.\<close>

fun band_loop :: "nat \<Rightarrow> rect list \<Rightarrow> double list \<Rightarrow> rect list \<Rightarrow> x_run list \<Rightarrow> nat \<Rightarrow> rect list option" where
  "band_loop cap inputs (y0 # y1 # ys) regions prev_runs prev_at =
     (let runs = band_runs inputs y0 y1 in
      if runs = [] then band_loop cap inputs (y1 # ys) regions [] prev_at
      else if runs = prev_runs
      then band_loop cap inputs (y1 # ys) (extend_rects prev_at (length runs) y1 regions) prev_runs prev_at
      else let regions' = regions @ map (\<lambda>run. \<lparr>rx0 = fst run, ry0 = y0, rx1 = snd run, ry1 = y1\<rparr>) runs in
        if length regions' > cap then None
        else band_loop cap inputs (y1 # ys) regions' runs (length regions))"
| "band_loop cap inputs ys regions prev_runs prev_at = Some regions"

definition repaint_regions :: "rect list \<Rightarrow> int \<times> int \<Rightarrow> rect list" where
  "repaint_regions dirty viewport =
     (let inputs = integer_inputs (rect_from_size (fst viewport) (snd viewport)) dirty in
      if inputs = [] then []
      else case band_loop k_max_repaint_rects inputs (band_edges inputs) [] [] 0 of
        Some regions \<Rightarrow> regions
      | None \<Rightarrow> [repaint_region dirty viewport])"

subsection \<open>Invalidating the damaged tiles\<close>

text \<open>\<open>tile_rect\<close> stands for the grid's \<open>tile_render_rect\<close>.\<close>

fun invalidate_damage ::
  "(int \<Rightarrow> int \<times> int \<Rightarrow> rect) \<Rightarrow> damage list \<Rightarrow> (tile_key, 'v) keyed_store \<Rightarrow> (tile_key, 'v) keyed_store \<times> nat" where
  "invalidate_damage tile_rect [] s = (s, 0)"
| "invalidate_damage tile_rect (d # ds) s =
     (case (if \<not> rect_is_finite (dm_rect d) then invalidate_content (dm_object d) s
            else invalidate_region tile_rect (dm_object d) (dm_rect d) s) of
        (s, n) \<Rightarrow> (case invalidate_damage tile_rect ds s of (s, m) \<Rightarrow> (s, n + m)))"

subsection \<open>Runs\<close>

definition in_run :: "double \<Rightarrow> x_run list \<Rightarrow> bool" where
  "in_run x runs \<longleftrightarrow> (\<exists>p \<in> set runs. fst p \<le> x \<and> x < snd p)"

definition runs_ok :: "x_run list \<Rightarrow> bool" where
  "runs_ok runs \<longleftrightarrow> (\<forall>p \<in> set runs. fst p < snd p) \<and> sorted_wrt (\<lambda>p q. snd p < fst q) runs"

lemma merge_runs_spec:
  "sorted (map fst (kept # rs)) \<Longrightarrow> \<forall>p \<in> set (kept # rs). fst p < snd p \<Longrightarrow>
    (\<forall>x. in_run x (merge_runs kept rs) \<longleftrightarrow> in_run x (kept # rs)) \<and> runs_ok (merge_runs kept rs) \<and>
    (\<forall>p \<in> set (merge_runs kept rs). fst kept \<le> fst p \<and> fst p \<in> fst ` set (kept # rs) \<and> snd p \<in> snd ` set (kept # rs))"
proof (induction kept rs rule: merge_runs.induct)
  case (1 kept)
  then show ?case by (simp add: runs_ok_def in_run_def)
next
  case (2 kept r rs)
  have le: "fst kept \<le> fst r" "sorted (map fst (r # rs))" using 2(3) by simp_all
  show ?case
  proof (cases "fst r \<le> snd kept")
    case True
    let ?k = "(fst kept, max (snd kept) (snd r))"
    have s: "sorted (map fst (?k # rs))" "\<forall>p \<in> set (?k # rs). fst p < snd p"
      using 2(3,4) by (auto simp: less_max_iff_disj)
    have "in_run x (?k # rs) \<longleftrightarrow> in_run x (kept # r # rs)" for x
    proof -
      have "fst kept \<le> x \<and> x < max (snd kept) (snd r) \<longleftrightarrow> fst kept \<le> x \<and> x < snd kept \<or> fst r \<le> x \<and> x < snd r"
        using True le(1) by (auto simp: less_max_iff_disj)
      then show ?thesis by (simp add: in_run_def)
    qed
    moreover have "snd ?k \<in> {snd kept, snd r}" by (simp add: max_def)
    ultimately show ?thesis using 2(1) [OF True s] True by auto
  next
    case False
    have ih: "\<forall>x. in_run x (merge_runs r rs) \<longleftrightarrow> in_run x (r # rs)" "runs_ok (merge_runs r rs)"
      "\<forall>p \<in> set (merge_runs r rs). fst r \<le> fst p \<and> fst p \<in> fst ` set (r # rs) \<and> snd p \<in> snd ` set (r # rs)"
      using 2(2) [OF False le(2)] 2(4) by auto
    have "snd kept < fst p" if "p \<in> set (merge_runs r rs)" for p using ih(3) that False by fastforce
    then have "runs_ok (kept # merge_runs r rs)" using ih(2) 2(4) by (simp add: runs_ok_def)
    moreover have "in_run x (kept # merge_runs r rs) \<longleftrightarrow> in_run x (kept # r # rs)" for x
      using ih(1) by (simp add: in_run_def)
    moreover have "\<forall>p \<in> set (merge_runs r rs). fst kept \<le> fst p" using ih(3) le(1) by (blast intro: order_trans)
    ultimately show ?thesis using False ih(3) by simp
  qed
qed

lemma sorted_fst: "sorted (xs :: ('a :: linorder \<times> 'b :: linorder) list) \<Longrightarrow> sorted (map fst xs)"
  by (simp add: sorted_wrt_map) (rule sorted_wrt_mono_rel, auto simp: less_eq_prod_def)

lemma band_runs_spec:
  assumes "\<forall>r \<in> set inputs. \<not> rect_empty r"
  shows "in_run x (band_runs inputs y0 y1) \<longleftrightarrow> (\<exists>r \<in> set inputs. ry0 r \<le> y0 \<and> y1 \<le> ry1 r \<and> rx0 r \<le> x \<and> x < rx1 r)"
    "runs_ok (band_runs inputs y0 y1)"
    "p \<in> set (band_runs inputs y0 y1) \<Longrightarrow> fst p \<in> rx0 ` set inputs \<and> snd p \<in> rx1 ` set inputs"
proof -
  let ?s = "sort (spanning inputs y0 y1)"
  have set: "set ?s = (\<lambda>r. (rx0 r, rx1 r)) ` {r \<in> set inputs. ry0 r \<le> y0 \<and> y1 \<le> ry1 r}" by (simp add: spanning_def)
  have ne: "\<forall>p \<in> set ?s. fst p < snd p" using assms unfolding set by (auto simp: rect_empty_def)
  have sub: "fst ` set ?s \<subseteq> rx0 ` set inputs" "snd ` set ?s \<subseteq> rx1 ` set inputs" unfolding set by force+
  have all: "(in_run x (band_runs inputs y0 y1) \<longleftrightarrow> in_run x ?s) \<and> runs_ok (band_runs inputs y0 y1) \<and>
    (\<forall>p \<in> set (band_runs inputs y0 y1). fst p \<in> fst ` set ?s \<and> snd p \<in> snd ` set ?s)"
  proof (cases ?s)
    case Nil
    then show ?thesis by (simp add: band_runs_def runs_ok_def in_run_def)
  next
    case (Cons r rs)
    have "sorted (map fst (r # rs))" using sorted_fst [OF sorted_sort, of "spanning inputs y0 y1"] Cons by simp
    from merge_runs_spec [OF this] ne show ?thesis unfolding band_runs_def Cons by simp
  qed
  have "in_run x ?s \<longleftrightarrow> (\<exists>r \<in> set inputs. ry0 r \<le> y0 \<and> y1 \<le> ry1 r \<and> rx0 r \<le> x \<and> x < rx1 r)"
    unfolding in_run_def set by auto
  then show "in_run x (band_runs inputs y0 y1) \<longleftrightarrow> (\<exists>r \<in> set inputs. ry0 r \<le> y0 \<and> y1 \<le> ry1 r \<and> rx0 r \<le> x \<and> x < rx1 r)"
    using all by blast
  show "runs_ok (band_runs inputs y0 y1)" using all by blast
  show "p \<in> set (band_runs inputs y0 y1) \<Longrightarrow> fst p \<in> rx0 ` set inputs \<and> snd p \<in> rx1 ` set inputs" using all sub by blast
qed

lemma extend_rects_append:
  "extend_rects (length front) (length mid) y1 (front @ mid @ tail) = front @ map (\<lambda>r. r\<lparr>ry1 := y1\<rparr>) mid @ tail"
  unfolding extend_rects_def
proof (induction mid arbitrary: tail rule: rev_induct)
  case (snoc r mid)
  show ?case using snoc.IH [of "r # tail"] by (simp add: list_update_append nth_append)
qed simp

subsection \<open>One band\<close>

definition covered :: "rect list \<Rightarrow> (double \<times> double) set" where
  "covered rs = (\<Union>r \<in> set rs. rect_points r)"

abbreviation apart :: "rect \<Rightarrow> rect \<Rightarrow> bool" where
  "apart a b \<equiv> rect_points a \<inter> rect_points b = {}"

definition run_rects :: "double \<Rightarrow> double \<Rightarrow> x_run list \<Rightarrow> rect list" where
  "run_rects y0 y1 runs = map (\<lambda>run. \<lparr>rx0 = fst run, ry0 = y0, rx1 = snd run, ry1 = y1\<rparr>) runs"

lemma run_rects_points: "(x, y) \<in> covered (run_rects y0 y1 runs) \<longleftrightarrow> in_run x runs \<and> y0 \<le> y \<and> y < y1"
  by (auto simp: covered_def run_rects_def in_run_def rect_points_def)

lemma run_rects_apart: "runs_ok runs \<Longrightarrow> sorted_wrt apart (run_rects y0 y1 runs)"
  unfolding run_rects_def sorted_wrt_map runs_ok_def
  by (erule conjE, rule sorted_wrt_mono_rel) (auto simp: rect_points_def)

lemma band_cover:
  assumes ne: "\<forall>r \<in> set inputs. \<not> rect_empty r"
    and edges: "\<And>r e. r \<in> set inputs \<Longrightarrow> e \<in> {ry0 r, ry1 r} \<Longrightarrow> e \<le> y0 \<or> y1 \<le> e"
    and y: "y0 \<le> y" "y < y1"
  shows "(x, y) \<in> covered inputs \<longleftrightarrow> in_run x (band_runs inputs y0 y1)"
proof -
  have "ry0 r \<le> y \<and> y < ry1 r \<longleftrightarrow> ry0 r \<le> y0 \<and> y1 \<le> ry1 r" if "r \<in> set inputs" for r
    using edges [OF that, of "ry0 r"] edges [OF that, of "ry1 r"] y by auto
  then show ?thesis unfolding band_runs_spec(1) [OF ne] covered_def by (auto simp: rect_points_def)
qed

subsection \<open>The sweep\<close>

text \<open>The state before the band at \<open>y0\<close>: the regions are the inputs below it, apart, with edges of the inputs, and the
  runs remembered are those of the rectangles that end at it.\<close>

definition edges_of :: "rect list \<Rightarrow> rect \<Rightarrow> bool" where
  "edges_of inputs r \<longleftrightarrow> \<not> rect_empty r \<and> rx0 r \<in> rx0 ` set inputs \<and> rx1 r \<in> rx1 ` set inputs \<and>
     {ry0 r, ry1 r} \<subseteq> ry0 ` set inputs \<union> ry1 ` set inputs"

definition remembered :: "rect list \<Rightarrow> x_run list \<Rightarrow> nat \<Rightarrow> double \<Rightarrow> bool" where
  "remembered regions prev_runs prev_at y0 \<longleftrightarrow> prev_runs = [] \<or>
     (\<exists>front p. regions = front @ run_rects p y0 prev_runs \<and> length front = prev_at \<and> p < y0 \<and> runs_ok prev_runs)"

definition swept :: "nat \<Rightarrow> rect list \<Rightarrow> double \<Rightarrow> rect list \<Rightarrow> bool" where
  "swept cap inputs y0 regions \<longleftrightarrow> covered regions = {pt \<in> covered inputs. snd pt < y0} \<and> sorted_wrt apart regions \<and>
     (\<forall>r \<in> set regions. edges_of inputs r) \<and> length regions \<le> cap"

lemma sweptI:
  assumes "\<And>x y. (x, y) \<in> covered regions \<longleftrightarrow> (x, y) \<in> covered inputs \<and> y < y0" "sorted_wrt apart regions"
    "\<And>r. r \<in> set regions \<Longrightarrow> edges_of inputs r" "length regions \<le> cap"
  shows "swept cap inputs y0 regions"
  using assms unfolding swept_def by (intro conjI ballI set_eqI) auto

lemma sweptD: "swept cap inputs y0 regions \<Longrightarrow> (x, y) \<in> covered regions \<longleftrightarrow> (x, y) \<in> covered inputs \<and> y < y0"
  by (auto simp: swept_def)

lemma covered_append [simp]: "covered (a @ b) = covered a \<union> covered b"
  by (simp add: covered_def)

lemma apart_append:
  assumes "sorted_wrt apart a" "sorted_wrt apart b" "covered a \<inter> covered b = {}"
  shows "sorted_wrt apart (a @ b)"
proof -
  have "apart r q" if "r \<in> set a" "q \<in> set b" for r q using assms(3) that unfolding covered_def by blast
  then show ?thesis using assms(1,2) by (simp add: sorted_wrt_append)
qed

lemma swept_gap:
  assumes "swept cap inputs y0 regions" "\<And>x y. y0 \<le> y \<Longrightarrow> y < y1 \<Longrightarrow> (x, y) \<notin> covered inputs" "y0 < y1"
  shows "swept cap inputs y1 regions"
proof (rule sweptI)
  fix x y
  have "(x, y) \<in> covered regions \<longleftrightarrow> (x, y) \<in> covered inputs \<and> y < y0" using assms(1) by (auto simp: swept_def)
  then show "(x, y) \<in> covered regions \<longleftrightarrow> (x, y) \<in> covered inputs \<and> y < y1" using assms(2) [of y x] assms(3)
    by (metis less_trans not_less)
qed (use assms(1) in \<open>auto simp: swept_def\<close>)

lemma edges_of_run:
  assumes "\<forall>r \<in> set inputs. \<not> rect_empty r" "run \<in> set (band_runs inputs a b)" "y0 < y1"
    "y0 \<in> ry0 ` set inputs \<union> ry1 ` set inputs" "y1 \<in> ry0 ` set inputs \<union> ry1 ` set inputs"
  shows "edges_of inputs \<lparr>rx0 = fst run, ry0 = y0, rx1 = snd run, ry1 = y1\<rparr>"
  using band_runs_spec(2,3) [OF assms(1)] assms(2-) by (auto simp: edges_of_def rect_empty_def runs_ok_def)

lemma swept_emit:
  assumes sw: "swept cap inputs y0 regions" and ne: "\<forall>r \<in> set inputs. \<not> rect_empty r" and lt: "y0 < y1"
    and cover: "\<And>x y. y0 \<le> y \<Longrightarrow> y < y1 \<Longrightarrow> (x, y) \<in> covered inputs \<longleftrightarrow> in_run x runs"
    and runs: "runs = band_runs inputs y0 y1" and ys: "{y0, y1} \<subseteq> ry0 ` set inputs \<union> ry1 ` set inputs"
    and cap: "length (regions @ run_rects y0 y1 runs) \<le> cap"
  shows "swept cap inputs y1 (regions @ run_rects y0 y1 runs)"
proof (rule sweptI)
  have old: "(x, y) \<in> covered regions \<longleftrightarrow> (x, y) \<in> covered inputs \<and> y < y0" for x y using sw by (auto simp: swept_def)
  show "(x, y) \<in> covered (regions @ run_rects y0 y1 runs) \<longleftrightarrow> (x, y) \<in> covered inputs \<and> y < y1" for x y
    using old [of x y] cover [of y x] run_rects_points [of x y y0 y1 runs] lt by (auto simp: not_less)
  show "sorted_wrt apart (regions @ run_rects y0 y1 runs)"
  proof (rule apart_append)
    show "sorted_wrt apart (run_rects y0 y1 runs)" using run_rects_apart band_runs_spec(2) [OF ne] runs by blast
    show "covered regions \<inter> covered (run_rects y0 y1 runs) = {}" using old run_rects_points by fastforce
  qed (use sw in \<open>simp add: swept_def\<close>)
  show "edges_of inputs r" if "r \<in> set (regions @ run_rects y0 y1 runs)" for r
    using that sw edges_of_run [OF ne _ lt] ys runs by (auto simp: swept_def run_rects_def)
qed (rule cap)

lemma swept_extend:
  assumes sw: "swept cap inputs y0 (front @ run_rects p y0 runs)" and ne: "\<forall>r \<in> set inputs. \<not> rect_empty r"
    and lt: "p < y0" "y0 < y1"
    and cover: "\<And>x y. y0 \<le> y \<Longrightarrow> y < y1 \<Longrightarrow> (x, y) \<in> covered inputs \<longleftrightarrow> in_run x runs"
    and ok: "runs_ok runs" and ys: "y1 \<in> ry0 ` set inputs \<union> ry1 ` set inputs"
  shows "swept cap inputs y1 (front @ run_rects p y1 runs)"
proof (rule sweptI)
  have old: "(x, y) \<in> covered front \<or> (in_run x runs \<and> p \<le> y \<and> y < y0) \<longleftrightarrow> (x, y) \<in> covered inputs \<and> y < y0" for x y
    using sweptD [OF sw, of x y] by (simp add: run_rects_points)
  show "(x, y) \<in> covered (front @ run_rects p y1 runs) \<longleftrightarrow> (x, y) \<in> covered inputs \<and> y < y1" for x y
    using old [of x y] cover [of y x] run_rects_points [of x y p y1 runs] lt by (cases "y0 \<le> y") auto
  have s: "sorted_wrt apart (front @ run_rects p y0 runs)" using sw by (simp add: swept_def)
  have ap: "(x, y) \<notin> covered front" if "in_run x runs" "p \<le> y" "y < y0" for x y
  proof
    assume "(x, y) \<in> covered front"
    then obtain f where f: "f \<in> set front" "(x, y) \<in> rect_points f" by (auto simp: covered_def)
    have "(x, y) \<in> covered (run_rects p y0 runs)" using that by (simp add: run_rects_points)
    then obtain q where q: "q \<in> set (run_rects p y0 runs)" "(x, y) \<in> rect_points q" by (auto simp: covered_def)
    have "apart f q" using s f(1) q(1) by (simp add: sorted_wrt_append)
    then show False using f(2) q(2) by blast
  qed
  show "sorted_wrt apart (front @ run_rects p y1 runs)"
  proof (rule apart_append)
    show "sorted_wrt apart front" using s by (simp add: sorted_wrt_append)
    show "sorted_wrt apart (run_rects p y1 runs)" using run_rects_apart [OF ok] .
    have "(x, y) \<notin> covered (run_rects p y1 runs)" if "(x, y) \<in> covered front" for x y
      using ap [of x y] old [of x y] that by (auto simp: run_rects_points)
    then show "covered front \<inter> covered (run_rects p y1 runs) = {}" by auto
  qed
  show "edges_of inputs r" if "r \<in> set (front @ run_rects p y1 runs)" for r
  proof (cases "r \<in> set front")
    case False
    then obtain run where run: "run \<in> set runs" "r = \<lparr>rx0 = fst run, ry0 = p, rx1 = snd run, ry1 = y1\<rparr>"
      using \<open>r \<in> set (front @ run_rects p y1 runs)\<close> by (auto simp: run_rects_def)
    then have "edges_of inputs \<lparr>rx0 = fst run, ry0 = p, rx1 = snd run, ry1 = y0\<rparr>" using sw by (auto simp: swept_def run_rects_def)
    then show ?thesis using ys lt run(2) by (auto simp: edges_of_def rect_empty_def)
  qed (use sw in \<open>auto simp: swept_def\<close>)
  show "length (front @ run_rects p y1 runs) \<le> cap" using sw by (simp add: swept_def run_rects_def)
qed

lemma extend_run_rects:
  "extend_rects (length front) (length runs) y1 (front @ run_rects p y0 runs) = front @ run_rects p y1 runs"
  using extend_rects_append [of front "run_rects p y0 runs" y1 "[]"] by (simp add: run_rects_def o_def)

lemma band_loop_spec:
  "\<forall>r \<in> set inputs. \<not> rect_empty r \<Longrightarrow> sorted_wrt (<) es \<Longrightarrow> es \<noteq> [] \<Longrightarrow> set es \<subseteq> ry0 ` set inputs \<union> ry1 ` set inputs \<Longrightarrow>
     (\<And>r e. r \<in> set inputs \<Longrightarrow> e \<in> {ry0 r, ry1 r} \<Longrightarrow> e \<in> set es \<or> e \<le> hd es) \<Longrightarrow>
     swept cap inputs (hd es) regions \<Longrightarrow> remembered regions prev_runs prev_at (hd es) \<Longrightarrow>
     band_loop cap inputs es regions prev_runs prev_at = Some rs \<Longrightarrow> swept cap inputs (last es) rs"
proof (induction cap inputs es regions prev_runs prev_at rule: band_loop.induct)
  case (1 cap inputs y0 y1 ys regions prev_runs prev_at)
  let ?runs = "band_runs inputs y0 y1"
  note ne = 1(4) and sw = 1(9) [unfolded list.sel] and rem = 1(10) [unfolded list.sel]
  have lt: "y0 < y1" "sorted_wrt (<) (y1 # ys)" "y1 # ys \<noteq> []" using 1(5) by simp_all
  have mem: "{y0, y1} \<subseteq> ry0 ` set inputs \<union> ry1 ` set inputs" "set (y1 # ys) \<subseteq> ry0 ` set inputs \<union> ry1 ` set inputs" using 1(7) by auto
  have later: "e \<in> set (y1 # ys) \<or> e \<le> hd (y1 # ys)" if "r \<in> set inputs" "e \<in> {ry0 r, ry1 r}" for r e
    using 1(8) [OF that] lt(1) by auto
  have split: "e \<le> y0 \<or> y1 \<le> e" if "r \<in> set inputs" "e \<in> {ry0 r, ry1 r}" for r e
    using 1(8) [OF that] 1(5) by auto
  have cover: "(x, y) \<in> covered inputs \<longleftrightarrow> in_run x ?runs" if "y0 \<le> y" "y < y1" for x y
    by (rule band_cover [OF ne split that])
  show ?case
  proof (cases "?runs = []")
    case True
    have "(x, y) \<notin> covered inputs" if "y0 \<le> y" "y < y1" for x y
      using cover [of y x, OF that] by (simp add: True in_run_def)
    from swept_gap [OF sw this lt(1)] have "swept cap inputs (hd (y1 # ys)) regions" by simp
    from 1(1) [OF refl True ne lt(2,3) mem(2) later this] True 1(11) show ?thesis by (simp add: remembered_def)
  next
    case False
    show ?thesis
    proof (cases "?runs = prev_runs")
      case True
      then obtain front p where f: "regions = front @ run_rects p y0 ?runs" "length front = prev_at" "p < y0" "runs_ok ?runs"
        using rem False by (auto simp: remembered_def)
      have "swept cap inputs (hd (y1 # ys)) (front @ run_rects p y1 ?runs)"
        unfolding list.sel by (rule swept_extend [OF sw [unfolded f(1)] ne f(3) lt(1) cover f(4)]) (use mem(1) split in auto)
      moreover have "remembered (front @ run_rects p y1 ?runs) prev_runs prev_at (hd (y1 # ys))"
        unfolding remembered_def by (rule disjI2, rule exI [of _ front], rule exI [of _ p]) (use f(2-4) lt(1) True in simp)
      moreover have ext: "extend_rects prev_at (length ?runs) y1 regions = front @ run_rects p y1 ?runs"
        unfolding f(1) f(2) [symmetric] by (rule extend_run_rects)
      ultimately show ?thesis using 1(2) [OF refl False True ne lt(2,3) mem(2) later] 1(11) False True by (simp add: Let_def)
    next
      case diff: False
      let ?new = "regions @ run_rects y0 y1 ?runs"
      have new: "regions @ map (\<lambda>run. \<lparr>rx0 = fst run, ry0 = y0, rx1 = snd run, ry1 = y1\<rparr>) ?runs = ?new" by (simp add: run_rects_def)
      have cap: "\<not> length ?new > cap" and run: "band_loop cap inputs (y1 # ys) ?new ?runs (length regions) = Some rs"
        using 1(11) False diff by (simp_all add: Let_def new split: if_splits)
      have "swept cap inputs (hd (y1 # ys)) ?new"
        unfolding list.sel by (rule swept_emit [OF sw ne lt(1) cover refl mem(1)]) (use cap split in auto)
      moreover have "remembered ?new ?runs (length regions) (hd (y1 # ys))"
        unfolding remembered_def by (rule disjI2, rule exI [of _ regions], rule exI [of _ y0]) (use lt(1) band_runs_spec(2) [OF ne] in simp)
      ultimately show ?thesis
        using 1(3) [OF refl False diff refl _ ne lt(2,3) mem(2) later, unfolded new] cap run by simp
    qed
  qed
qed auto

subsection \<open>Whole pixels\<close>

definition integral :: "double \<Rightarrow> bool" where
  "integral d \<longleftrightarrow> (\<exists>k :: int. d = Fin (of_int k))"

definition pixel_aligned :: "rect \<Rightarrow> bool" where
  "pixel_aligned r \<longleftrightarrow> integral (rx0 r) \<and> integral (ry0 r) \<and> integral (rx1 r) \<and> integral (ry1 r)"

definition inside :: "rect \<Rightarrow> rect \<Rightarrow> bool" where
  "inside d r \<longleftrightarrow> rx0 d \<le> rx0 r \<and> ry0 d \<le> ry0 r \<and> rx1 r \<le> rx1 d \<and> ry1 r \<le> ry1 d"

lemma inside_points: "inside d r \<Longrightarrow> rect_points r \<subseteq> rect_points d"
  unfolding inside_def by (intro rect_points_mono) simp_all

lemma inside_intersect: "inside d (rect_intersect r d)"
  by (simp add: inside_def rect_intersect_def)

lemma inside_union: "inside d a \<Longrightarrow> inside d b \<Longrightarrow> inside d (rect_union a b)"
  by (auto simp: inside_def rect_union_def)

lemma integral_minmax: "integral a \<Longrightarrow> integral b \<Longrightarrow> integral (max a b) \<and> integral (min a b)"
  by (simp add: max_def min_def)

lemma between_finite: "Fin a \<le> d \<Longrightarrow> d \<le> Fin b \<Longrightarrow> \<exists>q. d = Fin q"
  by (cases d) simp_all

lemma rounding: "integral (dfloor (Fin q))" "integral (dceil (Fin q))" "dfloor d \<le> d" "d \<le> dceil d"
proof -
  show "integral (dfloor (Fin q))" "integral (dceil (Fin q))" by (auto simp: integral_def)
  show "dfloor d \<le> d" by (cases d) simp_all
  show "d \<le> dceil d" by (cases d) simp_all
qed

lemma round_out_covers: "rect_points r \<subseteq> rect_points (round_out r)"
  by (rule rect_points_mono) (simp_all add: round_out_def rounding)

text \<open>A region of the viewport rounded out and clipped again.\<close>

lemma pixel_box:
  assumes w: "inside (rect_from_size w h) r" and ne: "\<not> rect_empty r"
  shows "pixel_aligned (rect_intersect (round_out r) (rect_from_size w h))"
    "rect_points r \<subseteq> rect_points (rect_intersect (round_out r) (rect_from_size w h))"
proof -
  let ?d = "rect_from_size w h"
  have i: "integral (rx0 ?d)" "integral (ry0 ?d)" "integral (rx1 ?d)" "integral (ry1 ?d)"
    unfolding integral_def rect_from_size_def rect.simps by (metis of_int_0)+
  have b: "Fin 0 \<le> rx0 r" "Fin 0 \<le> ry0 r" "rx1 r \<le> Fin (of_int w)" "ry1 r \<le> Fin (of_int h)"
    using w by (simp_all add: inside_def rect_from_size_def)
  have n: "rx0 r \<le> rx1 r" "ry0 r \<le> ry1 r" using ne by (auto simp: rect_empty_def)
  obtain q0 q1 q2 q3 where q: "rx0 r = Fin q0" "ry0 r = Fin q1" "rx1 r = Fin q2" "ry1 r = Fin q3"
    using between_finite [OF b(1) order_trans [OF n(1) b(3)]] between_finite [OF b(2) order_trans [OF n(2) b(4)]]
      between_finite [OF order_trans [OF b(1) n(1)] b(3)] between_finite [OF order_trans [OF b(2) n(2)] b(4)] by blast
  show "pixel_aligned (rect_intersect (round_out r) ?d)"
    unfolding pixel_aligned_def rect_intersect_def round_out_def rect.simps q
    using integral_minmax i rounding(1,2) by blast
  show "rect_points r \<subseteq> rect_points (rect_intersect (round_out r) ?d)"
    using round_out_covers [of r] inside_points [OF w] by (simp add: rect_points_intersect)
qed

lemma integer_inputs_spec:
  fixes w h :: int
  defines "d \<equiv> rect_from_size w h"
  shows "(\<forall>r \<in> set (integer_inputs d dirty). \<not> rect_empty r \<and> pixel_aligned r \<and> inside d r) \<and>
    covered dirty \<inter> rect_points d \<subseteq> covered (integer_inputs d dirty)"
proof (induction dirty)
  case (Cons r rs)
  let ?c = "rect_intersect r d" and ?b = "rect_intersect (round_out (rect_intersect r d)) d"
  have pts: "covered (r # rs) \<inter> rect_points d = rect_points ?c \<union> (covered rs \<inter> rect_points d)"
    by (auto simp: covered_def rect_points_intersect)
  show ?case
  proof (cases "rect_empty ?c")
    case True
    then show ?thesis using Cons.IH rect_points_empty [OF True] unfolding pts by simp
  next
    case False
    note p = pixel_box [OF inside_intersect [of "rect_from_size w h" r] False [unfolded d_def], folded d_def]
    have "\<not> rect_empty ?b"
      using rect_points_empty [of ?b] rect_points_nonempty [OF False] p(2) by blast
    moreover have "covered (?b # integer_inputs d rs) = rect_points ?b \<union> covered (integer_inputs d rs)" by (simp add: covered_def)
    ultimately show ?thesis using Cons.IH False p inside_intersect [of d] unfolding pts by (simp add: Let_def) blast
  qed
qed (simp add: covered_def)

subsection \<open>The bounding box covers\<close>

lemma box_fold:
  fixes w h :: int
  defines "d \<equiv> rect_from_size w h"
  shows "rect_empty box \<or> inside d box \<Longrightarrow>
    (rect_empty (foldl (box_step d) box dirty) \<or> inside d (foldl (box_step d) box dirty)) \<and>
    rect_points box \<union> (covered dirty \<inter> rect_points d) \<subseteq> rect_points (foldl (box_step d) box dirty)"
proof (induction dirty arbitrary: box)
  case (Cons r rs)
  let ?c = "rect_intersect r d"
  have pts: "covered (r # rs) \<inter> rect_points d = rect_points ?c \<union> (covered rs \<inter> rect_points d)"
    by (auto simp: covered_def rect_points_intersect)
  have step: "rect_empty (box_step d box r) \<or> inside d (box_step d box r)"
    "rect_points box \<union> rect_points ?c \<subseteq> rect_points (box_step d box r)"
    using Cons.prems inside_intersect [of d r] inside_union [of d box ?c] rect_union_covers [of box ?c] rect_points_empty [of ?c]
    by (auto simp: box_step_def Let_def) (simp add: rect_union_def)
  show ?case using Cons.IH [OF step(1)] step(2) unfolding pts by simp blast
qed (simp add: covered_def)

lemma repaint_region_spec:
  "pixel_aligned (repaint_region dirty (w, h)) \<and> rect_points (repaint_region dirty (w, h)) \<subseteq> rect_points (rect_from_size w h) \<and>
    covered dirty \<inter> rect_points (rect_from_size w h) \<subseteq> rect_points (repaint_region dirty (w, h))"
proof -
  let ?d = "rect_from_size w h"
  let ?box = "foldl (box_step ?d) rect_default dirty"
  have e: "rect_empty rect_default" by (simp add: rect_empty_def rect_default_def)
  note b = box_fold [of rect_default w h dirty] e
  show ?thesis
  proof (cases "rect_empty ?box")
    case True
    have "repaint_region dirty (w, h) = rect_default" using True by (simp add: repaint_region_def Let_def)
    moreover have "pixel_aligned rect_default"
      unfolding pixel_aligned_def rect_default_def integral_def rect.simps by (metis of_int_0)
    ultimately show ?thesis using b rect_points_empty [OF True] rect_points_empty [OF e] by auto
  next
    case False
    then have w: "inside ?d ?box" using b by blast
    have "repaint_region dirty (w, h) = rect_intersect (round_out ?box) ?d" using False by (simp add: repaint_region_def Let_def)
    then show ?thesis using pixel_box [OF w False] b by (auto simp: rect_points_intersect)
  qed
qed

subsection \<open>The repaint set\<close>

lemma strict_remdups_adj: "sorted xs \<Longrightarrow> sorted_wrt (<) (remdups_adj xs)" for xs :: "'a :: linorder list"
proof (induction xs rule: remdups_adj.induct)
  case (3 x y xs)
  then show ?case by (cases "x = y") (auto intro: less_le_trans)
qed simp_all

lemma band_edges_spec:
  "sorted_wrt (<) (band_edges inputs)" "set (band_edges inputs) = ry0 ` set inputs \<union> ry1 ` set inputs"
  unfolding band_edges_def by (rule strict_remdups_adj, simp) auto

lemma edges_pixel: "edges_of inputs r \<Longrightarrow> \<forall>r \<in> set inputs. pixel_aligned r \<Longrightarrow> pixel_aligned r"
  by (auto simp: edges_of_def pixel_aligned_def)

lemma sweep_partition:
  assumes ne: "\<forall>r \<in> set inputs. \<not> rect_empty r" and some: "inputs \<noteq> []"
    and run: "band_loop cap inputs (band_edges inputs) [] [] 0 = Some rs"
  shows "covered rs = covered inputs" "sorted_wrt apart rs" "\<forall>r \<in> set rs. edges_of inputs r" "length rs \<le> cap"
proof -
  let ?es = "band_edges inputs"
  note es = band_edges_spec [of inputs]
  obtain r0 where r0: "r0 \<in> set inputs" using some by (cases inputs) auto
  have es0: "?es \<noteq> []" using es(2) r0 by auto
  have lo: "hd ?es \<le> e" if "e \<in> set ?es" for e
    using that es(1) es0 by (cases ?es) auto
  have hi: "e \<le> last ?es" if "e \<in> set ?es" for e
    using that es(1) es0 by (cases ?es rule: rev_cases) (auto simp: sorted_wrt_append)
  have "swept cap inputs (hd ?es) []"
  proof (rule sweptI)
    fix x y
    have "hd ?es \<le> ry0 r" if "r \<in> set inputs" for r using lo es(2) that by auto
    then have "hd ?es \<le> y" if "(x, y) \<in> covered inputs"
      using that by (auto simp: covered_def rect_points_def intro: order_trans)
    then have "\<not> ((x, y) \<in> covered inputs \<and> y < hd ?es)" using leD by blast
    moreover have "(x, y) \<notin> covered []" by (simp add: covered_def)
    ultimately show "(x, y) \<in> covered [] \<longleftrightarrow> (x, y) \<in> covered inputs \<and> y < hd ?es" by blast
  qed simp_all
  from band_loop_spec [OF ne es(1) es0 _ _ this _ run] have sw: "swept cap inputs (last ?es) rs"
    using es(2) by (auto simp: remembered_def)
  have "y < last ?es" if c: "(x, y) \<in> covered inputs" for x y
  proof -
    obtain r where r: "r \<in> set inputs" "y < ry1 r" using c by (auto simp: covered_def rect_points_def)
    have "ry1 r \<le> last ?es" by (rule hi) (use es(2) r(1) in simp)
    then show ?thesis using r(2) by simp
  qed
  then show "covered rs = covered inputs" using sweptD [OF sw] by auto
  show "sorted_wrt apart rs" "\<forall>r \<in> set rs. edges_of inputs r" "length rs \<le> cap" using sw by (simp_all add: swept_def)
qed

text \<open>
  C14: The repaint set of a frame is disjoint, pixel-aligned and within the viewport, has at most sixty-four
  rectangles, and misses no damaged pixel; and unless the sweep was given up at the cap, where the bounding box
  stands in, it covers exactly what the damage clipped to the viewport and rounded out covers.
\<close>

theorem repaint_regions_partition:
  assumes "device = rect_from_size w h" "rs = repaint_regions dirty (w, h)"
  shows "sorted_wrt apart rs \<and> (\<forall>r \<in> set rs. pixel_aligned r \<and> rect_points r \<subseteq> rect_points device) \<and>
    length rs \<le> k_max_repaint_rects \<and> covered dirty \<inter> rect_points device \<subseteq> covered rs \<and>
    (covered rs = covered (integer_inputs device dirty) \<or>
     rs = [repaint_region dirty (w, h)] \<and>
       band_loop k_max_repaint_rects (integer_inputs device dirty) (band_edges (integer_inputs device dirty)) [] [] 0 = None)"
proof -
  let ?in = "integer_inputs device dirty"
  have i: "\<forall>r \<in> set ?in. \<not> rect_empty r" "\<forall>r \<in> set ?in. pixel_aligned r" "\<forall>r \<in> set ?in. rect_points r \<subseteq> rect_points device"
    "covered dirty \<inter> rect_points device \<subseteq> covered ?in"
    using integer_inputs_spec [where w = w and h = h and dirty = dirty, folded assms(1)] inside_points by blast+
  show ?thesis
  proof (cases "?in = []")
    case True
    then have "rs = []" by (simp add: assms(2) repaint_regions_def Let_def assms(1))
    then show ?thesis using True i(4) by simp
  next
    case False
    show ?thesis
    proof (cases "band_loop k_max_repaint_rects ?in (band_edges ?in) [] [] 0")
      case None
      then have rs: "rs = [repaint_region dirty (w, h)]" using False by (simp add: assms(2) repaint_regions_def Let_def assms(1))
      have c: "covered rs = rect_points (repaint_region dirty (w, h))" unfolding rs by (simp add: covered_def)
      show ?thesis using repaint_region_spec [of dirty w h] None unfolding c unfolding rs assms(1)
        by (simp add: k_max_repaint_rects_def)
    next
      case (Some regions)
      then have rs: "rs = regions" using False by (simp add: assms(2) repaint_regions_def Let_def assms(1))
      note s = sweep_partition [OF i(1) False Some, folded rs]
      have "rect_points r \<subseteq> rect_points device" if "r \<in> set rs" for r
      proof -
        have "rect_points r \<subseteq> covered ?in" using that s(1) by (auto simp: covered_def)
        then show ?thesis using i(3) by (auto simp: covered_def)
      qed
      moreover have "\<forall>r \<in> set rs. pixel_aligned r" using s(3) edges_pixel i(2) by blast
      ultimately show ?thesis using s i(4) by simp
    qed
  qed
qed

theorem repaint_regions_partition_witness:
  "covered [small_rect 1 3, rect_infinite] \<inter> rect_points (rect_from_size 8 4) \<subseteq>
     covered (repaint_regions [small_rect 1 3, rect_infinite] (8, 4))"
  using repaint_regions_partition [OF refl refl, where w = 8 and h = 4 and dirty = "[small_rect 1 3, rect_infinite]"] by simp

subsection \<open>The frame's invalidation\<close>

text \<open>The tiles a damage record names.\<close>

definition names_tile :: "(int \<Rightarrow> int \<times> int \<Rightarrow> rect) \<Rightarrow> damage \<Rightarrow> tile_key \<Rightarrow> bool" where
  "names_tile tile_rect d key \<longleftrightarrow> tk_content key = dm_object d \<and>
     (\<not> rect_is_finite (dm_rect d) \<or> overlaps tile_rect key (dm_rect d))"

lemma invalidate_one:
  "(if \<not> rect_is_finite (dm_rect d) then invalidate_content (dm_object d) s
    else invalidate_region tile_rect (dm_object d) (dm_rect d) s) = remove_if (names_tile tile_rect d) s"
proof (cases "rect_is_finite (dm_rect d)")
  case True
  then have "names_tile tile_rect d = (\<lambda>key. tk_content key = dm_object d \<and> overlaps tile_rect key (dm_rect d))"
    by (simp add: names_tile_def fun_eq_iff)
  then show ?thesis using True by (simp add: invalidate_region_sweep)
next
  case False
  then have "names_tile tile_rect d = (\<lambda>key. tk_content key = dm_object d)" by (simp add: names_tile_def fun_eq_iff)
  then show ?thesis using False by (simp add: invalidate_content_def)
qed

lemma finite_cached: "finite (dom (cached s))"
proof -
  have "dom (cached s) = dom (map_of (ks_map s))" by (auto simp: cached_def dom_def)
  then show ?thesis by (simp add: finite_dom_map_of)
qed

lemma invalidate_damage_sweep:
  "\<exists>h. ks_inv h s \<Longrightarrow>
    cached (fst (invalidate_damage tile_rect ds s)) = cached (fst (remove_if (\<lambda>key. \<exists>d \<in> set ds. names_tile tile_rect d key) s)) \<and>
    snd (invalidate_damage tile_rect ds s) = snd (remove_if (\<lambda>key. \<exists>d \<in> set ds. names_tile tile_rect d key) s)"
proof (induction ds arbitrary: s)
  case Nil
  show ?case using store.sweep_entries [OF Nil] store.sweep_count [OF Nil] by (simp add: fun_eq_iff)
next
  case (Cons d ds)
  let ?p = "names_tile tile_rect d" and ?q = "\<lambda>key. \<exists>d \<in> set ds. names_tile tile_rect d key"
  have eq: "(\<lambda>key. \<exists>d' \<in> set (d # ds). names_tile tile_rect d' key) = (\<lambda>key. ?p key \<or> ?q key)" by (simp add: fun_eq_iff)
  have run: "fst (invalidate_damage tile_rect (d # ds) s) = fst (invalidate_damage tile_rect ds (fst (remove_if ?p s)))"
    "snd (invalidate_damage tile_rect (d # ds) s) = snd (remove_if ?p s) + snd (invalidate_damage tile_rect ds (fst (remove_if ?p s)))"
    unfolding invalidate_damage.simps invalidate_one by (simp_all add: split_beta)
  note ih = Cons.IH [OF store.sweep_inv [OF Cons.prems], of ?p]
  show ?case unfolding run eq
  proof
    show "cached (fst (invalidate_damage tile_rect ds (fst (remove_if ?p s)))) = cached (fst (remove_if (\<lambda>key. ?p key \<or> ?q key) s))"
      using ih store.sweep_twice [OF Cons.prems, of ?q ?p] by (simp only:)
    show "snd (remove_if ?p s) + snd (invalidate_damage tile_rect ds (fst (remove_if ?p s))) = snd (remove_if (\<lambda>key. ?p key \<or> ?q key) s)"
      using ih store.sweep_twice_count [OF Cons.prems finite_cached, of ?p ?q] by (simp only:)
  qed
qed

text \<open>
  C18: A frame's damage invalidates exactly the tiles it names: a tile is gone afterwards if some record is of its
  content and has a region that is not finite or touches the tile, every other tile is found as before, and the
  count returned is the number of tiles that went, none counted twice.
\<close>

theorem frame_damage_invalidates_exactly:
  assumes "cache_run budget h s" "invalidate_damage tile_rect ds s = (s', n)"
  shows "(\<forall>key. cached s' key = (if \<exists>d \<in> set ds. names_tile tile_rect d key then None else cached s key)) \<and>
    n = card {key \<in> dom (cached s). \<exists>d \<in> set ds. names_tile tile_rect d key}"
proof -
  have inv: "\<exists>h. ks_inv h s" using run_inv [OF assms(1)] by blast
  show ?thesis using invalidate_damage_sweep [OF inv, of tile_rect ds] assms(2)
      store.sweep_entries [OF inv] store.sweep_count [OF inv] by simp
qed

theorem frame_damage_invalidates_exactly_witness:
  "\<exists>s' n. invalidate_damage grid_rect [full_damage 3, full_damage 3] tile_store = (s', n) \<and> cached s' origin_tile = None"
proof -
  obtain s' n where r: "invalidate_damage grid_rect [full_damage 3, full_damage 3] tile_store = (s', n)"
    by (cases "invalidate_damage grid_rect [full_damage 3, full_damage 3] tile_store")
  have "names_tile grid_rect (full_damage 3) origin_tile"
    by (simp add: names_tile_def full_damage_def origin_tile_def rect_is_finite_def rect_infinite_def)
  then have "cached s' origin_tile = None" using frame_damage_invalidates_exactly [OF tile_store_run r] by simp
  then show ?thesis using r by blast
qed

end
