(* ===== verification/Workspace_File.thy ===== *)
theory Workspace_File
  imports Slot_Store
begin

text \<open>
  \<open>pool/workspace_file.hpp\<close> and \<open>pool/workspace_file.cpp\<close>: the file-backed chunk source. A file
  is a fixed header, a chunk directory, two store-table snapshots (one per root slot) and the data
  chunks. The model keeps the mapped header (\<open>header_map\<close>) and the runtime state around it. System
  calls are arguments: each gives \<open>None\<close> or the errno it failed with, and a mapping call the base
  address it returned. Offsets and sizes are 64-bit and their sums wrap where the code's do.
\<close>

subsection \<open>Errors and layout\<close>

datatype workspace_errc =
    WOk | Unsupported | OpenFailed | HeaderIoFailed | BadMagic | UnsupportedFormat | GrowFailed
  | DirectoryFull | StoreLayoutMismatch | MaxStoresExceeded | StoreDirectoryInconsistent

record workspace_error =
  we_code :: workspace_errc
  we_errno :: int

abbreviation werr :: "workspace_errc \<Rightarrow> int \<Rightarrow> workspace_error" where
  "werr c e \<equiv> \<lparr>we_code = c, we_errno = e\<rparr>"

text \<open>The fixed header; the two root slots are kept with the snapshots they own.\<close>

record workspace_header =
  wh_magic :: "64 word"
  wh_format_major :: "32 word"
  wh_format_minor :: "32 word"
  wh_page_size :: "32 word"
  wh_max_chunks :: "32 word"
  wh_data_offset :: "64 word"
  wh_chunk_count :: "64 word"
  wh_store_table_offset :: "64 word"
  wh_max_stores :: "64 word"

record chunk_entry =
  ce_offset :: nat
  ce_size :: nat
  ce_state :: nat
  ce_owner :: nat

record store_entry =
  se_stride :: "32 word"
  se_align :: "32 word"
  se_chunk_slots :: "32 word"
  se_high_water :: "32 word"

record store_snapshot =
  sn_generation :: "32 word"
  sn_rows :: "store_entry list"

definition workspace_magic :: "64 word" where "workspace_magic = 0x4642535743425241"
definition format_major :: "32 word" where "format_major = 3"
definition format_minor :: "32 word" where "format_minor = 0"
definition default_max_chunks :: nat where "default_max_chunks = 16384"
definition default_max_stores :: nat where "default_max_stores = 16"
definition no_owner :: nat where "no_owner = 0xFFFFFFFF"
definition chunk_free :: nat where "chunk_free = 0"
definition chunk_live :: nat where "chunk_live = 1"
definition sizeof_header :: nat where "sizeof_header = 112"
definition sizeof_chunk_entry :: nat where "sizeof_chunk_entry = 24"
definition sizeof_store_entry :: nat where "sizeof_store_entry = 16"
definition sizeof_snapshot :: nat where "sizeof_snapshot = 8"
definition max_align :: nat where "max_align = 16"

lemmas sizeof_defs = sizeof_header_def sizeof_chunk_entry_def sizeof_store_entry_def sizeof_snapshot_def

definition unused_row :: store_entry where
  "unused_row = \<lparr>se_stride = 0, se_align = 0, se_chunk_slots = 0, se_high_water = 0\<rparr>"

definition zero_entry :: chunk_entry where
  "zero_entry = \<lparr>ce_offset = 0, ce_size = 0, ce_state = chunk_free, ce_owner = 0\<rparr>"

text \<open>The A/B index \<open>0\<close> or \<open>1\<close> of a root slot and its snapshot; \<open>^ 1\<close> is \<open>other\<close>.\<close>

datatype ab = SlotA | SlotB

definition other :: "ab \<Rightarrow> ab" where "other x = (case x of SlotA \<Rightarrow> SlotB | SlotB \<Rightarrow> SlotA)"

lemma other_simps [simp]: "other SlotA = SlotB" "other SlotB = SlotA" "other (other x) = x" "other x \<noteq> x" "x \<noteq> other x"
  by (cases x; simp add: other_def)+

lemma ab_cases: "x = a \<or> x = other (a :: ab)"
  by (cases x; cases a) simp_all

lemma ab_neq: "x \<noteq> a \<longleftrightarrow> x = other (a :: ab)"
  by (cases x; cases a) simp_all

record header_map =
  hm_header :: workspace_header
  hm_root :: "ab \<Rightarrow> 64 word"
  hm_dir :: "chunk_entry list"
  hm_snap :: "ab \<Rightarrow> store_snapshot"

record live_chunk =
  lc_offset :: nat
  lc_size :: nat
  lc_index :: nat

text \<open>A reopened chunk is its base address with the same three fields.\<close>

record workspace_source =
  ws_page :: nat
  ws_max_chunks :: nat
  ws_data_offset :: nat
  ws_next_offset :: nat
  ws_chunk_count :: nat
  ws_map :: header_map
  ws_live :: "(nat \<times> live_chunk) list"
  ws_reopened :: "(nat \<times> live_chunk) list"
  ws_reopened_cursor :: nat
  ws_max_stores :: nat
  ws_views :: "bool list"
  ws_store_reopened :: "(nat \<times> live_chunk) list list"
  ws_store_cursor :: "nat list"
  ws_restored :: "store_entry list"
  ws_bind_error :: workspace_error
  ws_from_file :: bool
  ws_adopted :: bool
  ws_fence :: bool
  ws_last_error :: workspace_error
  ws_punched :: "(nat \<times> nat) list"

definition row :: "ab \<Rightarrow> nat \<Rightarrow> workspace_source \<Rightarrow> store_entry" where
  "row x r s = sn_rows (hm_snap (ws_map s) x) ! r"

definition map_row :: "ab \<Rightarrow> nat \<Rightarrow> (store_entry \<Rightarrow> store_entry) \<Rightarrow> header_map \<Rightarrow> header_map" where
  "map_row x r f m =
     (let sn = hm_snap m x
      in m\<lparr>hm_snap := (hm_snap m)(x := sn\<lparr>sn_rows := (sn_rows sn)[r := f (sn_rows sn ! r)]\<rparr>)\<rparr>)"

subsection \<open>Creating a file\<close>

definition init_store_directory :: "nat \<Rightarrow> workspace_source \<Rightarrow> workspace_source" where
  "init_store_directory max_stores s =
     s\<lparr>ws_max_stores := max_stores, ws_views := replicate max_stores False,
       ws_store_reopened := replicate max_stores [], ws_store_cursor := replicate max_stores 0,
       ws_restored := replicate max_stores unused_row\<rparr>"

definition source_new :: "nat \<Rightarrow> nat \<Rightarrow> nat \<Rightarrow> nat \<Rightarrow> nat \<Rightarrow> header_map \<Rightarrow> workspace_source" where
  "source_new page chunk_cap data_offset next_offset chunks m =
     \<lparr>ws_page = page, ws_max_chunks = chunk_cap, ws_data_offset = data_offset, ws_next_offset = next_offset,
      ws_chunk_count = chunks, ws_map = m, ws_live = [], ws_reopened = [], ws_reopened_cursor = 0,
      ws_max_stores = 0, ws_views = [], ws_store_reopened = [], ws_store_cursor = [], ws_restored = [],
      ws_bind_error = werr WOk 0, ws_from_file = False, ws_adopted = False, ws_fence = False,
      ws_last_error = werr WOk 0, ws_punched = []\<rparr>"

definition fresh_header :: "nat \<Rightarrow> nat \<Rightarrow> nat \<Rightarrow> nat \<Rightarrow> nat \<Rightarrow> workspace_header" where
  "fresh_header page chunk_cap data_offset table_offset max_stores =
     \<lparr>wh_magic = workspace_magic, wh_format_major = format_major, wh_format_minor = format_minor,
      wh_page_size = of_nat page, wh_max_chunks = of_nat chunk_cap, wh_data_offset = of_nat data_offset,
      wh_chunk_count = 0, wh_store_table_offset = of_nat table_offset, wh_max_stores = of_nat max_stores\<rparr>"

definition fresh_map :: "workspace_header \<Rightarrow> nat \<Rightarrow> nat \<Rightarrow> header_map" where
  "fresh_map h chunk_cap max_stores =
     \<lparr>hm_header = h, hm_root = (\<lambda>_. 0), hm_dir = replicate chunk_cap zero_entry,
      hm_snap = (\<lambda>_. \<lparr>sn_generation = 0, sn_rows = replicate max_stores unused_row\<rparr>)\<rparr>"

text \<open>The layout \<open>create\<close> computes: the store table after the directory, page-aligned, then the data.\<close>

definition layout_or :: "nat \<Rightarrow> nat \<Rightarrow> nat" where
  "layout_or asked dflt = (if asked = 0 then dflt else asked)"

definition snapshot_bytes :: "nat \<Rightarrow> nat" where
  "snapshot_bytes max_stores = sizeof_snapshot + max_stores * sizeof_store_entry"

definition table_offset :: "nat \<Rightarrow> nat \<Rightarrow> nat" where
  "table_offset page chunk_cap = align_up (sizeof_header + chunk_cap * sizeof_chunk_entry) page"

definition ws_create ::
  "int \<Rightarrow> int option \<Rightarrow> (nat \<Rightarrow> int option) \<Rightarrow> (nat \<Rightarrow> int option) \<Rightarrow> nat \<Rightarrow> nat \<Rightarrow> workspace_error + workspace_source" where
  "ws_create page_query io_open io_ftruncate io_map asked_chunks asked_stores =
     (let page = (if page_query > 0 then nat page_query else 4096);
          chunk_cap = layout_or asked_chunks default_max_chunks;
          max_stores = layout_or asked_stores default_max_stores
      in if snapshot_bytes max_stores > page then Inl (werr MaxStoresExceeded 0)
         else
           let table = table_offset page chunk_cap; header_bytes = table + 2 * page
           in case io_open of Some e \<Rightarrow> Inl (werr OpenFailed e) | None \<Rightarrow>
             (case io_ftruncate header_bytes of Some e \<Rightarrow> Inl (werr HeaderIoFailed e) | None \<Rightarrow>
             (case io_map header_bytes of Some e \<Rightarrow> Inl (werr HeaderIoFailed e) | None \<Rightarrow>
                Inr (init_store_directory max_stores
                  (source_new page chunk_cap header_bytes header_bytes 0
                    (fresh_map (fresh_header page chunk_cap header_bytes table max_stores) chunk_cap max_stores))))))"

subsection \<open>The store table\<close>

fun find_store :: "32 word \<Rightarrow> 32 word \<Rightarrow> store_entry list \<Rightarrow> nat \<Rightarrow> nat" where
  "find_store stride al [] r = no_owner"
| "find_store stride al (e # es) r =
     (if se_stride e = stride \<and> se_align e = al then r else find_store stride al es (r + 1))"

definition store_id :: "32 word \<Rightarrow> 32 word \<Rightarrow> workspace_source \<Rightarrow> nat" where
  "store_id stride al s = find_store stride al (sn_rows (hm_snap (ws_map s) SlotA)) 0"

definition publish_store_high_water :: "ab \<Rightarrow> nat \<Rightarrow> 32 word \<Rightarrow> header_map \<Rightarrow> header_map" where
  "publish_store_high_water x i hw = map_row x i (\<lambda>e. e\<lparr>se_high_water := hw\<rparr>)"

definition snapshot_generation :: "ab \<Rightarrow> header_map \<Rightarrow> 32 word" where
  "snapshot_generation x m = sn_generation (hm_snap m x)"

definition publish_snapshot_generation :: "ab \<Rightarrow> 32 word \<Rightarrow> header_map \<Rightarrow> header_map" where
  "publish_snapshot_generation x g m = m\<lparr>hm_snap := (hm_snap m)(x := (hm_snap m x)\<lparr>sn_generation := g\<rparr>)\<rparr>"

definition publish_root_slot :: "ab \<Rightarrow> 64 word \<Rightarrow> header_map \<Rightarrow> header_map" where
  "publish_root_slot x v m = m\<lparr>hm_root := (hm_root m)(x := v)\<rparr>"

text \<open>The scan of \<open>store_view\<close>: the matching row, and the first unused one seen before it.\<close>

fun bind_scan :: "32 word \<Rightarrow> 32 word \<Rightarrow> store_entry list \<Rightarrow> nat \<Rightarrow> nat option \<Rightarrow> nat option \<times> nat option" where
  "bind_scan stride al [] r free_row = (None, free_row)"
| "bind_scan stride al (e # es) r free_row =
     (if se_stride e = 0 then bind_scan stride al es (r + 1) (if free_row = None then Some r else free_row)
      else if se_stride e \<noteq> stride \<or> se_align e \<noteq> al then bind_scan stride al es (r + 1) free_row
      else (Some r, free_row))"

definition refuse :: "workspace_errc \<Rightarrow> workspace_source \<Rightarrow> workspace_source \<times> (workspace_error + nat)" where
  "refuse c s = (s\<lparr>ws_bind_error := werr c 0\<rparr>, Inl (werr c 0))"

text \<open>A store view is named by its row.\<close>

definition store_view ::
  "32 word \<Rightarrow> 32 word \<Rightarrow> 32 word \<Rightarrow> workspace_source \<Rightarrow> workspace_source \<times> (workspace_error + nat)" where
  "store_view stride al slots s =
     (if ws_max_stores s = 0 then refuse Unsupported s
      else if ws_from_file s \<and> \<not> ws_adopted s then refuse StoreDirectoryInconsistent s
      else case bind_scan stride al (sn_rows (hm_snap (ws_map s) SlotA)) 0 None of
        (Some r, _) \<Rightarrow>
          if se_chunk_slots (row SlotA r s) \<noteq> slots then refuse StoreLayoutMismatch s
          else
            let stamp = (\<lambda>e. e\<lparr>se_stride := stride, se_align := al, se_chunk_slots := slots\<rparr>)
            in (s\<lparr>ws_map := map_row SlotB r stamp (map_row SlotA r stamp (ws_map s)),
                  ws_views := (ws_views s)[r := True]\<rparr>, Inr r)
      | (None, None) \<Rightarrow> refuse MaxStoresExceeded s
      | (None, Some r) \<Rightarrow>
          let e = \<lparr>se_stride = stride, se_align = al, se_chunk_slots = slots, se_high_water = 0\<rparr>
          in (s\<lparr>ws_map := map_row SlotB r (\<lambda>_. e) (map_row SlotA r (\<lambda>_. e) (ws_map s)),
                ws_restored := (ws_restored s)[r := e], ws_views := (ws_views s)[r := True]\<rparr>, Inr r))"

subsection \<open>Chunks\<close>

definition live_put :: "nat \<Rightarrow> live_chunk \<Rightarrow> workspace_source \<Rightarrow> workspace_source" where
  "live_put base c s = (if base \<in> fst ` set (ws_live s) then s else s\<lparr>ws_live := ws_live s @ [(base, c)]\<rparr>)"

definition grow ::
  "(nat \<Rightarrow> int option) \<Rightarrow> (nat \<Rightarrow> nat \<Rightarrow> int + nat) \<Rightarrow> nat \<Rightarrow> nat \<Rightarrow> workspace_source \<Rightarrow>
     workspace_source \<times> (pool_error + nat \<times> nat)" where
  "grow io_ftruncate io_mmap sz owner s =
     (if ws_chunk_count s \<ge> ws_max_chunks s
      then (s\<lparr>ws_last_error := werr DirectoryFull 0\<rparr>, Inl OutOfMemory)
      else
        let rounded = align_up (if sz = 0 then 1 else sz) (ws_page s); offset = ws_next_offset s;
            new_end = (offset + rounded) mod 2 ^ 64
        in case io_ftruncate new_end of
          Some e \<Rightarrow> (s\<lparr>ws_last_error := werr GrowFailed e\<rparr>, Inl OutOfMemory)
        | None \<Rightarrow>
          (case io_mmap rounded offset of
             Inl e \<Rightarrow> (s\<lparr>ws_last_error := werr GrowFailed e\<rparr>, Inl OutOfMemory)
           | Inr base \<Rightarrow>
               let i = ws_chunk_count s; m = ws_map s;
                   e = \<lparr>ce_offset = offset, ce_size = rounded, ce_state = chunk_live, ce_owner = owner\<rparr>
               in (live_put base \<lparr>lc_offset = offset, lc_size = rounded, lc_index = i\<rparr>
                     (s\<lparr>ws_map := m\<lparr>hm_dir := (hm_dir m)[i := e],
                        hm_header := (hm_header m)\<lparr>wh_chunk_count := of_nat (i + 1)\<rparr>\<rparr>,
                        ws_chunk_count := i + 1, ws_next_offset := new_end\<rparr>), Inr (base, rounded))))"

definition acquire ::
  "(nat \<Rightarrow> int option) \<Rightarrow> (nat \<Rightarrow> nat \<Rightarrow> int + nat) \<Rightarrow> nat \<Rightarrow> workspace_source \<Rightarrow>
     workspace_source \<times> (pool_error + nat \<times> nat)" where
  "acquire io_ftruncate io_mmap sz s =
     (if ws_reopened_cursor s < length (ws_reopened s)
      then let (base, c) = ws_reopened s ! ws_reopened_cursor s
           in (live_put base c (s\<lparr>ws_reopened_cursor := ws_reopened_cursor s + 1\<rparr>), Inr (base, lc_size c))
      else grow io_ftruncate io_mmap sz no_owner s)"

definition acquire_for ::
  "(nat \<Rightarrow> int option) \<Rightarrow> (nat \<Rightarrow> nat \<Rightarrow> int + nat) \<Rightarrow> nat \<Rightarrow> nat \<Rightarrow> workspace_source \<Rightarrow>
     workspace_source \<times> (pool_error + nat \<times> nat)" where
  "acquire_for io_ftruncate io_mmap r sz s =
     (let queue = ws_store_reopened s ! r; cursor = ws_store_cursor s ! r
      in if cursor < length queue
         then let (base, c) = queue ! cursor
              in (live_put base c (s\<lparr>ws_store_cursor := (ws_store_cursor s)[r := cursor + 1]\<rparr>), Inr (base, lc_size c))
         else grow io_ftruncate io_mmap sz r s)"

definition punch_now :: "(nat \<Rightarrow> nat \<Rightarrow> int option) \<Rightarrow> live_chunk \<Rightarrow> workspace_source \<Rightarrow> workspace_source" where
  "punch_now io_fallocate c s =
     (let s = (case io_fallocate (lc_offset c) (lc_size c) of
                 Some e \<Rightarrow> s\<lparr>ws_last_error := werr GrowFailed e\<rparr>
               | None \<Rightarrow> s\<lparr>ws_punched := ws_punched s @ [(lc_offset c, lc_size c)]\<rparr>);
          m = ws_map s; i = lc_index c
      in s\<lparr>ws_map := m\<lparr>hm_dir := (hm_dir m)[i := (hm_dir m ! i)\<lparr>ce_state := chunk_free\<rparr>]\<rparr>\<rparr>)"

text \<open>\<open>release\<close>: with a fence the chunk is handed to it, else it is punched at once.\<close>

definition ws_release ::
  "(nat \<Rightarrow> nat \<Rightarrow> int option) \<Rightarrow> nat \<Rightarrow> workspace_source \<Rightarrow> workspace_source \<times> live_chunk option" where
  "ws_release io_fallocate base s =
     (case map_of (ws_live s) base of
        None \<Rightarrow> (s, None)
      | Some c \<Rightarrow>
          let s = s\<lparr>ws_live := filter (\<lambda>p. fst p \<noteq> base) (ws_live s)\<rparr>
          in if ws_fence s then (s, Some c) else (punch_now io_fallocate c s, None))"

fun sync_chunks :: "(nat \<Rightarrow> int option) \<Rightarrow> (nat \<times> live_chunk) list \<Rightarrow> nat \<Rightarrow> int + nat" where
  "sync_chunks io_msync [] synced = Inr synced"
| "sync_chunks io_msync ((base, c) # cs) synced =
     (case io_msync (lc_offset c) of Some e \<Rightarrow> Inl e | None \<Rightarrow> sync_chunks io_msync cs (synced + 1))"

definition sync_data :: "(nat \<Rightarrow> int option) \<Rightarrow> workspace_source \<Rightarrow> workspace_source \<times> (workspace_error + nat)" where
  "sync_data io_msync s =
     (case sync_chunks io_msync (ws_live s) 0 of
        Inl e \<Rightarrow> (s\<lparr>ws_last_error := werr HeaderIoFailed e\<rparr>, Inl (werr HeaderIoFailed e))
      | Inr n \<Rightarrow> (s, Inr n))"

definition sync_header :: "int option \<Rightarrow> workspace_source \<Rightarrow> workspace_source \<times> (workspace_error + unit)" where
  "sync_header io_msync s =
     (case io_msync of
        Some e \<Rightarrow> (s\<lparr>ws_last_error := werr HeaderIoFailed e\<rparr>, Inl (werr HeaderIoFailed e))
      | None \<Rightarrow> (s, Inr ()))"

subsection \<open>Opening a file\<close>

text \<open>A file as \<open>open\<close> finds it: its header region and its length.\<close>

record file_image =
  fi_map :: header_map
  fi_size :: nat

definition page_or :: "workspace_header \<Rightarrow> 64 word" where
  "page_or h = (if wh_page_size h \<noteq> 0 then ucast (wh_page_size h) else 4096)"

definition geometry_ok :: "workspace_header \<Rightarrow> bool" where
  "geometry_ok h =
     (let page = page_or h;
          directory_end = of_nat sizeof_header + ucast (wh_max_chunks h) * of_nat sizeof_chunk_entry;
          max_rows = (page - of_nat sizeof_snapshot) div of_nat sizeof_store_entry
      in \<not> (page \<le> of_nat sizeof_snapshot \<or> wh_max_stores h = 0 \<or> wh_max_stores h > max_rows \<or>
            wh_store_table_offset h mod page \<noteq> 0 \<or> wh_store_table_offset h < directory_end \<or>
            wh_store_table_offset h > wh_data_offset h \<or>
            2 * page > wh_data_offset h - wh_store_table_offset h))"

definition check_header :: "workspace_header \<Rightarrow> workspace_error option" where
  "check_header h =
     (if wh_magic h \<noteq> workspace_magic then Some (werr BadMagic 0)
      else if wh_format_major h \<noteq> format_major then Some (werr UnsupportedFormat 0)
      else if \<not> geometry_ok h then Some (werr HeaderIoFailed 0)
      else if wh_chunk_count h > ucast (wh_max_chunks h) then Some (werr HeaderIoFailed 0)
      else None)"

text \<open>The walk over the directory: every live chunk is mapped and queued under its owner.\<close>

fun remap_chunks ::
  "(nat \<Rightarrow> nat \<Rightarrow> int + nat) \<Rightarrow> nat \<Rightarrow> chunk_entry list \<Rightarrow> nat \<Rightarrow> workspace_source \<Rightarrow> workspace_error + workspace_source" where
  "remap_chunks io_mmap file_size [] i s = Inr s"
| "remap_chunks io_mmap file_size (e # es) i s =
     (let chunk_end = (ce_offset e + ce_size e) mod 2 ^ 64;
          s = (if chunk_end > ws_next_offset s then s\<lparr>ws_next_offset := chunk_end\<rparr> else s)
      in if ce_state e \<noteq> chunk_live then remap_chunks io_mmap file_size es (i + 1) s
         else if ce_owner e \<noteq> no_owner \<and> ce_owner e \<ge> ws_max_stores s then Inl (werr StoreDirectoryInconsistent 0)
         else if chunk_end > file_size then Inl (werr HeaderIoFailed 0)
         else case io_mmap (ce_size e) (ce_offset e) of
           Inl err \<Rightarrow> Inl (werr HeaderIoFailed err)
         | Inr base \<Rightarrow>
             let c = (base, \<lparr>lc_offset = ce_offset e, lc_size = ce_size e, lc_index = i\<rparr>)
             in remap_chunks io_mmap file_size es (i + 1)
                  (if ce_owner e = no_owner then s\<lparr>ws_reopened := ws_reopened s @ [c]\<rparr>
                   else s\<lparr>ws_store_reopened := (ws_store_reopened s)[ce_owner e := ws_store_reopened s ! ce_owner e @ [c]]\<rparr>))"

definition reopened_source :: "header_map \<Rightarrow> workspace_source" where
  "reopened_source m =
     (let h = hm_header m
      in init_store_directory (unat (wh_max_stores h))
           ((source_new (unat (page_or h)) (unat (wh_max_chunks h)) (unat (wh_data_offset h))
              (unat (wh_data_offset h)) (unat (wh_chunk_count h)) m)\<lparr>ws_from_file := True\<rparr>))"

text \<open>\<open>io_pread\<close> and \<open>io_fstat\<close> are the errno of a failure, \<open>0\<close> for a short read.\<close>

definition ws_open ::
  "int option \<Rightarrow> int option \<Rightarrow> int option \<Rightarrow> int option \<Rightarrow> (nat \<Rightarrow> nat \<Rightarrow> int + nat) \<Rightarrow> file_image \<Rightarrow>
     workspace_error + workspace_source" where
  "ws_open io_open io_pread io_fstat io_map io_mmap f =
     (case io_open of Some e \<Rightarrow> Inl (werr OpenFailed e) | None \<Rightarrow>
     (case io_pread of Some e \<Rightarrow> Inl (werr HeaderIoFailed e) | None \<Rightarrow>
     (case check_header (hm_header (fi_map f)) of Some e \<Rightarrow> Inl e | None \<Rightarrow>
     (case io_fstat of Some e \<Rightarrow> Inl (werr HeaderIoFailed e) | None \<Rightarrow>
     if fi_size f < unat (wh_data_offset (hm_header (fi_map f))) then Inl (werr HeaderIoFailed 0) else
     (case io_map of Some e \<Rightarrow> Inl (werr HeaderIoFailed e) | None \<Rightarrow>
        remap_chunks io_mmap (fi_size f) (take (unat (wh_chunk_count (hm_header (fi_map f)))) (hm_dir (fi_map f)))
          0 (reopened_source (fi_map f)))))))"

definition read_header ::
  "int option \<Rightarrow> int option \<Rightarrow> file_image \<Rightarrow> workspace_error + workspace_header" where
  "read_header io_open io_pread f =
     (case io_open of Some e \<Rightarrow> Inl (werr OpenFailed e) | None \<Rightarrow>
     (case io_pread of Some e \<Rightarrow> Inl (werr HeaderIoFailed e) | None \<Rightarrow>
        let h = hm_header (fi_map f)
        in if wh_magic h \<noteq> workspace_magic then Inl (werr BadMagic 0)
           else if wh_format_major h \<noteq> format_major then Inl (werr UnsupportedFormat 0) else Inr h))"

subsection \<open>Adopting a snapshot\<close>

definition needed_chunks :: "store_entry \<Rightarrow> nat" where
  "needed_chunks e =
     (if se_stride e = 0 \<or> se_high_water e = 0 then 0 else unat ((se_high_water e - 1) div se_chunk_slots e + 1))"

definition row_error :: "store_entry \<Rightarrow> nat \<Rightarrow> workspace_error option" where
  "row_error e queued =
     (if se_stride e = 0
      then if se_align e \<noteq> 0 \<or> se_chunk_slots e \<noteq> 0 \<or> se_high_water e \<noteq> 0
           then Some (werr StoreDirectoryInconsistent 0) else None
      else if se_chunk_slots e = 0 \<or> se_chunk_slots e AND (se_chunk_slots e - 1) \<noteq> 0 \<or>
              se_chunk_slots e > 2 ^ 12 \<or> se_align e < of_nat max_align \<or>
              se_align e AND (se_align e - 1) \<noteq> 0 \<or> se_stride e mod se_align e \<noteq> 0
      then Some (werr StoreLayoutMismatch 0)
      else if queued < needed_chunks e then Some (werr StoreDirectoryInconsistent 0) else None)"

fun rows_error :: "store_entry list \<Rightarrow> (nat \<times> live_chunk) list list \<Rightarrow> workspace_error option" where
  "rows_error (e # es) (q # qs) =
     (case row_error e (length q) of Some err \<Rightarrow> Some err | None \<Rightarrow> rows_error es qs)"
| "rows_error _ _ = None"

definition discard_reopened :: "(nat \<Rightarrow> nat \<Rightarrow> int option) \<Rightarrow> nat \<times> live_chunk \<Rightarrow> workspace_source \<Rightarrow> workspace_source" where
  "discard_reopened io_fallocate c s = punch_now io_fallocate (snd c) s"

definition trim_queue :: "(nat \<Rightarrow> nat \<Rightarrow> int option) \<Rightarrow> nat \<Rightarrow> store_entry \<Rightarrow> workspace_source \<Rightarrow> workspace_source" where
  "trim_queue io_fallocate r e s =
     (let keep = needed_chunks e; queue = ws_store_reopened s ! r;
          s = fold (discard_reopened io_fallocate) (drop keep queue) s
      in s\<lparr>ws_store_reopened := (ws_store_reopened s)[r := take keep queue]\<rparr>)"

fun trim_queues :: "(nat \<Rightarrow> nat \<Rightarrow> int option) \<Rightarrow> nat \<Rightarrow> store_entry list \<Rightarrow> workspace_source \<Rightarrow> workspace_source" where
  "trim_queues io_fallocate r [] s = s"
| "trim_queues io_fallocate r (e # es) s = trim_queues io_fallocate (r + 1) es (trim_queue io_fallocate r e s)"

definition adopt_snapshot ::
  "(nat \<Rightarrow> nat \<Rightarrow> int option) \<Rightarrow> ab \<Rightarrow> workspace_source \<Rightarrow> workspace_source \<times> (workspace_error + unit)" where
  "adopt_snapshot io_fallocate x s =
     (let rows = sn_rows (hm_snap (ws_map s) x); s = s\<lparr>ws_restored := rows\<rparr>
      in case rows_error rows (ws_store_reopened s) of
        Some e \<Rightarrow> (s, Inl e)
      | None \<Rightarrow> ((trim_queues io_fallocate 0 rows s)\<lparr>ws_adopted := True\<rparr>, Inr ()))"

subsection \<open>The header geometry\<close>

text \<open>What the word-level checks of \<open>open\<close> decide, over the numbers themselves.\<close>

definition layout_ok :: "nat \<Rightarrow> nat \<Rightarrow> nat \<Rightarrow> nat \<Rightarrow> nat \<Rightarrow> bool" where
  "layout_ok page chunks stores table data \<longleftrightarrow>
     sizeof_snapshot < page \<and> 0 < stores \<and> snapshot_bytes stores \<le> page \<and> page dvd table \<and>
     sizeof_header + chunks * sizeof_chunk_entry \<le> table \<and> table + 2 * page \<le> data"

lemma unat_32: "unat (x :: 32 word) < 2 ^ 32"
  using unsigned_less [of x, where ?'a = nat] by simp

lemma unat_ucast_64: "unat (ucast (x :: 32 word) :: 64 word) = unat x"
proof -
  have "unat x < 2 ^ 32" using unsigned_less [of x] by simp
  then show ?thesis by (simp add: unsigned_ucast_eq take_bit_nat_eq_self)
qed

lemma unat_page_or: "unat (page_or h) = (if wh_page_size h = 0 then 4096 else unat (wh_page_size h))"
  by (simp add: page_or_def unat_ucast_64)

lemma unat_page_or_le: "unat (page_or h) < 2 ^ 32"
  using unat_32 [of "wh_page_size h"] by (simp add: unat_page_or)

lemma unat_directory_end:
  "unat (of_nat sizeof_header + ucast (c :: 32 word) * of_nat sizeof_chunk_entry :: 64 word) =
     sizeof_header + unat c * sizeof_chunk_entry"
proof -
  have c: "unat c < 2 ^ 32" using unsigned_less [of c] by simp
  have m: "unat (ucast c * (24 :: 64 word)) = unat c * 24"
    using c by (subst unat_mult_lem [THEN iffD1]) (simp_all add: unat_ucast_64)
  have "unat (112 + ucast c * (24 :: 64 word)) = 112 + unat c * 24"
    using c m by (subst unat_add_lem [THEN iffD1]) simp_all
  then show ?thesis by (simp add: sizeof_defs)
qed

lemma geometry_ok_iff:
  "geometry_ok h \<longleftrightarrow>
     layout_ok (unat (page_or h)) (unat (wh_max_chunks h)) (unat (wh_max_stores h))
       (unat (wh_store_table_offset h)) (unat (wh_data_offset h))"
proof (cases "page_or h \<le> of_nat sizeof_snapshot")
  case True
  then have "unat (page_or h) \<le> 8" by (simp add: word_le_nat_alt sizeof_defs)
  then show ?thesis using True by (simp add: geometry_ok_def layout_ok_def sizeof_defs)
next
  case False
  let ?p = "unat (page_or h)" let ?T = "unat (wh_store_table_offset h)" let ?D = "unat (wh_data_offset h)"
  have p: "8 < ?p" using False by (simp add: word_le_nat_alt sizeof_defs)
  have rows: "unat ((page_or h - 8) div 16) = (?p - 8) div 16"
    using p by (simp add: unat_div unat_sub word_le_nat_alt)
  have sn: "wh_max_stores h > (page_or h - 8) div 16 \<longleftrightarrow> \<not> 8 + unat (wh_max_stores h) * 16 \<le> ?p"
    using p by (simp add: word_less_nat_alt rows) linarith
  have dv: "wh_store_table_offset h mod page_or h = 0 \<longleftrightarrow> ?p dvd ?T"
    by (simp add: unat_eq_zero [symmetric] unat_mod dvd_eq_mod_eq_0 del: unat_eq_zero)
  have tp: "unat (2 * page_or h) = 2 * ?p"
    using unat_page_or_le [of h] by (subst unat_mult_lem [THEN iffD1]) simp_all
  have fit: "\<not> wh_store_table_offset h > wh_data_offset h \<and> \<not> 2 * page_or h > wh_data_offset h - wh_store_table_offset h \<longleftrightarrow> ?T + 2 * ?p \<le> ?D"
    by (cases "?T \<le> ?D") (auto simp: word_less_nat_alt word_le_nat_alt unat_sub tp)
  have de: "wh_store_table_offset h < of_nat sizeof_header + ucast (wh_max_chunks h) * of_nat sizeof_chunk_entry \<longleftrightarrow>
      \<not> sizeof_header + unat (wh_max_chunks h) * sizeof_chunk_entry \<le> ?T"
    by (simp add: word_less_nat_alt unat_directory_end not_le)
  have st: "wh_max_stores h = 0 \<longleftrightarrow> \<not> 0 < unat (wh_max_stores h)" by (simp add: unat_gt_0)
  show ?thesis
    using False sn dv fit de st p
    by (simp add: geometry_ok_def layout_ok_def Let_def snapshot_bytes_def sizeof_snapshot_def sizeof_store_entry_def) blast
qed

lemma unat_of_nat_32: "n < 2 ^ 32 \<Longrightarrow> unat (of_nat n :: 32 word) = n"
  by (simp add: unsigned_of_nat take_bit_nat_eq_self)

lemma unat_of_nat_64: "n < 2 ^ 64 \<Longrightarrow> unat (of_nat n :: 64 word) = n"
  by (simp add: unsigned_of_nat take_bit_nat_eq_self)

lemma align_up_props:
  assumes "0 < a"
  shows "n \<le> align_up n a" "align_up n a < n + a" "a dvd align_up n a"
proof -
  have "(n + a - 1) div a * a + (n + a - 1) mod a = n + a - 1" by simp
  moreover have "(n + a - 1) mod a < a" using assms by simp
  ultimately show "n \<le> align_up n a" "align_up n a < n + a" using assms unfolding align_up_def by linarith+
  show "a dvd align_up n a" by (simp add: align_up_def)
qed

text \<open>A page size a platform can report, a directory and a table a layout can ask for.\<close>

definition sane_page :: "int \<Rightarrow> bool" where
  "sane_page page_query \<longleftrightarrow> page_query \<le> 0 \<or> (\<exists>k. page_query = 2 ^ k \<and> 3 < k \<and> k < 32)"

lemma ws_create_cases:
  assumes "ws_create q io_open io_ftruncate io_map ac as = Inr s"
  obtains page chunks stores where "page = (if q > 0 then nat q else 4096)"
    "chunks = layout_or ac default_max_chunks" "stores = layout_or as default_max_stores"
    "snapshot_bytes stores \<le> page"
    "s = init_store_directory stores (source_new page chunks (table_offset page chunks + 2 * page)
       (table_offset page chunks + 2 * page) 0
       (fresh_map (fresh_header page chunks (table_offset page chunks + 2 * page) (table_offset page chunks) stores) chunks stores))"
  using assms unfolding ws_create_def by (simp add: Let_def split: if_splits option.splits)

lemma fresh_layout:
  assumes q: "sane_page q" and page: "page = (if q > 0 then nat q else 4096)"
    and c: "chunks < 2 ^ 32" and st: "0 < stores" "snapshot_bytes stores \<le> page"
  shows "layout_ok page chunks stores (table_offset page chunks) (table_offset page chunks + 2 * page)"
    "page < 2 ^ 32" "table_offset page chunks + 2 * page < 2 ^ 40" "stores < 2 ^ 32" "0 < page"
proof -
  show p: "page < 2 ^ 32" "0 < page"
  proof -
    have "(2::nat) ^ k < 2 ^ 32" if "k < 32" for k :: nat using that by (intro power_strict_increasing) simp_all
    then show "page < 2 ^ 32" "0 < page"
      using q page by (auto simp: sane_page_def nat_power_eq split: if_splits)
  qed
  note a = align_up_props [OF p(2), of "sizeof_header + chunks * sizeof_chunk_entry"]
  show "layout_ok page chunks stores (table_offset page chunks) (table_offset page chunks + 2 * page)"
    using a st by (simp add: layout_ok_def table_offset_def snapshot_bytes_def sizeof_snapshot_def sizeof_store_entry_def)
  show "table_offset page chunks + 2 * page < 2 ^ 40"
    using a(2) p(1) c by (simp add: table_offset_def sizeof_defs)
  show "stores < 2 ^ 32" using st p by (simp add: snapshot_bytes_def sizeof_defs)
qed

subsection \<open>Sessions and the directory\<close>

text \<open>
  A session on a fresh source: acquisitions through a store's view or the source itself, releases,
  and the punches a fence drains. The calls it makes to the system are part of each operation. The
  run also keeps what the callers saw: the owner and the size of every chunk granted, in order, and
  the directory indices punched.
\<close>

datatype ws_op =
    Acquire "nat option" nat "nat \<Rightarrow> int option" "nat \<Rightarrow> nat \<Rightarrow> int + nat"
  | Release nat "nat \<Rightarrow> nat \<Rightarrow> int option"
  | Punch live_chunk "nat \<Rightarrow> nat \<Rightarrow> int option"

text \<open>A file length is a signed 64-bit number: \<open>ftruncate\<close> refuses what is past it.\<close>

definition op_ok :: "workspace_source \<Rightarrow> ws_op \<Rightarrow> bool" where
  "op_ok s p =
     (case p of
        Acquire ow sz ft mm \<Rightarrow>
          (case ow of None \<Rightarrow> True | Some r \<Rightarrow> r < length (ws_store_reopened s)) \<and> sz < 2 ^ 62 \<and> (\<forall>n \<ge> 2 ^ 63. ft n \<noteq> None)
      | Release base fa \<Rightarrow> True
      | Punch c fa \<Rightarrow> lc_index c < ws_chunk_count s)"

definition ws_do :: "ws_op \<Rightarrow> workspace_source \<Rightarrow> workspace_source \<times> (nat \<times> nat) list \<times> nat list" where
  "ws_do p s =
     (case p of
        Acquire ow sz ft mm \<Rightarrow>
          (case (case ow of None \<Rightarrow> acquire ft mm sz s | Some r \<Rightarrow> acquire_for ft mm r sz s) of
             (s, Inl _) \<Rightarrow> (s, [], [])
           | (s, Inr (_, rounded)) \<Rightarrow> (s, [(case ow of None \<Rightarrow> no_owner | Some r \<Rightarrow> r, rounded)], []))
      | Release base fa \<Rightarrow>
          (case (ws_release fa base s, map_of (ws_live s) base) of
             ((s, None), Some c) \<Rightarrow> (s, [], [lc_index c]) | ((s, _), _) \<Rightarrow> (s, [], []))
      | Punch c fa \<Rightarrow> (punch_now fa c s, [], [lc_index c]))"

fun ws_run :: "ws_op list \<Rightarrow> workspace_source \<Rightarrow> workspace_source \<times> (nat \<times> nat) list \<times> nat list" where
  "ws_run [] s = (s, [], [])"
| "ws_run (p # ps) s =
     (case ws_do p s of (s, granted, gone) \<Rightarrow>
        case ws_run ps s of (s, granted', gone') \<Rightarrow> (s, granted @ granted', gone @ gone'))"

fun ops_ok :: "ws_op list \<Rightarrow> workspace_source \<Rightarrow> bool" where
  "ops_ok [] s = True"
| "ops_ok (p # ps) s = (op_ok s p \<and> ops_ok ps (fst (ws_do p s)))"

text \<open>Where the \<open>i\<close>-th granted chunk begins.\<close>

definition chunk_start :: "nat \<Rightarrow> (nat \<times> nat) list \<Rightarrow> nat \<Rightarrow> nat" where
  "chunk_start data granted i = data + sum_list (map snd (take i granted))"

definition chunk_at :: "nat \<Rightarrow> (nat \<times> nat) list \<Rightarrow> nat list \<Rightarrow> nat \<Rightarrow> chunk_entry" where
  "chunk_at data granted gone i =
     \<lparr>ce_offset = chunk_start data granted i, ce_size = snd (granted ! i),
      ce_state = (if i \<in> set gone then chunk_free else chunk_live), ce_owner = fst (granted ! i)\<rparr>"

definition directory_is :: "nat \<Rightarrow> (nat \<times> nat) list \<Rightarrow> nat list \<Rightarrow> workspace_source \<Rightarrow> bool" where
  "directory_is data granted gone s \<longleftrightarrow>
     ws_chunk_count s = length granted \<and> length granted \<le> ws_max_chunks s \<and>
     length (hm_dir (ws_map s)) = ws_max_chunks s \<and>
     wh_chunk_count (hm_header (ws_map s)) = of_nat (length granted) \<and>
     ws_next_offset s = chunk_start data granted (length granted) \<and> ws_next_offset s < 2 ^ 63 \<and>
     (\<forall>i < length granted. hm_dir (ws_map s) ! i = chunk_at data granted gone i)"

text \<open>What no chunk operation touches, and that nothing is left to reopen.\<close>

definition settled :: "workspace_source \<Rightarrow> workspace_source \<Rightarrow> bool" where
  "settled s0 s \<longleftrightarrow>
     (\<exists>n. hm_header (ws_map s) = (hm_header (ws_map s0))\<lparr>wh_chunk_count := n\<rparr>) \<and>
     hm_root (ws_map s) = hm_root (ws_map s0) \<and> hm_snap (ws_map s) = hm_snap (ws_map s0) \<and>
     ws_page s = ws_page s0 \<and> ws_max_chunks s = ws_max_chunks s0 \<and>
     ws_store_reopened s = ws_store_reopened s0 \<and> ws_store_cursor s = ws_store_cursor s0 \<and>
     ws_reopened s = ws_reopened s0 \<and> ws_reopened_cursor s = ws_reopened_cursor s0"

definition nothing_queued :: "workspace_source \<Rightarrow> bool" where
  "nothing_queued s \<longleftrightarrow> length (ws_reopened s) \<le> ws_reopened_cursor s \<and>
     (\<forall>r < length (ws_store_reopened s). length (ws_store_reopened s ! r) \<le> ws_store_cursor s ! r)"

lemma settled_refl: "settled s s"
  by (simp add: settled_def) (rule exI [of _ "wh_chunk_count (hm_header (ws_map s))"], simp)

lemma settled_trans: "settled s0 s1 \<Longrightarrow> settled s1 s2 \<Longrightarrow> settled s0 s2"
  by (fastforce simp: settled_def)

lemma settled_queued: "settled s0 s \<Longrightarrow> nothing_queued s0 = nothing_queued s \<and> length (ws_store_reopened s) = length (ws_store_reopened s0)"
  by (simp add: settled_def nothing_queued_def)

lemma live_put_simps [simp]:
  "ws_map (live_put b c s) = ws_map s" "ws_page (live_put b c s) = ws_page s"
  "ws_max_chunks (live_put b c s) = ws_max_chunks s" "ws_next_offset (live_put b c s) = ws_next_offset s"
  "ws_chunk_count (live_put b c s) = ws_chunk_count s" "ws_store_reopened (live_put b c s) = ws_store_reopened s"
  "ws_store_cursor (live_put b c s) = ws_store_cursor s" "ws_reopened (live_put b c s) = ws_reopened s"
  "ws_reopened_cursor (live_put b c s) = ws_reopened_cursor s"
  by (simp_all add: live_put_def)

lemma chunk_start_grow [simp]: "i \<le> length granted \<Longrightarrow> chunk_start data (granted @ ns) i = chunk_start data granted i"
  by (simp add: chunk_start_def)

lemma chunk_at_grow [simp]: "i < length granted \<Longrightarrow> chunk_at data (granted @ ns) gone i = chunk_at data granted gone i"
  by (simp add: chunk_at_def nth_append)

lemma grow_keeps:
  assumes d: "directory_is data granted gone s" and gone: "\<forall>i \<in> set gone. i < length granted"
    and page: "0 < ws_page s" "ws_page s < 2 ^ 32" and sz: "sz < 2 ^ 62" and ft: "\<forall>n \<ge> 2 ^ 63. ft n \<noteq> None"
    and g: "grow ft mm sz ow s = (s', res)"
  shows "settled s s'"
    "case res of Inl _ \<Rightarrow> directory_is data granted gone s'
       | Inr (_, n) \<Rightarrow> n = align_up (if sz = 0 then 1 else sz) (ws_page s) \<and> directory_is data (granted @ [(ow, n)]) gone s'"
proof -
  let ?n = "align_up (if sz = 0 then 1 else sz) (ws_page s)"
  have n: "?n < 2 ^ 63" using align_up_props(2) [OF page(1), of "if sz = 0 then 1 else sz"] sz page(2) by (simp split: if_splits)
  have off: "ws_next_offset s < 2 ^ 63" using d by (simp add: directory_is_def)
  have e: "(ws_next_offset s + ?n) mod 2 ^ 64 = ws_next_offset s + ?n" using n off by simp
  have small: "ft (ws_next_offset s + ?n) = None \<Longrightarrow> ws_next_offset s + ?n < 2 ^ 63" using ft by (meson not_le)
  show "settled s s'"
    using g unfolding grow_def
    by (simp add: Let_def settled_def split: if_splits option.splits sum.splits)
       (auto intro: exI [of _ "wh_chunk_count (hm_header (ws_map s))"])
  show "case res of Inl _ \<Rightarrow> directory_is data granted gone s'
       | Inr (_, n) \<Rightarrow> n = ?n \<and> directory_is data (granted @ [(ow, n)]) gone s'"
  proof (cases res)
    case (Inl err)
    then have "ws_map s' = ws_map s \<and> ws_chunk_count s' = ws_chunk_count s \<and> ws_max_chunks s' = ws_max_chunks s \<and> ws_next_offset s' = ws_next_offset s"
      using g unfolding grow_def by (auto simp: Let_def split: if_splits option.splits sum.splits)
    then show ?thesis using d Inl by (simp add: directory_is_def)
  next
    case (Inr p)
    obtain base k where p: "p = (base, k)" by (cases p)
    have room: "length granted < ws_max_chunks s" using g Inr d unfolding grow_def
      by (auto simp: directory_is_def Let_def split: if_splits)
    have ok: "ft (ws_next_offset s + ?n) = None" "k = ?n"
      using g Inr p e unfolding grow_def by (auto simp: Let_def split: if_splits option.splits sum.splits)
    have m: "ws_map s' = (ws_map s)\<lparr>hm_dir := (hm_dir (ws_map s))[length granted := \<lparr>ce_offset = ws_next_offset s, ce_size = ?n, ce_state = chunk_live, ce_owner = ow\<rparr>],
          hm_header := (hm_header (ws_map s))\<lparr>wh_chunk_count := of_nat (length granted + 1)\<rparr>\<rparr>"
      "ws_chunk_count s' = length granted + 1" "ws_next_offset s' = ws_next_offset s + ?n" "ws_max_chunks s' = ws_max_chunks s"
      using g Inr p e d unfolding grow_def
      by (auto simp: Let_def directory_is_def split: if_splits option.splits sum.splits)
    have last: "chunk_at data (granted @ [(ow, ?n)]) gone (length granted) =
        \<lparr>ce_offset = ws_next_offset s, ce_size = ?n, ce_state = chunk_live, ce_owner = ow\<rparr>"
      using d gone by (auto simp: chunk_at_def directory_is_def)
    have start: "chunk_start data (granted @ [(ow, ?n)]) (Suc (length granted)) = ws_next_offset s + ?n"
      using d by (simp add: chunk_start_def directory_is_def)
    have dir: "hm_dir (ws_map s') ! i = chunk_at data (granted @ [(ow, ?n)]) gone i" if "i < Suc (length granted)" for i
    proof (cases "i = length granted")
      case True
      then show ?thesis using m last room d by (simp add: directory_is_def)
    next
      case False
      then show ?thesis using that m d by (simp add: directory_is_def)
    qed
    have "directory_is data (granted @ [(ow, ?n)]) gone s'"
      using d m start room small [OF ok(1)] dir unfolding directory_is_def by simp
    then show ?thesis using Inr p ok by simp
  qed
qed

lemma punch_keeps:
  assumes d: "directory_is data granted gone s"
  shows "settled s (punch_now fa c s)" "directory_is data granted (gone @ [lc_index c]) (punch_now fa c s)"
proof -
  have m: "ws_map (punch_now fa c s) = (ws_map s)\<lparr>hm_dir := (hm_dir (ws_map s))[lc_index c := (hm_dir (ws_map s) ! lc_index c)\<lparr>ce_state := chunk_free\<rparr>]\<rparr>"
    by (simp add: punch_now_def Let_def split: option.splits)
  show "settled s (punch_now fa c s)"
    unfolding settled_def m
    by (simp add: punch_now_def Let_def split: option.splits)
       (auto intro: exI [of _ "wh_chunk_count (hm_header (ws_map s))"])
  have dir: "hm_dir (ws_map (punch_now fa c s)) ! i = chunk_at data granted (gone @ [lc_index c]) i" if "i < length granted" for i
    using that d unfolding m by (cases "i = lc_index c") (simp_all add: directory_is_def chunk_at_def)
  show "directory_is data granted (gone @ [lc_index c]) (punch_now fa c s)"
    using d dir m unfolding directory_is_def by (simp add: punch_now_def Let_def split: option.splits)
qed

definition live_known :: "workspace_source \<Rightarrow> bool" where
  "live_known s \<longleftrightarrow> (\<forall>p \<in> set (ws_live s). lc_index (snd p) < ws_chunk_count s)"

lemma acquire_grows:
  assumes "nothing_queued s" "case ow of None \<Rightarrow> True | Some r \<Rightarrow> r < length (ws_store_reopened s)"
  shows "(case ow of None \<Rightarrow> acquire ft mm sz s | Some r \<Rightarrow> acquire_for ft mm r sz s) =
    grow ft mm sz (case ow of None \<Rightarrow> no_owner | Some r \<Rightarrow> r) s"
  using assms by (auto simp: nothing_queued_def acquire_def acquire_for_def not_less Let_def split: option.splits)

lemma grow_live:
  assumes g: "grow ft mm sz ow s = (s', res)" and l: "live_known s"
  shows "live_known s'"
proof -
  have "ws_live s' = ws_live s \<and> ws_chunk_count s' = ws_chunk_count s \<or>
      (\<exists>b c. set (ws_live s') \<subseteq> insert (b, c) (set (ws_live s)) \<and> lc_index c = ws_chunk_count s \<and> ws_chunk_count s' = ws_chunk_count s + 1)"
  proof (cases res)
    case (Inl e)
    then show ?thesis using g unfolding grow_def
      by (auto simp: Let_def split: if_splits option.splits sum.splits)
  next
    case (Inr p)
    obtain b n t c where "s' = live_put b c t" "ws_live t = ws_live s" "ws_chunk_count t = ws_chunk_count s + 1" "lc_index c = ws_chunk_count s"
      using g Inr that unfolding grow_def
      by (simp add: Let_def split: if_splits option.splits sum.splits)
         (elim conjE, rule that, erule sym, simp_all)+
    moreover have "set (ws_live (live_put b c t)) \<subseteq> insert (b, c) (set (ws_live t))" by (auto simp: live_put_def)
    ultimately show ?thesis by auto
  qed
  then show ?thesis using l by (fastforce simp: live_known_def)
qed

definition session_inv :: "workspace_source \<Rightarrow> (nat \<times> nat) list \<Rightarrow> nat list \<Rightarrow> workspace_source \<Rightarrow> bool" where
  "session_inv s0 granted gone s \<longleftrightarrow>
     directory_is (ws_data_offset s0) granted gone s \<and> (\<forall>i \<in> set gone. i < length granted) \<and>
     settled s0 s \<and> live_known s"

lemma session_do:
  assumes inv: "session_inv s0 granted gone s" and ok: "op_ok s p"
    and q: "nothing_queued s0" and page: "0 < ws_page s0" "ws_page s0 < 2 ^ 32"
    and r: "ws_do p s = (s', ns, gs)"
  shows "session_inv s0 (granted @ ns) (gone @ gs) s'"
proof -
  note d = inv [unfolded session_inv_def]
  have st: "settled s0 s" and pg: "ws_page s = ws_page s0" and nq: "nothing_queued s"
    using d settled_queued q by (auto simp: settled_def)
  show ?thesis
  proof (cases p)
    case (Acquire ow sz ft mm)
    let ?ow = "case ow of None \<Rightarrow> no_owner | Some r \<Rightarrow> r"
    obtain s1 res where g: "grow ft mm sz ?ow s = (s1, res)" by (meson surj_pair)
    have bounds: "sz < 2 ^ 62" "\<forall>n \<ge> 2 ^ 63. ft n \<noteq> None" "case ow of None \<Rightarrow> True | Some r \<Rightarrow> r < length (ws_store_reopened s)"
      using ok Acquire by (simp_all add: op_ok_def)
    note k = grow_keeps [OF conjunct1 [OF d] conjunct1 [OF conjunct2 [OF d]] _ _ bounds(1,2) g]
    have s': "s' = s1" and n: "ns = (case res of Inl _ \<Rightarrow> [] | Inr (_, n) \<Rightarrow> [(?ow, n)])" and gs: "gs = []"
      using r Acquire acquire_grows [OF nq bounds(3)] g by (auto simp: ws_do_def split: sum.splits prod.splits)
    have "live_known s1" using grow_live [OF g] d by simp
    moreover have "settled s0 s1" using settled_trans [OF st k(1)] page pg by simp
    ultimately show ?thesis using k(2) d page pg s' n gs
      by (auto simp: session_inv_def split: sum.splits)
  next
    case (Release base fa)
    show ?thesis
    proof (cases "map_of (ws_live s) base")
      case None
      then show ?thesis using r Release inv by (simp add: ws_do_def ws_release_def)
    next
      case (Some c)
      let ?t = "s\<lparr>ws_live := filter (\<lambda>p. fst p \<noteq> base) (ws_live s)\<rparr>"
      have dt: "directory_is (ws_data_offset s0) granted gone ?t" using d by (simp add: directory_is_def)
      have "settled s ?t" by (simp add: settled_def) (rule exI [of _ "wh_chunk_count (hm_header (ws_map s))"], simp)
      then have tt: "settled s0 ?t" using settled_trans [OF st] by simp
      have lt: "live_known ?t" "lc_index c < length granted"
        using d map_of_SomeD [OF Some] by (auto simp: live_known_def directory_is_def)
      show ?thesis
      proof (cases "ws_fence s")
        case True
        then have "s' = ?t" "ns = []" "gs = []" using r Release Some by (simp_all add: ws_do_def ws_release_def Let_def)
        then show ?thesis using dt tt lt d by (simp add: session_inv_def)
      next
        case False
        then have e: "s' = punch_now fa c ?t" "ns = []" "gs = [lc_index c]"
          using r Release Some by (simp_all add: ws_do_def ws_release_def Let_def)
        have "live_known s'" using lt(1) e by (simp add: live_known_def punch_now_def Let_def split: option.splits)
        then show ?thesis using punch_keeps [OF dt, where fa = fa and c = c] e settled_trans [OF tt] d lt(2)
          by (auto simp: session_inv_def)
      qed
    qed
  next
    case (Punch c fa)
    have "lc_index c < length granted" using ok Punch d by (simp add: op_ok_def directory_is_def)
    moreover have "live_known (punch_now fa c s)" using d by (simp add: live_known_def punch_now_def Let_def split: option.splits)
    ultimately show ?thesis using r Punch punch_keeps [OF conjunct1 [OF d], where fa = fa and c = c] settled_trans [OF st] d
      by (auto simp: session_inv_def ws_do_def)
  qed
qed

lemma session_run:
  assumes "session_inv s0 granted gone s" "ops_ok ps s" "nothing_queued s0" "0 < ws_page s0" "ws_page s0 < 2 ^ 32"
    and "ws_run ps s = (s', ns, gs)"
  shows "session_inv s0 (granted @ ns) (gone @ gs) s'"
  using assms
proof (induction ps arbitrary: s granted gone ns gs)
  case (Cons p ps)
  obtain s1 ns1 gs1 where p: "ws_do p s = (s1, ns1, gs1)" using prod_cases3 by blast
  obtain s2 ns2 gs2 where ps: "ws_run ps s1 = (s2, ns2, gs2)" using prod_cases3 by blast
  have "session_inv s0 (granted @ ns1) (gone @ gs1) s1"
    using session_do [OF Cons.prems(1) _ Cons.prems(3-5) p] Cons.prems(2) by simp
  moreover have "ops_ok ps s1" "ws_run ps s1 = (s', ns2, gs2)" using Cons.prems(2,6) p ps by simp_all
  ultimately have "session_inv s0 ((granted @ ns1) @ ns2) ((gone @ gs1) @ gs2) s'"
    using Cons.IH Cons.prems(3-5) by blast
  then show ?case using Cons.prems(6) p ps by simp
qed simp

subsection \<open>Reopening\<close>

fun requeued :: "nat \<Rightarrow> nat \<Rightarrow> chunk_entry list \<Rightarrow> live_chunk list" where
  "requeued r i [] = []"
| "requeued r i (e # es) =
     (if ce_state e = chunk_live \<and> ce_owner e = r then [\<lparr>lc_offset = ce_offset e, lc_size = ce_size e, lc_index = i\<rparr>] else [])
       @ requeued r (i + 1) es"

definition entry_ok :: "nat \<Rightarrow> nat \<Rightarrow> chunk_entry \<Rightarrow> bool" where
  "entry_ok stores file_size e \<longleftrightarrow> ce_offset e + ce_size e < 2 ^ 64 \<and>
     (ce_state e = chunk_live \<longrightarrow> (ce_owner e = no_owner \<or> ce_owner e < stores) \<and> ce_offset e + ce_size e \<le> file_size)"

definition based :: "(nat \<Rightarrow> nat \<Rightarrow> nat) \<Rightarrow> live_chunk list \<Rightarrow> (nat \<times> live_chunk) list" where
  "based base cs = map (\<lambda>c. (base (lc_size c) (lc_offset c), c)) cs"

lemma remap_chunks_queues:
  assumes "\<forall>e \<in> set es. entry_ok (ws_max_stores s) file_size e" "ws_max_stores s = length (ws_store_reopened s)"
    "length (ws_store_reopened s) \<le> no_owner"
  shows "\<exists>s'. remap_chunks (\<lambda>n off. Inr (base n off)) file_size es i s = Inr s' \<and>
    ws_reopened s' = ws_reopened s @ based base (requeued no_owner i es) \<and>
    length (ws_store_reopened s') = length (ws_store_reopened s) \<and>
    (\<forall>r < length (ws_store_reopened s). ws_store_reopened s' ! r = ws_store_reopened s ! r @ based base (requeued r i es)) \<and>
    ws_next_offset s' = fold max (map (\<lambda>e. ce_offset e + ce_size e) es) (ws_next_offset s) \<and>
    s'\<lparr>ws_reopened := [], ws_store_reopened := [], ws_next_offset := 0\<rparr> = s\<lparr>ws_reopened := [], ws_store_reopened := [], ws_next_offset := 0\<rparr>"
  using assms
proof (induction es arbitrary: s i)
  case (Cons e es)
  let ?fin = "ce_offset e + ce_size e"
  let ?s1 = "if ?fin > ws_next_offset s then s\<lparr>ws_next_offset := ?fin\<rparr> else s"
  let ?c = "(base (ce_size e) (ce_offset e), \<lparr>lc_offset = ce_offset e, lc_size = ce_size e, lc_index = i\<rparr>)"
  let ?s2 = "if ce_state e \<noteq> chunk_live then ?s1
     else if ce_owner e = no_owner then ?s1\<lparr>ws_reopened := ws_reopened ?s1 @ [?c]\<rparr>
     else ?s1\<lparr>ws_store_reopened := (ws_store_reopened ?s1)[ce_owner e := ws_store_reopened ?s1 ! ce_owner e @ [?c]]\<rparr>"
  have e: "?fin mod 2 ^ 64 = ?fin" "ce_state e = chunk_live \<Longrightarrow> (ce_owner e = no_owner \<or> ce_owner e < ws_max_stores s) \<and> ?fin \<le> file_size"
    using Cons.prems(1) by (simp_all add: entry_ok_def)
  have step: "remap_chunks (\<lambda>n off. Inr (base n off)) file_size (e # es) i s =
      remap_chunks (\<lambda>n off. Inr (base n off)) file_size es (i + 1) ?s2"
    using e by (auto simp: Let_def)
  have p: "ws_max_stores ?s2 = ws_max_stores s" "length (ws_store_reopened ?s2) = length (ws_store_reopened s)"
    by simp_all
  have "\<forall>e \<in> set es. entry_ok (ws_max_stores ?s2) file_size e" "ws_max_stores ?s2 = length (ws_store_reopened ?s2)"
      "length (ws_store_reopened ?s2) \<le> no_owner"
    using Cons.prems p by simp_all
  from Cons.IH [OF this, of "i + 1"] obtain s' where
    r: "remap_chunks (\<lambda>n off. Inr (base n off)) file_size es (i + 1) ?s2 = Inr s'" and
    q: "ws_reopened s' = ws_reopened ?s2 @ based base (requeued no_owner (i + 1) es)" and
    l: "length (ws_store_reopened s') = length (ws_store_reopened ?s2)" and
    k: "\<forall>r < length (ws_store_reopened ?s2). ws_store_reopened s' ! r = ws_store_reopened ?s2 ! r @ based base (requeued r (i + 1) es)" and
    n: "ws_next_offset s' = fold max (map (\<lambda>e. ce_offset e + ce_size e) es) (ws_next_offset ?s2)" and
    f: "s'\<lparr>ws_reopened := [], ws_store_reopened := [], ws_next_offset := 0\<rparr> = ?s2\<lparr>ws_reopened := [], ws_store_reopened := [], ws_next_offset := 0\<rparr>"
    by blast
  show ?case
  proof (intro exI [of _ s'] conjI)
    show "remap_chunks (\<lambda>n off. Inr (base n off)) file_size (e # es) i s = Inr s'" using step r by simp
    show "ws_reopened s' = ws_reopened s @ based base (requeued no_owner i (e # es))"
      unfolding q by (simp add: based_def)
    show "length (ws_store_reopened s') = length (ws_store_reopened s)" using l p by simp
    show "\<forall>r < length (ws_store_reopened s). ws_store_reopened s' ! r = ws_store_reopened s ! r @ based base (requeued r i (e # es))"
    proof (intro allI impI)
      fix r assume "r < length (ws_store_reopened s)"
      moreover have "r \<noteq> no_owner" using calculation Cons.prems(3) by linarith
      ultimately show "ws_store_reopened s' ! r = ws_store_reopened s ! r @ based base (requeued r i (e # es))"
        using k p by (auto simp: based_def nth_list_update)
    qed
    show "ws_next_offset s' = fold max (map (\<lambda>e. ce_offset e + ce_size e) (e # es)) (ws_next_offset s)"
      unfolding n by (simp add: max_def)
    show "s'\<lparr>ws_reopened := [], ws_store_reopened := [], ws_next_offset := 0\<rparr> = s\<lparr>ws_reopened := [], ws_store_reopened := [], ws_next_offset := 0\<rparr>"
      unfolding f by simp
  qed
qed (simp add: based_def)

lemma requeued_map:
  "requeued r k (map f [k..<n]) =
    map (\<lambda>i. \<lparr>lc_offset = ce_offset (f i), lc_size = ce_size (f i), lc_index = i\<rparr>)
      (filter (\<lambda>i. ce_state (f i) = chunk_live \<and> ce_owner (f i) = r) [k..<n])"
proof (induction "n - k" arbitrary: k)
  case (Suc m)
  then have "k < n" by simp
  then show ?case using Suc by (simp add: upt_conv_Cons)
qed simp

lemma chunk_start_simps:
  "chunk_start data granted 0 = data"
  "i < length granted \<Longrightarrow> chunk_start data granted (Suc i) = chunk_start data granted i + snd (granted ! i)"
  by (simp_all add: chunk_start_def take_Suc_conv_app_nth)

lemma chunk_start_mono: "i \<le> j \<Longrightarrow> j \<le> length granted \<Longrightarrow> chunk_start data granted i \<le> chunk_start data granted j"
proof (induction j)
  case (Suc j)
  then show ?case by (cases "i = Suc j") (auto simp: chunk_start_simps)
qed simp

lemma fold_max_ends:
  "n \<le> length granted \<Longrightarrow>
    fold max (map (\<lambda>i. chunk_start data granted i + snd (granted ! i)) [0..<n]) data = chunk_start data granted n"
proof (induction n)
  case (Suc n)
  then show ?case using chunk_start_mono [of n "Suc n" granted data]
    by (simp add: chunk_start_simps max_def)
qed (simp add: chunk_start_simps)

lemma do_owners:
  assumes "ws_do p s = (s', ns, gs)" "op_ok s p"
  shows "\<forall>g \<in> set ns. fst g = no_owner \<or> fst g < length (ws_store_reopened s)"
  using assms by (cases p) (auto simp: ws_do_def op_ok_def split: sum.splits prod.splits option.splits)

lemma run_owners:
  assumes "session_inv s0 granted gone s" "ops_ok ps s" "nothing_queued s0" "0 < ws_page s0" "ws_page s0 < 2 ^ 32"
    and "ws_run ps s = (s', ns, gs)"
  shows "\<forall>g \<in> set ns. fst g = no_owner \<or> fst g < length (ws_store_reopened s0)"
  using assms
proof (induction ps arbitrary: s granted gone ns gs)
  case (Cons p ps)
  obtain s1 ns1 gs1 where p: "ws_do p s = (s1, ns1, gs1)" using prod_cases3 by blast
  obtain s2 ns2 gs2 where ps: "ws_run ps s1 = (s2, ns2, gs2)" using prod_cases3 by blast
  have "session_inv s0 (granted @ ns1) (gone @ gs1) s1"
    using session_do [OF Cons.prems(1) _ Cons.prems(3-5) p] Cons.prems(2) by simp
  moreover have "ops_ok ps s1" "ws_run ps s1 = (s', ns2, gs2)" using Cons.prems(2,6) p ps by simp_all
  ultimately have "\<forall>g \<in> set ns2. fst g = no_owner \<or> fst g < length (ws_store_reopened s0)"
    using Cons.IH Cons.prems(3-5) by blast
  moreover have "\<forall>g \<in> set ns1. fst g = no_owner \<or> fst g < length (ws_store_reopened s0)"
    using do_owners [OF p] Cons.prems(1,2) by (simp add: session_inv_def settled_def)
  moreover have "ns = ns1 @ ns2" using Cons.prems(6) p ps by simp
  ultimately show ?case by (simp add: ball_Un)
qed simp

lemma created:
  assumes q: "sane_page q" and b: "ac < 2 ^ 32" "as < 2 ^ 32"
    and c: "ws_create q io_open io_ftruncate io_map ac as = Inr s0"
  shows "session_inv s0 [] [] s0" "nothing_queued s0" "0 < ws_page s0" "ws_page s0 < 2 ^ 32"
    "geometry_ok (hm_header (ws_map s0))" "wh_magic (hm_header (ws_map s0)) = workspace_magic"
    "wh_format_major (hm_header (ws_map s0)) = format_major"
    "unat (wh_max_chunks (hm_header (ws_map s0))) = ws_max_chunks s0"
    "unat (wh_data_offset (hm_header (ws_map s0))) = ws_data_offset s0"
    "unat (wh_max_stores (hm_header (ws_map s0))) = length (ws_store_reopened s0)"
    "length (ws_store_reopened s0) < no_owner" "ws_max_chunks s0 < 2 ^ 32"
proof -
  obtain page chunks stores where page: "page = (if q > 0 then nat q else 4096)"
    and chunks: "chunks = layout_or ac default_max_chunks" and stores: "stores = layout_or as default_max_stores"
    and fit: "snapshot_bytes stores \<le> page"
    and s0: "s0 = init_store_directory stores (source_new page chunks (table_offset page chunks + 2 * page)
       (table_offset page chunks + 2 * page) 0
       (fresh_map (fresh_header page chunks (table_offset page chunks + 2 * page) (table_offset page chunks) stores) chunks stores))"
    using ws_create_cases [OF c] by blast
  have lim: "chunks < 2 ^ 32" "0 < stores"
    using b chunks stores by (simp_all add: layout_or_def default_max_chunks_def default_max_stores_def)
  note fl = fresh_layout [OF q page lim fit]
  let ?t = "table_offset page chunks"
  have big: "?t + 2 * page < 2 ^ 64" "?t + 2 * page < 2 ^ 63" "?t < 2 ^ 64" using fl(3) by simp_all
  have u: "unat (of_nat page :: 32 word) = page" "unat (of_nat chunks :: 32 word) = chunks"
      "unat (of_nat (?t + 2 * page) :: 64 word) = ?t + 2 * page" "unat (of_nat ?t :: 64 word) = ?t" "unat (of_nat stores :: 64 word) = stores"
    using fl lim big by (simp_all only: unat_of_nat_32 unat_of_nat_64) (simp add: unat_of_nat_64)
  have h: "hm_header (ws_map s0) = fresh_header page chunks (?t + 2 * page) ?t stores"
    by (simp add: s0 init_store_directory_def source_new_def fresh_map_def)
  have nz: "(of_nat page :: 32 word) \<noteq> 0" using u(1) fl(5) by (metis neq0_conv unat_0)
  have pg: "unat (page_or (hm_header (ws_map s0))) = page" unfolding unat_page_or h by (simp add: fresh_header_def u(1) nz)
  show "geometry_ok (hm_header (ws_map s0))"
    unfolding geometry_ok_iff pg using fl(1) u unfolding h fresh_header_def by (simp del: of_nat_add of_nat_mult)
  show "unat (wh_max_chunks (hm_header (ws_map s0))) = ws_max_chunks s0"
    "unat (wh_data_offset (hm_header (ws_map s0))) = ws_data_offset s0"
    "unat (wh_max_stores (hm_header (ws_map s0))) = length (ws_store_reopened s0)"
    unfolding h using u by (simp_all add: fresh_header_def s0 init_store_directory_def source_new_def del: of_nat_add of_nat_mult)
  show "wh_magic (hm_header (ws_map s0)) = workspace_magic" "wh_format_major (hm_header (ws_map s0)) = format_major"
    unfolding h by (simp_all add: fresh_header_def)
  show "length (ws_store_reopened s0) < no_owner" "0 < ws_page s0" "ws_page s0 < 2 ^ 32" "ws_max_chunks s0 < 2 ^ 32"
    using fl fit lim by (simp_all add: s0 init_store_directory_def source_new_def no_owner_def snapshot_bytes_def sizeof_defs)
  show "nothing_queued s0" by (simp add: s0 init_store_directory_def source_new_def nothing_queued_def)
  have "live_known s0" by (simp add: s0 init_store_directory_def source_new_def live_known_def)
  then show "session_inv s0 [] [] s0"
    using big by (simp add: session_inv_def settled_refl directory_is_def chunk_start_simps)
      (simp add: s0 init_store_directory_def source_new_def fresh_map_def fresh_header_def)
qed

text \<open>
  C23: On a file created with a sane page size and 32-bit table sizes, whatever a session acquired, released and
  punched, reopening the file it left, its mapped header as it was and its data not truncated, gives each
  store exactly its own unpunched chunks, in the order it acquired them, each where it was, and
  growth goes on where the session stopped. The chunks lie end to end from the data offset.
\<close>

theorem reopen_requeues_in_order:
  assumes q: "sane_page q" and b: "ac < 2 ^ 32" "as < 2 ^ 32"
    and c: "ws_create q io_open io_ftruncate io_map ac as = Inr s0"
    and ops: "ops_ok ps s0" and run: "ws_run ps s0 = (s, granted, gone)"
    and f: "fi_map f = ws_map s" "ws_next_offset s \<le> fi_size f"
  shows "\<exists>s'. ws_open None None None None (\<lambda>n off. Inr (base n off)) f = Inr s' \<and>
    ws_next_offset s' = ws_next_offset s \<and> ws_chunk_count s' = length granted \<and> ws_data_offset s' = ws_data_offset s0 \<and>
    length (ws_store_reopened s') = length (ws_store_reopened s0) \<and>
    (\<forall>r < length (ws_store_reopened s0). map snd (ws_store_reopened s' ! r) =
       map (\<lambda>i. \<lparr>lc_offset = ws_data_offset s0 + sum_list (map snd (take i granted)), lc_size = snd (granted ! i), lc_index = i\<rparr>)
         (filter (\<lambda>i. fst (granted ! i) = r \<and> i \<notin> set gone) [0..<length granted]))"
proof -
  note cr = created [OF q b c]
  let ?d = "ws_data_offset s0" let ?n = "length granted" let ?st = "length (ws_store_reopened s0)"
  have inv: "session_inv s0 granted gone s" using session_run [OF cr(1) ops cr(2-4) run] by simp
  have own: "\<forall>g \<in> set granted. fst g = no_owner \<or> fst g < ?st" using run_owners [OF cr(1) ops cr(2-4) run] .
  have d: "directory_is ?d granted gone s" and st: "settled s0 s" using inv by (simp_all add: session_inv_def)
  let ?h = "hm_header (ws_map s)"
  obtain k where h: "?h = (hm_header (ws_map s0))\<lparr>wh_chunk_count := k\<rparr>" using st by (auto simp: settled_def)
  have n: "?n \<le> ws_max_chunks s0" "?n < 2 ^ 64" using d st cr(12) by (simp_all add: directory_is_def settled_def)
  have uc: "unat (wh_chunk_count ?h) = ?n" using d n(2) by (simp add: directory_is_def unat_of_nat_64)
  have po: "page_or ?h = page_or (hm_header (ws_map s0))" unfolding h by (simp add: page_or_def)
  have geo: "geometry_ok ?h" using cr(5) unfolding geometry_ok_iff po unfolding h by simp
  have le: "\<not> wh_chunk_count ?h > ucast (wh_max_chunks ?h)"
    using uc n(1) cr(8) by (simp add: h not_less word_le_nat_alt unat_ucast_64)
  have chk: "check_header ?h = None" using geo le cr(6,7) by (simp add: check_header_def h)
  have dat: "unat (wh_data_offset ?h) = ?d" using cr(9) by (simp add: h)
  have nx: "ws_next_offset s = chunk_start ?d granted ?n" "ws_next_offset s < 2 ^ 63" using d by (simp_all add: directory_is_def)
  have "?d \<le> ws_next_offset s" using chunk_start_mono [of 0 ?n granted ?d] nx by (simp add: chunk_start_simps)
  then have sz: "\<not> fi_size f < unat (wh_data_offset ?h)" using f dat by simp
  let ?es = "take ?n (hm_dir (ws_map s))"
  have es: "?es = map (chunk_at ?d granted gone) [0..<?n]"
    using d by (intro nth_equalityI) (simp_all add: directory_is_def)
  let ?s1 = "reopened_source (ws_map s)"
  have s1: "ws_max_stores ?s1 = ?st" "length (ws_store_reopened ?s1) = ?st" "ws_next_offset ?s1 = ?d"
      "ws_chunk_count ?s1 = ?n" "ws_data_offset ?s1 = ?d" "\<forall>r < ?st. ws_store_reopened ?s1 ! r = []"
    using dat uc cr(10) h by (simp_all add: reopened_source_def Let_def init_store_directory_def source_new_def)
  have fits: "chunk_start ?d granted i + snd (granted ! i) \<le> ws_next_offset s" if "i < ?n" for i
    using that chunk_start_mono [of "Suc i" ?n granted ?d] nx by (simp add: chunk_start_simps)
  have ok: "entry_ok (ws_max_stores ?s1) (fi_size f) (chunk_at ?d granted gone i)" if "i < ?n" for i
  proof -
    have "chunk_start ?d granted i + snd (granted ! i) < 2 ^ 64" using fits [OF that] nx(2) by simp
    moreover have "fst (granted ! i) = no_owner \<or> fst (granted ! i) < ?st" using own that nth_mem by blast
    ultimately show ?thesis using fits [OF that] f(2) s1(1) by (simp add: entry_ok_def chunk_at_def)
  qed
  then have all_ok: "\<forall>e \<in> set ?es. entry_ok (ws_max_stores ?s1) (fi_size f) e" unfolding es by simp
  have lens: "ws_max_stores ?s1 = length (ws_store_reopened ?s1)" "length (ws_store_reopened ?s1) \<le> no_owner"
    using cr(11) s1(1,2) by simp_all
  obtain s' where s':
    "remap_chunks (\<lambda>n off. Inr (base n off)) (fi_size f) ?es 0 ?s1 = Inr s' \<and>
    ws_reopened s' = ws_reopened ?s1 @ based base (requeued no_owner 0 ?es) \<and>
    length (ws_store_reopened s') = length (ws_store_reopened ?s1) \<and>
    (\<forall>r < length (ws_store_reopened ?s1). ws_store_reopened s' ! r = ws_store_reopened ?s1 ! r @ based base (requeued r 0 ?es)) \<and>
    ws_next_offset s' = fold max (map (\<lambda>e. ce_offset e + ce_size e) ?es) (ws_next_offset ?s1) \<and>
    s'\<lparr>ws_reopened := [], ws_store_reopened := [], ws_next_offset := 0\<rparr> = ?s1\<lparr>ws_reopened := [], ws_store_reopened := [], ws_next_offset := 0\<rparr>"
    using remap_chunks_queues [OF all_ok lens, of base 0] by blast
  note r = s' [THEN conjunct1] and len = s' [THEN conjunct2, THEN conjunct2, THEN conjunct1]
    and queues = s' [THEN conjunct2, THEN conjunct2, THEN conjunct2, THEN conjunct1]
    and off = s' [THEN conjunct2, THEN conjunct2, THEN conjunct2, THEN conjunct2, THEN conjunct1]
    and rest = s' [THEN conjunct2, THEN conjunct2, THEN conjunct2, THEN conjunct2, THEN conjunct2]
  have "ws_chunk_count s' = ws_chunk_count ?s1" "ws_data_offset s' = ws_data_offset ?s1"
    using arg_cong [OF rest, of ws_chunk_count] arg_cong [OF rest, of ws_data_offset] by simp_all
  moreover have "ws_next_offset s' = ws_next_offset s"
    unfolding off es s1(3) using fold_max_ends [of ?n granted ?d] nx by (simp add: chunk_at_def comp_def)
  moreover have "map snd (ws_store_reopened s' ! r) =
       map (\<lambda>i. \<lparr>lc_offset = ?d + sum_list (map snd (take i granted)), lc_size = snd (granted ! i), lc_index = i\<rparr>)
         (filter (\<lambda>i. fst (granted ! i) = r \<and> i \<notin> set gone) [0..<?n])" if "r < ?st" for r
  proof -
    have "map snd (ws_store_reopened s' ! r) = requeued r 0 ?es" using queues s1(2,6) that by (simp add: based_def comp_def)
    moreover have "(\<lambda>i. ce_state (chunk_at ?d granted gone i) = chunk_live \<and> ce_owner (chunk_at ?d granted gone i) = r) =
        (\<lambda>i. fst (granted ! i) = r \<and> i \<notin> set gone)"
      by (auto simp: chunk_at_def chunk_live_def chunk_free_def)
    ultimately show ?thesis unfolding es requeued_map by (simp add: chunk_at_def chunk_start_def)
  qed
  moreover have "ws_open None None None None (\<lambda>n off. Inr (base n off)) f = Inr s'"
    using chk sz r uc by (simp add: ws_open_def f)
  ultimately show ?thesis using s1 len by auto
qed

definition ft_ok :: "nat \<Rightarrow> int option" where "ft_ok n = (if n < 2 ^ 63 then None else Some 22)"

lemma ft_ok: "\<forall>n \<ge> 2 ^ 63. ft_ok n \<noteq> None"
  by (simp add: ft_ok_def)

lemma op_ok_length:
  "length (ws_store_reopened s1) = length (ws_store_reopened s) \<Longrightarrow> (case p of Punch _ _ \<Rightarrow> False | _ \<Rightarrow> True) \<Longrightarrow>
    op_ok s p \<Longrightarrow> op_ok s1 p"
  by (cases p) (auto simp: op_ok_def split: option.splits)

lemma ops_ok_static:
  assumes "session_inv s0 granted gone s" "nothing_queued s0" "0 < ws_page s0" "ws_page s0 < 2 ^ 32"
    and "\<forall>p \<in> set ps. op_ok s p \<and> (case p of Punch _ _ \<Rightarrow> False | _ \<Rightarrow> True)"
  shows "ops_ok ps s"
  using assms
proof (induction ps arbitrary: s granted gone)
  case (Cons p ps)
  obtain s1 ns gs where p: "ws_do p s = (s1, ns, gs)" using prod_cases3 by blast
  have inv: "session_inv s0 (granted @ ns) (gone @ gs) s1"
    using session_do [OF Cons.prems(1) _ Cons.prems(2-4) p] Cons.prems(5) by simp
  have "length (ws_store_reopened s1) = length (ws_store_reopened s)"
    using inv Cons.prems(1) by (simp add: session_inv_def settled_def)
  then have "\<forall>p \<in> set ps. op_ok s1 p \<and> (case p of Punch _ _ \<Rightarrow> False | _ \<Rightarrow> True)"
    using Cons.prems(5) op_ok_length [of s1 s] by simp
  then show ?case using Cons.IH [OF inv Cons.prems(2-4)] Cons.prems(5) p by simp
qed simp

lemma reopen_requeues_in_order_witness:
  "\<exists>s0 s'. ws_create 32 None (\<lambda>_. None) (\<lambda>_. None) 4 1 = Inr s0 \<and>
     (let ps = [Acquire (Some 0) 5 ft_ok (\<lambda>n off. Inr off), Acquire None 40 ft_ok (\<lambda>n off. Inr off),
                Acquire (Some 0) 32 ft_ok (\<lambda>n off. Inr off), Release 288 (\<lambda>_ _. None), Acquire (Some 0) 1 ft_ok (\<lambda>n off. Inr off)];
          s = fst (ws_run ps s0)
      in ws_open None None None None (\<lambda>n off. Inr off) \<lparr>fi_map = ws_map s, fi_size = ws_next_offset s\<rparr> = Inr s' \<and>
         map snd (ws_store_reopened s' ! 0) =
           [\<lparr>lc_offset = 384, lc_size = 32, lc_index = 2\<rparr>, \<lparr>lc_offset = 416, lc_size = 32, lc_index = 3\<rparr>])"
proof -
  let ?ps = "[Acquire (Some 0) 5 ft_ok (\<lambda>n off. Inr off), Acquire None 40 ft_ok (\<lambda>n off. Inr off),
                Acquire (Some 0) 32 ft_ok (\<lambda>n off. Inr off), Release 288 (\<lambda>_ _. None), Acquire (Some 0) 1 ft_ok (\<lambda>n off. Inr off)]"
  let ?h = "fresh_header 32 4 288 224 1"
  let ?s0 = "init_store_directory 1 (source_new 32 4 288 288 0 (fresh_map ?h 4 1))"
  have s0: "ws_create 32 None (\<lambda>_. None) (\<lambda>_. None) 4 1 = Inr ?s0"
    by (simp add: ws_create_def layout_or_def snapshot_bytes_def sizeof_defs Let_def table_offset_def align_up_def)
  obtain s granted gone where run: "ws_run ?ps ?s0 = (s, granted, gone)" using prod_cases3 by blast
  have r: "snd (ws_run ?ps ?s0) = ([(0, 32), (no_owner, 64), (0, 32), (0, 32)], [0])"
    "ws_data_offset ?s0 = 288" "length (ws_store_reopened ?s0) = 1"
    by (simp_all add: ws_do_def acquire_def acquire_for_def grow_def ws_release_def punch_now_def live_put_def Let_def
      init_store_directory_def source_new_def ft_ok_def align_up_def del: One_nat_def)
  have g: "granted = [(0, 32), (no_owner, 64), (0, 32), (0, 32)]" "gone = [0]" "ws_data_offset ?s0 = 288" "length (ws_store_reopened ?s0) = 1"
    using r run by simp_all
  have pg: "sane_page 32" by (simp add: sane_page_def) (rule exI [of _ 5], simp)
  have lt: "(4::nat) < 2 ^ 32" "(1::nat) < 2 ^ 32" by simp_all
  note cr = created [OF pg lt s0]
  have "\<forall>p \<in> set ?ps. op_ok ?s0 p \<and> (case p of Punch _ _ \<Rightarrow> False | _ \<Rightarrow> True)" using g(4) ft_ok by (simp add: op_ok_def)
  note ok = ops_ok_static [OF cr(1-4) this]
  let ?f = "\<lparr>fi_map = ws_map s, fi_size = ws_next_offset s\<rparr>"
  have "\<exists>s'. ws_open None None None None (\<lambda>n off. Inr off) ?f = Inr s' \<and>
    ws_next_offset s' = ws_next_offset s \<and> ws_chunk_count s' = length granted \<and> ws_data_offset s' = ws_data_offset ?s0 \<and>
    length (ws_store_reopened s') = length (ws_store_reopened ?s0) \<and>
    (\<forall>r < length (ws_store_reopened ?s0). map snd (ws_store_reopened s' ! r) =
       map (\<lambda>i. \<lparr>lc_offset = ws_data_offset ?s0 + sum_list (map snd (take i granted)), lc_size = snd (granted ! i), lc_index = i\<rparr>)
         (filter (\<lambda>i. fst (granted ! i) = r \<and> i \<notin> set gone) [0..<length granted]))"
    by (rule reopen_requeues_in_order [OF pg lt s0 ok run]) simp_all
  then obtain s' where opened: "ws_open None None None None (\<lambda>n off. Inr off) ?f = Inr s'"
    and queues: "\<forall>r < length (ws_store_reopened ?s0). map snd (ws_store_reopened s' ! r) =
       map (\<lambda>i. \<lparr>lc_offset = ws_data_offset ?s0 + sum_list (map snd (take i granted)), lc_size = snd (granted ! i), lc_index = i\<rparr>)
         (filter (\<lambda>i. fst (granted ! i) = r \<and> i \<notin> set gone) [0..<length granted])"
    by (elim exE conjE)
  have "map snd (ws_store_reopened s' ! 0) = [\<lparr>lc_offset = 384, lc_size = 32, lc_index = 2\<rparr>, \<lparr>lc_offset = 416, lc_size = 32, lc_index = 3\<rparr>]"
    using queues [rule_format, of 0] unfolding g by (simp add: no_owner_def upt_rec del: One_nat_def)
  then show ?thesis using s0 run opened
    by (intro exI [of _ ?s0] exI [of _ s']) (simp only: Let_def fst_conv)
qed

subsection \<open>What adoption accepts\<close>

lemma nat_power_of_two_iff:
  assumes "0 < (n::nat)"
  shows "n AND (n - 1) = 0 \<longleftrightarrow> (\<exists>k. n = 2 ^ k)"
proof
  assume z: "n AND (n - 1) = 0"
  obtain k where k: "2 ^ k \<le> n" "n < 2 ^ (k + 1)"
    using ex_power_ivl1 [of 2 n] assms by auto
  have b: "bit m k" if "2 ^ k \<le> m" "m < 2 ^ (k + 1)" for m :: nat
  proof -
    have "m div 2 ^ k = 1" using that by (intro div_nat_eqI) simp_all
    then show ?thesis by (simp add: bit_iff_odd)
  qed
  have "n = 2 ^ k"
  proof (rule ccontr)
    assume "n \<noteq> 2 ^ k"
    then have "bit (n - 1) k" using k by (intro b) simp_all
    moreover have "bit n k" using k by (rule b)
    ultimately have "bit (n AND (n - 1)) k" by (simp add: bit_and_iff)
    with z show False by simp
  qed
  then show "\<exists>k. n = 2 ^ k" ..
next
  assume "\<exists>k. n = 2 ^ k"
  then obtain k where k: "n = 2 ^ k" ..
  have "n - 1 = mask k" by (simp add: k mask_eq_exp_minus_1)
  then have "n AND (n - 1) = take_bit k n" by (simp add: take_bit_eq_mask)
  then show "n AND (n - 1) = 0" by (simp add: k take_bit_eq_mod)
qed

lemma power_of_two_iff:
  assumes "(w :: 32 word) \<noteq> 0"
  shows "w AND (w - 1) = 0 \<longleftrightarrow> (\<exists>k. unat w = 2 ^ k)"
proof -
  have p: "0 < unat w" using assms by (simp add: unat_gt_0)
  have "unat (w - 1) = unat w - 1" using p by (simp add: unat_minus_one assms)
  then have "unat (w AND (w - 1)) = unat w AND (unat w - 1)" by (simp add: unsigned_and_eq)
  then show ?thesis using nat_power_of_two_iff [OF p] by (metis unat_eq_zero)
qed

lemma needed_chunks_exact:
  assumes "se_stride e \<noteq> 0" "se_chunk_slots e \<noteq> 0"
  shows "needed_chunks e \<le> n \<longleftrightarrow> unat (se_high_water e) \<le> n * unat (se_chunk_slots e)"
proof (cases "se_high_water e = 0")
  case False
  let ?h = "unat (se_high_water e)" let ?c = "unat (se_chunk_slots e)"
  have p: "0 < ?h" "0 < ?c" using False assms by (simp_all add: unat_gt_0)
  have h1: "unat (se_high_water e - 1) = ?h - 1" using False by (simp add: unat_minus_one)
  have "(?h - 1) div ?c \<le> ?h - 1" by (rule div_le_dividend)
  then have lt: "(?h - 1) div ?c + 1 < 2 ^ 32" using unat_32 [of "se_high_water e"] p by linarith
  have "unat ((se_high_water e - 1) div se_chunk_slots e + 1) = (?h - 1) div ?c + 1"
    using lt by (subst unat_add_lem [THEN iffD1]) (simp_all add: unat_div h1)
  then have "needed_chunks e = (?h - 1) div ?c + 1" using False assms by (simp add: needed_chunks_def)
  moreover have "(?h - 1) div ?c + 1 \<le> n \<longleftrightarrow> ?h \<le> n * ?c"
  proof -
    have "(?h - 1) div ?c + 1 \<le> n \<longleftrightarrow> (?h - 1) div ?c < n" by linarith
    also have "\<dots> \<longleftrightarrow> ?h - 1 < n * ?c" using p by (simp add: div_less_iff_less_mult)
    also have "\<dots> \<longleftrightarrow> ?h \<le> n * ?c" using p by linarith
    finally show ?thesis .
  qed
  ultimately show ?thesis by simp
qed (simp add: needed_chunks_def)

text \<open>A row a reopening build can act on, over the chunks queued for it.\<close>

definition row_fits :: "store_entry \<Rightarrow> nat \<Rightarrow> bool" where
  "row_fits e queued \<longleftrightarrow>
     e = unused_row \<or>
     se_stride e \<noteq> 0 \<and> (\<exists>k \<le> 12. unat (se_chunk_slots e) = 2 ^ k) \<and> (\<exists>k. unat (se_align e) = 2 ^ k) \<and>
     max_align \<le> unat (se_align e) \<and> unat (se_align e) dvd unat (se_stride e) \<and>
     unat (se_high_water e) \<le> queued * unat (se_chunk_slots e)"

lemma row_error_iff: "row_error e queued = None \<longleftrightarrow> row_fits e queued"
proof (cases "se_stride e = 0")
  case True
  then show ?thesis by (auto simp: row_error_def row_fits_def unused_row_def)
next
  case False
  show ?thesis
  proof (cases "se_chunk_slots e = 0 \<or> se_align e = 0")
    case True
    then show ?thesis using False by (auto simp: row_error_def row_fits_def unused_row_def max_align_def word_less_nat_alt)
  next
    case nz: False
    have cs: "\<not> se_chunk_slots e > 2 ^ 12 \<longleftrightarrow> unat (se_chunk_slots e) \<le> 2 ^ 12"
      by (simp add: word_less_nat_alt not_less)
    have pow: "(\<exists>k. unat (se_chunk_slots e) = 2 ^ k) \<and> unat (se_chunk_slots e) \<le> 2 ^ 12 \<longleftrightarrow> (\<exists>k \<le> 12. unat (se_chunk_slots e) = 2 ^ k)"
    proof
      assume a: "(\<exists>k. unat (se_chunk_slots e) = 2 ^ k) \<and> unat (se_chunk_slots e) \<le> 2 ^ 12"
      then obtain k where k: "unat (se_chunk_slots e) = 2 ^ k" by blast
      have "k \<le> 12" using a unfolding k by (intro power_le_imp_le_exp [of 2]) simp_all
      then show "\<exists>k \<le> 12. unat (se_chunk_slots e) = 2 ^ k" using k by blast
    next
      assume "\<exists>k \<le> 12. unat (se_chunk_slots e) = 2 ^ k"
      then obtain k where "k \<le> 12" "unat (se_chunk_slots e) = 2 ^ k" by blast
      then show "(\<exists>k. unat (se_chunk_slots e) = 2 ^ k) \<and> unat (se_chunk_slots e) \<le> 2 ^ 12"
        using power_increasing [of k 12 "2::nat"] by auto
    qed
    have al: "\<not> se_align e < of_nat max_align \<longleftrightarrow> max_align \<le> unat (se_align e)"
      by (simp add: word_less_nat_alt not_less max_align_def)
    have st: "se_stride e mod se_align e = 0 \<longleftrightarrow> unat (se_align e) dvd unat (se_stride e)"
      by (simp add: unat_eq_zero [symmetric] unat_mod dvd_eq_mod_eq_0 del: unat_eq_zero)
    have pc: "se_chunk_slots e AND (se_chunk_slots e - 1) = 0 \<longleftrightarrow> (\<exists>k. unat (se_chunk_slots e) = 2 ^ k)"
      and pa: "se_align e AND (se_align e - 1) = 0 \<longleftrightarrow> (\<exists>k. unat (se_align e) = 2 ^ k)"
      using nz by (simp_all add: power_of_two_iff)
    have q: "\<not> queued < needed_chunks e \<longleftrightarrow> unat (se_high_water e) \<le> queued * unat (se_chunk_slots e)"
      using needed_chunks_exact [OF False, of queued] nz by (simp add: not_less)
    have u: "e \<noteq> unused_row" using False by (auto simp: unused_row_def)
    have "row_error e queued = None \<longleftrightarrow>
        se_chunk_slots e AND (se_chunk_slots e - 1) = 0 \<and> \<not> se_chunk_slots e > 2 ^ 12 \<and> \<not> se_align e < of_nat max_align \<and>
        se_align e AND (se_align e - 1) = 0 \<and> se_stride e mod se_align e = 0 \<and> \<not> queued < needed_chunks e"
      using False nz unfolding row_error_def
      by (cases "queued < needed_chunks e"; cases "se_stride e mod se_align e = 0"; cases "se_align e AND (se_align e - 1) = 0";
          cases "se_chunk_slots e AND (se_chunk_slots e - 1) = 0") simp_all
    then show ?thesis
      unfolding row_fits_def cs al st pc pa q using False u pow by blast
  qed
qed

lemma rows_error_iff:
  "length qs = length es \<Longrightarrow> rows_error es qs = None \<longleftrightarrow> (\<forall>i < length es. row_error (es ! i) (length (qs ! i)) = None)"
proof (induction es qs rule: rows_error.induct)
  case (1 e es q qs)
  have "(\<forall>i < length (e # es). row_error ((e # es) ! i) (length ((q # qs) ! i)) = None) \<longleftrightarrow>
      row_error e (length q) = None \<and> (\<forall>i < length es. row_error (es ! i) (length (qs ! i)) = None)"
    by (simp add: All_less_Suc2)
  then show ?case using 1 by (auto split: option.splits)
qed auto

lemma punch_now_simps [simp]:
  "ws_store_reopened (punch_now fa c s) = ws_store_reopened s" "ws_restored (punch_now fa c s) = ws_restored s"
  "hm_dir (ws_map (punch_now fa c s)) = (hm_dir (ws_map s))[lc_index c := (hm_dir (ws_map s) ! lc_index c)\<lparr>ce_state := chunk_free\<rparr>]"
  "hm_root (ws_map (punch_now fa c s)) = hm_root (ws_map s)" "hm_snap (ws_map (punch_now fa c s)) = hm_snap (ws_map s)"
  by (simp_all add: punch_now_def Let_def split: option.splits)

definition freed :: "nat set \<Rightarrow> chunk_entry list \<Rightarrow> chunk_entry list" where
  "freed I dir = map (\<lambda>i. if i \<in> I then (dir ! i)\<lparr>ce_state := chunk_free\<rparr> else dir ! i) [0..<length dir]"

lemma freed_simps [simp]:
  "length (freed I dir) = length dir"
  "i < length dir \<Longrightarrow> freed I dir ! i = (if i \<in> I then (dir ! i)\<lparr>ce_state := chunk_free\<rparr> else dir ! i)"
  "freed {} dir = dir"
  by (simp_all add: freed_def map_nth)

lemma freed_freed: "freed J (freed I dir) = freed (I \<union> J) dir"
  by (rule nth_equalityI) auto

lemma freed_update: "dir[i := (dir ! i)\<lparr>ce_state := chunk_free\<rparr>] = freed {i} dir"
  by (rule nth_equalityI) (auto simp: nth_list_update)

lemma discard_all:
  "hm_dir (ws_map (fold (discard_reopened fa) cs s)) = freed ((\<lambda>c. lc_index (snd c)) ` set cs) (hm_dir (ws_map s))"
  "ws_store_reopened (fold (discard_reopened fa) cs s) = ws_store_reopened s"
  "ws_restored (fold (discard_reopened fa) cs s) = ws_restored s"
  by (induction cs arbitrary: s) (simp_all add: discard_reopened_def freed_update freed_freed)

definition dropped :: "store_entry list \<Rightarrow> (nat \<times> live_chunk) list list \<Rightarrow> nat set" where
  "dropped rows queues = (\<Union>r < length rows. (\<lambda>c. lc_index (snd c)) ` set (drop (needed_chunks (rows ! r)) (queues ! r)))"

lemma trim_queues_spec:
  assumes "r + length es \<le> length (ws_store_reopened s)"
  shows "ws_store_reopened (trim_queues fa r es s) =
      map (\<lambda>i. if r \<le> i \<and> i < r + length es then take (needed_chunks (es ! (i - r))) (ws_store_reopened s ! i) else ws_store_reopened s ! i)
        [0..<length (ws_store_reopened s)] \<and>
    hm_dir (ws_map (trim_queues fa r es s)) =
      freed (\<Union>i < length es. (\<lambda>c. lc_index (snd c)) ` set (drop (needed_chunks (es ! i)) (ws_store_reopened s ! (r + i)))) (hm_dir (ws_map s)) \<and>
    ws_restored (trim_queues fa r es s) = ws_restored s"
  using assms
proof (induction es arbitrary: r s)
  case Nil
  have "ws_store_reopened s = map (\<lambda>i. if r \<le> i \<and> i < r then take (needed_chunks ([] ! (i - r))) (ws_store_reopened s ! i)
      else ws_store_reopened s ! i) [0..<length (ws_store_reopened s)]"
    by (rule nth_equalityI) simp_all
  then show ?case by simp
next
  case (Cons e es)
  let ?t = "trim_queue fa r e s"
  have t: "ws_store_reopened ?t = (ws_store_reopened s)[r := take (needed_chunks e) (ws_store_reopened s ! r)]"
    "hm_dir (ws_map ?t) = freed ((\<lambda>c. lc_index (snd c)) ` set (drop (needed_chunks e) (ws_store_reopened s ! r))) (hm_dir (ws_map s))"
    "ws_restored ?t = ws_restored s"
    by (simp_all add: trim_queue_def Let_def discard_all)
  have l: "r + 1 + length es \<le> length (ws_store_reopened ?t)" using Cons.prems by (simp add: t)
  note IH = Cons.IH [OF l]
  have q: "ws_store_reopened (trim_queues fa r (e # es) s) =
      map (\<lambda>i. if r \<le> i \<and> i < r + length (e # es) then take (needed_chunks ((e # es) ! (i - r))) (ws_store_reopened s ! i) else ws_store_reopened s ! i)
        [0..<length (ws_store_reopened s)]"
    unfolding trim_queues.simps IH [THEN conjunct1] t(1)
    by (rule nth_equalityI, simp, rename_tac i, case_tac "i = r") (auto simp: nth_list_update nth_Cons')
  have "(\<Union>i < length (e # es). (\<lambda>c. lc_index (snd c)) ` set (drop (needed_chunks ((e # es) ! i)) (ws_store_reopened s ! (r + i)))) =
      (\<lambda>c. lc_index (snd c)) ` set (drop (needed_chunks e) (ws_store_reopened s ! r)) \<union>
      (\<Union>i < length es. (\<lambda>c. lc_index (snd c)) ` set (drop (needed_chunks (es ! i)) (ws_store_reopened ?t ! (r + 1 + i))))"
    by (simp add: t(1) lessThan_Suc_eq_insert_0 image_image del: UN_simps)
  then have d: "hm_dir (ws_map (trim_queues fa r (e # es) s)) =
      freed (\<Union>i < length (e # es). (\<lambda>c. lc_index (snd c)) ` set (drop (needed_chunks ((e # es) ! i)) (ws_store_reopened s ! (r + i)))) (hm_dir (ws_map s))"
    unfolding trim_queues.simps IH [THEN conjunct2, THEN conjunct1] t(2) freed_freed by simp
  show ?case using q d IH t(3) by simp
qed

text \<open>
  C24: With a row for every reopened queue, adoption succeeds exactly if every row of the snapshot is unused and clear, or canonical
  geometry whose queued chunks cover the high water; on success each store keeps exactly the
  fewest chunks that cover it and every chunk above is freed in the directory, no other entry
  changing; a refusal changes nothing but the rows it read.
\<close>

theorem adopt_keeps_what_the_rows_cover:
  assumes len: "length (sn_rows (hm_snap (ws_map s) x)) = length (ws_store_reopened s)"
    and rows: "rows = sn_rows (hm_snap (ws_map s) x)" and queues: "queues = ws_store_reopened s"
  shows "case adopt_snapshot fa x s of
      (s', Inr _) \<Rightarrow>
        (\<forall>r < length rows. row_fits (rows ! r) (length (queues ! r))) \<and>
        length (ws_store_reopened s') = length queues \<and>
        (\<forall>r < length rows. ws_store_reopened s' ! r = take (needed_chunks (rows ! r)) (queues ! r) \<and>
           length (ws_store_reopened s' ! r) = needed_chunks (rows ! r) \<and>
           (\<forall>n. needed_chunks (rows ! r) \<le> n \<longleftrightarrow> unat (se_high_water (rows ! r)) \<le> n * unat (se_chunk_slots (rows ! r)))) \<and>
        hm_dir (ws_map s') = freed (dropped rows queues) (hm_dir (ws_map s)) \<and> ws_restored s' = rows \<and> ws_adopted s'
    | (s', Inl e) \<Rightarrow>
        (\<exists>r < length rows. \<not> row_fits (rows ! r) (length (queues ! r))) \<and> s' = s\<lparr>ws_restored := rows\<rparr>"
proof -
  let ?s0 = "s\<lparr>ws_restored := rows\<rparr>"
  have l: "length rows = length queues" using len rows queues by simp
  have iff: "rows_error rows queues = None \<longleftrightarrow> (\<forall>r < length rows. row_fits (rows ! r) (length (queues ! r)))"
    using rows_error_iff [of queues rows] l by (simp add: row_error_iff)
  show ?thesis
  proof (cases "rows_error rows queues")
    case (Some e)
    then have "adopt_snapshot fa x s = (?s0, Inl e)" using rows queues by (simp add: adopt_snapshot_def Let_def)
    then show ?thesis using iff Some by simp
  next
    case None
    let ?s' = "(trim_queues fa 0 rows ?s0)\<lparr>ws_adopted := True\<rparr>"
    have a: "adopt_snapshot fa x s = (?s', Inr ())" using None rows queues by (simp add: adopt_snapshot_def Let_def)
    have fits: "\<forall>r < length rows. row_fits (rows ! r) (length (queues ! r))" using iff None by simp
    have spec: "ws_store_reopened ?s' = map (\<lambda>i. take (needed_chunks (rows ! i)) (queues ! i)) [0..<length queues]"
      "hm_dir (ws_map ?s') = freed (dropped rows queues) (hm_dir (ws_map s))" "ws_restored ?s' = rows"
    proof -
      have le: "0 + length rows \<le> length (ws_store_reopened ?s0)" using l queues by simp
      note t = trim_queues_spec [OF le, of fa]
      show "ws_store_reopened ?s' = map (\<lambda>i. take (needed_chunks (rows ! i)) (queues ! i)) [0..<length queues]"
        using t [THEN conjunct1] l queues by simp
      show "hm_dir (ws_map ?s') = freed (dropped rows queues) (hm_dir (ws_map s))" "ws_restored ?s' = rows"
        using t [THEN conjunct2] queues by (simp_all add: dropped_def)
    qed
    have need: "needed_chunks (rows ! r) \<le> n \<longleftrightarrow> unat (se_high_water (rows ! r)) \<le> n * unat (se_chunk_slots (rows ! r))" if "r < length rows" for r n
    proof (cases "rows ! r = unused_row")
      case True
      then show ?thesis by (simp add: needed_chunks_def unused_row_def)
    next
      case False
      then have g: "se_stride (rows ! r) \<noteq> 0" "\<exists>k \<le> 12. unat (se_chunk_slots (rows ! r)) = 2 ^ k"
        using fits that by (auto simp: row_fits_def)
      then have "se_chunk_slots (rows ! r) \<noteq> 0" by (metis power_not_zero unat_0 zero_neq_numeral)
      then show ?thesis using needed_chunks_exact g(1) by blast
    qed
    have cov: "needed_chunks (rows ! r) \<le> length (queues ! r)" if "r < length rows" for r
      using need [OF that] fits that by (auto simp: row_fits_def unused_row_def)
    have "length (ws_store_reopened ?s') = length queues" unfolding spec(1) by simp
    moreover have "\<forall>r < length rows. ws_store_reopened ?s' ! r = take (needed_chunks (rows ! r)) (queues ! r) \<and>
        length (ws_store_reopened ?s' ! r) = needed_chunks (rows ! r) \<and>
        (\<forall>n. needed_chunks (rows ! r) \<le> n \<longleftrightarrow> unat (se_high_water (rows ! r)) \<le> n * unat (se_chunk_slots (rows ! r)))"
      unfolding spec(1) using l cov need by simp
    moreover have "ws_adopted ?s'" by simp
    ultimately show ?thesis unfolding a prod.case sum.case using fits spec(2,3) by blast
  qed
qed

definition sample_source :: workspace_source where
  "sample_source =
     (let row = \<lparr>se_stride = 32, se_align = 16, se_chunk_slots = 4, se_high_water = 3\<rparr>;
          e = \<lparr>ce_offset = 288, ce_size = 128, ce_state = chunk_live, ce_owner = 0\<rparr>;
          m = \<lparr>hm_header = fresh_header 32 4 288 224 1, hm_root = (\<lambda>_. 0), hm_dir = [e, e\<lparr>ce_offset := 416\<rparr>],
               hm_snap = (\<lambda>_. \<lparr>sn_generation = 0, sn_rows = [row]\<rparr>)\<rparr>
      in (source_new 32 4 288 544 2 m)\<lparr>ws_store_reopened :=
           [[(1, \<lparr>lc_offset = 288, lc_size = 128, lc_index = 0\<rparr>), (2, \<lparr>lc_offset = 416, lc_size = 128, lc_index = 1\<rparr>)]]\<rparr>)"

lemma adopt_keeps_what_the_rows_cover_witness:
  "\<exists>s'. adopt_snapshot (\<lambda>_ _. None) SlotA sample_source = (s', Inr ()) \<and>
     ws_store_reopened s' ! 0 = [(1, \<lparr>lc_offset = 288, lc_size = 128, lc_index = 0\<rparr>)] \<and>
     map ce_state (hm_dir (ws_map s')) = [chunk_live, chunk_free]"
proof -
  let ?row = "\<lparr>se_stride = 32, se_align = 16, se_chunk_slots = 4, se_high_water = 3\<rparr> :: store_entry"
  have rows: "sn_rows (hm_snap (ws_map sample_source) SlotA) = [?row]"
    "ws_store_reopened sample_source = [[(1, \<lparr>lc_offset = 288, lc_size = 128, lc_index = 0\<rparr>), (2, \<lparr>lc_offset = 416, lc_size = 128, lc_index = 1\<rparr>)]]"
    "map ce_state (hm_dir (ws_map sample_source)) = [chunk_live, chunk_live]"
    by (simp_all add: sample_source_def source_new_def Let_def)
  have fits: "row_fits ?row 2"
  proof -
    have "\<exists>k \<le> 12. unat (se_chunk_slots ?row) = 2 ^ k" by (rule exI [of _ 2]) simp
    moreover have "\<exists>k. unat (se_align ?row) = 2 ^ k" by (rule exI [of _ 4]) simp
    ultimately show ?thesis unfolding row_fits_def by (intro disjI2 conjI) (simp_all add: max_align_def)
  qed
  have need: "needed_chunks ?row = 1" by (simp add: needed_chunks_def)
  have "length (sn_rows (hm_snap (ws_map sample_source) SlotA)) = length (ws_store_reopened sample_source)"
    by (simp add: rows)
  from adopt_keeps_what_the_rows_cover [OF this refl refl, of "\<lambda>_ _. None"] obtain s' where s':
    "adopt_snapshot (\<lambda>_ _. None) SlotA sample_source = (s', Inr ())"
    "ws_store_reopened s' ! 0 = take (needed_chunks ?row) (ws_store_reopened sample_source ! 0)"
    "hm_dir (ws_map s') = freed (dropped [?row] (ws_store_reopened sample_source)) (hm_dir (ws_map sample_source))"
    using fits by (auto simp: rows numeral_2_eq_2 split: prod.splits sum.splits)
  have "dropped [?row] (ws_store_reopened sample_source) = {1}" by (simp add: dropped_def rows need lessThan_Suc)
  moreover have "length (hm_dir (ws_map sample_source)) = 2" using arg_cong [OF rows(3), of length] by simp
  ultimately show ?thesis using s' rows need by (simp add: freed_def upt_rec) (auto simp: list_eq_iff_nth_eq nth_Cons' numeral_2_eq_2)
qed

subsection \<open>One row per size class\<close>

definition row_key :: "store_entry \<Rightarrow> 32 word \<times> 32 word" where
  "row_key e = (se_stride e, se_align e)"

definition rows_of :: "ab \<Rightarrow> workspace_source \<Rightarrow> store_entry list" where
  "rows_of x s = sn_rows (hm_snap (ws_map s) x)"

text \<open>Both snapshots have every row; they agree on its identity, and no two used rows on theirs.\<close>

definition table_inv :: "workspace_source \<Rightarrow> bool" where
  "table_inv s \<longleftrightarrow>
     length (rows_of SlotA s) = ws_max_stores s \<and> length (rows_of SlotB s) = ws_max_stores s \<and>
     ws_max_stores s < no_owner \<and>
     (\<forall>r < ws_max_stores s. row_key (rows_of SlotA s ! r) = row_key (rows_of SlotB s ! r) \<and>
        se_chunk_slots (rows_of SlotA s ! r) = se_chunk_slots (rows_of SlotB s ! r)) \<and>
     (\<forall>r < ws_max_stores s. \<forall>q < ws_max_stores s. se_stride (rows_of SlotA s ! r) \<noteq> 0 \<longrightarrow>
        row_key (rows_of SlotA s ! r) = row_key (rows_of SlotA s ! q) \<longrightarrow> r = q)"

lemma bind_scan_spec:
  "bind_scan stride al es i fr = (m, fr') \<Longrightarrow>
    (case m of
       None \<Rightarrow> (\<forall>j < length es. se_stride (es ! j) \<noteq> 0 \<longrightarrow> row_key (es ! j) \<noteq> (stride, al)) \<and>
         (case fr' of None \<Rightarrow> fr = None \<and> (\<forall>j < length es. se_stride (es ! j) \<noteq> 0)
          | Some q \<Rightarrow> fr = Some q \<or> (\<exists>j < length es. q = i + j \<and> se_stride (es ! j) = 0))
     | Some r \<Rightarrow> \<exists>j < length es. r = i + j \<and> se_stride (es ! j) \<noteq> 0 \<and> row_key (es ! j) = (stride, al))"
proof (induction es arbitrary: i fr)
  case (Cons e es)
  show ?case
  proof (cases "se_stride e \<noteq> 0 \<and> row_key e = (stride, al)")
    case True
    then have "m = Some i" using Cons.prems by (auto simp: row_key_def)
    then show ?thesis using True by (auto intro: exI [of _ 0])
  next
    case False
    let ?fr = "if se_stride e = 0 \<and> fr = None then Some i else fr"
    have "bind_scan stride al es (i + 1) ?fr = (m, fr')"
      using Cons.prems False by (auto simp: row_key_def split: if_splits)
    note IH = Cons.IH [OF this]
    show ?thesis
    proof (cases m)
      case (Some r)
      then obtain j where "j < length es" "r = i + 1 + j" "se_stride (es ! j) \<noteq> 0" "row_key (es ! j) = (stride, al)"
        using IH by auto
      then show ?thesis using Some by (auto intro!: exI [of _ "Suc j"])
    next
      case None
      have "\<forall>j < length (e # es). se_stride ((e # es) ! j) \<noteq> 0 \<longrightarrow> row_key ((e # es) ! j) \<noteq> (stride, al)"
        using IH None False by (simp add: All_less_Suc2) blast
      moreover have "case fr' of None \<Rightarrow> fr = None \<and> (\<forall>j < length (e # es). se_stride ((e # es) ! j) \<noteq> 0)
          | Some q \<Rightarrow> fr = Some q \<or> (\<exists>j < length (e # es). q = i + j \<and> se_stride ((e # es) ! j) = 0)"
      proof (cases fr')
        case None
        then show ?thesis using IH \<open>m = None\<close> by (simp add: All_less_Suc2 split: if_splits)
      next
        case (Some q)
        then have "?fr = Some q \<or> (\<exists>j < length es. q = i + 1 + j \<and> se_stride (es ! j) = 0)"
          using IH \<open>m = None\<close> by simp
        then show ?thesis using Some by (auto split: if_splits intro: exI [of _ 0] exI [of _ "Suc j" for j])
      qed
      ultimately show ?thesis using None by simp
    qed
  qed
qed (auto split: option.splits)

lemma find_store_spec:
  "r < length es \<Longrightarrow> row_key (es ! r) = (stride, al) \<Longrightarrow>
    (\<forall>q < length es. row_key (es ! q) = (stride, al) \<longrightarrow> q = r) \<Longrightarrow> find_store stride al es i = i + r"
proof (induction es arbitrary: r i)
  case (Cons e es)
  show ?case
  proof (cases r)
    case 0
    then show ?thesis using Cons.prems(2) by (simp add: row_key_def)
  next
    case (Suc k)
    have "row_key e \<noteq> (stride, al)" using Cons.prems(3) [rule_format, of 0] Suc by auto
    moreover have "\<forall>q < length es. row_key (es ! q) = (stride, al) \<longrightarrow> q = k"
    proof (intro allI impI)
      fix q assume "q < length es" "row_key (es ! q) = (stride, al)"
      then show "q = k" using Cons.prems(3) [rule_format, of "Suc q"] Suc by simp
    qed
    moreover have "k < length es" "row_key (es ! k) = (stride, al)" using Cons.prems(1,2) Suc by simp_all
    ultimately have "find_store stride al es (i + 1) = i + 1 + k" using Cons.IH by blast
    moreover have "find_store stride al (e # es) i = find_store stride al es (i + 1)"
      using \<open>row_key e \<noteq> (stride, al)\<close> by (auto simp: row_key_def)
    ultimately show ?thesis using Suc by simp
  qed
qed simp

lemma rows_of_map_row:
  "sn_rows (hm_snap (map_row y r f m) x) = (if x = y then (sn_rows (hm_snap m x))[r := f (sn_rows (hm_snap m x) ! r)] else sn_rows (hm_snap m x))"
  by (simp add: map_row_def Let_def)

definition stamped :: "ab \<Rightarrow> nat \<Rightarrow> 32 word \<Rightarrow> 32 word \<Rightarrow> 32 word \<Rightarrow> workspace_source \<Rightarrow> bool" where
  "stamped x r stride al slots s \<longleftrightarrow> se_stride (rows_of x s ! r) = stride \<and> se_align (rows_of x s ! r) = al \<and>
     se_chunk_slots (rows_of x s ! r) = slots"

text \<open>What a successful bind did to the two tables at its row, the high-water marks being \<open>h\<close> there.\<close>

lemma table_after_bind:
  assumes inv: "table_inv s" and r: "r < ws_max_stores s" and stride: "stride \<noteq> 0"
    and rows: "\<And>x. rows_of x s' = (rows_of x s)[r := \<lparr>se_stride = stride, se_align = al, se_chunk_slots = slots, se_high_water = h x\<rparr>]"
    and fresh: "\<forall>q < ws_max_stores s. se_stride (rows_of SlotA s ! q) \<noteq> 0 \<longrightarrow> row_key (rows_of SlotA s ! q) = (stride, al) \<longrightarrow> q = r"
    and mx: "ws_max_stores s' = ws_max_stores s"
  shows "table_inv s'" "store_id stride al s' = r" "stamped SlotA r stride al slots s'" "stamped SlotB r stride al slots s'"
proof -
  have len: "length (rows_of x s) = ws_max_stores s" for x using inv by (cases x) (simp_all add: table_inv_def)
  have at_r: "rows_of x s' ! r = \<lparr>se_stride = stride, se_align = al, se_chunk_slots = slots, se_high_water = h x\<rparr>" for x
    using r len by (simp add: rows)
  have off_r: "q \<noteq> r \<Longrightarrow> rows_of x s' ! q = rows_of x s ! q" for x q by (simp add: rows)
  have key: "row_key (rows_of SlotA s' ! q) = (stride, al) \<Longrightarrow> q < ws_max_stores s \<Longrightarrow> q = r" for q
  proof (cases "q = r")
    case False
    assume "row_key (rows_of SlotA s' ! q) = (stride, al)" "q < ws_max_stores s"
    then show "q = r" using fresh [rule_format, of q] off_r [OF False] stride by (auto simp: row_key_def)
  qed simp
  show "table_inv s'"
    unfolding table_inv_def mx
  proof (intro conjI allI impI)
    fix p q assume p: "p < ws_max_stores s" and q: "q < ws_max_stores s" and st: "se_stride (rows_of SlotA s' ! p) \<noteq> 0"
      and eq: "row_key (rows_of SlotA s' ! p) = row_key (rows_of SlotA s' ! q)"
    show "p = q"
    proof (cases "p = r \<or> q = r")
      case True
      have kr: "row_key (rows_of SlotA s' ! r) = (stride, al)" unfolding at_r by (simp add: row_key_def)
      from True show ?thesis
      proof
        assume "p = r"
        then show ?thesis using key [OF _ q] eq kr by simp
      next
        assume "q = r"
        then show ?thesis using key [OF _ p] eq kr by simp
      qed
    next
      case False
      then have "rows_of SlotA s' ! p = rows_of SlotA s ! p" "rows_of SlotA s' ! q = rows_of SlotA s ! q" using off_r by blast+
      then show ?thesis using inv p q st eq unfolding table_inv_def by metis
    qed
  next
    fix q assume "q < ws_max_stores s"
    then show "row_key (rows_of SlotA s' ! q) = row_key (rows_of SlotB s' ! q)"
      "se_chunk_slots (rows_of SlotA s' ! q) = se_chunk_slots (rows_of SlotB s' ! q)"
      using inv at_r [of SlotA] at_r [of SlotB] off_r [of q SlotA] off_r [of q SlotB]
      by (cases "q = r"; simp add: table_inv_def row_key_def)+
  next
    show "length (rows_of SlotA s') = ws_max_stores s" "length (rows_of SlotB s') = ws_max_stores s"
      unfolding rows length_list_update by (rule len)+
    show "ws_max_stores s < no_owner" using inv by (simp add: table_inv_def)
  qed
  have "find_store stride al (rows_of SlotA s') 0 = 0 + r"
  proof (rule find_store_spec)
    show "r < length (rows_of SlotA s')" unfolding rows length_list_update len by (rule r)
    show "row_key (rows_of SlotA s' ! r) = (stride, al)" unfolding at_r by (simp add: row_key_def)
    show "\<forall>q < length (rows_of SlotA s'). row_key (rows_of SlotA s' ! q) = (stride, al) \<longrightarrow> q = r"
      using key unfolding rows length_list_update len by blast
  qed
  then show "store_id stride al s' = r" by (simp add: store_id_def rows_of_def)
  show "stamped SlotA r stride al slots s'" "stamped SlotB r stride al slots s'" by (simp_all add: stamped_def at_r)
qed

text \<open>
  A store is bound to one row for good. Binding a size class gives the row the table has for
  it, or the first unused one, stamped alike in both snapshots and found again by \<open>store_id\<close>; two
  size classes never share a row, no other row is touched and no high water changes. A refusal
  leaves the tables alone: the class is there with other slots per chunk, or every row is taken.
\<close>

theorem store_view_binds_one_row:
  assumes inv: "table_inv s" and ready: "ws_max_stores s \<noteq> 0" "ws_from_file s \<longrightarrow> ws_adopted s" and stride: "stride \<noteq> 0"
  shows "case store_view stride al slots s of
      (s', Inr r) \<Rightarrow>
        r < ws_max_stores s \<and> table_inv s' \<and> store_id stride al s' = r \<and>
        stamped SlotA r stride al slots s' \<and> stamped SlotB r stride al slots s' \<and>
        (\<forall>x q. q \<noteq> r \<longrightarrow> rows_of x s' ! q = rows_of x s ! q) \<and>
        (if \<exists>q < ws_max_stores s. row_key (rows_of SlotA s ! q) = (stride, al)
         then row_key (rows_of SlotA s ! r) = (stride, al) \<and> (\<forall>x. se_high_water (rows_of x s' ! r) = se_high_water (rows_of x s ! r))
         else se_stride (rows_of SlotA s ! r) = 0 \<and> (\<forall>x. se_high_water (rows_of x s' ! r) = 0))
    | (s', Inl e) \<Rightarrow>
        ws_map s' = ws_map s \<and> ws_bind_error s' = e \<and>
        (if \<exists>q < ws_max_stores s. row_key (rows_of SlotA s ! q) = (stride, al)
         then we_code e = StoreLayoutMismatch \<and>
           (\<exists>q < ws_max_stores s. row_key (rows_of SlotA s ! q) = (stride, al) \<and> se_chunk_slots (rows_of SlotA s ! q) \<noteq> slots)
         else we_code e = MaxStoresExceeded \<and> (\<forall>q < ws_max_stores s. se_stride (rows_of SlotA s ! q) \<noteq> 0))"
proof -
  have len: "length (rows_of x s) = ws_max_stores s" for x using inv by (cases x) (simp_all add: table_inv_def)
  obtain m fr where scan: "bind_scan stride al (rows_of SlotA s) 0 None = (m, fr)" by (meson surj_pair)
  note spec = bind_scan_spec [OF scan]
  have sv: "store_view stride al slots s =
      (case (m, fr) of
        (Some r, _) \<Rightarrow>
          if se_chunk_slots (row SlotA r s) \<noteq> slots then refuse StoreLayoutMismatch s
          else
            let stamp = (\<lambda>e. e\<lparr>se_stride := stride, se_align := al, se_chunk_slots := slots\<rparr>)
            in (s\<lparr>ws_map := map_row SlotB r stamp (map_row SlotA r stamp (ws_map s)),
                  ws_views := (ws_views s)[r := True]\<rparr>, Inr r)
      | (None, None) \<Rightarrow> refuse MaxStoresExceeded s
      | (None, Some r) \<Rightarrow>
          let e = \<lparr>se_stride = stride, se_align = al, se_chunk_slots = slots, se_high_water = 0\<rparr>
          in (s\<lparr>ws_map := map_row SlotB r (\<lambda>_. e) (map_row SlotA r (\<lambda>_. e) (ws_map s)),
                ws_restored := (ws_restored s)[r := e], ws_views := (ws_views s)[r := True]\<rparr>, Inr r))"
  proof -
    have g: "(ws_from_file s \<and> \<not> ws_adopted s) = False" using ready by blast
    show ?thesis using ready(1) scan unfolding store_view_def g if_False rows_of_def by simp
  qed
  show ?thesis
  proof (cases m)
    case (Some r)
    then have r: "r < ws_max_stores s" "row_key (rows_of SlotA s ! r) = (stride, al)"
      using spec len [of SlotA] by auto
    have ex: "\<exists>q < ws_max_stores s. row_key (rows_of SlotA s ! q) = (stride, al)" using r by blast
    show ?thesis
    proof (cases "se_chunk_slots (row SlotA r s) = slots")
      case False
      then show ?thesis using sv Some r ex by (auto simp: refuse_def row_def rows_of_def)
    next
      case True
      let ?stamp = "\<lambda>e :: store_entry. e\<lparr>se_stride := stride, se_align := al, se_chunk_slots := slots\<rparr>"
      let ?s' = "s\<lparr>ws_map := map_row SlotB r ?stamp (map_row SlotA r ?stamp (ws_map s)), ws_views := (ws_views s)[r := True]\<rparr>"
      have eq: "store_view stride al slots s = (?s', Inr r)" using sv Some True by (simp add: Let_def)
      have rows: "rows_of x ?s' = (rows_of x s)[r := \<lparr>se_stride = stride, se_align = al, se_chunk_slots = slots, se_high_water = se_high_water (rows_of x s ! r)\<rparr>]" for x
      proof -
        have st: "?stamp e = \<lparr>se_stride = stride, se_align = al, se_chunk_slots = slots, se_high_water = se_high_water e\<rparr>" for e
          by (cases e) simp
        show ?thesis by (cases x) (simp_all add: rows_of_def rows_of_map_row st)
      qed
      have fresh: "\<forall>q < ws_max_stores s. se_stride (rows_of SlotA s ! q) \<noteq> 0 \<longrightarrow> row_key (rows_of SlotA s ! q) = (stride, al) \<longrightarrow> q = r"
        using inv r by (simp add: table_inv_def)
      have mx: "ws_max_stores ?s' = ws_max_stores s" by simp
      note t = table_after_bind [where h = "\<lambda>x. se_high_water (rows_of x s ! r)", OF inv r(1) stride rows fresh mx]
      have hw: "\<forall>x. se_high_water (rows_of x ?s' ! r) = se_high_water (rows_of x s ! r)" unfolding rows using r len by simp
      have off: "\<forall>x q. q \<noteq> r \<longrightarrow> rows_of x ?s' ! q = rows_of x s ! q" unfolding rows by simp
      show ?thesis unfolding eq prod.case sum.case using r ex t hw off by (simp only: if_True simp_thms)
    qed
  next
    case None
    have nex: "\<not> (\<exists>q < ws_max_stores s. row_key (rows_of SlotA s ! q) = (stride, al))"
      using spec None len [of SlotA] stride by (auto simp: row_key_def)
    show ?thesis
    proof (cases fr)
      case None': None
      then show ?thesis using sv None spec nex len [of SlotA] by (auto simp: refuse_def)
    next
      case (Some r)
      then have r: "r < ws_max_stores s" "se_stride (rows_of SlotA s ! r) = 0" using spec None len [of SlotA] by auto
      let ?e = "\<lparr>se_stride = stride, se_align = al, se_chunk_slots = slots, se_high_water = 0\<rparr> :: store_entry"
      let ?s' = "s\<lparr>ws_map := map_row SlotB r (\<lambda>_. ?e) (map_row SlotA r (\<lambda>_. ?e) (ws_map s)),
                ws_restored := (ws_restored s)[r := ?e], ws_views := (ws_views s)[r := True]\<rparr>"
      have eq: "store_view stride al slots s = (?s', Inr r)" using sv None Some by (simp add: Let_def)
      have rows: "rows_of x ?s' = (rows_of x s)[r := \<lparr>se_stride = stride, se_align = al, se_chunk_slots = slots, se_high_water = (\<lambda>_. 0) x\<rparr>]" for x
        by (cases x) (simp_all add: rows_of_def rows_of_map_row)
      have fresh: "\<forall>q < ws_max_stores s. se_stride (rows_of SlotA s ! q) \<noteq> 0 \<longrightarrow> row_key (rows_of SlotA s ! q) = (stride, al) \<longrightarrow> q = r"
        using nex by blast
      have mx: "ws_max_stores ?s' = ws_max_stores s" by simp
      note t = table_after_bind [where h = "\<lambda>_. 0", OF inv r(1) stride rows fresh mx]
      have hw: "\<forall>x. se_high_water (rows_of x ?s' ! r) = 0" unfolding rows using r len by simp
      have off: "\<forall>x q. q \<noteq> r \<longrightarrow> rows_of x ?s' ! q = rows_of x s ! q" unfolding rows by simp
      show ?thesis unfolding eq prod.case sum.case using r nex t hw off by (simp only: if_False simp_thms)
    qed
  qed
qed

lemma store_view_binds_one_row_witness:
  "\<exists>s s'. ws_create 32 None (\<lambda>_. None) (\<lambda>_. None) 4 1 = Inr s \<and>
     store_view 32 16 4 s = (s', Inr 0) \<and> store_id 32 16 s' = 0 \<and> stamped SlotA 0 32 16 4 s' \<and> stamped SlotB 0 32 16 4 s'"
proof -
  obtain s where c: "ws_create 32 None (\<lambda>_. None) (\<lambda>_. None) 4 1 = Inr s"
    and s: "ws_max_stores s = 1" "\<And>x. rows_of x s = [unused_row]" "\<not> ws_from_file s"
    by (simp add: ws_create_def layout_or_def snapshot_bytes_def sizeof_defs Let_def
      init_store_directory_def source_new_def fresh_map_def rows_of_def)
  have inv: "table_inv s" by (simp add: table_inv_def s no_owner_def)
  have free: "\<not> (\<exists>q < ws_max_stores s. row_key (rows_of SlotA s ! q) = (32, 16))"
    unfolding s by (simp add: row_key_def unused_row_def)
  have "\<not> (\<forall>q < ws_max_stores s. se_stride (rows_of SlotA s ! q) \<noteq> 0)" unfolding s by (simp add: unused_row_def)
  moreover have "ws_max_stores s \<noteq> 0" "ws_from_file s \<longrightarrow> ws_adopted s" "(32 :: 32 word) \<noteq> 0" using s by simp_all
  note store_view_binds_one_row [OF inv this, of 16 4]
  ultimately obtain s' r where r: "store_view 32 16 4 s = (s', Inr r)" "r < ws_max_stores s" "store_id 32 16 s' = r"
      "stamped SlotA r 32 16 4 s'" "stamped SlotB r 32 16 4 s'"
    unfolding if_not_P [OF free] by (auto split: prod.splits sum.splits)
  have "r = 0" using r(2) unfolding s by simp
  then show ?thesis using c r by blast
qed

text \<open>
  The header checks of \<open>open\<close>, made on 32- and 64-bit words, decide exactly the layout they
  mean: two store-table snapshots, each one page from a page boundary with its stamp and every row
  inside, after the directory and before the data. No wrap-around admits another. What \<open>create\<close>
  writes passes them, and \<open>create\<close> refuses a table that would not fit a page.
\<close>

theorem header_checks_exact:
  assumes "sane_page q" "ac < 2 ^ 32" "as < 2 ^ 32"
  shows "(\<forall>h. geometry_ok h \<longleftrightarrow>
      (let page = (if wh_page_size h = 0 then 4096 else unat (wh_page_size h)); table = unat (wh_store_table_offset h)
       in 8 < page \<and> 0 < unat (wh_max_stores h) \<and> 8 + unat (wh_max_stores h) * 16 \<le> page \<and> page dvd table \<and>
          112 + unat (wh_max_chunks h) * 24 \<le> table \<and> table + 2 * page \<le> unat (wh_data_offset h))) \<and>
    (case ws_create q None (\<lambda>_. None) (\<lambda>_. None) ac as of
       Inr s \<Rightarrow> check_header (hm_header (ws_map s)) = None
     | Inl e \<Rightarrow> we_code e = MaxStoresExceeded \<and>
         (if q > 0 then nat q else 4096) < 8 + (if as = 0 then 16 else as) * 16)"
proof (intro conjI allI)
  fix h show "geometry_ok h \<longleftrightarrow>
      (let page = (if wh_page_size h = 0 then 4096 else unat (wh_page_size h)); table = unat (wh_store_table_offset h)
       in 8 < page \<and> 0 < unat (wh_max_stores h) \<and> 8 + unat (wh_max_stores h) * 16 \<le> page \<and> page dvd table \<and>
          112 + unat (wh_max_chunks h) * 24 \<le> table \<and> table + 2 * page \<le> unat (wh_data_offset h))"
    unfolding geometry_ok_iff layout_ok_def unat_page_or Let_def by (simp add: sizeof_defs snapshot_bytes_def)
next
  show "case ws_create q None (\<lambda>_. None) (\<lambda>_. None) ac as of
       Inr s \<Rightarrow> check_header (hm_header (ws_map s)) = None
     | Inl e \<Rightarrow> we_code e = MaxStoresExceeded \<and>
         (if q > 0 then nat q else 4096) < 8 + (if as = 0 then 16 else as) * 16"
  proof (cases "ws_create q None (\<lambda>_. None) (\<lambda>_. None) ac as")
    case (Inl e)
    then show ?thesis
      by (auto simp: ws_create_def Let_def snapshot_bytes_def layout_or_def default_max_stores_def sizeof_defs split: if_splits)
  next
    case (Inr s)
    note cr = created [OF assms Inr]
    have "wh_chunk_count (hm_header (ws_map s)) = 0" using cr(1) by (simp add: session_inv_def directory_is_def)
    then show ?thesis using Inr cr(5-7) by (simp add: check_header_def)
  qed
qed

lemma header_checks_exact_witness:
  "\<exists>s. ws_create 4096 None (\<lambda>_. None) (\<lambda>_. None) 0 0 = Inr s \<and> check_header (hm_header (ws_map s)) = None"
proof -
  have "sane_page 4096" by (simp add: sane_page_def) (rule exI [of _ 12], simp)
  moreover obtain s where "ws_create 4096 None (\<lambda>_. None) (\<lambda>_. None) 0 0 = Inr s"
    by (simp add: ws_create_def layout_or_def snapshot_bytes_def sizeof_defs Let_def default_max_stores_def)
  ultimately show ?thesis using header_checks_exact [of 4096 0 0] by simp
qed

end
