(* ===== verification/Checkpoint.thy ===== *)
theory Checkpoint
  imports Workspace_File
begin

text \<open>
  \<open>pool/checkpoint.hpp\<close>: the durability protocol over a workspace file. A commit publishes the
  high-water marks into the inactive store-table snapshot, stamps it, flips the inactive root slot
  and syncs the header; opening selects the newest root whose snapshot carries its generation. The
  second half runs the protocol against a kernel that writes the header's pages back in any order
  and a crash at any point.
\<close>

subsection \<open>Roots and their selection\<close>

record workspace_root =
  wr_generation :: "32 word"
  wr_index :: "32 word"

definition encode_root :: "workspace_root \<Rightarrow> 64 word" where
  "encode_root r = push_bit 32 (ucast (wr_generation r)) OR ucast (wr_index r)"

definition decode_root :: "64 word \<Rightarrow> workspace_root" where
  "decode_root v = \<lparr>wr_generation = ucast (drop_bit 32 v), wr_index = ucast (v AND 0xFFFFFFFF)\<rparr>"

record root_selection =
  rs_slot :: ab
  rs_root :: workspace_root
  rs_eligible :: bool

definition no_selection :: root_selection where
  "no_selection = \<lparr>rs_slot = SlotA, rs_root = \<lparr>wr_generation = 0, wr_index = 0\<rparr>, rs_eligible = False\<rparr>"

definition root_at :: "header_map \<Rightarrow> ab \<Rightarrow> workspace_root" where
  "root_at m x = decode_root (hm_root m x)"

fun select_from :: "header_map \<Rightarrow> ab list \<Rightarrow> root_selection" where
  "select_from m [] = no_selection"
| "select_from m (x # xs) =
     (if snapshot_generation x m = wr_generation (root_at m x)
      then \<lparr>rs_slot = x, rs_root = root_at m x, rs_eligible = True\<rparr> else select_from m xs)"

definition select_root :: "header_map \<Rightarrow> root_selection" where
  "select_root m =
     (let newest = (if wr_generation (root_at m SlotA) \<ge> wr_generation (root_at m SlotB) then SlotA else SlotB)
      in select_from m [newest, other newest])"

lemma low_mask: "(0xFFFFFFFF :: 64 word) = mask 32"
  by (simp add: mask_eq_exp_minus_1)

lemma ucast_32_64_32: "(ucast (ucast (x :: 32 word) :: 64 word) :: 32 word) = x"
  by (rule bit_word_eqI) (auto simp: bit_simps)

lemma decode_encode [simp]: "decode_root (encode_root r) = r"
proof -
  have "drop_bit 32 (encode_root r) = ucast (wr_generation r)"
    unfolding encode_root_def by (rule bit_word_eqI) (auto simp: bit_simps dest: bit_imp_le_length)
  moreover have "(encode_root r AND 0xFFFFFFFF) = ucast (wr_index r)"
    unfolding low_mask encode_root_def by (rule bit_word_eqI) (auto simp: bit_simps dest: bit_imp_le_length)
  ultimately show ?thesis by (simp add: decode_root_def ucast_32_64_32)
qed

lemma decode_zero: "decode_root 0 = \<lparr>wr_generation = 0, wr_index = 0\<rparr>"
  by (simp add: decode_root_def)

subsection \<open>The arena\<close>

text \<open>The stores by size class, in the order of the map. Strides and alignments are below \<open>2 ^ 32\<close>.\<close>

type_synonym size_class = "32 word \<times> 32 word"
type_synonym arena = "(size_class \<times> slot_store) list"

definition total_slots_live :: "arena \<Rightarrow> nat" where
  "total_slots_live a = foldl (\<lambda>n e. n + ss_live (snd e)) 0 a"

definition total_high_water :: "arena \<Rightarrow> nat" where
  "total_high_water a = foldl (\<lambda>n e. n + ss_high_water (snd e)) 0 a"

definition quarantined_total :: "arena \<Rightarrow> nat" where
  "quarantined_total a = foldl (\<lambda>n e. n + ss_quarantined_total (snd e)) 0 a"

definition store_high_water :: "arena \<Rightarrow> size_class \<Rightarrow> nat" where
  "store_high_water a k = (case map_of a k of Some s \<Rightarrow> ss_high_water s | None \<Rightarrow> 0)"

subsection \<open>The checkpointer\<close>

record checkpointer =
  ck_epoch :: "32 word"
  ck_generation :: "32 word"
  ck_durable :: "32 word"
  ck_next :: ab
  ck_chunks :: "(live_chunk \<times> 32 word) list"
  ck_registered :: "(size_class \<times> nat) list"
  ck_commits :: nat
  ck_data_msyncs :: nat
  ck_header_msyncs :: nat
  ck_freed :: nat
  ck_snap :: "nat \<times> nat \<times> nat"

record world =
  w_source :: workspace_source
  w_arena :: arena
  w_ck :: checkpointer

definition snapshot :: "arena \<Rightarrow> nat \<times> nat \<times> nat" where
  "snapshot a = (total_slots_live a, total_high_water a, quarantined_total a)"

definition is_dirty :: "world \<Rightarrow> bool" where
  "is_dirty w = (snapshot (w_arena w) \<noteq> ck_snap (w_ck w))"

definition next_slot_after :: "root_selection \<Rightarrow> ab" where
  "next_slot_after sel = (if wr_generation (rs_root sel) = 0 then SlotA else other (rs_slot sel))"

text \<open>The constructor; \<open>None\<close> is its failed assertion.\<close>

definition ck_new :: "workspace_source \<Rightarrow> arena \<Rightarrow> world option" where
  "ck_new s a =
     (let sel = select_root (ws_map s); g = wr_generation (rs_root sel)
      in if \<not> rs_eligible sel then None
         else Some \<lparr>w_source = s\<lparr>ws_fence := True\<rparr>, w_arena = a,
           w_ck = \<lparr>ck_epoch = g + 1, ck_generation = g, ck_durable = g, ck_next = next_slot_after sel,
             ck_chunks = [], ck_registered = [], ck_commits = 0, ck_data_msyncs = 0, ck_header_msyncs = 0,
             ck_freed = 0, ck_snap = snapshot a\<rparr>\<rparr>)"

definition register_store :: "size_class \<Rightarrow> world \<Rightarrow> world" where
  "register_store k w =
     (let i = store_id (fst k) (snd k) (w_source w); ck = w_ck w
      in if i = no_owner \<or> k \<in> fst ` set (ck_registered ck) then w
         else w\<lparr>w_ck := ck\<lparr>ck_registered := ck_registered ck @ [(k, i)]\<rparr>\<rparr>)"

text \<open>A released chunk reaches the fence, which stamps it with the running epoch.\<close>

definition release_chunk :: "(nat \<Rightarrow> nat \<Rightarrow> int option) \<Rightarrow> nat \<Rightarrow> world \<Rightarrow> world" where
  "release_chunk io_fallocate base w =
     (case ws_release io_fallocate base (w_source w) of
        (s, None) \<Rightarrow> w\<lparr>w_source := s\<rparr>
      | (s, Some c) \<Rightarrow>
          let ck = w_ck w in w\<lparr>w_source := s, w_ck := ck\<lparr>ck_chunks := ck_chunks ck @ [(c, ck_epoch ck)]\<rparr>\<rparr>)"

definition publish_rows :: "ab \<Rightarrow> (nat \<times> 32 word) list \<Rightarrow> header_map \<Rightarrow> header_map" where
  "publish_rows x = fold (\<lambda>(i, hw). publish_store_high_water x i hw)"

definition pending_rows :: "world \<Rightarrow> (nat \<times> 32 word) list" where
  "pending_rows w = map (\<lambda>(k, i). (i, of_nat (store_high_water (w_arena w) k))) (ck_registered (w_ck w))"

definition drain_stores :: "nat \<Rightarrow> nat \<Rightarrow> arena \<Rightarrow> arena" where
  "drain_stores t durable a = map (\<lambda>(k, s). (k, drain_fences t durable s)) a"

definition drained_count :: "nat \<Rightarrow> arena \<Rightarrow> nat" where
  "drained_count durable a = sum_list (map (\<lambda>e. length (filter (\<lambda>q. snd q \<le> durable) (ss_quarantine (snd e)))) a)"

definition drain_chunks :: "(nat \<Rightarrow> nat \<Rightarrow> int option) \<Rightarrow> world \<Rightarrow> world" where
  "drain_chunks io_fallocate w =
     (let ck = w_ck w; due = filter (\<lambda>p. snd p \<le> ck_durable ck) (ck_chunks ck)
      in w\<lparr>w_source := fold (\<lambda>p. punch_now io_fallocate (fst p)) due (w_source w),
           w_ck := ck\<lparr>ck_chunks := filter (\<lambda>p. \<not> snd p \<le> ck_durable ck) (ck_chunks ck)\<rparr>\<rparr>)"

definition drain_all :: "nat \<Rightarrow> (nat \<Rightarrow> nat \<Rightarrow> int option) \<Rightarrow> world \<Rightarrow> world" where
  "drain_all t io_fallocate w =
     (let ck = w_ck w; durable = unat (ck_durable ck)
      in drain_chunks io_fallocate
           (w\<lparr>w_arena := drain_stores t durable (w_arena w),
              w_ck := ck\<lparr>ck_freed := ck_freed ck + drained_count durable (w_arena w)\<rparr>\<rparr>))"

definition publish_all :: "32 word \<Rightarrow> world \<Rightarrow> world" where
  "publish_all root_index w =
     (let ck = w_ck w; s = w_source w; x = ck_next ck; g = ck_epoch ck
      in w\<lparr>w_source := s\<lparr>ws_map :=
           publish_root_slot x (encode_root \<lparr>wr_generation = g, wr_index = root_index\<rparr>)
             (publish_snapshot_generation x g (publish_rows x (pending_rows w) (ws_map s)))\<rparr>\<rparr>)"

definition commit_sync :: "(nat \<Rightarrow> int option) \<Rightarrow> world \<Rightarrow> world \<times> (workspace_error + unit)" where
  "commit_sync io_msync w =
     (if \<not> is_dirty w then (w, Inr ())
      else case sync_data io_msync (w_source w) of
        (s, Inl e) \<Rightarrow> (w\<lparr>w_source := s\<rparr>, Inl e)
      | (s, Inr n) \<Rightarrow>
          (w\<lparr>w_source := s, w_ck := (w_ck w)\<lparr>ck_data_msyncs := ck_data_msyncs (w_ck w) + n\<rparr>\<rparr>, Inr ()))"

definition advance :: "world \<Rightarrow> world" where
  "advance w =
     (let ck = w_ck w; g = ck_epoch ck
      in w\<lparr>w_ck := ck\<lparr>ck_header_msyncs := ck_header_msyncs ck + 1, ck_generation := g, ck_durable := g,
             ck_next := other (ck_next ck), ck_commits := ck_commits ck + 1\<rparr>\<rparr>)"

definition reopen_epoch :: "world \<Rightarrow> world" where
  "reopen_epoch w = w\<lparr>w_ck := (w_ck w)\<lparr>ck_epoch := ck_generation (w_ck w) + 1, ck_snap := snapshot (w_arena w)\<rparr>\<rparr>"

definition ck_commit ::
  "nat \<Rightarrow> (nat \<Rightarrow> int option) \<Rightarrow> int option \<Rightarrow> (nat \<Rightarrow> nat \<Rightarrow> int option) \<Rightarrow> 32 word \<Rightarrow> world \<Rightarrow>
     world \<times> (workspace_error + unit)" where
  "ck_commit t io_msync io_header io_fallocate root_index w =
     seqE (commit_sync io_msync w) (\<lambda>w _.
       let w = publish_all root_index w
       in case sync_header io_header (w_source w) of
         (s, Inl e) \<Rightarrow> (w\<lparr>w_source := s\<rparr>, Inl e)
       | (s, Inr _) \<Rightarrow> (reopen_epoch (drain_all t io_fallocate (advance (w\<lparr>w_source := s\<rparr>))), Inr ()))"

subsection \<open>Opening\<close>

record open_state =
  os_source :: workspace_source
  os_root_index :: "32 word"
  os_generation :: "32 word"
  os_valid :: bool

definition ck_open ::
  "(file_image \<Rightarrow> workspace_error + workspace_source) \<Rightarrow> (nat \<Rightarrow> nat \<Rightarrow> int option) \<Rightarrow> file_image \<Rightarrow>
     workspace_error + open_state" where
  "ck_open open_source io_fallocate f =
     (case open_source f of Inl e \<Rightarrow> Inl e | Inr s \<Rightarrow>
       let chosen = select_root (ws_map s)
       in if \<not> rs_eligible chosen then Inl (werr StoreDirectoryInconsistent 0)
          else case adopt_snapshot io_fallocate (rs_slot chosen) s of
            (s, Inl e) \<Rightarrow> Inl e
          | (s, Inr _) \<Rightarrow>
              Inr \<lparr>os_source = s, os_root_index = wr_index (rs_root chosen),
                   os_generation = wr_generation (rs_root chosen), os_valid = (wr_generation (rs_root chosen) \<noteq> 0)\<rparr>)"

definition finalize_open :: "nat list \<Rightarrow> slot_store \<Rightarrow> slot_store" where
  "finalize_open live s = finalize_restore live s"

subsection \<open>The protocol against a crash\<close>

text \<open>
  The header as the writer maps it and as the disk has it. A commit is its plain stores one by one;
  between any two of them the kernel may write back the page of the root slots and the chunk count, a
  snapshot's page or a part of the directory (an entry at a time, finer than the pages it does
  write), in any order. \<open>sy_acked\<close> is what the last acknowledged commit published,
  \<open>sy_flight\<close> what the running one is publishing: a root index and the high-water mark of every row.
\<close>

datatype phase = Idle | Rows "(nat \<times> 32 word) list" "32 word" | Stamping "32 word" | Flipping "32 word" | Syncing | Failed

record sys =
  sy_mem :: header_map
  sy_disk :: header_map
  sy_generation :: "32 word"
  sy_next :: ab
  sy_phase :: phase
  sy_acked :: "32 word \<times> 32 word list"
  sy_flight :: "(32 word \<times> 32 word list) option"

datatype ck_action =
    Begin "(nat \<times> 32 word) list" "32 word" | PublishRow | PublishStamp | PublishRoot | Synced | SyncFailed | Retry
  | WriteBackRoots | WriteBackSnapshot ab | WriteBackEntry nat
  | Touch "chunk_entry list" "64 word" | Bind nat "32 word" "32 word" "32 word"

definition marks :: "ab \<Rightarrow> header_map \<Rightarrow> 32 word list" where
  "marks x m = map se_high_water (sn_rows (hm_snap m x))"

definition identity_stamp :: "32 word \<Rightarrow> 32 word \<Rightarrow> 32 word \<Rightarrow> store_entry \<Rightarrow> store_entry" where
  "identity_stamp stride al slots e = e\<lparr>se_stride := stride, se_align := al, se_chunk_slots := slots\<rparr>"

definition marks_after :: "ab \<Rightarrow> (nat \<times> 32 word) list \<Rightarrow> header_map \<Rightarrow> 32 word list" where
  "marks_after x rows m = marks x (publish_rows x rows m)"

text \<open>
  \<open>Bind\<close> is \<open>store_view\<close> over tables that agree on their rows: it leaves the high-water marks alone.
  \<open>Begin\<close> is not taken at the last generation a 32-bit counter can name.
\<close>

definition ck_do :: "ck_action \<Rightarrow> sys \<Rightarrow> sys option" where
  "ck_do a s =
     (let m = sy_mem s; d = sy_disk s; x = sy_next s; g = sy_generation s + 1
      in case (a, sy_phase s) of
        (Begin rows root, Idle) \<Rightarrow>
          if g = 0 then None
          else Some (s\<lparr>sy_phase := Rows rows root, sy_flight := Some (root, marks_after x rows m)\<rparr>)
      | (PublishRow, Rows ((i, hw) # rows) root) \<Rightarrow>
          Some (s\<lparr>sy_mem := publish_store_high_water x i hw m, sy_phase := Rows rows root\<rparr>)
      | (PublishRow, Rows [] root) \<Rightarrow> Some (s\<lparr>sy_phase := Stamping root\<rparr>)
      | (PublishStamp, Stamping root) \<Rightarrow>
          Some (s\<lparr>sy_mem := publish_snapshot_generation x g m, sy_phase := Flipping root\<rparr>)
      | (PublishRoot, Flipping root) \<Rightarrow>
          Some (s\<lparr>sy_mem := publish_root_slot x (encode_root \<lparr>wr_generation = g, wr_index = root\<rparr>) m, sy_phase := Syncing\<rparr>)
      | (Synced, Syncing) \<Rightarrow>
          Some (s\<lparr>sy_disk := m, sy_generation := g, sy_next := other x, sy_phase := Idle,
                  sy_acked := the (sy_flight s), sy_flight := None\<rparr>)
      | (SyncFailed, Syncing) \<Rightarrow> Some (s\<lparr>sy_phase := Failed\<rparr>)
      | (Retry, Failed) \<Rightarrow> Some (s\<lparr>sy_phase := Idle, sy_flight := None\<rparr>)
      | (WriteBackRoots, _) \<Rightarrow> Some (s\<lparr>sy_disk := d\<lparr>hm_root := hm_root m, hm_header := hm_header m\<rparr>\<rparr>)
      | (WriteBackSnapshot y, _) \<Rightarrow> Some (s\<lparr>sy_disk := d\<lparr>hm_snap := (hm_snap d)(y := hm_snap m y)\<rparr>\<rparr>)
      | (WriteBackEntry i, _) \<Rightarrow> Some (s\<lparr>sy_disk := d\<lparr>hm_dir := (hm_dir d)[i := hm_dir m ! i]\<rparr>\<rparr>)
      | (Touch dir n, Idle) \<Rightarrow>
          Some (s\<lparr>sy_mem := m\<lparr>hm_dir := dir, hm_header := (hm_header m)\<lparr>wh_chunk_count := n\<rparr>\<rparr>\<rparr>)
      | (Bind r stride al slots, Idle) \<Rightarrow>
          Some (s\<lparr>sy_mem := map_row SlotB r (identity_stamp stride al slots) (map_row SlotA r (identity_stamp stride al slots) m)\<rparr>)
      | _ \<Rightarrow> None)"

text \<open>A session begins over the file as it is, with what the constructor selects.\<close>

definition session_start :: "header_map \<Rightarrow> sys" where
  "session_start m =
     (let sel = select_root m
      in \<lparr>sy_mem = m, sy_disk = m, sy_generation = wr_generation (rs_root sel), sy_next = next_slot_after sel,
          sy_phase = Idle, sy_acked = (wr_index (rs_root sel), marks (rs_slot sel) m), sy_flight = None\<rparr>)"

inductive ck_reach :: "bool \<Rightarrow> header_map \<Rightarrow> sys \<Rightarrow> bool" for retry m where
  start: "rs_eligible (select_root m) \<Longrightarrow> ck_reach retry m (session_start m)"
| step: "ck_reach retry m s \<Longrightarrow> ck_do a s = Some s' \<Longrightarrow> a \<noteq> Retry \<or> retry \<Longrightarrow> ck_reach retry m s'"

text \<open>What a reopen after a crash finds: the generation, root index and high-water marks selected.\<close>

definition recover :: "header_map \<Rightarrow> (32 word \<times> 32 word \<times> 32 word list) option" where
  "recover m =
     (let sel = select_root m
      in if rs_eligible sel then Some (wr_generation (rs_root sel), wr_index (rs_root sel), marks (rs_slot sel) m) else None)"

text \<open>The slot not selected carries nothing as new as the selected root.\<close>

definition older :: "32 word \<Rightarrow> 32 word \<Rightarrow> bool" where
  "older h g \<longleftrightarrow> h < g \<or> h = 0"

definition clean :: "header_map \<Rightarrow> bool" where
  "clean m \<longleftrightarrow>
     (let sel = select_root m; y = other (rs_slot sel); g = wr_generation (rs_root sel)
      in rs_eligible sel \<and> older (wr_generation (root_at m y)) g \<and> older (snapshot_generation y m) g)"

text \<open>What the root slots, and what each snapshot, may hold; true of the mapping and of the disk alike.\<close>

definition root_half :: "header_map \<Rightarrow> sys \<Rightarrow> bool" where
  "root_half h s \<longleftrightarrow>
     (let x = sy_next s; g = sy_generation s
      in wr_generation (root_at h (other x)) = g \<and> (g \<noteq> 0 \<longrightarrow> wr_index (root_at h (other x)) = fst (sy_acked s)) \<and>
         (older (wr_generation (root_at h x)) g \<or>
            wr_generation (root_at h x) = g + 1 \<and> sy_phase s \<in> {Syncing, Failed} \<and> Some (wr_index (root_at h x)) = map_option fst (sy_flight s)))"

definition snap_half :: "ab \<Rightarrow> header_map \<Rightarrow> sys \<Rightarrow> bool" where
  "snap_half y h s \<longleftrightarrow>
     (let g = sy_generation s
      in if y = sy_next s
         then older (snapshot_generation y h) g \<or>
            snapshot_generation y h = g + 1 \<and> (sy_phase s \<in> {Syncing, Failed} \<or> (\<exists>r. sy_phase s = Flipping r)) \<and> Some (marks y h) = map_option snd (sy_flight s)
         else snapshot_generation y h = g \<and> (g \<noteq> 0 \<longrightarrow> marks y h = snd (sy_acked s)))"

definition crash_inv :: "sys \<Rightarrow> bool" where
  "crash_inv s \<longleftrightarrow>
     (\<forall>h \<in> {sy_mem s, sy_disk s}. root_half h s \<and> (\<forall>y. snap_half y h s)) \<and> (sy_generation s = 0 \<longrightarrow> sy_next s = SlotA) \<and>
     (case sy_phase s of
        Idle \<Rightarrow> sy_flight s = None
      | Rows rows root \<Rightarrow> sy_generation s + 1 \<noteq> 0 \<and> sy_flight s = Some (root, marks_after (sy_next s) rows (sy_mem s))
      | Stamping root \<Rightarrow> sy_generation s + 1 \<noteq> 0 \<and> sy_flight s = Some (root, marks (sy_next s) (sy_mem s))
      | Flipping root \<Rightarrow> sy_generation s + 1 \<noteq> 0 \<and> sy_flight s = Some (root, marks (sy_next s) (sy_mem s)) \<and>
          snapshot_generation (sy_next s) (sy_mem s) = sy_generation s + 1
      | _ \<Rightarrow> sy_generation s + 1 \<noteq> 0 \<and> snapshot_generation (sy_next s) (sy_mem s) = sy_generation s + 1 \<and>
          wr_generation (root_at (sy_mem s) (sy_next s)) = sy_generation s + 1 \<and>
          sy_flight s = Some (wr_index (root_at (sy_mem s) (sy_next s)), marks (sy_next s) (sy_mem s)))"

lemma header_effects [simp]:
  "root_at (publish_store_high_water x i hw m) y = root_at m y"
  "root_at (publish_snapshot_generation x g m) y = root_at m y"
  "root_at (publish_root_slot x v m) y = (if y = x then decode_root v else root_at m y)"
  "snapshot_generation y (publish_store_high_water x i hw m) = snapshot_generation y m"
  "snapshot_generation y (publish_snapshot_generation x g m) = (if y = x then g else snapshot_generation y m)"
  "snapshot_generation y (publish_root_slot x v m) = snapshot_generation y m"
  "marks y (publish_store_high_water x i hw m) = (if y = x then (marks x m)[i := hw] else marks y m)"
  "marks y (publish_snapshot_generation x g m) = marks y m"
  "marks y (publish_root_slot x v m) = marks y m"
  by (simp_all add: root_at_def snapshot_generation_def marks_def publish_store_high_water_def
    publish_snapshot_generation_def publish_root_slot_def map_row_def Let_def map_update)

lemma map_stamp: "map se_high_water (es[r := identity_stamp stride al slots (es ! r)]) = map se_high_water es"
  by (cases "r < length es"; rule nth_equalityI) (simp_all add: identity_stamp_def nth_list_update)

lemma bind_effects [simp]:
  "root_at (map_row x r (identity_stamp stride al slots) m) y = root_at m y"
  "snapshot_generation y (map_row x r (identity_stamp stride al slots) m) = snapshot_generation y m"
  "marks y (map_row x r (identity_stamp stride al slots) m) = marks y m"
  by (simp_all add: root_at_def snapshot_generation_def marks_def map_row_def Let_def map_stamp)

lemma other_field_effects [simp]:
  "root_at (m\<lparr>hm_dir := dir\<rparr>) y = root_at m y" "root_at (m\<lparr>hm_header := h\<rparr>) y = root_at m y"
  "snapshot_generation y (m\<lparr>hm_dir := dir\<rparr>) = snapshot_generation y m" "snapshot_generation y (m\<lparr>hm_header := h\<rparr>) = snapshot_generation y m"
  "marks y (m\<lparr>hm_dir := dir\<rparr>) = marks y m" "marks y (m\<lparr>hm_header := h\<rparr>) = marks y m"
  "root_at (m\<lparr>hm_root := hm_root m'\<rparr>) y = root_at m' y" "snapshot_generation y (m\<lparr>hm_root := roots\<rparr>) = snapshot_generation y m"
  "marks y (m\<lparr>hm_root := roots\<rparr>) = marks y m"
  "root_at (m\<lparr>hm_snap := f\<rparr>) y = root_at m y"
  "snapshot_generation y (m\<lparr>hm_snap := (hm_snap m)(z := hm_snap m' z)\<rparr>) = (if y = z then snapshot_generation z m' else snapshot_generation y m)"
  "marks y (m\<lparr>hm_snap := (hm_snap m)(z := hm_snap m' z)\<rparr>) = (if y = z then marks z m' else marks y m)"
  by (simp_all add: root_at_def snapshot_generation_def marks_def)

lemma marks_after_simps [simp]:
  "marks_after x [] m = marks x m"
  "marks_after x ((i, hw) # rows) m = marks_after x rows (publish_store_high_water x i hw m)"
  by (simp_all add: marks_after_def publish_rows_def)

lemma word_less_Suc: "g + 1 \<noteq> 0 \<Longrightarrow> g < g + (1 :: 32 word)"
proof -
  assume nz: "g + 1 \<noteq> 0"
  have "unat (g + 1) = (unat g + 1) mod 2 ^ 32" by (simp add: unat_word_ariths)
  moreover have "unat g + 1 \<noteq> 2 ^ 32" using nz calculation by (metis mod_self unat_eq_zero)
  ultimately show ?thesis using unat_32 [of g] by (simp add: word_less_nat_alt)
qed

definition quiet :: "phase \<Rightarrow> bool" where
  "quiet p \<longleftrightarrow> p \<noteq> Syncing \<and> p \<noteq> Failed"

text \<open>The parts depend on the header only through the observations above.\<close>

lemma root_half_cong:
  assumes "root_half h s" "\<forall>y. root_at h' y = root_at h y" "sy_next s' = sy_next s" "sy_generation s' = sy_generation s"
    "sy_acked s' = sy_acked s" "quiet (sy_phase s) \<or> sy_flight s' = sy_flight s \<and> \<not> quiet (sy_phase s')"
  shows "root_half h' s'"
  using assms unfolding root_half_def Let_def quiet_def by auto

lemma snap_half_cong:
  assumes "snap_half y h s" "snapshot_generation y h' = snapshot_generation y h" "marks y h' = marks y h \<or> y = sy_next s \<and> quiet (sy_phase s) \<and> (\<forall>r. sy_phase s \<noteq> Flipping r)"
    "sy_next s' = sy_next s" "sy_generation s' = sy_generation s" "sy_acked s' = sy_acked s"
    "quiet (sy_phase s) \<and> (\<forall>r. sy_phase s \<noteq> Flipping r) \<or> sy_flight s' = sy_flight s \<and> (\<not> quiet (sy_phase s') \<or> sy_phase s' = sy_phase s)"
  shows "snap_half y h' s'"
  using assms unfolding snap_half_def Let_def quiet_def by auto

lemma crash_inv_halves:
  "crash_inv s \<Longrightarrow> root_half (sy_mem s) s" "crash_inv s \<Longrightarrow> root_half (sy_disk s) s"
  "crash_inv s \<Longrightarrow> snap_half y (sy_mem s) s" "crash_inv s \<Longrightarrow> snap_half y (sy_disk s) s"
  by (simp_all add: crash_inv_def)

lemma inv_begin:
  assumes "crash_inv s" "ck_do (Begin rows root) s = Some s'"
  shows "crash_inv s'"
proof -
  have e: "sy_phase s = Idle" "sy_generation s + 1 \<noteq> 0"
    "s' = s\<lparr>sy_phase := Rows rows root, sy_flight := Some (root, marks_after (sy_next s) rows (sy_mem s))\<rparr>"
    using assms(2) by (auto simp: ck_do_def Let_def split: phase.splits if_splits)
  have "root_half h s \<Longrightarrow> root_half h s'" "snap_half y h s \<Longrightarrow> snap_half y h s'" for h y
    by (erule root_half_cong; simp add: e quiet_def) (erule snap_half_cong; simp add: e quiet_def)
  then show ?thesis using assms(1) e unfolding crash_inv_def by simp
qed

lemma inv_row:
  assumes "crash_inv s" "ck_do PublishRow s = Some s'"
  shows "crash_inv s'"
proof -
  obtain rows root where p: "sy_phase s = Rows rows root" using assms(2) by (auto simp: ck_do_def Let_def split: phase.splits)
  show ?thesis
  proof (cases rows)
    case Nil
    then have e: "s' = s\<lparr>sy_phase := Stamping root\<rparr>" using assms(2) p by (simp add: ck_do_def Let_def)
    have "root_half h s \<Longrightarrow> root_half h s'" "snap_half y h s \<Longrightarrow> snap_half y h s'" for h y
      by (erule root_half_cong; simp add: e p quiet_def) (erule snap_half_cong; simp add: e p quiet_def)
    then show ?thesis using assms(1) e p Nil unfolding crash_inv_def by simp
  next
    case (Cons r rest)
    obtain i hw where r: "r = (i, hw)" by (cases r)
    have e: "s' = s\<lparr>sy_mem := publish_store_high_water (sy_next s) i hw (sy_mem s), sy_phase := Rows rest root\<rparr>"
      using assms(2) p Cons r by (simp add: ck_do_def Let_def)
    have d: "root_half h s \<Longrightarrow> root_half h s'" "snap_half y h s \<Longrightarrow> snap_half y h s'" for h y
      by (erule root_half_cong; simp add: e p quiet_def) (erule snap_half_cong; simp add: e p quiet_def)
    have m: "root_half (sy_mem s') s'" by (rule root_half_cong [OF crash_inv_halves(1) [OF assms(1)]]) (simp_all add: e p quiet_def)
    have k: "snap_half y (sy_mem s') s'" for y
      by (rule snap_half_cong [OF crash_inv_halves(3) [OF assms(1)]]) (simp_all add: e p quiet_def)
    show ?thesis using assms(1) d m k p Cons r unfolding crash_inv_def by (simp add: e)
  qed
qed

lemma inv_stamp:
  assumes "crash_inv s" "ck_do PublishStamp s = Some s'"
  shows "crash_inv s'"
proof -
  obtain root where p: "sy_phase s = Stamping root" using assms(2) by (auto simp: ck_do_def Let_def split: phase.splits)
  let ?g = "sy_generation s + 1"
  have e: "s' = s\<lparr>sy_mem := publish_snapshot_generation (sy_next s) ?g (sy_mem s), sy_phase := Flipping root\<rparr>"
    using assms(2) p by (simp add: ck_do_def Let_def)
  have f: "?g \<noteq> 0" "sy_flight s = Some (root, marks (sy_next s) (sy_mem s))" using assms(1) p by (simp_all add: crash_inv_def)
  have d: "root_half h s \<Longrightarrow> root_half h s'" "snap_half y h s \<Longrightarrow> snap_half y h s'" for h y
    by (erule root_half_cong; simp add: e p quiet_def) (erule snap_half_cong; simp add: e p quiet_def)
  have m: "root_half (sy_mem s') s'" by (rule root_half_cong [OF crash_inv_halves(1) [OF assms(1)]]) (simp_all add: e p quiet_def)
  have k: "snap_half y (sy_mem s') s'" for y
    using crash_inv_halves(3) [OF assms(1), of y] f(2) by (simp add: e snap_half_def Let_def)
  show ?thesis using assms(1) d m k p f unfolding crash_inv_def by (simp add: e)
qed

lemma inv_root:
  assumes "crash_inv s" "ck_do PublishRoot s = Some s'"
  shows "crash_inv s'"
proof -
  obtain root where p: "sy_phase s = Flipping root" using assms(2) by (auto simp: ck_do_def Let_def split: phase.splits)
  let ?g = "sy_generation s + 1"
  have e: "s' = s\<lparr>sy_mem := publish_root_slot (sy_next s) (encode_root \<lparr>wr_generation = ?g, wr_index = root\<rparr>) (sy_mem s), sy_phase := Syncing\<rparr>"
    using assms(2) p by (simp add: ck_do_def Let_def)
  have f: "?g \<noteq> 0" "sy_flight s = Some (root, marks (sy_next s) (sy_mem s))"
      "snapshot_generation (sy_next s) (sy_mem s) = ?g" using assms(1) p by (simp_all add: crash_inv_def)
  have d: "root_half h s \<Longrightarrow> root_half h s'" "snap_half y h s \<Longrightarrow> snap_half y h s'" for h y
    by (erule root_half_cong; simp add: e p quiet_def) (erule snap_half_cong; simp add: e p quiet_def)
  have k: "snap_half y (sy_mem s') s'" for y
    by (rule snap_half_cong [OF crash_inv_halves(3) [OF assms(1)]]) (simp_all add: e p quiet_def)
  have m: "root_half (sy_mem s') s'"
    using crash_inv_halves(1) [OF assms(1)] f(2) by (simp add: e root_half_def Let_def)
  show ?thesis using assms(1) d m k p f unfolding crash_inv_def by (simp add: e)
qed

lemma inv_synced:
  assumes "crash_inv s" "ck_do Synced s = Some s'"
  shows "crash_inv s'"
proof -
  have p: "sy_phase s = Syncing" using assms(2) by (auto simp: ck_do_def Let_def split: phase.splits)
  let ?g = "sy_generation s + 1" let ?m = "sy_mem s"
  have e: "s' = s\<lparr>sy_disk := ?m, sy_generation := ?g, sy_next := other (sy_next s), sy_phase := Idle,
      sy_acked := the (sy_flight s), sy_flight := None\<rparr>"
    using assms(2) p by (simp add: ck_do_def Let_def)
  have f: "?g \<noteq> 0" "snapshot_generation (sy_next s) ?m = ?g" "wr_generation (root_at ?m (sy_next s)) = ?g"
      "sy_flight s = Some (wr_index (root_at ?m (sy_next s)), marks (sy_next s) ?m)" using assms(1) p by (simp_all add: crash_inv_def)
  have old: "older (sy_generation s) ?g" using word_less_Suc [OF f(1)] by (simp add: older_def)
  have "root_half ?m s'" using crash_inv_halves(1) [OF assms(1)] f old by (simp add: e root_half_def Let_def)
  moreover have "snap_half y ?m s'" for y
  proof (cases "y = sy_next s")
    case True
    then show ?thesis using f by (simp add: e snap_half_def)
  next
    case False
    then have "y = other (sy_next s)" by (simp add: ab_neq)
    then show ?thesis using crash_inv_halves(3) [OF assms(1), of y] old by (simp add: e snap_half_def Let_def)
  qed
  ultimately show ?thesis using f(1) unfolding crash_inv_def by (simp add: e)
qed

lemma inv_quietly:
  assumes "crash_inv s" "ck_do a s = Some s'"
    and "case a of SyncFailed \<Rightarrow> True | WriteBackRoots \<Rightarrow> True | WriteBackSnapshot y \<Rightarrow> True | WriteBackEntry i \<Rightarrow> True
      | Touch dir n \<Rightarrow> True | Bind r st al sl \<Rightarrow> True | _ \<Rightarrow> False"
  shows "crash_inv s'"
proof -
  note m = crash_inv_halves(1,3) [OF assms(1)] and d = crash_inv_halves(2,4) [OF assms(1)]
  have same: "root_half h s \<Longrightarrow> root_half h (s\<lparr>sy_mem := m', sy_disk := d'\<rparr>)" "snap_half y h s \<Longrightarrow> snap_half y h (s\<lparr>sy_mem := m', sy_disk := d'\<rparr>)"
    for h y m' d' by (auto simp: root_half_def snap_half_def Let_def)
  have obs: "root_half h s" if "root_half h0 s" "\<forall>y. root_at h y = root_at h0 y" for h h0
    using that by (simp add: root_half_def)
  have obs': "snap_half y h s" if "snap_half y h0 s" "snapshot_generation y h = snapshot_generation y h0" "marks y h = marks y h0" for y h h0
    using that by (auto simp: snap_half_def Let_def)
  have keep: "crash_inv (s\<lparr>sy_mem := m', sy_disk := d'\<rparr>)"
    if "\<forall>y. root_at m' y = root_at (sy_mem s) y" "\<forall>y. snapshot_generation y m' = snapshot_generation y (sy_mem s)" "\<forall>y. marks y m' = marks y (sy_mem s)"
      "root_half d' s" "\<forall>y. snap_half y d' s" "m' = sy_mem s \<or> sy_phase s = Idle" for m' d'
  proof -
    have "root_half m' s" "\<forall>y. snap_half y m' s" using obs [OF m(1), of m'] obs' [OF m(2)] that(1-3) by simp_all
    then show ?thesis using assms(1) that same unfolding crash_inv_def by (auto split: phase.splits)
  qed
  show ?thesis
  proof (cases a)
    case SyncFailed
    then have p: "sy_phase s = Syncing" "s' = s\<lparr>sy_phase := Failed\<rparr>" using assms(2) by (auto simp: ck_do_def Let_def split: phase.splits)
    have "root_half h s \<Longrightarrow> root_half h s'" "snap_half y h s \<Longrightarrow> snap_half y h s'" for h y
      by (erule root_half_cong; simp add: p quiet_def) (erule snap_half_cong; simp add: p quiet_def)
    then show ?thesis using assms(1) p unfolding crash_inv_def by simp
  next
    case WriteBackRoots
    then have e: "s' = s\<lparr>sy_mem := sy_mem s, sy_disk := (sy_disk s)\<lparr>hm_root := hm_root (sy_mem s), hm_header := hm_header (sy_mem s)\<rparr>\<rparr>" using assms(2) by (simp add: ck_do_def Let_def)
    have "snap_half y ((sy_disk s)\<lparr>hm_root := hm_root (sy_mem s), hm_header := hm_header (sy_mem s)\<rparr>) s" for y by (rule obs' [OF d(2)]) simp_all
    moreover have "root_half ((sy_disk s)\<lparr>hm_root := hm_root (sy_mem s), hm_header := hm_header (sy_mem s)\<rparr>) s" by (rule obs [OF m(1)]) simp
    ultimately show ?thesis unfolding e by (intro keep allI) simp_all
  next
    case (WriteBackSnapshot z)
    then have e: "s' = s\<lparr>sy_mem := sy_mem s, sy_disk := (sy_disk s)\<lparr>hm_snap := (hm_snap (sy_disk s))(z := hm_snap (sy_mem s) z)\<rparr>\<rparr>"
      using assms(2) by (simp add: ck_do_def Let_def)
    have "snap_half y ((sy_disk s)\<lparr>hm_snap := (hm_snap (sy_disk s))(z := hm_snap (sy_mem s) z)\<rparr>) s" for y
      by (rule obs' [of y "if y = z then sy_mem s else sy_disk s"]) (use m d in simp_all)
    then show ?thesis unfolding e using d by (intro keep allI) (auto intro: obs)
  next
    case (WriteBackEntry i)
    then have e: "s' = s\<lparr>sy_mem := sy_mem s, sy_disk := (sy_disk s)\<lparr>hm_dir := (hm_dir (sy_disk s))[i := hm_dir (sy_mem s) ! i]\<rparr>\<rparr>"
      using assms(2) by (simp add: ck_do_def Let_def)
    have "snap_half y ((sy_disk s)\<lparr>hm_dir := (hm_dir (sy_disk s))[i := hm_dir (sy_mem s) ! i]\<rparr>) s" for y by (rule obs' [OF d(2)]) simp_all
    moreover have "root_half ((sy_disk s)\<lparr>hm_dir := (hm_dir (sy_disk s))[i := hm_dir (sy_mem s) ! i]\<rparr>) s" by (rule obs [OF d(1)]) simp
    ultimately show ?thesis unfolding e by (intro keep allI) simp_all
  next
    case (Touch dir n)
    then have p: "sy_phase s = Idle" and e: "s' = s\<lparr>sy_mem := (sy_mem s)\<lparr>hm_dir := dir, hm_header := (hm_header (sy_mem s))\<lparr>wh_chunk_count := n\<rparr>\<rparr>, sy_disk := sy_disk s\<rparr>"
      using assms(2) by (auto simp: ck_do_def Let_def split: phase.splits)
    show ?thesis unfolding e using d p by (intro keep allI) auto
  next
    case (Bind r st al sl)
    then have p: "sy_phase s = Idle" and e: "s' = s\<lparr>sy_mem := map_row SlotB r (identity_stamp st al sl) (map_row SlotA r (identity_stamp st al sl) (sy_mem s)), sy_disk := sy_disk s\<rparr>"
      using assms(2) by (auto simp: ck_do_def Let_def split: phase.splits)
    show ?thesis unfolding e using d p by (intro keep allI) auto
  qed (use assms(3) in simp_all)
qed

lemma crash_inv_step: "crash_inv s \<Longrightarrow> ck_do a s = Some s' \<Longrightarrow> a \<noteq> Retry \<Longrightarrow> crash_inv s'"
  by (cases a) (auto intro: inv_begin inv_row inv_stamp inv_root inv_synced inv_quietly)

lemma selected:
  assumes "rs_eligible (select_root m)"
  shows "rs_root (select_root m) = root_at m (rs_slot (select_root m))"
    "snapshot_generation (rs_slot (select_root m)) m = wr_generation (rs_root (select_root m))"
  using assms by (simp_all add: select_root_def Let_def no_selection_def split: if_splits)

lemma older_0 [simp]: "older h 0 \<longleftrightarrow> h = 0"
  by (simp add: older_def)

lemma clean_start:
  assumes "clean m"
  shows "crash_inv (session_start m)"
proof -
  let ?sel = "select_root m" let ?y = "rs_slot ?sel" let ?g = "wr_generation (rs_root ?sel)"
  have c: "rs_eligible ?sel" "older (wr_generation (root_at m (other ?y))) ?g" "older (snapshot_generation (other ?y) m) ?g"
    using assms by (simp_all add: clean_def Let_def)
  note sel = selected [OF c(1)]
  show ?thesis
  proof (cases "?g = 0")
    case True
    have "wr_generation (root_at m z) = 0 \<and> snapshot_generation z m = 0" for z
      using ab_cases [of z ?y] c sel True by auto
    then show ?thesis using True
      by (simp add: crash_inv_def session_start_def Let_def next_slot_after_def root_half_def snap_half_def)
  next
    case False
    then have x: "next_slot_after ?sel = other ?y" by (simp add: next_slot_after_def)
    have "root_half m (session_start m)" using c sel x False by (simp add: root_half_def session_start_def Let_def)
    moreover have "snap_half z m (session_start m)" for z
      using c sel x False ab_cases [of z ?y] by (auto simp: snap_half_def session_start_def Let_def)
    ultimately show ?thesis using False by (simp add: crash_inv_def session_start_def Let_def)
  qed
qed

lemma crash_inv_reach:
  assumes "ck_reach False m s" "clean m"
  shows "crash_inv s"
  using assms
proof (induction rule: ck_reach.induct)
  case start
  then show ?case by (simp add: clean_start)
next
  case (step s a s')
  then show ?case using crash_inv_step by simp
qed

lemma select_one:
  assumes "snapshot_generation y m = wr_generation (root_at m y)"
    and "wr_generation (root_at m (other y)) < wr_generation (root_at m y) \<or>
      wr_generation (root_at m (other y)) \<noteq> snapshot_generation (other y) m"
  shows "select_root m = \<lparr>rs_slot = y, rs_root = root_at m y, rs_eligible = True\<rparr>"
  using assms by (cases y) (auto simp: select_root_def Let_def)

text \<open>Whatever the header holds under the invariant, one of the two pairs is recovered from it.\<close>

lemma recover_from_halves:
  assumes r: "root_half h s" and sn: "\<And>y. snap_half y h s" and a: "sy_generation s = 0 \<longrightarrow> sy_next s = SlotA"
    and f: "sy_flight s \<noteq> None \<longrightarrow> sy_generation s + 1 \<noteq> 0"
  shows "\<exists>g r hw. recover h = Some (g, r, hw) \<and>
    (g = 0 \<and> sy_generation s = 0 \<or> g = sy_generation s \<and> g \<noteq> 0 \<and> (r, hw) = sy_acked s \<or>
     g = sy_generation s + 1 \<and> g \<noteq> 0 \<and> Some (r, hw) = sy_flight s)"
proof -
  let ?x = "sy_next s" let ?g = "sy_generation s" let ?y = "other ?x"
  have yv: "wr_generation (root_at h ?y) = ?g" "snapshot_generation ?y h = ?g"
      "?g \<noteq> 0 \<Longrightarrow> sy_acked s = (wr_index (root_at h ?y), marks ?y h)"
    using r sn [of ?y] by (auto simp: root_half_def snap_half_def Let_def prod_eq_iff)
  have xs: "older (snapshot_generation ?x h) ?g \<or> snapshot_generation ?x h = ?g + 1 \<and> Some (marks ?x h) = map_option snd (sy_flight s)"
    using sn [of ?x] by (auto simp: snap_half_def Let_def)
  have xr: "older (wr_generation (root_at h ?x)) ?g \<or> wr_generation (root_at h ?x) = ?g + 1 \<and> Some (wr_index (root_at h ?x)) = map_option fst (sy_flight s)"
    using r by (auto simp: root_half_def Let_def)
  show ?thesis
  proof (cases "older (wr_generation (root_at h ?x)) ?g")
    case False
    then have new: "wr_generation (root_at h ?x) = ?g + 1" "Some (wr_index (root_at h ?x)) = map_option fst (sy_flight s)" using xr by auto
    then have nz: "?g + 1 \<noteq> 0" using f by (cases "sy_flight s") auto
    show ?thesis
    proof (cases "older (snapshot_generation ?x h) ?g")
      case True
      then have "snapshot_generation ?x h \<noteq> ?g + 1" using word_less_Suc [OF nz] nz by (auto simp: older_def)
      then have "select_root h = \<lparr>rs_slot = ?y, rs_root = root_at h ?y, rs_eligible = True\<rparr>"
        using yv new(1) by (intro select_one) simp_all
      then show ?thesis using yv by (cases "?g = 0") (auto simp: recover_def Let_def)
    next
      case False
      then have st: "snapshot_generation ?x h = ?g + 1" "Some (marks ?x h) = map_option snd (sy_flight s)" using xs by auto
      have "select_root h = \<lparr>rs_slot = ?x, rs_root = root_at h ?x, rs_eligible = True\<rparr>"
        using st new yv word_less_Suc [OF nz] by (intro select_one) simp_all
      moreover have "Some (wr_index (root_at h ?x), marks ?x h) = sy_flight s" using st(2) new(2) by (cases "sy_flight s") auto
      ultimately show ?thesis using new(1) nz by (auto simp: recover_def Let_def)
    qed
  next
    case True
    show ?thesis
    proof (cases "?g = 0")
      case False
      then have "wr_generation (root_at h ?x) < ?g" using True by (auto simp: older_def word_gt_0)
      then have "select_root h = \<lparr>rs_slot = ?y, rs_root = root_at h ?y, rs_eligible = True\<rparr>"
        using yv by (intro select_one) simp_all
      then show ?thesis using yv False by (auto simp: recover_def Let_def)
    next
      case z: True
      then have z': "wr_generation (root_at h SlotA) = 0" "wr_generation (root_at h SlotB) = 0" "snapshot_generation SlotB h = 0"
        using True a yv by simp_all
      then have "rs_eligible (select_root h) \<and> wr_generation (rs_root (select_root h)) = 0"
        by (simp add: select_root_def Let_def)
      then show ?thesis using z by (simp add: recover_def Let_def)
    qed
  qed
qed


fun ck_run :: "ck_action list \<Rightarrow> sys \<Rightarrow> sys option" where
  "ck_run [] s = Some s"
| "ck_run (a # as) s = (case ck_do a s of None \<Rightarrow> None | Some s \<Rightarrow> ck_run as s)"

lemma ck_run_reach:
  assumes "ck_reach retry m s" "ck_run as s = Some s'" "retry \<or> Retry \<notin> set as"
  shows "ck_reach retry m s'"
  using assms
proof (induction as arbitrary: s)
  case (Cons a as)
  obtain s1 where s1: "ck_do a s = Some s1" "ck_run as s1 = Some s'" using Cons.prems(2) by (auto split: option.splits)
  have "ck_reach retry m s1" using ck_reach.step [OF Cons.prems(1) s1(1)] Cons.prems(3) by auto
  then show ?case using Cons.IH [OF _ s1(2)] Cons.prems(3) by auto
qed simp

definition sample_map :: header_map where
  "sample_map = fresh_map (fresh_header 4096 4 12288 4096 1) 4 1"

definition commit_actions :: "32 word \<Rightarrow> 32 word \<Rightarrow> ck_action list" where
  "commit_actions root hw = [Begin [(0, hw)] root, PublishRow, PublishRow, PublishStamp, PublishRoot]"

lemma not_2_le_1: "\<not> (2 :: 32 word) \<le> 1"
  by (simp add: word_le_nat_alt)

lemmas ck_eval = not_2_le_1 commit_actions_def ck_do_def session_start_def Let_def recover_def select_root_def root_at_def
  decode_zero snapshot_generation_def no_selection_def next_slot_after_def marks_after_def marks_def publish_rows_def
  publish_store_high_water_def publish_snapshot_generation_def publish_root_slot_def map_row_def

lemma sample_map_clean: "clean sample_map" "rs_eligible (select_root sample_map)"
  by (simp_all add: clean_def ck_eval sample_map_def fresh_map_def)


text \<open>The header after one commit and a second whose new root alone reached the disk.\<close>

definition torn_map :: header_map where
  "torn_map =
     (let rows = (\<lambda>hw. [\<lparr>se_stride = 0, se_align = 0, se_chunk_slots = 0, se_high_water = hw\<rparr>])
      in sample_map\<lparr>
        hm_root := (hm_root sample_map)(SlotA := encode_root \<lparr>wr_generation = 1, wr_index = 10\<rparr>, SlotB := encode_root \<lparr>wr_generation = 2, wr_index = 20\<rparr>),
        hm_snap := (hm_snap sample_map)(SlotA := \<lparr>sn_generation = 1, sn_rows = rows 4\<rparr>)\<rparr>)"

lemma torn_run:
  "\<exists>s. ck_run (commit_actions 10 4 @ [Synced] @ commit_actions 20 8 @ [WriteBackRoots]) (session_start sample_map) = Some s \<and>
     sy_disk s = torn_map"
  by (simp add: ck_eval sample_map_def fresh_map_def unused_row_def torn_map_def)

lemma torn_next:
  "\<exists>t. ck_run (commit_actions 30 6 @ [WriteBackSnapshot SlotB]) (session_start torn_map) = Some t \<and>
     sy_acked t = (10, [4]) \<and> sy_flight t = Some (30, [6]) \<and> recover (sy_disk t) = Some (2, 20, [6])"
  by (simp add: ck_eval sample_map_def fresh_map_def unused_row_def torn_map_def)

lemma torn_selects: "rs_eligible (select_root torn_map)" "recover torn_map = Some (1, 10, [4])"
  by (simp_all add: ck_eval sample_map_def fresh_map_def unused_row_def torn_map_def)

text \<open>
  C25: The generation is reused. After a crash that let the new root through without its snapshot,
  the next session resumes from the older root, takes the same generation again and overwrites the
  snapshot first: a second crash there recovers the lost session's root paired with the new
  session's high-water marks, neither of them committed. The same happens with no reopen at all when
  a commit whose header sync failed is followed by another.
\<close>

theorem generation_reuse_pairs_two_commits:
  "(\<exists>s t. ck_reach False sample_map s \<and> ck_reach False (sy_disk s) t \<and>
      recover (sy_disk s) = Some (1, 10, [4]) \<and> sy_acked t = (10, [4]) \<and> sy_flight t = Some (30, [6]) \<and>
      recover (sy_disk t) = Some (2, 20, [6])) \<and>
   (\<exists>s. ck_reach True sample_map s \<and> sy_acked s = (10, [4]) \<and> sy_flight s = Some (30, [6]) \<and>
      recover (sy_disk s) = Some (2, 20, [6]))"
proof (rule conjI)
  obtain s where s: "ck_run (commit_actions 10 4 @ [Synced] @ commit_actions 20 8 @ [WriteBackRoots]) (session_start sample_map) = Some s"
      "sy_disk s = torn_map" using torn_run by blast
  obtain t where t: "ck_run (commit_actions 30 6 @ [WriteBackSnapshot SlotB]) (session_start torn_map) = Some t"
      "sy_acked t = (10, [4])" "sy_flight t = Some (30, [6])" "recover (sy_disk t) = Some (2, 20, [6])" using torn_next by blast
  have "ck_reach False sample_map s"
    by (rule ck_run_reach [OF ck_reach.start [OF sample_map_clean(2)] s(1)]) (simp add: commit_actions_def)
  moreover have "ck_reach False (sy_disk s) t"
    unfolding s(2) by (rule ck_run_reach [OF ck_reach.start [OF torn_selects(1)] t(1)]) (simp add: commit_actions_def)
  ultimately show "\<exists>s t. ck_reach False sample_map s \<and> ck_reach False (sy_disk s) t \<and>
      recover (sy_disk s) = Some (1, 10, [4]) \<and> sy_acked t = (10, [4]) \<and> sy_flight t = Some (30, [6]) \<and>
      recover (sy_disk t) = Some (2, 20, [6])" using torn_selects(2) s(2) t by (intro exI [of _ s] exI [of _ t]) simp
next
  let ?as = "commit_actions 10 4 @ [Synced] @ commit_actions 20 8 @ [WriteBackRoots, SyncFailed, Retry] @
    butlast (commit_actions 30 6) @ [WriteBackSnapshot SlotB]"
  obtain s where s: "ck_run ?as (session_start sample_map) = Some s" "sy_acked s = (10, [4])" "sy_flight s = Some (30, [6])"
      "recover (sy_disk s) = Some (2, 20, [6])"
    by (simp add: ck_eval sample_map_def fresh_map_def unused_row_def)
  have "ck_reach True sample_map s"
    by (rule ck_run_reach [OF ck_reach.start [OF sample_map_clean(2)] s(1)]) simp
  then show "\<exists>s. ck_reach True sample_map s \<and> sy_acked s = (10, [4]) \<and> sy_flight s = Some (30, [6]) \<and>
      recover (sy_disk s) = Some (2, 20, [6])" using s by blast
qed

text \<open>
  A crash leaves a clean file again, so that the sessions after it are safe as well, unless
  exactly one of the two, the new root and the stamp of its snapshot, had reached the disk.
\<close>

theorem crash_leaves_clean_or_torn:
  assumes "ck_reach False m s" "clean m"
  shows "clean (sy_disk s) \<longleftrightarrow>
    (older (wr_generation (root_at (sy_disk s) (sy_next s))) (sy_generation s) \<longleftrightarrow>
     older (snapshot_generation (sy_next s) (sy_disk s)) (sy_generation s))"
proof -
  let ?d = "sy_disk s" let ?x = "sy_next s" let ?y = "other ?x" let ?g = "sy_generation s"
  have i: "crash_inv s" using crash_inv_reach [OF assms] .
  note r = crash_inv_halves(2) [OF i] and sn = crash_inv_halves(4) [OF i]
  have f: "sy_flight s \<noteq> None \<longrightarrow> ?g + 1 \<noteq> 0" using i by (auto simp: crash_inv_def split: phase.splits)
  have yv: "wr_generation (root_at ?d ?y) = ?g" "snapshot_generation ?y ?d = ?g"
    using r sn [of ?y] by (auto simp: root_half_def snap_half_def Let_def)
  have xs: "older (snapshot_generation ?x ?d) ?g \<or> snapshot_generation ?x ?d = ?g + 1 \<and> sy_flight s \<noteq> None"
    using sn [of ?x] by (cases "sy_flight s") (auto simp: snap_half_def Let_def)
  have xr: "older (wr_generation (root_at ?d ?x)) ?g \<or> wr_generation (root_at ?d ?x) = ?g + 1 \<and> sy_flight s \<noteq> None"
    using r by (cases "sy_flight s") (auto simp: root_half_def Let_def)
  have sel_y: "older (wr_generation (root_at ?d ?x)) ?g \<and> ?g \<noteq> 0 \<or> wr_generation (root_at ?d ?x) \<noteq> snapshot_generation ?x ?d \<Longrightarrow>
      select_root ?d = \<lparr>rs_slot = ?y, rs_root = root_at ?d ?y, rs_eligible = True\<rparr>"
    using yv by (intro select_one) (auto simp: older_def word_gt_0)
  show ?thesis
  proof (cases "older (wr_generation (root_at ?d ?x)) ?g"; cases "older (snapshot_generation ?x ?d) ?g")
    assume a: "older (wr_generation (root_at ?d ?x)) ?g" "older (snapshot_generation ?x ?d) ?g"
    show ?thesis
    proof (cases "?g = 0")
      case False
      then show ?thesis using sel_y a yv by (simp add: clean_def)
    next
      case True
      then have "wr_generation (root_at ?d z) = 0 \<and> snapshot_generation z ?d = 0" for z using a yv ab_cases [of z ?x] by auto
      then show ?thesis using a by (simp add: clean_def select_root_def Let_def)
    qed
  next
    assume a: "older (wr_generation (root_at ?d ?x)) ?g" "\<not> older (snapshot_generation ?x ?d) ?g"
    then have "wr_generation (root_at ?d ?x) \<noteq> snapshot_generation ?x ?d" by auto
    then show ?thesis using sel_y a yv by (simp add: clean_def)
  next
    assume a: "\<not> older (wr_generation (root_at ?d ?x)) ?g" "older (snapshot_generation ?x ?d) ?g"
    then have "wr_generation (root_at ?d ?x) \<noteq> snapshot_generation ?x ?d" by auto
    then show ?thesis using sel_y a yv by (simp add: clean_def)
  next
    assume a: "\<not> older (wr_generation (root_at ?d ?x)) ?g" "\<not> older (snapshot_generation ?x ?d) ?g"
    then have n: "wr_generation (root_at ?d ?x) = ?g + 1" "snapshot_generation ?x ?d = ?g + 1" "?g < ?g + 1"
      using xs xr f word_less_Suc by auto
    have "select_root ?d = \<lparr>rs_slot = ?x, rs_root = root_at ?d ?x, rs_eligible = True\<rparr>"
      using n yv by (intro select_one) simp_all
    then show ?thesis using a n yv by (simp add: clean_def older_def)
  qed
qed

lemma crash_leaves_clean_or_torn_witness:
  "\<exists>s. ck_reach False sample_map s \<and> \<not> clean (sy_disk s) \<and> sy_disk s = torn_map"
proof -
  obtain s where s: "ck_run (commit_actions 10 4 @ [Synced] @ commit_actions 20 8 @ [WriteBackRoots]) (session_start sample_map) = Some s"
      "sy_disk s = torn_map" "sy_next s = SlotB" "sy_generation s = 1"
    using torn_run by (simp add: ck_eval sample_map_def fresh_map_def unused_row_def)
  have r: "ck_reach False sample_map s"
    by (rule ck_run_reach [OF ck_reach.start [OF sample_map_clean(2)] s(1)]) (simp add: commit_actions_def)
  have "\<not> older (wr_generation (root_at torn_map SlotB)) 1" "older (snapshot_generation SlotB torn_map) 1"
    by (simp_all add: torn_map_def ck_eval older_def sample_map_def fresh_map_def word_less_nat_alt)
  then show ?thesis using crash_leaves_clean_or_torn [OF r sample_map_clean(1)] s r by auto
qed

subsection \<open>The commit is the protocol\<close>

definition view :: "world \<Rightarrow> header_map \<Rightarrow> 32 word \<times> 32 word list \<Rightarrow> sys" where
  "view w d acked =
     \<lparr>sy_mem = ws_map (w_source w), sy_disk = d, sy_generation = ck_generation (w_ck w), sy_next = ck_next (w_ck w),
      sy_phase = Idle, sy_acked = acked, sy_flight = None\<rparr>"

definition protocol :: "(nat \<times> 32 word) list \<Rightarrow> 32 word \<Rightarrow> ck_action list" where
  "protocol rows root = Begin rows root # replicate (length rows + 1) PublishRow @ [PublishStamp, PublishRoot, Synced]"

lemma ck_run_append: "ck_run (as @ bs) s = (case ck_run as s of None \<Rightarrow> None | Some s \<Rightarrow> ck_run bs s)"
  by (induction as arbitrary: s) (auto split: option.splits)

lemma run_rows:
  "sy_phase s = Rows rows root \<Longrightarrow>
    ck_run (replicate (length rows + 1) PublishRow) s =
      Some (s\<lparr>sy_mem := publish_rows (sy_next s) rows (sy_mem s), sy_phase := Stamping root\<rparr>)"
proof (induction rows arbitrary: s)
  case Nil
  then show ?case by (simp add: ck_do_def publish_rows_def)
next
  case (Cons r rows)
  obtain i hw where r: "r = (i, hw)" by (cases r)
  let ?s = "s\<lparr>sy_mem := publish_store_high_water (sy_next s) i hw (sy_mem s), sy_phase := Rows rows root\<rparr>"
  have "ck_do PublishRow s = Some ?s" using Cons.prems r by (simp add: ck_do_def Let_def)
  then show ?case using Cons.IH [of ?s] r by (simp add: publish_rows_def)
qed

lemma run_protocol:
  assumes "sy_phase s = Idle" "sy_generation s + 1 \<noteq> 0"
  shows "ck_run (protocol rows root) s =
    (let x = sy_next s; g = sy_generation s + 1;
         m = publish_root_slot x (encode_root \<lparr>wr_generation = g, wr_index = root\<rparr>)
               (publish_snapshot_generation x g (publish_rows x rows (sy_mem s)))
     in Some (s\<lparr>sy_mem := m, sy_disk := m, sy_generation := g, sy_next := other x, sy_phase := Idle,
              sy_acked := (root, marks_after x rows (sy_mem s)), sy_flight := None\<rparr>))"
proof -
  let ?s1 = "s\<lparr>sy_phase := Rows rows root, sy_flight := Some (root, marks_after (sy_next s) rows (sy_mem s))\<rparr>"
  have b: "ck_do (Begin rows root) s = Some ?s1" using assms by (simp add: ck_do_def Let_def)
  have "sy_phase ?s1 = Rows rows root" by simp
  note r = run_rows [OF this]
  show ?thesis
    unfolding protocol_def ck_run.simps b option.case ck_run_append r
    by (simp add: ck_do_def Let_def)
qed

lemma punches_keep:
  "hm_root (ws_map (fold (\<lambda>p. punch_now fa (fst p)) due s)) = hm_root (ws_map s)"
  "hm_snap (ws_map (fold (\<lambda>p. punch_now fa (fst p)) due s)) = hm_snap (ws_map s)"
  by (induction due arbitrary: s) simp_all

lemma commit_sync_keeps:
  "commit_sync io w = (w', r) \<Longrightarrow> ws_map (w_source w') = ws_map (w_source w) \<and> w_arena w' = w_arena w \<and>
    ck_generation (w_ck w') = ck_generation (w_ck w) \<and> ck_epoch (w_ck w') = ck_epoch (w_ck w) \<and>
    ck_next (w_ck w') = ck_next (w_ck w) \<and> ck_durable (w_ck w') = ck_durable (w_ck w) \<and>
    ck_registered (w_ck w') = ck_registered (w_ck w) \<and> ck_chunks (w_ck w') = ck_chunks (w_ck w)"
  unfolding commit_sync_def sync_data_def by (auto split: if_splits sum.splits prod.splits)

lemma pending_rows_cong:
  "w_arena w' = w_arena w \<Longrightarrow> ck_registered (w_ck w') = ck_registered (w_ck w) \<Longrightarrow> pending_rows w' = pending_rows w"
  by (simp add: pending_rows_def)

lemma sync_header_map: "sync_header io s = (s', r) \<Longrightarrow> ws_map s' = ws_map s \<and> (r = Inr () \<longleftrightarrow> io = None)"
  by (auto simp: sync_header_def split: option.splits)


definition sample_world :: world where
  "sample_world = the (ck_new (source_new 4096 4 12288 12288 0 sample_map) [])"


subsection \<open>The directory is not part of the pair\<close>

text \<open>A store of four slots a chunk with 166 chunks, which fill the directory's share of the first page.\<close>

definition sample_entry :: "nat \<Rightarrow> chunk_entry" where
  "sample_entry i = \<lparr>ce_offset = 16384 + 4096 * i, ce_size = 4096, ce_state = chunk_live, ce_owner = 0\<rparr>"

definition sample_dir :: "nat \<Rightarrow> chunk_entry list" where
  "sample_dir n = map (\<lambda>i. if i < n then sample_entry i else zero_entry) [0..<200]"

definition sample_row :: "32 word \<Rightarrow> store_entry" where
  "sample_row hw = \<lparr>se_stride = 1024, se_align = 16, se_chunk_slots = 4, se_high_water = hw\<rparr>"

definition filled_map :: header_map where
  "filled_map =
     \<lparr>hm_header = (fresh_header 4096 200 16384 8192 1)\<lparr>wh_chunk_count := 166\<rparr>,
      hm_root = (\<lambda>_. 0)(SlotA := encode_root \<lparr>wr_generation = 1, wr_index = 10\<rparr>), hm_dir = sample_dir 166,
      hm_snap = (\<lambda>_. \<lparr>sn_generation = 0, sn_rows = [sample_row 0]\<rparr>)(SlotA := \<lparr>sn_generation = 1, sn_rows = [sample_row 664]\<rparr>)\<rparr>"

definition half_written :: header_map where
  "half_written =
     \<lparr>hm_header = (fresh_header 4096 200 16384 8192 1)\<lparr>wh_chunk_count := 167\<rparr>,
      hm_root = (\<lambda>_. 0)(SlotA := encode_root \<lparr>wr_generation = 1, wr_index = 10\<rparr>, SlotB := encode_root \<lparr>wr_generation = 2, wr_index = 20\<rparr>),
      hm_dir = sample_dir 166,
      hm_snap = (\<lambda>_. \<lparr>sn_generation = 0, sn_rows = [sample_row 0]\<rparr>)(SlotA := \<lparr>sn_generation = 1, sn_rows = [sample_row 664]\<rparr>,
        SlotB := \<lparr>sn_generation = 2, sn_rows = [sample_row 665]\<rparr>)\<rparr>"

lemma filled_clean: "clean filled_map" "rs_eligible (select_root filled_map)"
  by (simp_all add: clean_def ck_eval filled_map_def older_def)

lemma half_written_run:
  "\<exists>s. ck_run ([Touch (sample_dir 167) 167] @ commit_actions 20 665 @ [WriteBackRoots, WriteBackSnapshot SlotB]) (session_start filled_map) = Some s \<and>
     sy_acked s = (10, [664]) \<and> sy_disk s = half_written"
  by (simp add: ck_eval filled_map_def half_written_def sample_row_def)

lemma half_written_header: "check_header (hm_header half_written) = None"
  by (simp add: check_header_def half_written_def fresh_header_def geometry_ok_iff layout_ok_def unat_page_or sizeof_defs snapshot_bytes_def)

lemma half_written_selects: "select_root half_written = \<lparr>rs_slot = SlotB, rs_root = \<lparr>wr_generation = 2, wr_index = 20\<rparr>, rs_eligible = True\<rparr>"
  by (simp add: ck_eval half_written_def)

lemma sample_rows_error:
  "row_error (sample_row 665) 166 = Some (werr StoreDirectoryInconsistent 0)" "row_error (sample_row 664) 166 = None"
  by (simp_all add: row_error_def sample_row_def max_align_def needed_chunks_def word_less_nat_alt)

lemma half_written_source:
  "\<exists>s. ws_open None None None None (\<lambda>n off. Inr off) \<lparr>fi_map = half_written, fi_size = 700416\<rparr> = Inr s \<and>
     ws_map s = half_written \<and> length (ws_store_reopened s) = 1 \<and> length (ws_store_reopened s ! 0) = 166"
proof -
  let ?s1 = "reopened_source half_written" let ?f = "\<lambda>i. if i < 166 then sample_entry i else zero_entry"
  have es: "take 167 (sample_dir 166) = map ?f [0..<167]" by (simp add: sample_dir_def take_map)
  have st: "ws_max_stores ?s1 = 1" "ws_store_reopened ?s1 = [[]]" "ws_map ?s1 = half_written" "wh_chunk_count (hm_header half_written) = 167"
      "wh_data_offset (hm_header half_written) = 16384" "hm_dir half_written = sample_dir 166"
    by (simp_all add: reopened_source_def Let_def init_store_directory_def source_new_def half_written_def fresh_header_def)
  have ok: "\<forall>e \<in> set (map ?f [0..<167]). entry_ok (ws_max_stores ?s1) 700416 e"
    unfolding st by (auto simp: entry_ok_def sample_entry_def zero_entry_def chunk_live_def chunk_free_def)
  have len: "ws_max_stores ?s1 = length (ws_store_reopened ?s1)" "length (ws_store_reopened ?s1) \<le> no_owner"
    by (simp_all add: st no_owner_def)
  obtain s where s: "remap_chunks (\<lambda>n off. Inr off) 700416 (map ?f [0..<167]) 0 ?s1 = Inr s"
      "length (ws_store_reopened s) = length (ws_store_reopened ?s1)"
      "\<forall>r < length (ws_store_reopened ?s1). ws_store_reopened s ! r = ws_store_reopened ?s1 ! r @ based (\<lambda>n off. off) (requeued r 0 (map ?f [0..<167]))"
      "s\<lparr>ws_reopened := [], ws_store_reopened := [], ws_next_offset := 0\<rparr> = ?s1\<lparr>ws_reopened := [], ws_store_reopened := [], ws_next_offset := 0\<rparr>"
    using remap_chunks_queues [OF ok len, of "\<lambda>n off. off" 0] by blast
  have "filter (\<lambda>i. ce_state (?f i) = chunk_live \<and> ce_owner (?f i) = 0) [0..<167] = filter (\<lambda>i. i < 166) [0..<167]"
    by (rule filter_cong) (simp_all add: sample_entry_def zero_entry_def chunk_live_def chunk_free_def)
  moreover have "filter (\<lambda>i. i < (166::nat)) [0..<167] = [0..<166]"
  proof -
    have "[0..<167] = [0..<166] @ [166::nat]" using upt_Suc_append [of 0 166] by simp
    then show ?thesis by simp
  qed
  ultimately have "length (requeued 0 0 (map ?f [0..<167])) = 166" unfolding requeued_map by simp
  then have "length (ws_store_reopened s ! 0) = 166" using s(3) by (simp add: st based_def)
  moreover have "ws_map s = half_written" using arg_cong [OF s(4), of ws_map] st by simp
  moreover have "ws_open None None None None (\<lambda>n off. Inr off) \<lparr>fi_map = half_written, fi_size = 700416\<rparr> = Inr s"
    using s(1) half_written_header by (simp add: ws_open_def st es)
  ultimately show ?thesis using s(2) st by auto
qed

text \<open>
  The generation stamp pairs a root with its snapshot but not with the chunk directory, whose
  entries lie on further pages. A crash in the header sync that let the new root and its snapshot
  through and not the directory page with the chunk grown since makes the file be refused as
  inconsistent, although the committed root is still there and its snapshot would be adopted.
\<close>

theorem torn_directory_refuses_the_file:
  "\<exists>s src. clean filled_map \<and> ck_reach False filled_map s \<and> sy_acked s = (10, [664]) \<and>
     ws_open None None None None (\<lambda>n off. Inr off) \<lparr>fi_map = sy_disk s, fi_size = 700416\<rparr> = Inr src \<and>
     ck_open (ws_open None None None None (\<lambda>n off. Inr off)) (\<lambda>_ _. None) \<lparr>fi_map = sy_disk s, fi_size = 700416\<rparr> =
       Inl (werr StoreDirectoryInconsistent 0) \<and>
     root_at (sy_disk s) SlotA = \<lparr>wr_generation = 1, wr_index = 10\<rparr> \<and> marks SlotA (sy_disk s) = [664] \<and>
     (\<exists>src'. adopt_snapshot (\<lambda>_ _. None) SlotA src = (src', Inr ()))"
proof -
  obtain s where s: "ck_run ([Touch (sample_dir 167) 167] @ commit_actions 20 665 @ [WriteBackRoots, WriteBackSnapshot SlotB]) (session_start filled_map) = Some s"
      "sy_acked s = (10, [664])" "sy_disk s = half_written" using half_written_run by blast
  have r: "ck_reach False filled_map s"
    by (rule ck_run_reach [OF ck_reach.start [OF filled_clean(2)] s(1)]) (simp add: commit_actions_def)
  obtain src where src: "ws_open None None None None (\<lambda>n off. Inr off) \<lparr>fi_map = half_written, fi_size = 700416\<rparr> = Inr src"
      "ws_map src = half_written" "length (ws_store_reopened src) = 1" "length (ws_store_reopened src ! 0) = 166"
    using half_written_source by blast
  obtain q where q: "ws_store_reopened src = [q]" "length q = 166" using src(3,4) by (cases "ws_store_reopened src") auto
  have rows: "sn_rows (hm_snap half_written SlotA) = [sample_row 664]" "sn_rows (hm_snap half_written SlotB) = [sample_row 665]"
    by (simp_all add: half_written_def)
  have a: "\<exists>src'. adopt_snapshot (\<lambda>_ _. None) SlotA src = (src', Inr ())"
    by (simp add: adopt_snapshot_def Let_def src(2) q rows sample_rows_error)
  have b: "\<exists>src'. adopt_snapshot (\<lambda>_ _. None) SlotB src = (src', Inl (werr StoreDirectoryInconsistent 0))"
    by (simp add: adopt_snapshot_def Let_def src(2) q rows sample_rows_error)
  then have o: "ck_open (ws_open None None None None (\<lambda>n off. Inr off)) (\<lambda>_ _. None) \<lparr>fi_map = half_written, fi_size = 700416\<rparr> =
      Inl (werr StoreDirectoryInconsistent 0)"
    by (auto simp: ck_open_def src half_written_selects Let_def)
  have "root_at half_written SlotA = \<lparr>wr_generation = 1, wr_index = 10\<rparr>" "marks SlotA half_written = [664]"
    by (simp_all add: root_at_def marks_def half_written_def sample_row_def)
  then show ?thesis using filled_clean(1) r s(2,3) src(1) a o by (intro exI [of _ s] exI [of _ src]) simp
qed

subsection \<open>The table's identity is read from one snapshot\<close>

text \<open>A file committed once, before it had any store.\<close>

definition storeless_map :: header_map where
  "storeless_map =
     \<lparr>hm_header = fresh_header 4096 4 12288 4096 1,
      hm_root = (\<lambda>_. 0)(SlotA := encode_root \<lparr>wr_generation = 1, wr_index = 10\<rparr>),
      hm_dir = [zero_entry, zero_entry, zero_entry, zero_entry],
      hm_snap = (\<lambda>_. \<lparr>sn_generation = 0, sn_rows = [unused_row]\<rparr>)(SlotA := \<lparr>sn_generation = 1, sn_rows = [unused_row]\<rparr>)\<rparr>"

definition chunk_pair :: "nat \<Rightarrow> chunk_entry list" where
  "chunk_pair st =
     [\<lparr>ce_offset = 12288, ce_size = 4096, ce_state = st, ce_owner = 0\<rparr>, \<lparr>ce_offset = 16384, ce_size = 4096, ce_state = st, ce_owner = 0\<rparr>,
      zero_entry, zero_entry]"

text \<open>The disk after a second commit, with a store, of which all but snapshot A's page was written.\<close>

definition identity_torn :: header_map where
  "identity_torn =
     \<lparr>hm_header = (fresh_header 4096 4 12288 4096 1)\<lparr>wh_chunk_count := 2\<rparr>,
      hm_root = (\<lambda>_. 0)(SlotA := encode_root \<lparr>wr_generation = 1, wr_index = 10\<rparr>, SlotB := encode_root \<lparr>wr_generation = 2, wr_index = 20\<rparr>),
      hm_dir = chunk_pair chunk_live,
      hm_snap = (\<lambda>_. \<lparr>sn_generation = 0, sn_rows = [unused_row]\<rparr>)(SlotA := \<lparr>sn_generation = 1, sn_rows = [unused_row]\<rparr>,
        SlotB := \<lparr>sn_generation = 2, sn_rows = [sample_row 5]\<rparr>)\<rparr>"

lemma storeless_clean: "clean storeless_map" "rs_eligible (select_root storeless_map)"
  by (simp_all add: clean_def ck_eval storeless_map_def older_def)

lemma identity_torn_run:
  "\<exists>s. ck_run ([Touch (chunk_pair chunk_live) 2, Bind 0 1024 16 4] @ commit_actions 20 5 @
       [WriteBackRoots, WriteBackSnapshot SlotB, WriteBackEntry 0, WriteBackEntry 1]) (session_start storeless_map) = Some s \<and>
     sy_acked s = (10, [0]) \<and> sy_flight s = Some (20, [5]) \<and> sy_disk s = identity_torn"
  by (simp add: ck_eval storeless_map_def identity_torn_def sample_row_def chunk_pair_def identity_stamp_def unused_row_def)

lemma identity_torn_open:
  "\<exists>src. ws_open None None None None (\<lambda>n off. Inr off) \<lparr>fi_map = identity_torn, fi_size = 20480\<rparr> = Inr src \<and>
     ws_map src = identity_torn \<and> ws_max_stores src = 1 \<and> ws_from_file src \<and>
     ws_store_reopened src = [[(12288, \<lparr>lc_offset = 12288, lc_size = 4096, lc_index = 0\<rparr>), (16384, \<lparr>lc_offset = 16384, lc_size = 4096, lc_index = 1\<rparr>)]]"
  by (simp add: ws_open_def check_header_def identity_torn_def fresh_header_def geometry_ok_iff layout_ok_def unat_page_or sizeof_defs snapshot_bytes_def
    reopened_source_def init_store_directory_def source_new_def Let_def chunk_pair_def zero_entry_def chunk_live_def chunk_free_def no_owner_def)

lemma identity_torn_adopt:
  assumes "ws_map src = identity_torn" "ws_max_stores src = 1" "ws_from_file src"
    "ws_store_reopened src = [[(12288, \<lparr>lc_offset = 12288, lc_size = 4096, lc_index = 0\<rparr>), (16384, \<lparr>lc_offset = 16384, lc_size = 4096, lc_index = 1\<rparr>)]]"
  shows "\<exists>src' src''. adopt_snapshot (\<lambda>_ _. None) SlotB src = (src', Inr ()) \<and> ws_map src' = identity_torn \<and> ws_store_reopened src' = ws_store_reopened src \<and>
     store_view 1024 16 4 src' = (src'', Inr 0) \<and>
     ws_map src'' = identity_torn\<lparr>hm_snap := (hm_snap identity_torn)(SlotA := \<lparr>sn_generation = 1, sn_rows = [sample_row 0]\<rparr>,
        SlotB := \<lparr>sn_generation = 2, sn_rows = [sample_row 0]\<rparr>)\<rparr>"
proof -
  have rows: "hm_snap identity_torn SlotA = \<lparr>sn_generation = 1, sn_rows = [unused_row]\<rparr>"
    "hm_snap identity_torn SlotB = \<lparr>sn_generation = 2, sn_rows = [sample_row 5]\<rparr>"
    by (simp_all add: identity_torn_def)
  have need: "needed_chunks (sample_row 5) = 2" by (simp add: needed_chunks_def sample_row_def)
  have e: "row_error (sample_row 5) 2 = None"
    by (simp add: row_error_def need) (simp add: sample_row_def max_align_def word_less_nat_alt)
  have "adopt_snapshot (\<lambda>_ _. None) SlotB src = (src\<lparr>ws_restored := [sample_row 5], ws_adopted := True\<rparr>, Inr ())"
    using e assms by (simp add: adopt_snapshot_def Let_def rows numeral_2_eq_2 trim_queue_def need)
  moreover have "store_view 1024 16 4 (src\<lparr>ws_restored := [sample_row 5], ws_adopted := True\<rparr>) =
      (src\<lparr>ws_adopted := True, ws_map := identity_torn\<lparr>hm_snap := (hm_snap identity_torn)(SlotA := \<lparr>sn_generation = 1, sn_rows = [sample_row 0]\<rparr>,
        SlotB := \<lparr>sn_generation = 2, sn_rows = [sample_row 0]\<rparr>)\<rparr>, ws_restored := [sample_row 0], ws_views := (ws_views src)[0 := True]\<rparr>, Inr 0)"
    using assms rows by (simp add: store_view_def unused_row_def sample_row_def map_row_def Let_def)
  ultimately show ?thesis using assms(1) by simp
qed

definition zeroed_map :: header_map where
  "zeroed_map = identity_torn\<lparr>hm_snap := (hm_snap identity_torn)(SlotA := \<lparr>sn_generation = 1, sn_rows = [sample_row 0]\<rparr>,
     SlotB := \<lparr>sn_generation = 2, sn_rows = [sample_row 0]\<rparr>)\<rparr>"

lemma torn_open: "select_root identity_torn = \<lparr>rs_slot = SlotB, rs_root = \<lparr>wr_generation = 2, wr_index = 20\<rparr>, rs_eligible = True\<rparr>"
  "select_root zeroed_map = \<lparr>rs_slot = SlotB, rs_root = \<lparr>wr_generation = 2, wr_index = 20\<rparr>, rs_eligible = True\<rparr>"
  "marks SlotB identity_torn = [5]" "marks SlotB zeroed_map = [0]"
  by (simp_all add: ck_eval identity_torn_def zeroed_map_def sample_row_def)

lemma zeroed_open:
  "\<exists>src. ws_open None None None None (\<lambda>n off. Inr off) \<lparr>fi_map = zeroed_map, fi_size = 20480\<rparr> = Inr src \<and>
     ws_map src = zeroed_map \<and> ws_max_stores src = 1 \<and> ws_punched src = [] \<and>
     ws_store_reopened src = [[(12288, \<lparr>lc_offset = 12288, lc_size = 4096, lc_index = 0\<rparr>), (16384, \<lparr>lc_offset = 16384, lc_size = 4096, lc_index = 1\<rparr>)]]"
  by (simp add: ws_open_def check_header_def zeroed_map_def identity_torn_def fresh_header_def geometry_ok_iff layout_ok_def unat_page_or sizeof_defs snapshot_bytes_def
    reopened_source_def init_store_directory_def source_new_def Let_def chunk_pair_def zero_entry_def chunk_live_def chunk_free_def no_owner_def)

lemma zeroed_adopt:
  assumes "ws_map src = zeroed_map" "ws_max_stores src = 1" "ws_punched src = []"
    "ws_store_reopened src = [[(12288, \<lparr>lc_offset = 12288, lc_size = 4096, lc_index = 0\<rparr>), (16384, \<lparr>lc_offset = 16384, lc_size = 4096, lc_index = 1\<rparr>)]]"
  shows "\<exists>src'. adopt_snapshot (\<lambda>_ _. None) SlotB src = (src', Inr ()) \<and> ws_store_reopened src' = [[]] \<and> ws_punched src' = [(12288, 4096), (16384, 4096)]"
proof -
  have rows: "hm_snap zeroed_map SlotB = \<lparr>sn_generation = 2, sn_rows = [sample_row 0]\<rparr>" by (simp add: zeroed_map_def)
  have need: "needed_chunks (sample_row 0) = 0" by (simp add: needed_chunks_def sample_row_def)
  have "row_error (sample_row 0) 2 = None"
    by (simp add: row_error_def need) (simp add: sample_row_def max_align_def word_less_nat_alt)
  then show ?thesis using assms
    by (simp add: adopt_snapshot_def Let_def rows numeral_2_eq_2 trim_queue_def need discard_reopened_def punch_now_def)
qed

text \<open>
  Binding a store reads the table of snapshot A alone. If the crash let everything of a commit
  through but snapshot A's page, which held no row for a store bound since, the commit is recovered
  from snapshot B; but binding its store again, which every reopen does, finds no row in A and
  writes a fresh one into both snapshots, with a high-water mark of zero into the one the durable
  root owns and is stamped for. A second crash before the next commit recovers that root with no
  slot of the store, and punches every chunk its records live in.
\<close>

theorem rebinding_zeroes_the_durable_marks:
  "\<exists>s os src os'. clean storeless_map \<and> ck_reach False storeless_map s \<and> sy_flight s = Some (20, [5]) \<and>
     ck_open (ws_open None None None None (\<lambda>n off. Inr off)) (\<lambda>_ _. None) \<lparr>fi_map = sy_disk s, fi_size = 20480\<rparr> = Inr os \<and>
     os_generation os = 2 \<and> os_root_index os = 20 \<and> map length (ws_store_reopened (os_source os)) = [2] \<and>
     store_view 1024 16 4 (os_source os) = (src, Inr 0) \<and>
     recover (sy_disk s) = Some (2, 20, [5]) \<and> recover (ws_map src) = Some (2, 20, [0]) \<and>
     ck_open (ws_open None None None None (\<lambda>n off. Inr off)) (\<lambda>_ _. None) \<lparr>fi_map = ws_map src, fi_size = 20480\<rparr> = Inr os' \<and>
     os_generation os' = 2 \<and> os_root_index os' = 20 \<and> map length (ws_store_reopened (os_source os')) = [0] \<and>
     ws_punched (os_source os') = [(12288, 4096), (16384, 4096)]"
proof -
  obtain s where s: "ck_run ([Touch (chunk_pair chunk_live) 2, Bind 0 1024 16 4] @ commit_actions 20 5 @
       [WriteBackRoots, WriteBackSnapshot SlotB, WriteBackEntry 0, WriteBackEntry 1]) (session_start storeless_map) = Some s"
     "sy_flight s = Some (20, [5])" "sy_disk s = identity_torn" using identity_torn_run by blast
  have r: "ck_reach False storeless_map s"
    by (rule ck_run_reach [OF ck_reach.start [OF storeless_clean(2)] s(1)]) (simp add: commit_actions_def)
  obtain a where a: "ws_open None None None None (\<lambda>n off. Inr off) \<lparr>fi_map = identity_torn, fi_size = 20480\<rparr> = Inr a"
     "ws_map a = identity_torn" "ws_max_stores a = 1" "ws_from_file a"
     "ws_store_reopened a = [[(12288, \<lparr>lc_offset = 12288, lc_size = 4096, lc_index = 0\<rparr>), (16384, \<lparr>lc_offset = 16384, lc_size = 4096, lc_index = 1\<rparr>)]]"
    using identity_torn_open by blast
  obtain b c where b: "adopt_snapshot (\<lambda>_ _. None) SlotB a = (b, Inr ())" "ws_store_reopened b = ws_store_reopened a"
     "store_view 1024 16 4 b = (c, Inr 0)" "ws_map c = zeroed_map"
    using identity_torn_adopt [OF a(2-5)] unfolding zeroed_map_def by blast
  obtain d where d: "ws_open None None None None (\<lambda>n off. Inr off) \<lparr>fi_map = zeroed_map, fi_size = 20480\<rparr> = Inr d"
     "ws_map d = zeroed_map" "ws_max_stores d = 1" "ws_punched d = []"
     "ws_store_reopened d = [[(12288, \<lparr>lc_offset = 12288, lc_size = 4096, lc_index = 0\<rparr>), (16384, \<lparr>lc_offset = 16384, lc_size = 4096, lc_index = 1\<rparr>)]]"
    using zeroed_open by blast
  obtain e where e: "adopt_snapshot (\<lambda>_ _. None) SlotB d = (e, Inr ())" "ws_store_reopened e = [[]]" "ws_punched e = [(12288, 4096), (16384, 4096)]"
    using zeroed_adopt [OF d(2-5)] by blast
  let ?open = "ck_open (ws_open None None None None (\<lambda>n off. Inr off)) (\<lambda>_ _. None)"
  let ?os = "\<lambda>src. \<lparr>os_source = src, os_root_index = 20, os_generation = 2, os_valid = True\<rparr>"
  have o: "?open \<lparr>fi_map = identity_torn, fi_size = 20480\<rparr> = Inr (?os b)" "?open \<lparr>fi_map = zeroed_map, fi_size = 20480\<rparr> = Inr (?os e)"
    using a b d e by (simp_all add: ck_open_def Let_def torn_open)
  have rec: "recover identity_torn = Some (2, 20, [5])" "recover zeroed_map = Some (2, 20, [0])"
    by (simp_all add: recover_def torn_open Let_def)
  show ?thesis
    by (intro exI [of _ s] exI [of _ "?os b"] exI [of _ c] exI [of _ "?os e"])
       (use storeless_clean(1) r s o rec a(5) b e in simp)
qed

end
