(* ===== verification/Worker_Pool.thy ===== *)
theory Worker_Pool
  imports Prelude "HOL-Library.AList" "HOL-Library.Multiset"
begin

text \<open>
  \<open>runtime/worker_pool.hpp\<close> and \<open>runtime/worker_pool.cpp\<close>: the worker threads, their two queues, the
  per-content serialization gate and the per-owner drain. Each critical section of the mutex and each
  atomic counter update is one function on the pool; a thread is the program point it is at, and a run
  interleaves the threads' steps freely. Contents and owners are numbers; what a render does is left
  open, except whether its completion is settled when it returns.
\<close>

subsection \<open>State\<close>

record render_task =
  rt_content :: nat
  rt_owner :: nat

record serial_state =
  sr_active :: bool
  sr_rendering :: nat
  sr_parked :: "render_task list"

text \<open>A queued work job is its owner. The serial map is an association list in the map's order.\<close>

record pool =
  wp_ready :: "render_task list"
  wp_work :: "nat list"
  wp_serial :: "(nat \<times> serial_state) list"
  wp_outstanding :: "nat \<rightharpoonup> nat"
  wp_stop :: bool
  wp_settle_gen :: nat
  wp_submitted :: nat
  wp_completed :: nat
  wp_dropped :: nat
  wp_max_in_flight :: nat

definition pool_new :: pool where
  "pool_new = \<lparr>wp_ready = [], wp_work = [], wp_serial = [], wp_outstanding = Map.empty, wp_stop = False,
     wp_settle_gen = 0, wp_submitted = 0, wp_completed = 0, wp_dropped = 0, wp_max_in_flight = 0\<rparr>"

definition fresh_serial :: serial_state where
  "fresh_serial = \<lparr>sr_active = False, sr_rendering = 0, sr_parked = []\<rparr>"

text \<open>\<open>d_serial[content]\<close>: the entry, made on first use.\<close>

definition serial_of :: "pool \<Rightarrow> nat \<Rightarrow> serial_state" where
  "serial_of p c = (case map_of (wp_serial p) c of None \<Rightarrow> fresh_serial | Some s \<Rightarrow> s)"

definition set_serial :: "nat \<Rightarrow> serial_state \<Rightarrow> pool \<Rightarrow> pool" where
  "set_serial c s p = p\<lparr>wp_serial := AList.update c s (wp_serial p)\<rparr>"

definition erase_serial :: "nat \<Rightarrow> pool \<Rightarrow> pool" where
  "erase_serial c p = p\<lparr>wp_serial := AList.delete c (wp_serial p)\<rparr>"

subsection \<open>Operations\<close>

definition claim_outstanding :: "nat \<Rightarrow> pool \<Rightarrow> pool" where
  "claim_outstanding ow p =
     p\<lparr>wp_outstanding := (wp_outstanding p)(ow \<mapsto> (case wp_outstanding p ow of None \<Rightarrow> 0 | Some n \<Rightarrow> n) + 1)\<rparr>"

definition release_outstanding :: "nat \<Rightarrow> pool \<Rightarrow> pool" where
  "release_outstanding ow p =
     (case wp_outstanding p ow of
        None \<Rightarrow> p
      | Some n \<Rightarrow> p\<lparr>wp_outstanding := (wp_outstanding p)(ow := if n - 1 = 0 then None else Some (n - 1))\<rparr>)"

text \<open>\<open>drop_queued\<close> and \<open>drop_queued_work\<close>, which differ in the task's type only.\<close>

definition drop_queued :: "nat \<Rightarrow> pool \<Rightarrow> pool" where
  "drop_queued ow p = release_outstanding ow (p\<lparr>wp_dropped := wp_dropped p + 1\<rparr>)"

definition drop_all :: "nat list \<Rightarrow> pool \<Rightarrow> pool" where
  "drop_all os p = fold drop_queued os p"

definition parked_all :: "pool \<Rightarrow> render_task list" where
  "parked_all p = concat (map (sr_parked \<circ> snd) (wp_serial p))"

definition abandon_queued :: "pool \<Rightarrow> pool" where
  "abandon_queued p =
     drop_all (map rt_owner (wp_ready p) @ map rt_owner (parked_all p) @ wp_work p)
       (p\<lparr>wp_ready := [], wp_work := [], wp_serial := map (\<lambda>(c, s). (c, s\<lparr>sr_parked := []\<rparr>)) (wp_serial p)\<rparr>)"

definition poke :: "pool \<Rightarrow> pool" where
  "poke p = p\<lparr>wp_settle_gen := wp_settle_gen p + 1\<rparr>"

definition request_stop :: "pool \<Rightarrow> pool" where
  "request_stop p = p\<lparr>wp_stop := True\<rparr>"

text \<open>\<open>wait_completions\<close> once it returns: whether anything settled since the cursor, and the cursor.\<close>

definition wait_completions :: "nat \<Rightarrow> pool \<Rightarrow> bool \<times> nat" where
  "wait_completions cursor p = (wp_settle_gen p \<noteq> cursor, wp_settle_gen p)"

text \<open>The critical sections of \<open>drain_owner\<close>, in order.\<close>

definition purge_parked :: "nat \<Rightarrow> pool \<Rightarrow> pool" where
  "purge_parked ow p =
     drop_all (map rt_owner (filter (\<lambda>t. rt_owner t = ow) (parked_all p)))
       (p\<lparr>wp_serial := map (\<lambda>(c, s). (c, s\<lparr>sr_parked := filter (\<lambda>t. rt_owner t \<noteq> ow) (sr_parked s)\<rparr>)) (wp_serial p)\<rparr>)"

definition orphaned_gates :: "nat \<Rightarrow> pool \<Rightarrow> nat list" where
  "orphaned_gates ow p =
     map rt_content (filter (\<lambda>t. rt_owner t = ow \<and> rt_content t \<in> fst ` set (wp_serial p)) (wp_ready p))"

definition purge_ready :: "nat \<Rightarrow> pool \<Rightarrow> pool" where
  "purge_ready ow p =
     drop_all (map rt_owner (filter (\<lambda>t. rt_owner t = ow) (wp_ready p)))
       (p\<lparr>wp_ready := filter (\<lambda>t. rt_owner t \<noteq> ow) (wp_ready p)\<rparr>)"

definition hand_on :: "nat \<Rightarrow> pool \<Rightarrow> pool" where
  "hand_on c p =
     (case map_of (wp_serial p) c of
        None \<Rightarrow> p
      | Some s \<Rightarrow>
          (case sr_parked s of
             t # ts \<Rightarrow> set_serial c (s\<lparr>sr_parked := ts\<rparr>) (p\<lparr>wp_ready := wp_ready p @ [t]\<rparr>)
           | [] \<Rightarrow> erase_serial c p))"

definition purge_work :: "nat \<Rightarrow> pool \<Rightarrow> pool" where
  "purge_work ow p =
     drop_all (filter (\<lambda>x. x = ow) (wp_work p)) (p\<lparr>wp_work := filter (\<lambda>x. x \<noteq> ow) (wp_work p)\<rparr>)"

definition purge_owner :: "nat \<Rightarrow> pool \<Rightarrow> pool" where
  "purge_owner ow p =
     (let p = purge_parked ow p; gates = orphaned_gates ow p
      in purge_work ow (fold hand_on gates (purge_ready ow p)))"

text \<open>The two critical sections of \<open>submit\<close> and \<open>submit_work\<close>.\<close>

definition admit :: "nat \<Rightarrow> pool \<Rightarrow> pool option" where
  "admit ow p = (if wp_stop p then None else Some (claim_outstanding ow (p\<lparr>wp_submitted := wp_submitted p + 1\<rparr>)))"

definition enqueue :: "(nat \<Rightarrow> bool) \<Rightarrow> render_task \<Rightarrow> pool \<Rightarrow> pool" where
  "enqueue serialize t p =
     (let c = rt_content t; s = serial_of p c
      in if serialize c
         then if sr_active s then set_serial c (s\<lparr>sr_parked := sr_parked s @ [t]\<rparr>) p
              else (set_serial c (s\<lparr>sr_active := True\<rparr>) p)\<lparr>wp_ready := wp_ready p @ [t]\<rparr>
         else p\<lparr>wp_ready := wp_ready p @ [t]\<rparr>)"

text \<open>The gate of \<open>submit_inline\<close>: parked, or to be run by the caller.\<close>

definition inline_gate :: "(nat \<Rightarrow> bool) \<Rightarrow> render_task \<Rightarrow> pool \<Rightarrow> pool \<times> bool" where
  "inline_gate serialize t p =
     (let c = rt_content t; s = serial_of p c
      in if serialize c
         then if sr_active s then (set_serial c (s\<lparr>sr_parked := sr_parked s @ [t]\<rparr>) p, False)
              else (set_serial c (s\<lparr>sr_active := True\<rparr>) p, True)
         else (p, True))"

definition begin_render :: "(nat \<Rightarrow> bool) \<Rightarrow> render_task \<Rightarrow> pool \<Rightarrow> pool" where
  "begin_render serialize t p =
     (let c = rt_content t; s = serial_of p c; n = sr_rendering s + 1
      in if serialize c
         then (set_serial c (s\<lparr>sr_rendering := n\<rparr>) p)\<lparr>wp_max_in_flight := max (wp_max_in_flight p) n\<rparr> else p)"

definition count_completed :: "pool \<Rightarrow> pool" where
  "count_completed p = p\<lparr>wp_completed := wp_completed p + 1\<rparr>"

text \<open>After a serialized render: the worker hands the gate on through the queue, the inline caller keeps it.\<close>

definition finish_worker :: "nat \<Rightarrow> pool \<Rightarrow> pool" where
  "finish_worker c p =
     (let s = serial_of p c; s = s\<lparr>sr_rendering := sr_rendering s - 1\<rparr>
      in case sr_parked s of
        t # ts \<Rightarrow> (set_serial c (s\<lparr>sr_parked := ts\<rparr>) p)\<lparr>wp_ready := wp_ready p @ [t]\<rparr>
      | [] \<Rightarrow> erase_serial c p)"

definition finish_inline :: "nat \<Rightarrow> pool \<Rightarrow> pool \<times> render_task option" where
  "finish_inline c p =
     (let s = serial_of p c; s = s\<lparr>sr_rendering := sr_rendering s - 1\<rparr>
      in case sr_parked s of
        t # ts \<Rightarrow> (set_serial c (s\<lparr>sr_parked := ts\<rparr>) p, Some t)
      | [] \<Rightarrow> (erase_serial c p, None))"

subsection \<open>Threads\<close>

text \<open>
  A worker waits, holds a task or a job at some point of \<open>run_task\<close> or \<open>run_work_task\<close>, or has exited; a
  caller of the pool is between the critical sections of the call it makes. The flag of a running
  task says that it runs inline on its submitter.
\<close>

datatype thread =
    Waiting | Exited | Done
  | Submitting render_task | Enqueueing render_task | SubmittingWork nat | EnqueueingWork nat
  | Took bool render_task | Rendering bool render_task | Settled bool render_task | Poking bool render_task
  | Releasing bool render_task | Finishing bool nat
  | Job bool nat | JobSettled bool nat | JobPoking bool nat | JobReleasing bool nat
  | Draining nat | DrainWait nat | Drained nat

definition after :: "bool \<Rightarrow> thread" where
  "after inl = (if inl then Done else Waiting)"

definition take_work :: "pool \<Rightarrow> (pool \<times> thread) option" where
  "take_work p =
     (if wp_stop p then Some (abandon_queued p, Exited)
      else case (wp_ready p, wp_work p) of
        ([], []) \<Rightarrow> None
      | ([], ow # ws) \<Rightarrow> Some (p\<lparr>wp_work := ws\<rparr>, Job False ow)
      | (t # ts, _) \<Rightarrow> Some (p\<lparr>wp_ready := ts\<rparr>, Took False t))"

text \<open>
  One step of a thread: \<open>workers\<close> is the configured count, \<open>settled\<close> whether the completion is settled
  when the render returns. \<open>None\<close> is a thread that waits or is done.
\<close>

definition thread_step :: "(nat \<Rightarrow> bool) \<Rightarrow> nat \<Rightarrow> bool \<Rightarrow> pool \<Rightarrow> thread \<Rightarrow> (pool \<times> thread) option" where
  "thread_step serialize workers settled p th =
     (case th of
        Waiting \<Rightarrow> take_work p
      | Submitting t \<Rightarrow> (case admit (rt_owner t) p of None \<Rightarrow> Some (p, Done) | Some p \<Rightarrow> Some (p, Enqueueing t))
      | Enqueueing t \<Rightarrow>
          if workers = 0
          then (case inline_gate serialize t p of (p, True) \<Rightarrow> Some (p, Took True t) | (p, False) \<Rightarrow> Some (p, Done))
          else Some (enqueue serialize t p, Done)
      | SubmittingWork ow \<Rightarrow> (case admit ow p of None \<Rightarrow> Some (p, Done) | Some p \<Rightarrow> Some (p, EnqueueingWork ow))
      | EnqueueingWork ow \<Rightarrow> if workers = 0 then Some (p, Job True ow) else Some (p\<lparr>wp_work := wp_work p @ [ow]\<rparr>, Done)
      | Took inl t \<Rightarrow> Some (begin_render serialize t p, Rendering inl t)
      | Rendering inl t \<Rightarrow> Some (p, if settled then Settled inl t else Releasing inl t)
      | Settled inl t \<Rightarrow> Some (count_completed p, Poking inl t)
      | Poking inl t \<Rightarrow> Some (poke p, Releasing inl t)
      | Releasing inl t \<Rightarrow>
          Some (release_outstanding (rt_owner t) p, if serialize (rt_content t) then Finishing inl (rt_content t) else after inl)
      | Finishing inl c \<Rightarrow>
          if inl then (case finish_inline c p of (p, Some t) \<Rightarrow> Some (p, Took True t) | (p, None) \<Rightarrow> Some (p, Done))
          else Some (finish_worker c p, Waiting)
      | Job inl ow \<Rightarrow> Some (p, JobSettled inl ow)
      | JobSettled inl ow \<Rightarrow> Some (count_completed p, JobPoking inl ow)
      | JobPoking inl ow \<Rightarrow> Some (poke p, JobReleasing inl ow)
      | JobReleasing inl ow \<Rightarrow> Some (release_outstanding ow p, after inl)
      | Draining ow \<Rightarrow> Some (purge_owner ow p, DrainWait ow)
      | DrainWait ow \<Rightarrow> if wp_outstanding p ow = None then Some (p, Drained ow) else None
      | _ \<Rightarrow> None)"

text \<open>
  The pool with its threads. \<open>ps_async\<close> counts the renders that returned before their completion was
  settled; the pool itself does not.
\<close>

record pool_sys =
  ps_pool :: pool
  ps_threads :: "thread list"
  ps_async :: nat

definition caller :: "thread \<Rightarrow> bool" where
  "caller th = (case th of Submitting t \<Rightarrow> True | SubmittingWork ow \<Rightarrow> True | Draining ow \<Rightarrow> True | _ \<Rightarrow> False)"

definition async_of :: "bool \<Rightarrow> thread \<Rightarrow> nat" where
  "async_of settled th = (case th of Rendering inl t \<Rightarrow> if settled then 0 else 1 | _ \<Rightarrow> 0)"

inductive pool_run :: "(nat \<Rightarrow> bool) \<Rightarrow> nat \<Rightarrow> pool_sys \<Rightarrow> bool" for serialize workers where
  start: "pool_run serialize workers \<lparr>ps_pool = pool_new, ps_threads = replicate workers Waiting, ps_async = 0\<rparr>"
| thread: "pool_run serialize workers s \<Longrightarrow> i < length (ps_threads s) \<Longrightarrow>
    thread_step serialize workers settled (ps_pool s) (ps_threads s ! i) = Some (p, th) \<Longrightarrow>
    pool_run serialize workers (s\<lparr>ps_pool := p, ps_threads := (ps_threads s)[i := th],
      ps_async := ps_async s + async_of settled (ps_threads s ! i)\<rparr>)"
| call: "pool_run serialize workers s \<Longrightarrow> caller th \<Longrightarrow>
    pool_run serialize workers (s\<lparr>ps_threads := ps_threads s @ [th]\<rparr>)"
| poke: "pool_run serialize workers s \<Longrightarrow> pool_run serialize workers (s\<lparr>ps_pool := poke (ps_pool s)\<rparr>)"
| stop: "pool_run serialize workers s \<Longrightarrow> pool_run serialize workers (s\<lparr>ps_pool := request_stop (ps_pool s)\<rparr>)"

subsection \<open>Counting\<close>

definition outstanding :: "pool \<Rightarrow> nat \<Rightarrow> nat" where
  "outstanding p ow = (case wp_outstanding p ow of None \<Rightarrow> 0 | Some n \<Rightarrow> n)"

definition queued :: "pool \<Rightarrow> nat multiset" where
  "queued p = mset (map rt_owner (wp_ready p)) + mset (map rt_owner (parked_all p)) + mset (wp_work p)"

definition out_inv :: "pool \<Rightarrow> (nat \<Rightarrow> nat) \<Rightarrow> bool" where
  "out_inv p own \<longleftrightarrow> (\<forall>ow. wp_outstanding p ow \<noteq> Some 0) \<and> (\<forall>ow. outstanding p ow = count (queued p) ow + own ow)"

definition ledger_inv :: "pool \<Rightarrow> nat \<Rightarrow> bool" where
  "ledger_inv p pend \<longleftrightarrow> wp_submitted p = wp_completed p + wp_dropped p + size (queued p) + pend"

definition keys_inv :: "pool \<Rightarrow> bool" where
  "keys_inv p \<longleftrightarrow> distinct (map fst (wp_serial p))"

definition admitted :: "pool \<Rightarrow> nat \<Rightarrow> nat" where
  "admitted p c = length (filter (\<lambda>t. rt_content t = c) (wp_ready p))"

text \<open>The gate of one content, \<open>adm\<close> the admitted tasks (queued or held by a thread).\<close>

definition gate_of :: "(nat \<Rightarrow> bool) \<Rightarrow> bool \<Rightarrow> serial_state option \<Rightarrow> nat \<Rightarrow> nat \<Rightarrow> nat \<Rightarrow> bool" where
  "gate_of serialize stopped e c adm ren \<longleftrightarrow>
     (case e of
        None \<Rightarrow> serialize c \<longrightarrow> adm = 0 \<and> ren = 0
      | Some s \<Rightarrow> serialize c \<and> sr_active s \<and> adm \<le> 1 \<and> (\<not> stopped \<longrightarrow> adm = 1) \<and> sr_rendering s = ren \<and> ren \<le> adm
          \<and> (\<forall>t \<in> set (sr_parked s). rt_content t = c))"

definition gate_inv :: "(nat \<Rightarrow> bool) \<Rightarrow> pool \<Rightarrow> (nat \<Rightarrow> nat) \<Rightarrow> (nat \<Rightarrow> nat) \<Rightarrow> bool" where
  "gate_inv serialize p adm ren \<longleftrightarrow>
     (\<forall>c. gate_of serialize (wp_stop p) (map_of (wp_serial p) c) c (admitted p c + adm c) (ren c))"

lemma mset_parked_update:
  "mset (concat (map (sr_parked \<circ> snd) (AList.update c s al))) +
     mset (case map_of al c of None \<Rightarrow> [] | Some s \<Rightarrow> sr_parked s) =
   mset (concat (map (sr_parked \<circ> snd) al)) + mset (sr_parked s)"
  by (induction al) (auto simp: ac_simps)

lemma delete_absent: "c \<notin> set (map fst al) \<Longrightarrow> AList.delete c al = al"
  by (induction al) auto

lemma mset_parked_delete:
  "distinct (map fst al) \<Longrightarrow>
   mset (concat (map (sr_parked \<circ> snd) (AList.delete c al))) +
     mset (case map_of al c of None \<Rightarrow> [] | Some s \<Rightarrow> sr_parked s) =
   mset (concat (map (sr_parked \<circ> snd) al))"
proof (induction al)
  case (Cons a al)
  then show ?case by (cases a; cases "fst a = c") (auto simp: ac_simps delete_absent dom_map_of_conv_image_fst
      split: option.splits dest!: map_of_SomeD)
qed simp

lemma parked_set_serial:
  "mset (parked_all (set_serial c s p)) + mset (sr_parked (serial_of p c)) = mset (parked_all p) + mset (sr_parked s)"
  using mset_parked_update [of c s "wp_serial p"]
  by (auto simp: parked_all_def set_serial_def serial_of_def fresh_serial_def split: option.splits)

lemma parked_erase_serial:
  "keys_inv p \<Longrightarrow>
   mset (parked_all (erase_serial c p)) + mset (sr_parked (serial_of p c)) = mset (parked_all p)"
  using mset_parked_delete [of "wp_serial p" c]
  by (cases "map_of (wp_serial p) c")
    (simp_all add: keys_inv_def parked_all_def erase_serial_def serial_of_def fresh_serial_def)

lemma set_serial_fields [simp]:
  "wp_ready (set_serial c s p) = wp_ready p" "wp_work (set_serial c s p) = wp_work p"
  "wp_outstanding (set_serial c s p) = wp_outstanding p" "wp_stop (set_serial c s p) = wp_stop p"
  "wp_submitted (set_serial c s p) = wp_submitted p" "wp_completed (set_serial c s p) = wp_completed p"
  "wp_dropped (set_serial c s p) = wp_dropped p" "wp_max_in_flight (set_serial c s p) = wp_max_in_flight p"
  "map_of (wp_serial (set_serial c s p)) = (map_of (wp_serial p))(c \<mapsto> s)"
  by (simp_all add: set_serial_def update_conv')

lemma erase_serial_fields [simp]:
  "wp_ready (erase_serial c p) = wp_ready p" "wp_work (erase_serial c p) = wp_work p"
  "wp_outstanding (erase_serial c p) = wp_outstanding p" "wp_stop (erase_serial c p) = wp_stop p"
  "wp_submitted (erase_serial c p) = wp_submitted p" "wp_completed (erase_serial c p) = wp_completed p"
  "wp_dropped (erase_serial c p) = wp_dropped p" "wp_max_in_flight (erase_serial c p) = wp_max_in_flight p"
  "map_of (wp_serial (erase_serial c p)) = (map_of (wp_serial p))(c := None)"
  by (simp_all add: erase_serial_def delete_conv')

lemma parked_all_more [simp]:
  "parked_all (p\<lparr>wp_ready := r\<rparr>) = parked_all p" "parked_all (p\<lparr>wp_work := w\<rparr>) = parked_all p"
  "parked_all (p\<lparr>wp_max_in_flight := m\<rparr>) = parked_all p" "parked_all (p\<lparr>wp_outstanding := q\<rparr>) = parked_all p"
  "parked_all (p\<lparr>wp_dropped := m\<rparr>) = parked_all p" "parked_all (p\<lparr>wp_completed := m\<rparr>) = parked_all p"
  "parked_all (p\<lparr>wp_submitted := m\<rparr>) = parked_all p" "parked_all (p\<lparr>wp_settle_gen := m\<rparr>) = parked_all p"
  by (simp_all add: parked_all_def)

lemma serial_of_more [simp]:
  "serial_of (p\<lparr>wp_ready := r\<rparr>) = serial_of p"
  by (simp add: serial_of_def fun_eq_iff)

lemma keys_set_serial [simp]: "keys_inv p \<Longrightarrow> keys_inv (set_serial c s p)"
  by (simp add: keys_inv_def set_serial_def distinct_update)

lemma keys_erase_serial [simp]: "keys_inv p \<Longrightarrow> keys_inv (erase_serial c p)"
  by (simp add: keys_inv_def erase_serial_def distinct_delete)

lemma keys_more [simp]:
  "keys_inv (p\<lparr>wp_ready := r\<rparr>) = keys_inv p" "keys_inv (p\<lparr>wp_work := w\<rparr>) = keys_inv p"
  "keys_inv (p\<lparr>wp_max_in_flight := m\<rparr>) = keys_inv p" "keys_inv (p\<lparr>wp_outstanding := q\<rparr>) = keys_inv p"
  "keys_inv (p\<lparr>wp_dropped := m\<rparr>) = keys_inv p" "keys_inv (p\<lparr>wp_completed := m\<rparr>) = keys_inv p"
  "keys_inv (p\<lparr>wp_submitted := m\<rparr>) = keys_inv p" "keys_inv (p\<lparr>wp_settle_gen := m\<rparr>) = keys_inv p"
  by (simp_all add: keys_inv_def)

lemma serial_of_wp_serial: "wp_serial q = wp_serial p \<Longrightarrow> serial_of q = serial_of p"
  by (simp add: serial_of_def fun_eq_iff)

text \<open>A release drops the count by one; a run of drops by as many as its list has of the owner.\<close>

lemma release_fields [simp]:
  "wp_ready (release_outstanding ow p) = wp_ready p" "wp_work (release_outstanding ow p) = wp_work p"
  "wp_serial (release_outstanding ow p) = wp_serial p" "wp_stop (release_outstanding ow p) = wp_stop p"
  "wp_submitted (release_outstanding ow p) = wp_submitted p" "wp_completed (release_outstanding ow p) = wp_completed p"
  "wp_dropped (release_outstanding ow p) = wp_dropped p" "wp_max_in_flight (release_outstanding ow p) = wp_max_in_flight p"
  by (simp_all add: release_outstanding_def split: option.splits)

lemma outstanding_release:
  "outstanding (release_outstanding ow p) x = outstanding p x - (if x = ow then 1 else 0)"
  by (auto simp: outstanding_def release_outstanding_def split: option.splits)

lemma nonzero_release:
  "\<forall>x. wp_outstanding p x \<noteq> Some 0 \<Longrightarrow> \<forall>x. wp_outstanding (release_outstanding ow p) x \<noteq> Some 0"
  by (auto simp: release_outstanding_def split: option.splits)

lemma drop_all_Nil [simp]: "drop_all [] p = p"
  by (simp add: drop_all_def)

lemma drop_all_Cons: "drop_all (x # xs) p = drop_all xs (release_outstanding x (p\<lparr>wp_dropped := wp_dropped p + 1\<rparr>))"
  by (simp add: drop_all_def drop_queued_def)

lemma drop_all_fields [simp]:
  "wp_ready (drop_all xs p) = wp_ready p \<and> wp_work (drop_all xs p) = wp_work p \<and>
   wp_serial (drop_all xs p) = wp_serial p \<and> wp_stop (drop_all xs p) = wp_stop p \<and>
   wp_submitted (drop_all xs p) = wp_submitted p \<and> wp_completed (drop_all xs p) = wp_completed p \<and>
   wp_dropped (drop_all xs p) = wp_dropped p + length xs \<and> wp_max_in_flight (drop_all xs p) = wp_max_in_flight p"
  by (induction xs arbitrary: p) (simp_all add: drop_all_Cons)

lemmas drop_all_simps [simp] = drop_all_fields [THEN conjunct1]
  drop_all_fields [THEN conjunct2, THEN conjunct1]
  drop_all_fields [THEN conjunct2, THEN conjunct2, THEN conjunct1]
  drop_all_fields [THEN conjunct2, THEN conjunct2, THEN conjunct2, THEN conjunct1]
  drop_all_fields [THEN conjunct2, THEN conjunct2, THEN conjunct2, THEN conjunct2, THEN conjunct1]
  drop_all_fields [THEN conjunct2, THEN conjunct2, THEN conjunct2, THEN conjunct2, THEN conjunct2, THEN conjunct1]
  drop_all_fields [THEN conjunct2, THEN conjunct2, THEN conjunct2, THEN conjunct2, THEN conjunct2, THEN conjunct2, THEN conjunct1]
  drop_all_fields [THEN conjunct2, THEN conjunct2, THEN conjunct2, THEN conjunct2, THEN conjunct2, THEN conjunct2, THEN conjunct2]

lemma drop_all_owner_step:
  "outstanding (p\<lparr>wp_dropped := m\<rparr>) x = outstanding p x"
  by (simp add: outstanding_def)

lemma outstanding_drop_all:
  "outstanding (drop_all xs p) x = outstanding p x - count (mset xs) x"
  by (induction xs arbitrary: p) (auto simp: drop_all_Cons outstanding_release drop_all_owner_step)

lemma nonzero_drop_all:
  "\<forall>x. wp_outstanding p x \<noteq> Some 0 \<Longrightarrow> \<forall>x. wp_outstanding (drop_all xs p) x \<noteq> Some 0"
proof (induction xs arbitrary: p)
  case (Cons a xs)
  have "\<forall>x. wp_outstanding (p\<lparr>wp_dropped := wp_dropped p + 1\<rparr>) x \<noteq> Some 0" using Cons.prems by simp
  then have "\<forall>x. wp_outstanding (release_outstanding a (p\<lparr>wp_dropped := wp_dropped p + 1\<rparr>)) x \<noteq> Some 0"
    by (rule nonzero_release)
  then show ?case unfolding drop_all_Cons by (rule Cons.IH)
qed simp

lemma parked_drop_all [simp]: "parked_all (drop_all xs p) = parked_all p"
  by (simp add: parked_all_def)

lemma queued_drop_all [simp]: "queued (drop_all xs p) = queued p"
  by (simp add: queued_def parked_all_def)

lemma queued_release [simp]: "queued (release_outstanding ow p) = queued p"
  by (simp add: queued_def parked_all_def)

text \<open>Emptying part of the queues and dropping what was in it keeps both accounts.\<close>

lemma out_inv_drop:
  assumes inv: "out_inv p own" and q: "queued q + mset xs = queued p" and o: "wp_outstanding q = wp_outstanding p"
  shows "out_inv (drop_all xs q) own"
proof -
  have nz: "\<forall>x. wp_outstanding q x \<noteq> Some 0" using inv by (simp add: out_inv_def o)
  have "outstanding (drop_all xs q) x = count (queued (drop_all xs q)) x + own x" for x
  proof -
    have "outstanding q x = outstanding p x" by (simp add: outstanding_def o)
    also have "\<dots> = count (queued q + mset xs) x + own x" using inv by (simp add: out_inv_def q)
    finally show ?thesis by (simp add: outstanding_drop_all)
  qed
  then show ?thesis using nonzero_drop_all [OF nz] by (simp add: out_inv_def)
qed

lemma ledger_inv_drop:
  assumes inv: "ledger_inv p pend" and q: "queued q + mset xs = queued p"
    and "wp_submitted q = wp_submitted p" "wp_completed q = wp_completed p" "wp_dropped q = wp_dropped p"
  shows "ledger_inv (drop_all xs q) pend"
proof -
  have "size (queued p) = size (queued q) + length xs" by (simp flip: q)
  then show ?thesis using assms by (simp add: ledger_inv_def)
qed

lemma parked_all_map:
  "concat (map (sr_parked \<circ> snd) (map (\<lambda>(c, s). (c, s\<lparr>sr_parked := filter P (sr_parked s)\<rparr>)) al)) =
   filter P (concat (map (sr_parked \<circ> snd) al))"
  by (induction al) auto

lemma filter_split_mset: "mset (map f (filter P xs)) + mset (map f (filter (\<lambda>x. \<not> P x) xs)) = mset (map f xs)"
  by (induction xs) auto

lemma owner_split_mset:
  "mset (map rt_owner (filter (\<lambda>t. rt_owner t \<noteq> ow) xs)) + mset (map rt_owner (filter (\<lambda>t. rt_owner t = ow) xs)) =
   mset (map rt_owner xs)"
  by (induction xs) auto

lemma purge_parked_accounts:
  assumes "out_inv p own" "ledger_inv p pend"
  shows "out_inv (purge_parked ow p) own" "ledger_inv (purge_parked ow p) pend"
proof -
  let ?q = "p\<lparr>wp_serial := map (\<lambda>(c, s). (c, s\<lparr>sr_parked := filter (\<lambda>t. rt_owner t \<noteq> ow) (sr_parked s)\<rparr>)) (wp_serial p)\<rparr>"
  have pk: "parked_all ?q = filter (\<lambda>t. rt_owner t \<noteq> ow) (parked_all p)"
    unfolding parked_all_def parked_all_map [symmetric] by simp
  have q: "queued ?q + mset (map rt_owner (filter (\<lambda>t. rt_owner t = ow) (parked_all p))) = queued p"
    using owner_split_mset [of ow "parked_all p"] by (simp add: queued_def pk ac_simps)
  show "out_inv (purge_parked ow p) own"
    unfolding purge_parked_def by (rule out_inv_drop [OF assms(1) q]) simp
  show "ledger_inv (purge_parked ow p) pend"
    unfolding purge_parked_def by (rule ledger_inv_drop [OF assms(2) q]) simp_all
qed

lemma purge_ready_accounts:
  assumes "out_inv p own" "ledger_inv p pend"
  shows "out_inv (purge_ready ow p) own" "ledger_inv (purge_ready ow p) pend"
proof -
  let ?q = "p\<lparr>wp_ready := filter (\<lambda>t. rt_owner t \<noteq> ow) (wp_ready p)\<rparr>"
  have q: "queued ?q + mset (map rt_owner (filter (\<lambda>t. rt_owner t = ow) (wp_ready p))) = queued p"
    using owner_split_mset [of ow "wp_ready p"] by (simp add: queued_def ac_simps)
  show "out_inv (purge_ready ow p) own"
    unfolding purge_ready_def by (rule out_inv_drop [OF assms(1) q]) simp
  show "ledger_inv (purge_ready ow p) pend"
    unfolding purge_ready_def by (rule ledger_inv_drop [OF assms(2) q]) simp_all
qed

lemma work_split_mset: "mset (filter (\<lambda>x. x \<noteq> ow) xs) + mset (filter (\<lambda>x. x = ow) xs) = mset xs"
  by (induction xs) auto

lemma purge_work_accounts:
  assumes "out_inv p own" "ledger_inv p pend"
  shows "out_inv (purge_work ow p) own" "ledger_inv (purge_work ow p) pend"
proof -
  let ?q = "p\<lparr>wp_work := filter (\<lambda>x. x \<noteq> ow) (wp_work p)\<rparr>"
  have q: "queued ?q + mset (filter (\<lambda>x. x = ow) (wp_work p)) = queued p"
    using work_split_mset [of ow "wp_work p"] by (simp add: queued_def ac_simps)
  show "out_inv (purge_work ow p) own"
    unfolding purge_work_def by (rule out_inv_drop [OF assms(1) q]) simp
  show "ledger_inv (purge_work ow p) pend"
    unfolding purge_work_def by (rule ledger_inv_drop [OF assms(2) q]) simp_all
qed

lemma abandon_queued_accounts:
  assumes "out_inv p own" "ledger_inv p pend"
  shows "out_inv (abandon_queued p) own" "ledger_inv (abandon_queued p) pend" "queued (abandon_queued p) = {#}"
proof -
  let ?q = "p\<lparr>wp_ready := [], wp_work := [], wp_serial := map (\<lambda>(c, s). (c, s\<lparr>sr_parked := []\<rparr>)) (wp_serial p)\<rparr>"
  have e: "parked_all ?q = []" by (auto simp: parked_all_def)
  have q: "queued ?q + mset (map rt_owner (wp_ready p) @ map rt_owner (parked_all p) @ wp_work p) = queued p"
    by (simp add: queued_def e ac_simps del: parked_all_more)
  show "out_inv (abandon_queued p) own"
    unfolding abandon_queued_def by (rule out_inv_drop [OF assms(1) q]) simp
  show "ledger_inv (abandon_queued p) pend"
    unfolding abandon_queued_def by (rule ledger_inv_drop [OF assms(2) q]) simp_all
  show "queued (abandon_queued p) = {#}" using e by (simp add: abandon_queued_def queued_def del: parked_all_more)
qed

text \<open>Moves between the queues, which keep what is queued.\<close>

lemma queued_set_serial:
  "queued (set_serial c s p) + mset (map rt_owner (sr_parked (serial_of p c))) = queued p + mset (map rt_owner (sr_parked s))"
proof -
  have "image_mset rt_owner (mset (parked_all (set_serial c s p)) + mset (sr_parked (serial_of p c))) =
    image_mset rt_owner (mset (parked_all p) + mset (sr_parked s))" by (simp only: parked_set_serial)
  then show ?thesis by (simp add: queued_def)
qed

lemma queued_erase_serial:
  assumes "keys_inv p"
  shows "queued (erase_serial c p) + mset (map rt_owner (sr_parked (serial_of p c))) = queued p"
proof -
  have "image_mset rt_owner (mset (parked_all (erase_serial c p)) + mset (sr_parked (serial_of p c))) =
    image_mset rt_owner (mset (parked_all p))" by (simp only: parked_erase_serial [OF assms])
  then show ?thesis by (simp add: queued_def)
qed

lemma queued_ready [simp]: "queued (p\<lparr>wp_ready := wp_ready p @ [t]\<rparr>) = add_mset (rt_owner t) (queued p)"
  by (simp add: queued_def)

lemma map_of_serial_of: "map_of (wp_serial p) c = Some s \<Longrightarrow> serial_of p c = s"
  by (simp add: serial_of_def)

lemma queued_pass_on:
  assumes "sr_parked (serial_of p c) = t # ts" "sr_parked s = ts"
  shows "queued ((set_serial c s p)\<lparr>wp_ready := wp_ready p @ [t]\<rparr>) = queued p"
  using queued_set_serial [of c s p] queued_ready [of "set_serial c s p" t] assms by simp

lemma queued_close_gate:
  "keys_inv p \<Longrightarrow> sr_parked (serial_of p c) = [] \<Longrightarrow> queued (erase_serial c p) = queued p"
  using queued_erase_serial [of p c] by simp

lemma queued_park:
  "sr_parked s = sr_parked (serial_of p c) @ [t] \<Longrightarrow> queued (set_serial c s p) = add_mset (rt_owner t) (queued p)"
  using queued_set_serial [of c s p] by simp

lemma queued_same_parked:
  "sr_parked s = sr_parked (serial_of p c) \<Longrightarrow> queued (set_serial c s p) = queued p"
  using queued_set_serial [of c s p] by simp

lemma set_serial_ready: "set_serial c s (p\<lparr>wp_ready := r\<rparr>) = (set_serial c s p)\<lparr>wp_ready := r\<rparr>"
  by (simp add: set_serial_def)

lemma queued_hand_on: "keys_inv p \<Longrightarrow> queued (hand_on c p) = queued p"
  by (auto simp: hand_on_def map_of_serial_of queued_close_gate set_serial_ready queued_pass_on
      split: option.splits list.splits)

lemma queued_enqueue: "queued (enqueue serialize t p) = add_mset (rt_owner t) (queued p)"
  by (simp add: enqueue_def Let_def queued_park queued_same_parked
      queued_ready [of "set_serial (rt_content t) _ p", simplified])

lemma queued_finish_worker: "keys_inv p \<Longrightarrow> queued (finish_worker c p) = queued p"
  by (auto simp: finish_worker_def Let_def queued_pass_on queued_close_gate split: list.splits)

subsection \<open>What each operation keeps\<close>

lemma map_of_filter_parked:
  "map_of (map (\<lambda>(c, s). (c, s\<lparr>sr_parked := f (sr_parked s)\<rparr>)) al) c =
   map_option (\<lambda>s. s\<lparr>sr_parked := f (sr_parked s)\<rparr>) (map_of al c)"
  by (induction al) auto

lemma keys_purge [simp]:
  "keys_inv p \<Longrightarrow> keys_inv (purge_parked ow p)" "keys_inv p \<Longrightarrow> keys_inv (purge_ready ow p)"
  "keys_inv p \<Longrightarrow> keys_inv (purge_work ow p)" "keys_inv p \<Longrightarrow> keys_inv (abandon_queued p)"
  by (simp_all add: keys_inv_def purge_parked_def purge_ready_def purge_work_def abandon_queued_def
      comp_def case_prod_beta)

lemma keys_hand_on [simp]: "keys_inv p \<Longrightarrow> keys_inv (hand_on c p)"
  by (simp add: hand_on_def set_serial_ready split: option.splits list.splits)

lemma gate_invD: "gate_inv serialize p adm ren \<Longrightarrow>
    gate_of serialize (wp_stop p) (map_of (wp_serial p) c) c (admitted p c + adm c) (ren c)"
  by (simp add: gate_inv_def)

text \<open>An operation on one content's gate leaves the others.\<close>

lemma gate_inv_local:
  assumes "gate_inv serialize p adm ren" and "wp_stop q = wp_stop p"
    and "\<And>d. d \<noteq> c \<Longrightarrow> map_of (wp_serial q) d = map_of (wp_serial p) d"
    and "\<And>d. d \<noteq> c \<Longrightarrow> admitted q d + adm' d = admitted p d + adm d"
    and "\<And>d. d \<noteq> c \<Longrightarrow> ren' d = ren d"
    and "gate_of serialize (wp_stop p) (map_of (wp_serial q) c) c (admitted q c + adm' c) (ren' c)"
  shows "gate_inv serialize q adm' ren'"
  unfolding gate_inv_def
proof
  fix d
  show "gate_of serialize (wp_stop q) (map_of (wp_serial q) d) d (admitted q d + adm' d) (ren' d)"
    using assms gate_invD [OF assms(1), of d] by (cases "d = c") simp_all
qed

lemma admitted_more [simp]:
  "admitted (set_serial c s p) = admitted p" "admitted (erase_serial c p) = admitted p"
  "admitted (release_outstanding ow p) = admitted p"
  "admitted (p\<lparr>wp_ready := wp_ready p @ [t]\<rparr>) = (admitted p)(rt_content t := admitted p (rt_content t) + 1)"
  by (simp_all add: admitted_def fun_eq_iff)

lemma admitted_ready:
  "admitted (q\<lparr>wp_ready := wp_ready p @ [t]\<rparr>) = (admitted p)(rt_content t := admitted p (rt_content t) + 1)"
  by (simp add: admitted_def fun_eq_iff)

lemma gate_none: "gate_of serialize st None c a r \<longleftrightarrow> (serialize c \<longrightarrow> a = 0 \<and> r = 0)"
  by (simp add: gate_of_def)

lemma gate_some:
  "gate_of serialize st (Some s) c a r \<longleftrightarrow>
     serialize c \<and> sr_active s \<and> a \<le> 1 \<and> (\<not> st \<longrightarrow> a = 1) \<and> sr_rendering s = r \<and> r \<le> a
       \<and> (\<forall>t \<in> set (sr_parked s). rt_content t = c)"
  by (simp add: gate_of_def)

text \<open>Passing a free gate on: the holder leaves, the oldest parked task is admitted.\<close>

lemma gate_pass_worker:
  assumes inv: "gate_inv serialize p adm ren" and h: "serialize c" "adm c = 1" "ren c = 1"
  shows "gate_inv serialize (finish_worker c p) (adm(c := 0)) (ren(c := 0))"
proof -
  obtain s where s: "map_of (wp_serial p) c = Some s" and g: "gate_of serialize (wp_stop p) (Some s) c (admitted p c + 1) 1"
    using gate_invD [OF inv, of c] h by (cases "map_of (wp_serial p) c") (simp_all add: gate_none)
  have a0: "admitted p c = 0" using g by (simp add: gate_some)
  show ?thesis
  proof (cases "sr_parked s")
    case Nil
    then have e: "finish_worker c p = erase_serial c p"
      by (simp add: finish_worker_def map_of_serial_of [OF s])
    show ?thesis unfolding e by (rule gate_inv_local [OF inv, where c = c]) (simp_all add: gate_none a0)
  next
    case (Cons t ts)
    then have tc: "rt_content t = c" using g by (simp add: gate_some)
    have e: "finish_worker c p =
        (set_serial c (s\<lparr>sr_rendering := sr_rendering s - 1, sr_parked := ts\<rparr>) p)\<lparr>wp_ready := wp_ready p @ [t]\<rparr>"
      using Cons by (simp add: finish_worker_def map_of_serial_of [OF s])
    show ?thesis unfolding e
      by (rule gate_inv_local [OF inv, where c = c])
        (use g Cons a0 h in \<open>simp_all add: admitted_ready tc gate_some\<close>)
  qed
qed

lemma gate_enqueue:
  assumes inv: "gate_inv serialize p adm ren" and le: "ren (rt_content t) \<le> adm (rt_content t)"
  shows "gate_inv serialize (enqueue serialize t p) adm ren"
proof -
  let ?c = "rt_content t"
  note g = gate_invD [OF inv, of ?c]
  show ?thesis
  proof (rule gate_inv_local [OF inv, where c = ?c])
    show "gate_of serialize (wp_stop p) (map_of (wp_serial (enqueue serialize t p)) ?c) ?c
       (admitted (enqueue serialize t p) ?c + adm ?c) (ren ?c)"
    proof (cases "map_of (wp_serial p) ?c")
      case None
      then show ?thesis using g
        by (auto simp: enqueue_def Let_def admitted_ready serial_of_def fresh_serial_def gate_none gate_some)
    next
      case (Some s)
      then show ?thesis using g
        by (auto simp: enqueue_def Let_def admitted_ready map_of_serial_of gate_some)
    qed
  qed (auto simp: enqueue_def Let_def admitted_ready)
qed

lemma inline_gate_kept:
  assumes inv: "gate_inv serialize p adm ren" and e: "inline_gate serialize t p = (q, run)"
  shows "gate_inv serialize q (if run \<and> serialize (rt_content t) then adm(rt_content t := adm (rt_content t) + 1) else adm) ren"
proof -
  let ?c = "rt_content t"
  note g = gate_invD [OF inv, of ?c]
  show ?thesis
  proof (rule gate_inv_local [OF inv, where c = ?c])
    show "gate_of serialize (wp_stop p) (map_of (wp_serial q) ?c) ?c
       (admitted q ?c + (if run \<and> serialize ?c then adm(?c := adm ?c + 1) else adm) ?c) (ren ?c)"
    proof (cases "map_of (wp_serial p) ?c")
      case None
      then show ?thesis using g e
        by (auto simp: inline_gate_def Let_def serial_of_def fresh_serial_def gate_none gate_some split: if_splits)
    next
      case (Some s)
      then show ?thesis using g e
        by (auto simp: inline_gate_def Let_def map_of_serial_of gate_some split: if_splits)
    qed
  qed (use e in \<open>auto simp: inline_gate_def Let_def split: if_splits\<close>)
qed

lemma gate_begin_render:
  assumes inv: "gate_inv serialize p adm ren" and h: "serialize (rt_content t)" "1 \<le> adm (rt_content t)" "ren (rt_content t) = 0"
  shows "gate_inv serialize (begin_render serialize t p) adm (ren(rt_content t := 1))"
    and "wp_max_in_flight (begin_render serialize t p) = max (wp_max_in_flight p) 1"
proof -
  let ?c = "rt_content t"
  obtain s where s: "map_of (wp_serial p) ?c = Some s"
    and g: "gate_of serialize (wp_stop p) (Some s) ?c (admitted p ?c + adm ?c) 0"
    using gate_invD [OF inv, of ?c] h by (cases "map_of (wp_serial p) ?c") (simp_all add: gate_none)
  have r0: "sr_rendering s = 0" using g by (simp add: gate_some)
  show "gate_inv serialize (begin_render serialize t p) adm (ren(?c := 1))"
    by (rule gate_inv_local [OF inv, where c = ?c])
      (use g h r0 in \<open>auto simp: begin_render_def Let_def map_of_serial_of [OF s] gate_some admitted_def\<close>)
  show "wp_max_in_flight (begin_render serialize t p) = max (wp_max_in_flight p) 1"
    using h r0 by (simp add: begin_render_def map_of_serial_of [OF s])
qed

lemma gate_pass_inline:
  assumes inv: "gate_inv serialize p adm ren" and h: "serialize c" "1 \<le> adm c" "ren c = 1"
    and e: "finish_inline c p = (q, next)"
  shows "gate_inv serialize q (if next = None then adm(c := adm c - 1) else adm) (ren(c := 0))"
    and "next = Some t \<Longrightarrow> rt_content t = c"
proof -
  obtain s where s: "map_of (wp_serial p) c = Some s"
    and g: "gate_of serialize (wp_stop p) (Some s) c (admitted p c + adm c) 1"
    using gate_invD [OF inv, of c] h by (cases "map_of (wp_serial p) c") (simp_all add: gate_none)
  show "gate_inv serialize q (if next = None then adm(c := adm c - 1) else adm) (ren(c := 0))"
    by (rule gate_inv_local [OF inv, where c = c])
      (use e g h in \<open>auto simp: finish_inline_def map_of_serial_of [OF s] gate_some gate_none split: list.splits\<close>)
  show "next = Some t \<Longrightarrow> rt_content t = c"
    using e g by (auto simp: finish_inline_def map_of_serial_of [OF s] gate_some split: list.splits)
qed

text \<open>A drain: the purges, then the orphaned gates handed on.\<close>

lemma gate_filter_parked:
  "gate_of serialize st e c a r \<Longrightarrow> (\<And>xs. set (f xs) \<subseteq> set xs) \<Longrightarrow>
   gate_of serialize st (map_option (\<lambda>s. s\<lparr>sr_parked := f (sr_parked s)\<rparr>) e) c a r"
  by (cases e) (auto simp: gate_of_def)

lemma admitted_drop_all [simp]: "admitted (drop_all xs p) = admitted p"
  by (simp add: admitted_def fun_eq_iff)

lemma gate_purge_parked:
  assumes "gate_inv serialize p adm ren"
  shows "gate_inv serialize (purge_parked ow p) adm ren"
  unfolding gate_inv_def
proof
  fix c
  show "gate_of serialize (wp_stop (purge_parked ow p)) (map_of (wp_serial (purge_parked ow p)) c) c
      (admitted (purge_parked ow p) c + adm c) (ren c)"
    using gate_filter_parked [OF gate_invD [OF assms, of c], of "filter (\<lambda>t. rt_owner t \<noteq> ow)"]
    by (simp add: purge_parked_def map_of_filter_parked admitted_def)
qed

lemma gate_abandon:
  assumes "gate_inv serialize p adm ren" and "wp_stop p" and le: "\<And>c. ren c \<le> adm c"
  shows "gate_inv serialize (abandon_queued p) adm ren"
  unfolding gate_inv_def
proof
  fix c
  have "gate_of serialize True (map_option (\<lambda>s. s\<lparr>sr_parked := []\<rparr>) (map_of (wp_serial p) c)) c (adm c) (ren c)"
    using gate_invD [OF assms(1), of c] le [of c] by (cases "map_of (wp_serial p) c") (auto simp: gate_of_def)
  then show "gate_of serialize (wp_stop (abandon_queued p)) (map_of (wp_serial (abandon_queued p)) c) c
      (admitted (abandon_queued p) c + adm c) (ren c)"
    using assms(2) map_of_filter_parked [of "\<lambda>xs. []" "wp_serial p" c] by (simp add: abandon_queued_def admitted_def)
qed

definition orphan_inv :: "(nat \<Rightarrow> bool) \<Rightarrow> nat list \<Rightarrow> pool \<Rightarrow> (nat \<Rightarrow> nat) \<Rightarrow> (nat \<Rightarrow> nat) \<Rightarrow> bool" where
  "orphan_inv serialize gs p adm ren \<longleftrightarrow> distinct gs \<and>
     (\<forall>c. if c \<in> set gs then map_of (wp_serial p) c \<noteq> None \<and> admitted p c + adm c = 0 \<and>
            gate_of serialize True (map_of (wp_serial p) c) c 0 (ren c)
          else gate_of serialize (wp_stop p) (map_of (wp_serial p) c) c (admitted p c + adm c) (ren c))"

lemma orphan_hand_on:
  assumes "orphan_inv serialize (g # gs) p adm ren"
  shows "orphan_inv serialize gs (hand_on g p) adm ren"
proof -
  have d: "distinct gs" "g \<notin> set gs" using assms by (simp_all add: orphan_inv_def)
  have all: "\<forall>c. if c \<in> set (g # gs) then map_of (wp_serial p) c \<noteq> None \<and> admitted p c + adm c = 0 \<and>
            gate_of serialize True (map_of (wp_serial p) c) c 0 (ren c)
          else gate_of serialize (wp_stop p) (map_of (wp_serial p) c) c (admitted p c + adm c) (ren c)"
    using assms unfolding orphan_inv_def by (rule conjunct2)
  obtain s where s: "map_of (wp_serial p) g = Some s" and z: "admitted p g + adm g = 0"
    and gg: "gate_of serialize True (Some s) g 0 (ren g)"
    using spec [OF all, of g] by auto
  have stop: "wp_stop (hand_on g p) = wp_stop p"
    and ser: "\<And>c. c \<noteq> g \<Longrightarrow> map_of (wp_serial (hand_on g p)) c = map_of (wp_serial p) c"
    by (simp_all add: hand_on_def set_serial_ready split: option.splits list.splits)
  have adm: "admitted (hand_on g p) c = admitted p c" if "c \<noteq> g" for c
    using that gg by (auto simp: hand_on_def s set_serial_ready admitted_ready gate_some split: list.splits)
  have one: "gate_of serialize (wp_stop p) (map_of (wp_serial (hand_on g p)) g) g (admitted (hand_on g p) g + adm g) (ren g)"
    using gg z by (auto simp: hand_on_def s set_serial_ready admitted_ready gate_some gate_none split: list.splits)
  have "if c \<in> set gs then map_of (wp_serial (hand_on g p)) c \<noteq> None \<and> admitted (hand_on g p) c + adm c = 0 \<and>
            gate_of serialize True (map_of (wp_serial (hand_on g p)) c) c 0 (ren c)
          else gate_of serialize (wp_stop (hand_on g p)) (map_of (wp_serial (hand_on g p)) c) c
            (admitted (hand_on g p) c + adm c) (ren c)" for c
    using spec [OF all, of c] one d by (cases "c = g") (simp_all add: stop ser adm)
  then show ?thesis using d by (simp add: orphan_inv_def)
qed

lemma orphan_fold:
  "orphan_inv serialize gs p adm ren \<Longrightarrow> gate_inv serialize (fold hand_on gs p) adm ren"
proof (induction gs arbitrary: p)
  case Nil
  then show ?case by (simp add: orphan_inv_def gate_inv_def)
next
  case (Cons g gs)
  show ?case using Cons.IH [OF orphan_hand_on [OF Cons.prems]] by simp
qed

lemma count_map_filter:
  "count (mset (map f (filter P xs))) c \<le> length (filter (\<lambda>t. f t = c) xs)"
  by (induction xs) auto

lemma filter_two_split:
  "length (filter (\<lambda>t. f t = c) (filter (\<lambda>t. \<not> P t) xs)) + length (filter (\<lambda>t. f t = c) (filter P xs)) =
   length (filter (\<lambda>t. f t = c) xs)"
  by (induction xs) auto

lemma orphan_start:
  assumes inv: "gate_inv serialize p adm ren" and le: "\<And>c. ren c \<le> adm c"
  shows "orphan_inv serialize (orphaned_gates ow p) (purge_ready ow p) adm ren"
proof -
  let ?G = "orphaned_gates ow p" and ?q = "purge_ready ow p"
  have ser: "wp_serial ?q = wp_serial p" "wp_stop ?q = wp_stop p" by (simp_all add: purge_ready_def)
  have adq: "admitted ?q c = length (filter (\<lambda>t. rt_content t = c) (filter (\<lambda>t. rt_owner t \<noteq> ow) (wp_ready p)))" for c
    by (simp add: purge_ready_def admitted_def)
  have split: "admitted ?q c + length (filter (\<lambda>t. rt_content t = c) (filter (\<lambda>t. rt_owner t = ow) (wp_ready p))) = admitted p c" for c
    using filter_two_split [of rt_content c "\<lambda>t. rt_owner t = ow" "wp_ready p"] unfolding adq
    by (simp add: admitted_def)
  have inG: "\<exists>s. map_of (wp_serial p) c = Some s \<and> serialize c \<and> admitted p c + adm c \<le> 1 \<and>
      0 < length (filter (\<lambda>t. rt_content t = c) (filter (\<lambda>t. rt_owner t = ow) (wp_ready p)))" if "c \<in> set ?G" for c
  proof -
    from that obtain t where t: "t \<in> set (wp_ready p)" "rt_owner t = ow" "rt_content t = c" "c \<in> fst ` set (wp_serial p)"
      by (auto simp: orphaned_gates_def)
    then obtain s where s: "map_of (wp_serial p) c = Some s"
      by (cases "map_of (wp_serial p) c") (simp_all add: map_of_eq_None_iff)
    have "t \<in> set (filter (\<lambda>t. rt_content t = c) (filter (\<lambda>t. rt_owner t = ow) (wp_ready p)))" using t by simp
    then have "0 < length (filter (\<lambda>t. rt_content t = c) (filter (\<lambda>t. rt_owner t = ow) (wp_ready p)))"
      by (rule length_pos_if_in_set)
    then show ?thesis using gate_invD [OF inv, of c] unfolding s gate_some by blast
  qed
  have cnt: "count (mset ?G) c = (if c \<in> set ?G then 1 else 0)" for c
  proof (cases "c \<in> set ?G")
    case True
    have "count (mset ?G) c \<le> admitted p c"
      using count_map_filter [of rt_content "\<lambda>t. rt_owner t = ow \<and> rt_content t \<in> fst ` set (wp_serial p)" "wp_ready p" c]
      by (simp only: orphaned_gates_def admitted_def)
    moreover have "0 < count (mset ?G) c" using True by simp
    moreover have "admitted p c \<le> 1" using inG [OF True] by auto
    ultimately have "count (mset ?G) c = 1" by linarith
    then show ?thesis using True by (simp only: if_True)
  next
    case False
    then show ?thesis by (simp add: count_eq_zero_iff)
  qed
  have dist: "distinct ?G" using cnt by (simp only: distinct_count_atmost_1) simp
  have notG: "admitted ?q c = admitted p c" if "c \<notin> set ?G" "map_of (wp_serial p) c \<noteq> None" for c
  proof -
    from that(2) have "c \<in> fst ` set (wp_serial p)" by (simp add: map_of_eq_None_iff)
    then have "filter (\<lambda>t. rt_content t = c) (filter (\<lambda>t. rt_owner t = ow) (wp_ready p)) = []"
      using that(1) by (auto simp: orphaned_gates_def filter_empty_conv)
    then show ?thesis using split [of c] by simp
  qed
  have "if c \<in> set ?G then map_of (wp_serial ?q) c \<noteq> None \<and> admitted ?q c + adm c = 0 \<and>
            gate_of serialize True (map_of (wp_serial ?q) c) c 0 (ren c)
          else gate_of serialize (wp_stop ?q) (map_of (wp_serial ?q) c) c (admitted ?q c + adm c) (ren c)" for c
  proof (cases "c \<in> set ?G")
    case True
    from inG [OF this] obtain s where s: "map_of (wp_serial p) c = Some s"
      and z: "admitted p c + adm c \<le> 1"
      and pos: "0 < length (filter (\<lambda>t. rt_content t = c) (filter (\<lambda>t. rt_owner t = ow) (wp_ready p)))" by blast
    have "admitted ?q c + adm c = 0" using split [of c] z pos by linarith
    moreover have "gate_of serialize True (Some s) c 0 (ren c)"
      using gate_invD [OF inv, of c] le [of c] calculation by (simp add: s gate_some)
    ultimately show ?thesis using True by (simp add: ser s)
  next
    case False
    have "gate_of serialize (wp_stop p) (map_of (wp_serial p) c) c (admitted ?q c + adm c) (ren c)"
    proof (cases "map_of (wp_serial p) c")
      case None
      then have "serialize c \<longrightarrow> admitted p c = 0 \<and> adm c = 0 \<and> ren c = 0"
        using gate_invD [OF inv, of c] by (simp add: gate_none)
      moreover have "admitted ?q c \<le> admitted p c" using split [of c] by linarith
      ultimately show ?thesis by (cases "serialize c") (simp_all add: None gate_none)
    next
      case (Some s)
      then show ?thesis using gate_invD [OF inv, of c] notG [OF False] by simp
    qed
    then show ?thesis using False by (simp add: ser)
  qed
  then show ?thesis using dist by (simp add: orphan_inv_def)
qed

lemma gate_purge_owner:
  assumes inv: "gate_inv serialize p adm ren" and le: "\<And>c. ren c \<le> adm c"
  shows "gate_inv serialize (purge_owner ow p) adm ren"
proof -
  have "gate_inv serialize (fold hand_on (orphaned_gates ow (purge_parked ow p)) (purge_ready ow (purge_parked ow p))) adm ren"
    by (rule orphan_fold [OF orphan_start [OF gate_purge_parked [OF inv] le]])
  then show ?thesis by (simp add: purge_owner_def Let_def purge_work_def gate_inv_def admitted_def)
qed

lemma keys_fold_hand_on [simp]: "keys_inv p \<Longrightarrow> keys_inv (fold hand_on gs p)"
  by (induction gs arbitrary: p) simp_all

lemma queued_fold_hand_on: "keys_inv p \<Longrightarrow> queued (fold hand_on gs p) = queued p"
  by (induction gs arbitrary: p) (simp_all add: queued_hand_on)

lemma hand_on_fields [simp]:
  "wp_outstanding (hand_on c p) = wp_outstanding p" "wp_submitted (hand_on c p) = wp_submitted p"
  "wp_completed (hand_on c p) = wp_completed p" "wp_dropped (hand_on c p) = wp_dropped p"
  "wp_stop (hand_on c p) = wp_stop p" "wp_max_in_flight (hand_on c p) = wp_max_in_flight p"
  "wp_work (hand_on c p) = wp_work p"
  by (simp_all add: hand_on_def set_serial_ready split: option.splits list.splits)

lemma fold_hand_on_fields [simp]:
  "wp_outstanding (fold hand_on gs p) = wp_outstanding p" "wp_submitted (fold hand_on gs p) = wp_submitted p"
  "wp_completed (fold hand_on gs p) = wp_completed p" "wp_dropped (fold hand_on gs p) = wp_dropped p"
  "wp_stop (fold hand_on gs p) = wp_stop p" "wp_max_in_flight (fold hand_on gs p) = wp_max_in_flight p"
  "wp_work (fold hand_on gs p) = wp_work p"
  by (induction gs arbitrary: p; simp)+

lemma accounts_congr:
  assumes "out_inv p own" "ledger_inv p pend" "queued q = queued p" "wp_outstanding q = wp_outstanding p"
    "wp_submitted q = wp_submitted p" "wp_completed q = wp_completed p" "wp_dropped q = wp_dropped p"
  shows "out_inv q own" "ledger_inv q pend"
  using assms by (simp_all add: out_inv_def ledger_inv_def outstanding_def)

lemma purge_owner_accounts:
  assumes "keys_inv p" "out_inv p own" "ledger_inv p pend"
  shows "out_inv (purge_owner ow p) own \<and> ledger_inv (purge_owner ow p) pend"
proof -
  let ?a = "purge_parked ow p" and ?b = "purge_ready ow (purge_parked ow p)"
  let ?c = "fold hand_on (orphaned_gates ow ?a) ?b"
  have b: "out_inv ?b own" "ledger_inv ?b pend"
    by (rule purge_ready_accounts; rule purge_parked_accounts; rule assms)+
  have q: "queued ?c = queued ?b" using assms(1) by (simp add: queued_fold_hand_on)
  have c: "out_inv ?c own" "ledger_inv ?c pend" by (rule accounts_congr [OF b q]; simp)+
  show ?thesis unfolding purge_owner_def Let_def using purge_work_accounts [OF c] by blast
qed

lemma keys_purge_owner [simp]: "keys_inv p \<Longrightarrow> keys_inv (purge_owner ow p)"
  by (simp add: purge_owner_def Let_def)

text \<open>After the purge nothing of the owner is queued, and nothing of anyone else's has gone.\<close>

lemma queued_purge_parked: "queued (purge_parked ow p) + mset (map rt_owner (filter (\<lambda>t. rt_owner t = ow) (parked_all p))) = queued p"
proof -
  let ?q = "p\<lparr>wp_serial := map (\<lambda>(c, s). (c, s\<lparr>sr_parked := filter (\<lambda>t. rt_owner t \<noteq> ow) (sr_parked s)\<rparr>)) (wp_serial p)\<rparr>"
  have pk: "parked_all ?q = filter (\<lambda>t. rt_owner t \<noteq> ow) (parked_all p)"
    unfolding parked_all_def parked_all_map [symmetric] by simp
  show ?thesis
    using owner_split_mset [of ow "parked_all p"] unfolding purge_parked_def
    by (simp add: queued_def pk ac_simps)
qed

lemma owner_filter_mset: "mset (map rt_owner (filter (\<lambda>t. rt_owner t \<noteq> ow) xs)) = filter_mset (\<lambda>x. x \<noteq> ow) (mset (map rt_owner xs))"
  by (induction xs) auto

lemma queued_purge_owner:
  assumes "keys_inv p"
  shows "queued (purge_owner ow p) = filter_mset (\<lambda>x. x \<noteq> ow) (queued p)"
proof -
  let ?a = "purge_parked ow p" and ?b = "purge_ready ow (purge_parked ow p)"
  let ?c = "fold hand_on (orphaned_gates ow ?a) ?b"
  have a: "parked_all ?a = filter (\<lambda>t. rt_owner t \<noteq> ow) (parked_all p)"
    unfolding purge_parked_def parked_drop_all parked_all_def parked_all_map [symmetric] by simp
  have b: "mset (map rt_owner (wp_ready ?b)) + mset (map rt_owner (parked_all ?b)) =
    filter_mset (\<lambda>x. x \<noteq> ow) (mset (map rt_owner (wp_ready p)) + mset (map rt_owner (parked_all p)))"
    by (simp add: purge_ready_def a owner_filter_mset [simplified] del: mset_map)
      (simp add: purge_parked_def owner_filter_mset [simplified])
  have w: "wp_work ?b = wp_work p" by (simp add: purge_ready_def purge_parked_def)
  have c: "mset (map rt_owner (wp_ready ?c)) + mset (map rt_owner (parked_all ?c)) =
     mset (map rt_owner (wp_ready ?b)) + mset (map rt_owner (parked_all ?b))"
    using queued_fold_hand_on [of ?b] assms by (simp add: queued_def)
  have e: "purge_owner ow p = purge_work ow ?c" by (simp add: purge_owner_def Let_def)
  have "queued (purge_owner ow p) = mset (map rt_owner (wp_ready ?c)) + mset (map rt_owner (parked_all ?c)) +
     mset (filter (\<lambda>x. x \<noteq> ow) (wp_work p))"
    unfolding e by (simp add: queued_def purge_work_def w)
  then show ?thesis by (simp only: c b) (simp add: queued_def)
qed

subsection \<open>What a thread holds\<close>

definition owes :: "nat \<Rightarrow> thread \<Rightarrow> nat" where
  "owes ow th = (case th of
     Enqueueing t \<Rightarrow> of_bool (rt_owner t = ow) | EnqueueingWork x \<Rightarrow> of_bool (x = ow)
   | Took inl t \<Rightarrow> of_bool (rt_owner t = ow) | Rendering inl t \<Rightarrow> of_bool (rt_owner t = ow)
   | Settled inl t \<Rightarrow> of_bool (rt_owner t = ow) | Poking inl t \<Rightarrow> of_bool (rt_owner t = ow)
   | Releasing inl t \<Rightarrow> of_bool (rt_owner t = ow)
   | Job inl x \<Rightarrow> of_bool (x = ow) | JobSettled inl x \<Rightarrow> of_bool (x = ow)
   | JobPoking inl x \<Rightarrow> of_bool (x = ow) | JobReleasing inl x \<Rightarrow> of_bool (x = ow) | _ \<Rightarrow> 0)"

definition holds :: "(nat \<Rightarrow> bool) \<Rightarrow> nat \<Rightarrow> thread \<Rightarrow> nat" where
  "holds serialize c th = (case th of
     Took inl t \<Rightarrow> of_bool (serialize c \<and> rt_content t = c) | Rendering inl t \<Rightarrow> of_bool (serialize c \<and> rt_content t = c)
   | Settled inl t \<Rightarrow> of_bool (serialize c \<and> rt_content t = c) | Poking inl t \<Rightarrow> of_bool (serialize c \<and> rt_content t = c)
   | Releasing inl t \<Rightarrow> of_bool (serialize c \<and> rt_content t = c) | Finishing inl d \<Rightarrow> of_bool (serialize c \<and> d = c)
   | _ \<Rightarrow> 0)"

text \<open>Past the increment of \<open>rendering\<close> and before its decrement.\<close>

definition rends :: "(nat \<Rightarrow> bool) \<Rightarrow> nat \<Rightarrow> thread \<Rightarrow> nat" where
  "rends serialize c th = (case th of Took inl t \<Rightarrow> 0 | _ \<Rightarrow> holds serialize c th)"

definition uncounted :: "thread \<Rightarrow> nat" where
  "uncounted th = (case th of
     Enqueueing t \<Rightarrow> 1 | EnqueueingWork x \<Rightarrow> 1 | Took inl t \<Rightarrow> 1 | Rendering inl t \<Rightarrow> 1 | Settled inl t \<Rightarrow> 1
   | Job inl x \<Rightarrow> 1 | JobSettled inl x \<Rightarrow> 1 | _ \<Rightarrow> 0)"

definition thread_ok :: "(nat \<Rightarrow> bool) \<Rightarrow> thread \<Rightarrow> bool" where
  "thread_ok serialize th = (case th of Finishing inl c \<Rightarrow> serialize c | _ \<Rightarrow> True)"

lemmas thread_weights = owes_def holds_def rends_def uncounted_def

lemma rends_le_holds: "rends serialize c th \<le> holds serialize c th"
  by (cases th) (simp_all add: thread_weights)

subsection \<open>One step of one thread\<close>

lemma out_inv_release:
  assumes "out_inv p (\<lambda>x. of_bool (ow = x) + r x)"
  shows "out_inv (release_outstanding ow p) r"
  using assms nonzero_release [of p ow]
  by (auto simp: out_inv_def outstanding_release)

lemma out_inv_admit:
  assumes "out_inv p r" "admit ow p = Some q"
  shows "out_inv q (\<lambda>x. of_bool (ow = x) + r x)"
proof -
  have q: "q = claim_outstanding ow (p\<lparr>wp_submitted := wp_submitted p + 1\<rparr>)"
    using assms(2) by (simp add: admit_def split: if_splits)
  have "queued q = queued p" by (simp add: q claim_outstanding_def queued_def)
  moreover have "outstanding q x = of_bool (ow = x) + outstanding p x" for x
    by (auto simp: q claim_outstanding_def outstanding_def split: option.splits)
  moreover have "wp_outstanding q x \<noteq> Some 0" for x
    using assms(1) by (simp add: q claim_outstanding_def out_inv_def)
  ultimately show ?thesis using assms(1) by (simp add: out_inv_def)
qed

lemma out_inv_queue:
  assumes "out_inv p (\<lambda>x. of_bool (ow = x) + r x)" "queued q = add_mset ow (queued p)" "wp_outstanding q = wp_outstanding p"
  shows "out_inv q r"
  using assms by (auto simp: out_inv_def outstanding_def)

lemma out_inv_take:
  assumes "out_inv p r" "queued p = add_mset ow (queued q)" "wp_outstanding q = wp_outstanding p"
  shows "out_inv q (\<lambda>x. of_bool (ow = x) + r x)"
  using assms by (auto simp: out_inv_def outstanding_def)

lemma enqueue_fields [simp]:
  "wp_outstanding (enqueue serialize t p) = wp_outstanding p" "wp_stop (enqueue serialize t p) = wp_stop p"
  "wp_submitted (enqueue serialize t p) = wp_submitted p" "wp_completed (enqueue serialize t p) = wp_completed p"
  "wp_dropped (enqueue serialize t p) = wp_dropped p" "wp_max_in_flight (enqueue serialize t p) = wp_max_in_flight p"
  "keys_inv p \<Longrightarrow> keys_inv (enqueue serialize t p)"
  by (simp_all add: enqueue_def Let_def)

lemma finish_worker_fields [simp]:
  "wp_outstanding (finish_worker c p) = wp_outstanding p" "wp_stop (finish_worker c p) = wp_stop p"
  "wp_submitted (finish_worker c p) = wp_submitted p" "wp_completed (finish_worker c p) = wp_completed p"
  "wp_dropped (finish_worker c p) = wp_dropped p" "wp_max_in_flight (finish_worker c p) = wp_max_in_flight p"
  "keys_inv p \<Longrightarrow> keys_inv (finish_worker c p)"
  by (simp_all add: finish_worker_def Let_def split: list.splits)

lemma begin_render_fields [simp]:
  "wp_outstanding (begin_render serialize t p) = wp_outstanding p" "wp_stop (begin_render serialize t p) = wp_stop p"
  "wp_submitted (begin_render serialize t p) = wp_submitted p" "wp_completed (begin_render serialize t p) = wp_completed p"
  "wp_dropped (begin_render serialize t p) = wp_dropped p" "keys_inv p \<Longrightarrow> keys_inv (begin_render serialize t p)"
  by (simp_all add: begin_render_def Let_def)

lemma queued_mif [simp]: "queued (p\<lparr>wp_max_in_flight := m\<rparr>) = queued p"
  by (simp add: queued_def)

lemma queued_begin_render [simp]: "queued (begin_render serialize t p) = queued p"
  by (simp add: begin_render_def Let_def queued_same_parked)

lemma inline_gate_fields:
  assumes "inline_gate serialize t p = (q, run)"
  shows "wp_outstanding q = wp_outstanding p \<and> wp_stop q = wp_stop p \<and> wp_submitted q = wp_submitted p \<and>
    wp_completed q = wp_completed p \<and> wp_dropped q = wp_dropped p \<and> wp_max_in_flight q = wp_max_in_flight p \<and>
    (keys_inv p \<longrightarrow> keys_inv q) \<and> queued q = (if run then queued p else add_mset (rt_owner t) (queued p))"
  using assms by (auto simp: inline_gate_def Let_def queued_park queued_same_parked split: if_splits)

lemma finish_inline_fields:
  assumes "finish_inline c p = (q, n)" "keys_inv p"
  shows "wp_outstanding q = wp_outstanding p \<and> wp_stop q = wp_stop p \<and> wp_submitted q = wp_submitted p \<and>
    wp_completed q = wp_completed p \<and> wp_dropped q = wp_dropped p \<and> wp_max_in_flight q = wp_max_in_flight p \<and>
    keys_inv q \<and> queued p = (case n of None \<Rightarrow> queued q | Some t \<Rightarrow> add_mset (rt_owner t) (queued q))"
proof (cases "sr_parked (serial_of p c)")
  case Nil
  then show ?thesis using assms by (auto simp: finish_inline_def Let_def queued_close_gate)
next
  case (Cons t ts)
  let ?s = "(serial_of p c)\<lparr>sr_rendering := sr_rendering (serial_of p c) - 1, sr_parked := ts\<rparr>"
  have "queued p = add_mset (rt_owner t) (queued (set_serial c ?s p))"
    using queued_set_serial [of c ?s p] by (simp add: Cons)
  then show ?thesis using assms Cons by (auto simp: finish_inline_def Let_def)
qed

lemma admit_fields:
  assumes "admit ow p = Some q"
  shows "wp_submitted q = wp_submitted p + 1 \<and> wp_completed q = wp_completed p \<and> wp_dropped q = wp_dropped p \<and>
    queued q = queued p \<and> keys_inv q = keys_inv p \<and> wp_serial q = wp_serial p \<and> wp_ready q = wp_ready p \<and>
    wp_stop q = wp_stop p \<and> wp_max_in_flight q = wp_max_in_flight p"
  using assms by (auto simp: admit_def claim_outstanding_def queued_def split: if_splits)

lemma take_work_cases:
  assumes "take_work p = Some (q, th)"
  obtains (stopped) "wp_stop p" "q = abandon_queued p" "th = Exited"
  | (job) ow ws where "\<not> wp_stop p" "wp_ready p = []" "wp_work p = ow # ws" "q = p\<lparr>wp_work := ws\<rparr>" "th = Job False ow"
  | (task) t ts where "\<not> wp_stop p" "wp_ready p = t # ts" "q = p\<lparr>wp_ready := ts\<rparr>" "th = Took False t"
  using assms by (auto simp: take_work_def split: if_splits list.splits)

lemma queued_take_job: "wp_work p = ow # ws \<Longrightarrow> queued p = add_mset ow (queued (p\<lparr>wp_work := ws\<rparr>))"
  by (simp add: queued_def)

lemma queued_take_task: "wp_ready p = t # ts \<Longrightarrow> queued p = add_mset (rt_owner t) (queued (p\<lparr>wp_ready := ts\<rparr>))"
  by (simp add: queued_def)

lemma abandon_fields [simp]:
  "wp_submitted (abandon_queued p) = wp_submitted p" "wp_completed (abandon_queued p) = wp_completed p"
  "wp_stop (abandon_queued p) = wp_stop p" "wp_max_in_flight (abandon_queued p) = wp_max_in_flight p"
  by (simp_all add: abandon_queued_def)

definition accounts :: "pool \<Rightarrow> (nat \<Rightarrow> nat) \<Rightarrow> nat \<Rightarrow> bool" where
  "accounts p own pend \<longleftrightarrow> keys_inv p \<and> out_inv p own \<and> ledger_inv p pend"

lemma accounts_take_work:
  assumes "accounts p r n" "take_work p = Some (q, th)"
  shows "accounts q (\<lambda>x. owes x th + r x) (uncounted th + n)"
  using assms(2)
proof (cases rule: take_work_cases)
  case stopped
  then show ?thesis using assms(1) abandon_queued_accounts [of p r n] by (simp add: accounts_def thread_weights)
next
  case (job ow ws)
  then show ?thesis using assms(1) queued_take_job [OF job(3)] out_inv_take [of p r ow q]
    by (simp add: accounts_def thread_weights ledger_inv_def)
next
  case (task t ts)
  then show ?thesis using assms(1) queued_take_task [OF task(2)] out_inv_take [of p r "rt_owner t" q]
    by (simp add: accounts_def thread_weights ledger_inv_def)
qed

lemma accounts_submit:
  assumes "accounts p r n" "admit ow p = Some q"
  shows "accounts q (\<lambda>x. of_bool (ow = x) + r x) (Suc n)"
  using assms out_inv_admit [of p r ow q] admit_fields [OF assms(2)] by (simp add: accounts_def ledger_inv_def)

lemma accounts_queue:
  assumes "accounts p (\<lambda>x. of_bool (ow = x) + r x) (Suc n)" "keys_inv p \<longrightarrow> keys_inv q"
    "queued q = add_mset ow (queued p)" "wp_outstanding q = wp_outstanding p" "wp_submitted q = wp_submitted p"
    "wp_completed q = wp_completed p" "wp_dropped q = wp_dropped p"
  shows "accounts q r n"
  using assms out_inv_queue [of p ow r q] by (simp add: accounts_def ledger_inv_def)

lemma accounts_unqueue:
  assumes "accounts p r n" "keys_inv q"
    "queued p = add_mset ow (queued q)" "wp_outstanding q = wp_outstanding p" "wp_submitted q = wp_submitted p"
    "wp_completed q = wp_completed p" "wp_dropped q = wp_dropped p"
  shows "accounts q (\<lambda>x. of_bool (ow = x) + r x) (Suc n)"
  using assms out_inv_take [of p r ow q] by (simp add: accounts_def ledger_inv_def)

lemma accounts_same:
  assumes "accounts p r n" "keys_inv p \<longrightarrow> keys_inv q"
    "queued q = queued p" "wp_outstanding q = wp_outstanding p" "wp_submitted q = wp_submitted p"
    "wp_completed q = wp_completed p" "wp_dropped q = wp_dropped p"
  shows "accounts q r n"
  using assms accounts_congr [of p r n q] by (simp add: accounts_def)

lemma accounts_complete: "accounts p r (Suc n) \<Longrightarrow> accounts (count_completed p) r n"
  by (simp add: accounts_def count_completed_def out_inv_def ledger_inv_def outstanding_def queued_def)

lemma accounts_release:
  "accounts p (\<lambda>x. of_bool (ow = x) + r x) n \<Longrightarrow> accounts (release_outstanding ow p) r n"
  by (simp add: accounts_def out_inv_release ledger_inv_def keys_inv_def)

lemma accounts_poke: "accounts p r n \<Longrightarrow> accounts (poke p) r n"
  by (rule accounts_same, assumption) (simp_all add: poke_def queued_def)

lemma accounts_step:
  assumes step: "thread_step serialize workers settled p th = Some (q, th')"
    and acc: "accounts p (\<lambda>x. owes x th + r x) (n + (uncounted th + m))"
  shows "accounts q (\<lambda>x. owes x th' + r x) (n + async_of settled th + (uncounted th' + m))"
proof (cases th)
  case Waiting
  then show ?thesis using step acc accounts_take_work [of p r "n + m" q th']
    by (simp add: thread_step_def thread_weights async_of_def ac_simps)
next
  case (Submitting t)
  then show ?thesis using step acc accounts_submit [of p r "n + m" "rt_owner t"]
    by (auto simp: thread_step_def thread_weights async_of_def split: option.splits)
next
  case (Enqueueing t)
  show ?thesis
  proof (cases "workers = 0")
    case True
    obtain q' run where g: "inline_gate serialize t p = (q', run)" by (cases "inline_gate serialize t p")
    show ?thesis using step acc inline_gate_fields [OF g] Enqueueing True g
        accounts_queue [of p "rt_owner t" r "n + m" q'] accounts_same [of p "\<lambda>x. of_bool (rt_owner t = x) + r x" "Suc (n + m)" q']
      by (cases run) (auto simp: thread_step_def thread_weights async_of_def)
  next
    case False
    then show ?thesis using step acc Enqueueing
        accounts_queue [of p "rt_owner t" r "n + m" "enqueue serialize t p"]
      by (auto simp: thread_step_def thread_weights async_of_def queued_enqueue)
  qed
next
  case (SubmittingWork ow)
  then show ?thesis using step acc accounts_submit [of p r "n + m" ow]
    by (auto simp: thread_step_def thread_weights async_of_def split: option.splits)
next
  case (EnqueueingWork ow)
  then show ?thesis using step acc accounts_queue [of p ow r "n + m" "p\<lparr>wp_work := wp_work p @ [ow]\<rparr>"]
    by (auto simp: thread_step_def thread_weights async_of_def queued_def split: if_splits)
next
  case (Took inl t)
  then show ?thesis using step acc
      accounts_same [of p "\<lambda>x. of_bool (rt_owner t = x) + r x" "Suc (n + m)" "begin_render serialize t p"]
    by (auto simp: thread_step_def thread_weights async_of_def)
next
  case (Rendering inl t)
  then show ?thesis using step acc by (auto simp: thread_step_def thread_weights async_of_def split: if_splits)
next
  case (Settled inl t)
  then show ?thesis using step acc accounts_complete [of p "\<lambda>x. of_bool (rt_owner t = x) + r x" "n + m"]
    by (auto simp: thread_step_def thread_weights async_of_def)
next
  case (Poking inl t)
  then show ?thesis using step acc accounts_poke [of p "\<lambda>x. of_bool (rt_owner t = x) + r x" "n + m"]
    by (auto simp: thread_step_def thread_weights async_of_def)
next
  case (Releasing inl t)
  then show ?thesis using step acc accounts_release [of p "rt_owner t" r "n + m"]
    by (auto simp: thread_step_def thread_weights async_of_def after_def)
next
  case (Finishing inl c)
  show ?thesis
  proof (cases inl)
    case True
    obtain q' nx where g: "finish_inline c p = (q', nx)" by (cases "finish_inline c p")
    have k: "keys_inv p" using acc by (simp add: accounts_def)
    show ?thesis using step acc finish_inline_fields [OF g k] Finishing True g
        accounts_same [of p r "n + m" q'] accounts_unqueue [of p r "n + m" q']
      by (cases nx) (auto simp: thread_step_def thread_weights async_of_def)
  next
    case False
    have k: "keys_inv p" using acc by (simp add: accounts_def)
    show ?thesis using step acc Finishing False queued_finish_worker [OF k]
        accounts_same [of p r "n + m" "finish_worker c p"]
      by (auto simp: thread_step_def thread_weights async_of_def)
  qed
next
  case (Job inl ow)
  then show ?thesis using step acc by (auto simp: thread_step_def thread_weights async_of_def)
next
  case (JobSettled inl ow)
  then show ?thesis using step acc accounts_complete [of p "\<lambda>x. of_bool (ow = x) + r x" "n + m"]
    by (auto simp: thread_step_def thread_weights async_of_def)
next
  case (JobPoking inl ow)
  then show ?thesis using step acc accounts_poke [of p "\<lambda>x. of_bool (ow = x) + r x" "n + m"]
    by (auto simp: thread_step_def thread_weights async_of_def)
next
  case (JobReleasing inl ow)
  then show ?thesis using step acc accounts_release [of p ow r "n + m"]
    by (auto simp: thread_step_def thread_weights async_of_def after_def)
next
  case (Draining ow)
  have "accounts (purge_owner ow p) r (n + m)"
    using acc purge_owner_accounts [of p r "n + m" ow] by (simp add: Draining accounts_def thread_weights)
  then show ?thesis using step Draining by (auto simp: thread_step_def thread_weights async_of_def)
next
  case (DrainWait ow)
  then show ?thesis using step acc by (auto simp: thread_step_def thread_weights async_of_def split: if_splits)
qed (use step in \<open>simp_all add: thread_step_def\<close>)

definition gates :: "(nat \<Rightarrow> bool) \<Rightarrow> pool \<Rightarrow> (nat \<Rightarrow> nat) \<Rightarrow> (nat \<Rightarrow> nat) \<Rightarrow> bool" where
  "gates serialize p adm ren \<longleftrightarrow> gate_inv serialize p adm ren \<and> wp_max_in_flight p \<le> 1"

text \<open>What the gates do not read.\<close>

lemma gates_same:
  assumes "gates serialize p adm ren" "wp_serial q = wp_serial p" "wp_ready q = wp_ready p" "wp_stop q = wp_stop p"
    "wp_max_in_flight q = wp_max_in_flight p"
  shows "gates serialize q adm ren"
  using assms by (simp add: gates_def gate_inv_def admitted_def)

lemma gates_take_work:
  assumes g: "gates serialize p adm ren" and le: "\<And>c. ren c \<le> adm c" and t: "take_work p = Some (q, th)"
  shows "gates serialize q (\<lambda>c. holds serialize c th + adm c) (\<lambda>c. rends serialize c th + ren c)"
  using t
proof (cases rule: take_work_cases)
  case stopped
  then show ?thesis using g gate_abandon [of serialize p adm ren] le by (simp add: gates_def thread_weights)
next
  case (job ow ws)
  then show ?thesis using g by (simp add: gates_def gate_inv_def admitted_def thread_weights)
next
  case (task t ts)
  have "gate_of serialize (wp_stop q) (map_of (wp_serial q) c) c (admitted q c + (holds serialize c th + adm c))
      (rends serialize c th + ren c)" for c
    using gate_invD [of serialize p adm ren c] g task
    by (cases "map_of (wp_serial p) c") (auto simp: gates_def gate_none gate_some admitted_def thread_weights split: if_splits)
  then show ?thesis using g task by (simp add: gates_def gate_inv_def)
qed

lemma gates_enqueue:
  "gates serialize p adm ren \<Longrightarrow> (\<And>c. ren c \<le> adm c) \<Longrightarrow> gates serialize (enqueue serialize t p) adm ren"
  by (simp add: gates_def gate_enqueue)

lemma holding_alone:
  assumes "gates serialize p (\<lambda>c. of_bool (serialize c \<and> d = c) + adm c) ren" "serialize d"
  shows "adm d = 0"
  using gate_invD [of serialize p "\<lambda>c. of_bool (serialize c \<and> d = c) + adm c" ren d] assms
  by (cases "map_of (wp_serial p) d") (simp_all add: gates_def gate_none gate_some)

lemma gates_begin:
  assumes g: "gates serialize p (\<lambda>c. of_bool (serialize c \<and> rt_content t = c) + adm c) ren" and le: "\<And>c. ren c \<le> adm c"
  shows "gates serialize (begin_render serialize t p) (\<lambda>c. of_bool (serialize c \<and> rt_content t = c) + adm c)
    (\<lambda>c. of_bool (serialize c \<and> rt_content t = c) + ren c)"
proof (cases "serialize (rt_content t)")
  case True
  have "ren (rt_content t) = 0" using holding_alone [OF g True] le [of "rt_content t"] by simp
  moreover have "ren(rt_content t := 1) = (\<lambda>c. of_bool (serialize c \<and> rt_content t = c) + ren c)"
    using calculation True by (auto simp: fun_eq_iff)
  ultimately show ?thesis
    using g True gate_begin_render [of serialize p "\<lambda>c. of_bool (serialize c \<and> rt_content t = c) + adm c" ren t]
    by (simp add: gates_def)
next
  case False
  then have "(\<lambda>c. of_bool (serialize c \<and> rt_content t = c) + ren c) = ren" by (auto simp: fun_eq_iff)
  then show ?thesis using g False by (simp add: begin_render_def Let_def)
qed

lemma gates_finish_worker:
  assumes g: "gates serialize p (\<lambda>c. of_bool (serialize c \<and> d = c) + adm c) (\<lambda>c. of_bool (serialize c \<and> d = c) + ren c)"
    and le: "\<And>c. ren c \<le> adm c" and d: "serialize d"
  shows "gates serialize (finish_worker d p) adm ren"
proof -
  let ?a = "\<lambda>c. of_bool (serialize c \<and> d = c) + adm c" and ?r = "\<lambda>c. of_bool (serialize c \<and> d = c) + ren c"
  have z: "adm d = 0" "ren d = 0" using holding_alone [OF g d] le [of d] by simp_all
  have "gate_inv serialize (finish_worker d p) (?a(d := 0)) (?r(d := 0))"
    by (rule gate_pass_worker) (use g d z in \<open>simp_all add: gates_def\<close>)
  moreover have "?a(d := 0) = adm" "?r(d := 0) = ren" using z by (auto simp: fun_eq_iff)
  ultimately show ?thesis using g by (simp add: gates_def)
qed

lemma gates_finish_inline:
  assumes g: "gates serialize p (\<lambda>c. of_bool (serialize c \<and> d = c) + adm c) (\<lambda>c. of_bool (serialize c \<and> d = c) + ren c)"
    and le: "\<And>c. ren c \<le> adm c" and d: "serialize d" and e: "finish_inline d p = (q, n)"
  shows "gates serialize q (if n = None then adm else (\<lambda>c. of_bool (serialize c \<and> d = c) + adm c)) ren"
    and "n = Some t \<Longrightarrow> rt_content t = d"
proof -
  let ?a = "\<lambda>c. of_bool (serialize c \<and> d = c) + adm c" and ?r = "\<lambda>c. of_bool (serialize c \<and> d = c) + ren c"
  have z: "adm d = 0" "ren d = 0" using holding_alone [OF g d] le [of d] by simp_all
  note k = gate_pass_inline [of serialize p ?a ?r d q n, OF _ d _ _ e]
  have "gate_inv serialize q (if n = None then ?a(d := ?a d - 1) else ?a) (?r(d := 0))"
    by (rule k) (use g d z in \<open>simp_all add: gates_def\<close>)
  moreover have "?a(d := ?a d - 1) = adm" "?r(d := 0) = ren" using z d by (auto simp: fun_eq_iff)
  moreover have "wp_max_in_flight q = wp_max_in_flight p"
    using e by (auto simp: finish_inline_def Let_def split: list.splits)
  ultimately have "gate_inv serialize q (if n = None then adm else ?a) ren" "wp_max_in_flight q \<le> 1"
    using g by (simp_all only: gates_def)
  then show "gates serialize q (if n = None then adm else ?a) ren" by (simp only: gates_def)
  show "n = Some t \<Longrightarrow> rt_content t = d" by (rule k(2)) (use g d z in \<open>simp_all add: gates_def\<close>)
qed

lemma max_purge_owner: "wp_max_in_flight (purge_owner ow p) = wp_max_in_flight p"
  by (simp add: purge_owner_def Let_def purge_work_def purge_ready_def purge_parked_def)

lemma gates_purge_owner:
  "gates serialize p adm ren \<Longrightarrow> (\<And>c. ren c \<le> adm c) \<Longrightarrow> gates serialize (purge_owner ow p) adm ren"
  using max_purge_owner [of ow p] gate_purge_owner [of serialize p adm ren ow] by (simp add: gates_def)

lemma gates_inline_gate:
  assumes g: "gates serialize p adm ren" and e: "inline_gate serialize t p = (q, run)"
  shows "gates serialize q (\<lambda>c. of_bool (run \<and> serialize c \<and> rt_content t = c) + adm c) ren"
proof -
  have "(if run \<and> serialize (rt_content t) then adm(rt_content t := adm (rt_content t) + 1) else adm) =
     (\<lambda>c. of_bool (run \<and> serialize c \<and> rt_content t = c) + adm c)" by (auto simp: fun_eq_iff)
  then show ?thesis using g inline_gate_kept [OF _ e, of adm ren] inline_gate_fields [OF e] by (simp add: gates_def)
qed

lemma take_work_ok: "take_work p = Some (q, th) \<Longrightarrow> thread_ok serialize th"
  by (rule take_work_cases) (auto simp: thread_ok_def)

lemma no_gate_weight: "\<not> serialize d \<Longrightarrow> (\<lambda>c. of_bool (serialize c \<and> d = c) + f c) = (f :: nat \<Rightarrow> nat)"
  by (auto simp: fun_eq_iff)

lemma gates_step:
  assumes step: "thread_step serialize workers settled p th = Some (q, th')"
    and g: "gates serialize p (\<lambda>c. holds serialize c th + adm c) (\<lambda>c. rends serialize c th + ren c)"
    and le: "\<And>c. ren c \<le> adm c" and ok: "thread_ok serialize th"
  shows "gates serialize q (\<lambda>c. holds serialize c th' + adm c) (\<lambda>c. rends serialize c th' + ren c) \<and> thread_ok serialize th'"
proof (cases th)
  case Waiting
  then have t: "take_work p = Some (q, th')" and g': "gates serialize p adm ren"
    using step g by (simp_all add: thread_step_def thread_weights)
  show ?thesis using gates_take_work [OF g' le t] take_work_ok [OF t] by simp
next
  case (Submitting t)
  have g': "gates serialize p adm ren" using g by (simp add: thread_weights Submitting)
  show ?thesis
  proof (cases "admit (rt_owner t) p")
    case None
    then show ?thesis using step g' Submitting by (simp add: thread_step_def thread_weights thread_ok_def)
  next
    case (Some q')
    have "gates serialize q' adm ren" by (rule gates_same [OF g']) (use admit_fields [OF Some] in blast)+
    then show ?thesis using step Submitting Some by (auto simp: thread_step_def thread_weights thread_ok_def)
  qed
next
  case (Enqueueing t)
  show ?thesis
  proof (cases "workers = 0")
    case True
    obtain q' run where e: "inline_gate serialize t p = (q', run)" by (cases "inline_gate serialize t p")
    show ?thesis using step g gates_inline_gate [of serialize p adm ren t, OF _ e] Enqueueing True e
      by (cases run) (auto simp: thread_step_def thread_weights thread_ok_def)
  next
    case False
    then show ?thesis using step g Enqueueing gates_enqueue [of serialize p adm ren, OF _ le]
      by (auto simp: thread_step_def thread_weights thread_ok_def)
  qed
next
  case (SubmittingWork ow)
  have g': "gates serialize p adm ren" using g by (simp add: thread_weights SubmittingWork)
  show ?thesis
  proof (cases "admit ow p")
    case None
    then show ?thesis using step g' SubmittingWork by (simp add: thread_step_def thread_weights thread_ok_def)
  next
    case (Some q')
    have "gates serialize q' adm ren" by (rule gates_same [OF g']) (use admit_fields [OF Some] in blast)+
    then show ?thesis using step SubmittingWork Some by (auto simp: thread_step_def thread_weights thread_ok_def)
  qed
next
  case (EnqueueingWork ow)
  have g': "gates serialize p adm ren" using g by (simp add: thread_weights EnqueueingWork)
  have "gates serialize (p\<lparr>wp_work := wp_work p @ [ow]\<rparr>) adm ren" by (rule gates_same [OF g']) simp_all
  then show ?thesis using step g' EnqueueingWork by (auto simp: thread_step_def thread_weights thread_ok_def split: if_splits)
next
  case (Took inl t)
  then show ?thesis using step g gates_begin [of serialize p t adm ren, OF _ le]
    by (auto simp: thread_step_def thread_weights thread_ok_def)
next
  case (Rendering inl t)
  then show ?thesis using step g by (auto simp: thread_step_def thread_weights thread_ok_def split: if_splits)
next
  case (Settled inl t)
  have "gates serialize (count_completed p) (\<lambda>c. holds serialize c th + adm c) (\<lambda>c. rends serialize c th + ren c)"
    by (rule gates_same [OF g]) (simp_all add: poke_def count_completed_def)
  then show ?thesis using step Settled
    by (auto simp: thread_step_def thread_weights thread_ok_def after_def)
next
  case (Poking inl t)
  have "gates serialize (poke p) (\<lambda>c. holds serialize c th + adm c) (\<lambda>c. rends serialize c th + ren c)"
    by (rule gates_same [OF g]) (simp_all add: poke_def count_completed_def)
  then show ?thesis using step Poking
    by (auto simp: thread_step_def thread_weights thread_ok_def after_def)
next
  case (Releasing inl t)
  have "gates serialize (release_outstanding (rt_owner t) p) (\<lambda>c. holds serialize c th + adm c) (\<lambda>c. rends serialize c th + ren c)"
    by (rule gates_same [OF g]) (simp_all add: poke_def count_completed_def)
  then show ?thesis using step Releasing
    by (auto simp: thread_step_def thread_weights thread_ok_def after_def no_gate_weight)
next
  case (Finishing inl c)
  have c: "serialize c" using ok Finishing by (simp add: thread_ok_def)
  show ?thesis
  proof (cases inl)
    case True
    obtain q' nx where e: "finish_inline c p = (q', nx)" by (cases "finish_inline c p")
    show ?thesis using step g gates_finish_inline [of serialize p c adm ren, OF _ le c e] Finishing True e
      by (cases nx) (auto simp: thread_step_def thread_weights thread_ok_def)
  next
    case False
    then show ?thesis using step g Finishing gates_finish_worker [of serialize p c adm ren, OF _ le c]
      by (auto simp: thread_step_def thread_weights thread_ok_def)
  qed
next
  case (JobSettled inl ow)
  have "gates serialize (count_completed p) (\<lambda>c. holds serialize c th + adm c) (\<lambda>c. rends serialize c th + ren c)"
    by (rule gates_same [OF g]) (simp_all add: poke_def count_completed_def)
  then show ?thesis using step JobSettled
    by (auto simp: thread_step_def thread_weights thread_ok_def after_def)
next
  case (JobPoking inl ow)
  have "gates serialize (poke p) (\<lambda>c. holds serialize c th + adm c) (\<lambda>c. rends serialize c th + ren c)"
    by (rule gates_same [OF g]) (simp_all add: poke_def count_completed_def)
  then show ?thesis using step JobPoking
    by (auto simp: thread_step_def thread_weights thread_ok_def after_def)
next
  case (JobReleasing inl ow)
  have "gates serialize (release_outstanding ow p) (\<lambda>c. holds serialize c th + adm c) (\<lambda>c. rends serialize c th + ren c)"
    by (rule gates_same [OF g]) (simp_all add: poke_def count_completed_def)
  then show ?thesis using step JobReleasing
    by (auto simp: thread_step_def thread_weights thread_ok_def after_def)
next
  case (Draining ow)
  then show ?thesis using step g gates_purge_owner [of serialize p adm ren, OF _ le]
    by (auto simp: thread_step_def thread_weights thread_ok_def)
qed (use step g in \<open>auto simp: thread_step_def thread_weights thread_ok_def split: if_splits\<close>)

subsection \<open>All threads\<close>

definition weigh :: "('a \<Rightarrow> thread \<Rightarrow> nat) \<Rightarrow> thread list \<Rightarrow> 'a \<Rightarrow> nat" where
  "weigh f ths x = sum_list (map (f x) ths)"

lemma weigh_split:
  "i < length ths \<Longrightarrow> weigh f ths x = f x (ths ! i) + weigh f (take i ths @ drop (Suc i) ths) x"
  by (simp add: weigh_def id_take_nth_drop [of i ths, THEN arg_cong [where f = "\<lambda>l. sum_list (map (f x) l)"]])

lemma weigh_update:
  "i < length ths \<Longrightarrow> weigh f (ths[i := th]) x = f x th + weigh f (take i ths @ drop (Suc i) ths) x"
  by (simp add: weigh_def upd_conv_take_nth_drop)

lemma weigh_snoc: "weigh f (ths @ [th]) x = f x th + weigh f ths x"
  by (simp add: weigh_def)

lemma weigh_mono: "(\<And>th. f x th \<le> g x th) \<Longrightarrow> weigh f ths x \<le> weigh g ths x"
  by (simp add: weigh_def sum_list_mono)

lemma weigh_zero: "weigh f ths x = 0 \<longleftrightarrow> (\<forall>th \<in> set ths. f x th = 0)"
  by (simp add: weigh_def)

definition sys_inv :: "(nat \<Rightarrow> bool) \<Rightarrow> pool_sys \<Rightarrow> bool" where
  "sys_inv serialize s \<longleftrightarrow>
     accounts (ps_pool s) (weigh owes (ps_threads s)) (ps_async s + weigh (\<lambda>_. uncounted) (ps_threads s) ()) \<and>
     gates serialize (ps_pool s) (weigh (holds serialize) (ps_threads s)) (weigh (rends serialize) (ps_threads s)) \<and>
     (\<forall>th \<in> set (ps_threads s). thread_ok serialize th)"

lemma caller_weights:
  "caller th \<Longrightarrow> owes x th = 0 \<and> holds serialize c th = 0 \<and> rends serialize c th = 0 \<and> uncounted th = 0 \<and> thread_ok serialize th"
  by (cases th) (simp_all add: caller_def thread_weights thread_ok_def)

lemma sys_inv_step:
  assumes inv: "sys_inv serialize s" and i: "i < length (ps_threads s)"
    and step: "thread_step serialize workers settled (ps_pool s) (ps_threads s ! i) = Some (p, th)"
  shows "sys_inv serialize (s\<lparr>ps_pool := p, ps_threads := (ps_threads s)[i := th],
      ps_async := ps_async s + async_of settled (ps_threads s ! i)\<rparr>)"
proof -
  let ?ths = "ps_threads s" and ?rest = "take i (ps_threads s) @ drop (Suc i) (ps_threads s)"
  have sp: "weigh f ?ths = (\<lambda>x. f x (?ths ! i) + weigh f ?rest x)" for f :: "nat \<Rightarrow> thread \<Rightarrow> nat"
    by (rule ext) (rule weigh_split [OF i])
  have a: "accounts (ps_pool s) (\<lambda>x. owes x (?ths ! i) + weigh owes ?rest x)
      (ps_async s + (uncounted (?ths ! i) + weigh (\<lambda>_. uncounted) ?rest ()))"
    using inv unfolding sys_inv_def sp weigh_split [OF i, of "\<lambda>_. uncounted" "()"] by (rule conjunct1)
  have g: "gates serialize (ps_pool s) (\<lambda>c. holds serialize c (?ths ! i) + weigh (holds serialize) ?rest c)
      (\<lambda>c. rends serialize c (?ths ! i) + weigh (rends serialize) ?rest c)"
    using inv unfolding sys_inv_def sp by blast
  have ok: "thread_ok serialize (?ths ! i)" using inv i by (simp add: sys_inv_def)
  have le: "weigh (rends serialize) ?rest c \<le> weigh (holds serialize) ?rest c" for c
    by (rule weigh_mono) (rule rends_le_holds)
  have "set (?ths[i := th]) \<subseteq> insert th (set ?ths)" by (rule set_update_subset_insert)
  moreover have "weigh owes (?ths[i := th]) = (\<lambda>x. owes x th + weigh owes ?rest x)"
    "weigh (holds serialize) (?ths[i := th]) = (\<lambda>c. holds serialize c th + weigh (holds serialize) ?rest c)"
    "weigh (rends serialize) (?ths[i := th]) = (\<lambda>c. rends serialize c th + weigh (rends serialize) ?rest c)"
    by (simp_all add: fun_eq_iff weigh_update [OF i])
  moreover note accounts_step [OF step a] gates_step [OF step g le ok]
  ultimately show ?thesis using inv weigh_update [OF i, of "\<lambda>_. uncounted" th "()"]
    by (auto simp: sys_inv_def)
qed

lemma sys_inv_start: "sys_inv serialize \<lparr>ps_pool = pool_new, ps_threads = replicate n Waiting, ps_async = 0\<rparr>"
proof -
  have z: "weigh f (replicate n Waiting) = (\<lambda>x. 0)" if "\<And>x. f x Waiting = 0" for f :: "'a \<Rightarrow> thread \<Rightarrow> nat"
    using that by (simp add: fun_eq_iff weigh_zero)
  have "accounts pool_new (\<lambda>x. 0) 0"
    by (simp add: accounts_def keys_inv_def out_inv_def ledger_inv_def outstanding_def queued_def parked_all_def pool_new_def)
  moreover have "gates serialize pool_new (\<lambda>x. 0) (\<lambda>x. 0)"
    by (simp add: gates_def gate_inv_def gate_of_def admitted_def pool_new_def)
  ultimately show ?thesis
    by (simp add: sys_inv_def z thread_weights thread_ok_def)
qed

lemma sys_inv_stop: "sys_inv serialize s \<Longrightarrow> sys_inv serialize (s\<lparr>ps_pool := request_stop (ps_pool s)\<rparr>)"
proof -
  have "accounts (request_stop p) r n" if "accounts p r n" for p r n
    by (rule accounts_same [OF that]) (simp_all add: request_stop_def keys_inv_def queued_def parked_all_def)
  moreover have "gates serialize (request_stop p) a r" if "gates serialize p a r" for p a r
  proof -
    have "gate_of serialize True e c n m" if "gate_of serialize st e c n m" for st e c n m
      using that by (cases e) (auto simp: gate_of_def)
    then show ?thesis using that unfolding gates_def gate_inv_def by (simp add: request_stop_def admitted_def) blast
  qed
  ultimately show "sys_inv serialize s \<Longrightarrow> ?thesis" by (simp add: sys_inv_def)
qed

lemma pool_run_inv: "pool_run serialize workers s \<Longrightarrow> sys_inv serialize s"
proof (induction rule: pool_run.induct)
  case start
  show ?case by (rule sys_inv_start)
next
  case (thread s i settled p th)
  show ?case by (rule sys_inv_step [OF thread.IH thread.hyps(2,3)])
next
  case (call s th)
  have "weigh f (ps_threads s @ [th]) = weigh f (ps_threads s)" if "\<And>x. f x th = 0" for f :: "nat \<Rightarrow> thread \<Rightarrow> nat"
    using that by (simp add: fun_eq_iff weigh_snoc)
  then show ?case using call caller_weights [OF call(2)] weigh_snoc [of "\<lambda>_. uncounted" "ps_threads s" th "()"]
    by (simp add: sys_inv_def)
next
  case (poke s)
  have "gates serialize (Worker_Pool.poke (ps_pool s)) a r" if "gates serialize (ps_pool s) a r" for a r
    by (rule gates_same [OF that]) (simp_all add: poke_def)
  then show ?case using poke.IH by (simp add: sys_inv_def accounts_poke)
next
  case (stop s)
  show ?case by (rule sys_inv_stop [OF stop.IH])
qed

subsection \<open>Schedules\<close>

datatype act = Step nat bool | Call thread | Poke | Stop

definition pool_do :: "(nat \<Rightarrow> bool) \<Rightarrow> nat \<Rightarrow> pool_sys \<Rightarrow> act \<Rightarrow> pool_sys option" where
  "pool_do serialize workers s a = (case a of
     Step i settled \<Rightarrow>
       if i < length (ps_threads s)
       then (case thread_step serialize workers settled (ps_pool s) (ps_threads s ! i) of
               None \<Rightarrow> None
             | Some (p, th) \<Rightarrow> Some (s\<lparr>ps_pool := p, ps_threads := (ps_threads s)[i := th],
                 ps_async := ps_async s + async_of settled (ps_threads s ! i)\<rparr>))
       else None
   | Call th \<Rightarrow> if caller th then Some (s\<lparr>ps_threads := ps_threads s @ [th]\<rparr>) else None
   | Poke \<Rightarrow> Some (s\<lparr>ps_pool := poke (ps_pool s)\<rparr>)
   | Stop \<Rightarrow> Some (s\<lparr>ps_pool := request_stop (ps_pool s)\<rparr>))"

fun pool_sched :: "(nat \<Rightarrow> bool) \<Rightarrow> nat \<Rightarrow> pool_sys \<Rightarrow> act list \<Rightarrow> pool_sys option" where
  "pool_sched serialize workers s [] = Some s"
| "pool_sched serialize workers s (a # as) =
     (case pool_do serialize workers s a of None \<Rightarrow> None | Some s' \<Rightarrow> pool_sched serialize workers s' as)"

definition pool_start :: "nat \<Rightarrow> pool_sys" where
  "pool_start workers = \<lparr>ps_pool = pool_new, ps_threads = replicate workers Waiting, ps_async = 0\<rparr>"

lemma pool_do_run: "pool_run serialize workers s \<Longrightarrow> pool_do serialize workers s a = Some s' \<Longrightarrow> pool_run serialize workers s'"
  by (cases a) (auto simp: pool_do_def split: if_splits option.splits
      intro: pool_run.thread pool_run.call pool_run.poke pool_run.stop)

lemma pool_sched_run:
  "pool_run serialize workers s \<Longrightarrow> pool_sched serialize workers s as = Some s' \<Longrightarrow> pool_run serialize workers s'"
  by (induction as arbitrary: s) (auto split: option.splits dest: pool_do_run)

lemma sched_run:
  "pool_sched serialize workers (pool_start workers) as = Some s \<Longrightarrow> pool_run serialize workers s"
  using pool_run.start [of serialize workers] by (auto simp: pool_start_def dest: pool_sched_run)

lemmas sched_eval = pool_do_def pool_start_def pool_new_def thread_step_def take_work_def admit_def
  claim_outstanding_def release_outstanding_def enqueue_def begin_render_def finish_worker_def serial_of_def
  fresh_serial_def set_serial_def erase_serial_def count_completed_def poke_def request_stop_def after_def
  async_of_def caller_def Let_def upd_conv_take_nth_drop

subsection \<open>Properties\<close>

text \<open>Inside \<open>content->render\<close> for the content.\<close>

definition in_render :: "nat \<Rightarrow> thread \<Rightarrow> bool" where
  "in_render c th = (case th of Rendering inl t \<Rightarrow> rt_content t = c | _ \<Rightarrow> False)"

lemma in_render_rends: "serialize c \<Longrightarrow> in_render c th \<Longrightarrow> rends serialize c th = 1"
  by (cases th) (simp_all add: in_render_def thread_weights)

lemma length_filter_weigh:
  "(\<And>th. P th \<Longrightarrow> 1 \<le> f x th) \<Longrightarrow> length (filter P ths) \<le> weigh f ths x"
proof (induction ths)
  case (Cons th ths)
  have "length (filter P ths) \<le> weigh f ths x" by (rule Cons.IH) (rule Cons.prems)
  then show ?case using Cons.prems [of th] by (cases "P th") (auto simp: weigh_def)
qed simp

lemma run_gate:
  assumes "pool_run serialize workers s"
  shows "gate_of serialize (wp_stop (ps_pool s)) (map_of (wp_serial (ps_pool s)) c) c
    (admitted (ps_pool s) c + weigh (holds serialize) (ps_threads s) c) (weigh (rends serialize) (ps_threads s) c)"
  using pool_run_inv [OF assms] by (simp add: sys_inv_def gates_def gate_inv_def)

text \<open>
  C26: however the workers, the submitters and the drains interleave, at most one thread is inside
  the render of a serialized content, and the high-water mark never passes one.
\<close>

theorem serialized_content_renders_alone:
  assumes "pool_run serialize workers s" and "serialize c"
  shows "length (filter (in_render c) (ps_threads s)) \<le> 1 \<and> wp_max_in_flight (ps_pool s) \<le> 1"
proof
  have "length (filter (in_render c) (ps_threads s)) \<le> weigh (rends serialize) (ps_threads s) c"
    by (rule length_filter_weigh) (simp add: in_render_rends assms(2))
  also have "\<dots> \<le> 1"
    using run_gate [OF assms(1), of c] assms(2) by (cases "map_of (wp_serial (ps_pool s)) c") (simp_all add: gate_none gate_some)
  finally show "length (filter (in_render c) (ps_threads s)) \<le> 1" .
  show "wp_max_in_flight (ps_pool s) \<le> 1" using pool_run_inv [OF assms(1)] by (simp add: sys_inv_def gates_def)
qed

text \<open>Two workers, two tasks of one serialized content: the first is rendering, the second parked.\<close>

definition two_submits :: "act list" where
  "two_submits = [Call (Submitting \<lparr>rt_content = 5, rt_owner = 7\<rparr>), Call (Submitting \<lparr>rt_content = 5, rt_owner = 8\<rparr>),
     Step 2 True, Step 3 True, Step 2 True, Step 3 True, Step 0 True, Step 0 True]"

definition two_submitted :: pool_sys where
  "two_submitted = \<lparr>ps_pool = \<lparr>wp_ready = [], wp_work = [],
       wp_serial = [(5, \<lparr>sr_active = True, sr_rendering = 1, sr_parked = [\<lparr>rt_content = 5, rt_owner = 8\<rparr>]\<rparr>)],
       wp_outstanding = [7 \<mapsto> 1, 8 \<mapsto> 1], wp_stop = False, wp_settle_gen = 0, wp_submitted = 2, wp_completed = 0,
       wp_dropped = 0, wp_max_in_flight = 1\<rparr>,
     ps_threads = [Rendering False \<lparr>rt_content = 5, rt_owner = 7\<rparr>, Waiting, Done, Done], ps_async = 0\<rparr>"

lemma two_submits_run: "pool_run (\<lambda>c. c = 5) 2 two_submitted"
  by (rule sched_run [of _ _ two_submits])
    (simp add: two_submits_def two_submitted_def sched_eval numeral_2_eq_2 fun_upd_twist)

theorem serialized_content_renders_alone_witness:
  "length (filter (in_render 5) (ps_threads two_submitted)) \<le> 1 \<and> wp_max_in_flight (ps_pool two_submitted) \<le> 1"
  by (rule serialized_content_renders_alone [OF two_submits_run]) simp

text \<open>
  C27: until stop, a parked task is never stranded: its content's gate is open for exactly one
  admitted task, queued or in a thread's hands, which will hand it on.
\<close>

theorem parked_task_has_a_holder:
  assumes "pool_run serialize workers s" and "\<not> wp_stop (ps_pool s)"
    and "map_of (wp_serial (ps_pool s)) c = Some g" and "t \<in> set (sr_parked g)"
  shows "rt_content t = c \<and> sr_active g \<and>
    length (filter (\<lambda>t. rt_content t = c) (wp_ready (ps_pool s))) + weigh (holds serialize) (ps_threads s) c = 1"
  using run_gate [OF assms(1), of c] assms(2-) by (simp add: gate_some admitted_def)

theorem parked_task_has_a_holder_witness:
  "length (filter (\<lambda>t. rt_content t = 5) (wp_ready (ps_pool two_submitted))) +
     weigh (holds (\<lambda>c. c = 5)) (ps_threads two_submitted) 5 = 1"
  using parked_task_has_a_holder [OF two_submits_run, of 5
      "\<lparr>sr_active = True, sr_rendering = 1, sr_parked = [\<lparr>rt_content = 5, rt_owner = 8\<rparr>]\<rparr>" "\<lparr>rt_content = 5, rt_owner = 8\<rparr>"]
  by (simp add: two_submitted_def)

lemma run_accounts:
  assumes "pool_run serialize workers s"
  shows "accounts (ps_pool s) (weigh owes (ps_threads s)) (ps_async s + weigh (\<lambda>_. uncounted) (ps_threads s) ())"
  using pool_run_inv [OF assms] by (simp add: sys_inv_def)

lemma idle_owner:
  assumes run: "pool_run serialize workers s" and idle: "wp_outstanding (ps_pool s) ow = None"
  shows "ow \<notin># queued (ps_pool s) \<and> (\<forall>th \<in> set (ps_threads s). owes ow th = 0)"
proof -
  have "outstanding (ps_pool s) ow = count (queued (ps_pool s)) ow + weigh owes (ps_threads s) ow"
    using run_accounts [OF run] by (simp add: accounts_def out_inv_def)
  then have "count (queued (ps_pool s)) ow = 0" "weigh owes (ps_threads s) ow = 0"
    using idle by (simp_all add: outstanding_def)
  then show ?thesis by (simp add: weigh_zero count_eq_zero_iff)
qed

text \<open>
  C28: when \<open>drain_owner\<close> returns, the pool no longer touches the owner's tasks: none is ready,
  parked or on the work lane, and no thread is between admitting one and returning from it.
\<close>

theorem drain_returns_with_nothing_left:
  assumes run: "pool_run serialize workers s" and i: "i < length (ps_threads s)" "ps_threads s ! i = DrainWait ow"
    and step: "thread_step serialize workers settled (ps_pool s) (DrainWait ow) = Some (p, Drained ow)"
  shows "p = ps_pool s \<and> (\<forall>t \<in> set (wp_ready p). rt_owner t \<noteq> ow) \<and>
    (\<forall>g \<in> snd ` set (wp_serial p). \<forall>t \<in> set (sr_parked g). rt_owner t \<noteq> ow) \<and> ow \<notin> set (wp_work p) \<and>
    (\<forall>th \<in> set (ps_threads s). owes ow th = 0)"
proof -
  have p: "p = ps_pool s" "wp_outstanding (ps_pool s) ow = None" using step by (auto simp: thread_step_def split: if_splits)
  have "ow \<notin># queued (ps_pool s)" "\<forall>th \<in> set (ps_threads s). owes ow th = 0" using idle_owner [OF run p(2)] by simp_all
  then show ?thesis by (fastforce simp: p(1) queued_def parked_all_def)
qed

lemma size_without: "size M = size (filter_mset (\<lambda>x. x \<noteq> a) M) + count M a"
  by (induction M) auto

text \<open>
  the purge of a drain drops exactly the owner's queued tasks and jobs: they are counted as
  dropped, every other task stays queued, and what the owner still has outstanding is what threads hold.
\<close>

theorem drain_purges_one_owner:
  assumes "pool_run serialize workers s"
  shows "queued (purge_owner ow (ps_pool s)) = filter_mset (\<lambda>x. x \<noteq> ow) (queued (ps_pool s)) \<and>
    wp_dropped (purge_owner ow (ps_pool s)) = wp_dropped (ps_pool s) + count (queued (ps_pool s)) ow \<and>
    (\<forall>x. outstanding (purge_owner ow (ps_pool s)) x =
       (if x = ow then weigh owes (ps_threads s) ow else outstanding (ps_pool s) x))"
proof -
  let ?p = "ps_pool s" and ?q = "purge_owner ow (ps_pool s)"
  have k: "keys_inv ?p" and o: "out_inv ?p (weigh owes (ps_threads s))"
    and l: "ledger_inv ?p (ps_async s + weigh (\<lambda>_. uncounted) (ps_threads s) ())"
    using run_accounts [OF assms] by (simp_all add: accounts_def)
  have q: "queued ?q = filter_mset (\<lambda>x. x \<noteq> ow) (queued ?p)" by (rule queued_purge_owner [OF k])
  have a: "out_inv ?q (weigh owes (ps_threads s))" "ledger_inv ?q (ps_async s + weigh (\<lambda>_. uncounted) (ps_threads s) ())"
    using purge_owner_accounts [OF k o l, of ow] by simp_all
  have f: "wp_submitted ?q = wp_submitted ?p" "wp_completed ?q = wp_completed ?p"
    by (simp_all add: purge_owner_def Let_def purge_work_def purge_ready_def purge_parked_def)
  have "size (queued ?p) = size (filter_mset (\<lambda>x. x \<noteq> ow) (queued ?p)) + count (queued ?p) ow"
    by (rule size_without)
  then have "wp_dropped ?q = wp_dropped ?p + count (queued ?p) ow"
    using l a(2) f by (simp add: ledger_inv_def q)
  moreover have "outstanding ?q x = (if x = ow then weigh owes (ps_threads s) ow else outstanding ?p x)" for x
    using o a(1) by (simp add: out_inv_def q)
  ultimately show ?thesis using q by simp
qed

text \<open>The steps a started task or job has left before its outstanding claim is released.\<close>

definition release_rank :: "thread \<Rightarrow> nat" where
  "release_rank th = (case th of
     Took inl t \<Rightarrow> 5 | Rendering inl t \<Rightarrow> 4 | Settled inl t \<Rightarrow> 3 | Poking inl t \<Rightarrow> 2 | Releasing inl t \<Rightarrow> 1
   | Job inl x \<Rightarrow> 4 | JobSettled inl x \<Rightarrow> 3 | JobPoking inl x \<Rightarrow> 2 | JobReleasing inl x \<Rightarrow> 1 | _ \<Rightarrow> 0)"

definition submitting :: "thread \<Rightarrow> bool" where
  "submitting th = (case th of Enqueueing t \<Rightarrow> True | EnqueueingWork x \<Rightarrow> True | _ \<Rightarrow> False)"

lemma started_progress:
  assumes "owes ow th \<noteq> 0" "\<not> submitting th"
  shows "\<exists>q th'. thread_step serialize workers settled p th = Some (q, th') \<and>
    (owes ow th' = 0 \<or> owes ow th' = owes ow th \<and> \<not> submitting th') \<and> (owes ow th' \<noteq> 0 \<longrightarrow> release_rank th' < release_rank th)"
  using assms by (cases th) (auto simp: thread_weights submitting_def thread_step_def release_rank_def after_def split: if_splits)

text \<open>
  C29: a drain is never stuck. In every reachable state, while it waits with nothing of its owner queued and no submitter of the
  owner inside the pool, some thread holds a started task or job of the owner, and whatever its
  completion does that thread can step: it releases the claim or comes one step nearer to it.
\<close>

theorem drain_is_never_stuck:
  assumes run: "pool_run serialize workers s" and i: "i < length (ps_threads s)" "ps_threads s ! i = DrainWait ow"
    and blocked: "thread_step serialize workers settled (ps_pool s) (DrainWait ow) = None"
    and quiet: "ow \<notin># queued (ps_pool s)" "\<forall>th \<in> set (ps_threads s). submitting th \<longrightarrow> owes ow th = 0"
  shows "\<exists>th \<in> set (ps_threads s). owes ow th \<noteq> 0 \<and>
    (\<forall>st. \<exists>q th'. thread_step serialize workers st (ps_pool s) th = Some (q, th') \<and>
       (owes ow th' \<noteq> 0 \<longrightarrow> release_rank th' < release_rank th))"
proof -
  have out: "wp_outstanding (ps_pool s) ow \<noteq> None" using blocked by (auto simp: thread_step_def split: if_splits)
  have nz: "wp_outstanding (ps_pool s) ow \<noteq> Some 0"
    and o: "outstanding (ps_pool s) ow = count (queued (ps_pool s)) ow + weigh owes (ps_threads s) ow"
    using run_accounts [OF run] by (simp_all add: accounts_def out_inv_def)
  have "weigh owes (ps_threads s) ow \<noteq> 0"
    using out nz o quiet(1) by (auto simp: outstanding_def not_in_iff)
  then obtain th where th: "th \<in> set (ps_threads s)" "owes ow th \<noteq> 0" by (auto simp: weigh_zero)
  then have ns: "\<not> submitting th" using bspec [OF quiet(2) th(1)] by simp
  have "\<exists>q th'. thread_step serialize workers st (ps_pool s) th = Some (q, th') \<and>
     (owes ow th' \<noteq> 0 \<longrightarrow> release_rank th' < release_rank th)" for st
    using started_progress [OF th(2) ns, of serialize workers st "ps_pool s"] by metis
  then show ?thesis using th by (intro bexI [of _ th]) simp_all
qed

text \<open>
  the ledger. In every reachable state each submission is completed, dropped, queued, in a thread's
  hands, or was returned unsettled by its render; the last the pool counts nowhere.
\<close>

theorem ledger_closes_over_async:
  assumes "pool_run serialize workers s"
  shows "wp_submitted (ps_pool s) = wp_completed (ps_pool s) + wp_dropped (ps_pool s) + size (queued (ps_pool s)) +
     sum_list (map uncounted (ps_threads s)) + ps_async s"
  using run_accounts [OF assms] by (simp add: accounts_def ledger_inv_def weigh_def)

text \<open>A render that returns with its completion unsettled, which a later \<open>poke\<close> settles off the pool.\<close>

definition async_render :: "act list" where
  "async_render = [Call (Submitting \<lparr>rt_content = 3, rt_owner = 7\<rparr>), Step 1 False, Step 1 False,
     Step 0 False, Step 0 False, Step 0 False, Step 0 False, Poke]"

definition async_rendered :: pool_sys where
  "async_rendered = \<lparr>ps_pool = pool_new\<lparr>wp_submitted := 1, wp_settle_gen := 1\<rparr>, ps_threads = [Waiting, Done], ps_async = 1\<rparr>"

lemma async_render_run: "pool_run (\<lambda>c. False) 1 async_rendered"
  by (rule sched_run [of _ _ async_render]) (simp add: async_render_def async_rendered_def sched_eval)

text \<open>
  with a content that settles off-thread the documented identity fails at quiescence: the task has
  been submitted, rendered and settled, nothing is outstanding or queued, and it is neither completed nor dropped.
\<close>

theorem async_settle_breaks_the_identity:
  "\<exists>s. pool_run (\<lambda>c. False) 1 s \<and> ps_threads s = [Waiting, Done] \<and> queued (ps_pool s) = {#} \<and>
     wp_outstanding (ps_pool s) = Map.empty \<and> wp_settle_gen (ps_pool s) = 1 \<and>
     wp_submitted (ps_pool s) = 1 \<and> wp_completed (ps_pool s) + wp_dropped (ps_pool s) = 0"
  by (rule exI [of _ async_rendered])
    (use async_render_run in \<open>simp add: async_rendered_def pool_new_def queued_def parked_all_def\<close>)

subsection \<open>Witnesses of the drain\<close>

text \<open>A drain while its owner's task renders, and after.\<close>

definition drain_script :: "act list" where
  "drain_script = [Call (Submitting \<lparr>rt_content = 3, rt_owner = 7\<rparr>), Step 1 True, Step 1 True, Step 0 True, Step 0 True,
     Call (Draining 7), Step 2 True]"

definition draining :: pool_sys where
  "draining = \<lparr>ps_pool = pool_new\<lparr>wp_submitted := 1, wp_outstanding := [7 \<mapsto> 1]\<rparr>,
     ps_threads = [Rendering False \<lparr>rt_content = 3, rt_owner = 7\<rparr>, Done, DrainWait 7], ps_async = 0\<rparr>"

definition drained :: pool_sys where
  "drained = \<lparr>ps_pool = pool_new\<lparr>wp_submitted := 1, wp_completed := 1, wp_settle_gen := 1\<rparr>,
     ps_threads = [Waiting, Done, DrainWait 7], ps_async = 0\<rparr>"

lemma draining_run: "pool_run (\<lambda>c. False) 1 draining"
  by (rule sched_run [of _ _ drain_script])
    (simp add: drain_script_def draining_def sched_eval purge_owner_def purge_parked_def purge_ready_def purge_work_def
      orphaned_gates_def parked_all_def drop_all_def)

lemma drained_run: "pool_run (\<lambda>c. False) 1 drained"
  by (rule pool_sched_run [OF draining_run, of "[Step 0 True, Step 0 True, Step 0 True, Step 0 True]"])
    (simp add: draining_def drained_def sched_eval)

theorem drain_is_never_stuck_witness:
  "list_ex (\<lambda>th. owes 7 th = 1 \<and> thread_step (\<lambda>c. False) 1 True (ps_pool draining) th \<noteq> None) (ps_threads draining)"
proof -
  have "\<exists>th \<in> set (ps_threads draining). owes 7 th \<noteq> 0 \<and>
    (\<forall>st. \<exists>q th'. thread_step (\<lambda>c. False) 1 st (ps_pool draining) th = Some (q, th') \<and>
       (owes 7 th' \<noteq> 0 \<longrightarrow> release_rank th' < release_rank th))"
    by (rule drain_is_never_stuck [OF draining_run, of 2 7 True])
      (simp_all add: draining_def thread_step_def queued_def parked_all_def pool_new_def submitting_def)
  then show ?thesis by (auto simp: draining_def thread_weights thread_step_def)
qed

theorem drain_returns_with_nothing_left_witness:
  "map (owes 7) (ps_threads drained) = [0, 0, 0] \<and> wp_ready (ps_pool drained) = []"
  using drain_returns_with_nothing_left [OF drained_run, of 2 7 True "ps_pool drained"]
  by (simp add: drained_def thread_step_def pool_new_def)

theorem drain_purges_one_owner_witness:
  "queued (purge_owner 8 (ps_pool two_submitted)) = {#}"
  using drain_purges_one_owner [OF two_submits_run, of 8]
  by (simp add: two_submitted_def queued_def parked_all_def)

theorem ledger_closes_over_async_witness:
  "wp_submitted (ps_pool async_rendered) = ps_async async_rendered"
  using ledger_closes_over_async [OF async_render_run]
  by (simp add: async_rendered_def pool_new_def queued_def parked_all_def thread_weights)

end
