(* ===== verification/Asset_Path.thy ===== *)
theory Asset_Path
  imports Prelude "HOL-Library.Char_ord"
begin

text \<open>
  \<open>serialize/load_context.hpp\<close> and \<open>serialize/load_context.cpp\<close>: the lexical resolution of references and the table
  of resolved identities of one load; and the lexical operations of \<open>std::filesystem::path\<close> on a POSIX system that
  the asset stores use. A path is its root flag and its elements, the last one empty when the path ends in a separator.
\<close>

subsection \<open>References\<close>

fun find_separator :: "string \<Rightarrow> nat \<Rightarrow> nat option" where
  "find_separator [] i = None"
| "find_separator (c # cs) i = (if take 3 (c # cs) = ''://'' then Some i else find_separator cs (i + 1))"

definition is_scheme_char :: "char \<Rightarrow> bool" where
  "is_scheme_char c \<longleftrightarrow> (CHR ''a'' \<le> c \<and> c \<le> CHR ''z'') \<or> (CHR ''A'' \<le> c \<and> c \<le> CHR ''Z'') \<or>
     (CHR ''0'' \<le> c \<and> c \<le> CHR ''9'') \<or> c = CHR ''+'' \<or> c = CHR ''-'' \<or> c = CHR ''.''"

definition has_scheme :: "string \<Rightarrow> bool" where
  "has_scheme s = (case find_separator s 0 of None \<Rightarrow> False
     | Some sep \<Rightarrow> if sep = 0 then False else list_all is_scheme_char (take sep s))"

definition push_segment :: "bool \<Rightarrow> string list \<Rightarrow> string \<Rightarrow> string list" where
  "push_segment absolute segments segment =
     (if segment = ''..'' then
        (if segments \<noteq> [] \<and> last segments \<noteq> ''..'' then butlast segments
         else if \<not> absolute then segments @ [segment] else segments)
      else if segment \<noteq> [] \<and> segment \<noteq> ''.'' then segments @ [segment]
      else segments)"

fun split_segments :: "string \<Rightarrow> string list" where
  "split_segments [] = [[]]"
| "split_segments (c # cs) = (if c = CHR ''/'' then [] # split_segments cs
     else case split_segments cs of [] \<Rightarrow> [[c]] | s # ss \<Rightarrow> (c # s) # ss)"

fun join_segments :: "string list \<Rightarrow> string" where
  "join_segments [] = []"
| "join_segments [x] = x"
| "join_segments (x # y # xs) = x @ CHR ''/'' # join_segments (y # xs)"

definition is_rooted :: "string \<Rightarrow> bool" where
  "is_rooted s \<longleftrightarrow> s \<noteq> [] \<and> hd s = CHR ''/''"

definition normalize_uri :: "string \<Rightarrow> string" where
  "normalize_uri uri =
     (if has_scheme uri then uri
      else let absolute = is_rooted uri;
               segments = foldl (push_segment absolute) [] (split_segments uri)
           in (if absolute then ''/'' else []) @ join_segments segments)"

definition directory_of :: "string \<Rightarrow> string" where
  "directory_of s = rev (dropWhile (\<lambda>c. c \<noteq> CHR ''/'') (rev s))"

definition resolve_uri :: "string \<Rightarrow> string \<Rightarrow> string" where
  "resolve_uri base_uri reference =
     (if has_scheme reference \<or> is_rooted reference then normalize_uri reference
      else normalize_uri (directory_of base_uri @ reference))"

subsection \<open>The table of one load\<close>

record load_context =
  lc_base_uri :: string
  lc_resolved :: "string list"
  lc_by_uri :: "string \<rightharpoonup> nat"

definition load_context_new :: "string \<Rightarrow> load_context" where
  "load_context_new base = \<lparr>lc_base_uri = normalize_uri base, lc_resolved = [], lc_by_uri = Map.empty\<rparr>"

definition resolve :: "string \<Rightarrow> load_context \<Rightarrow> load_context \<times> nat" where
  "resolve reference ctx =
     (let uri = resolve_uri (lc_base_uri ctx) reference
      in case lc_by_uri ctx uri of
           Some index \<Rightarrow> (ctx, index)
         | None \<Rightarrow>
             (let index = length (lc_resolved ctx)
              in (ctx\<lparr>lc_resolved := lc_resolved ctx @ [uri], lc_by_uri := (lc_by_uri ctx)(uri \<mapsto> index)\<rparr>, index)))"

text \<open>The bytes the continuation is called with; a source that is not installed answers with none.\<close>

definition load_asset :: "(string \<Rightarrow> 'b list) option \<Rightarrow> load_context \<Rightarrow> nat \<Rightarrow> 'b list" where
  "load_asset source ctx index =
     (case source of Some request \<Rightarrow> request (lc_resolved ctx ! index) | None \<Rightarrow> [])"

subsection \<open>Paths\<close>

record fpath =
  fp_abs :: bool
  fp_elems :: "string list"

definition path_of_string :: "string \<Rightarrow> fpath" where
  "path_of_string s =
     (let names = filter (\<lambda>n. n \<noteq> []) (split_segments s)
      in \<lparr>fp_abs = is_rooted s, fp_elems = names @ (if names \<noteq> [] \<and> last (split_segments s) = [] then [[]] else [])\<rparr>)"

definition generic_string :: "fpath \<Rightarrow> string" where
  "generic_string p = (if fp_abs p then ''/'' else []) @ join_segments (fp_elems p)"

definition without_trailing :: "string list \<Rightarrow> string list" where
  "without_trailing es = (if es \<noteq> [] \<and> last es = [] then butlast es else es)"

definition path_append :: "fpath \<Rightarrow> fpath \<Rightarrow> fpath" where
  "path_append p q =
     (if fp_abs q then q
      else \<lparr>fp_abs = fp_abs p, fp_elems =
        (let es = without_trailing (fp_elems p)
         in es @ (if fp_elems q = [] then (if es = [] then [] else [[]]) else fp_elems q))\<rparr>)"

definition filename :: "fpath \<Rightarrow> string" where
  "filename p = (if fp_elems p = [] then [] else last (fp_elems p))"

definition extension :: "fpath \<Rightarrow> string" where
  "extension p =
     (let n = filename p; stem = rev (tl (dropWhile (\<lambda>c. c \<noteq> CHR ''.'') (rev n)))
      in if n = ''.'' \<or> n = ''..'' \<or> CHR ''.'' \<notin> set n \<or> stem = [] then [] else drop (length stem) n)"

definition parent_path :: "fpath \<Rightarrow> fpath" where
  "parent_path p = p\<lparr>fp_elems := butlast (fp_elems p)\<rparr>"

definition normal_elems :: "fpath \<Rightarrow> string list" where
  "normal_elems p = foldl (push_segment (fp_abs p)) [] (fp_elems p)"

definition lexically_normal :: "fpath \<Rightarrow> fpath" where
  "lexically_normal p =
     (if fp_elems p = [] then p
      else let ns = normal_elems p
           in p\<lparr>fp_elems :=
                if ns = [] then (if fp_abs p then [] else [''.''])
                else ns @ (if last (fp_elems p) \<in> {[], ''.'', ''..''} \<and> last ns \<noteq> ''..'' then [[]] else [])\<rparr>)"

fun drop_common :: "string list \<Rightarrow> string list \<Rightarrow> string list \<times> string list" where
  "drop_common (a # as) (b # bs) = (if a = b then drop_common as bs else (a # as, b # bs))"
| "drop_common as bs = (as, bs)"

definition lexically_relative :: "fpath \<Rightarrow> fpath \<Rightarrow> fpath" where
  "lexically_relative p base =
     (if fp_abs p \<noteq> fp_abs base then \<lparr>fp_abs = False, fp_elems = []\<rparr>
      else let (a, b) = drop_common (fp_elems p) (fp_elems base);
               ups = length (filter (\<lambda>e. e = ''..'') b);
               downs = length (filter (\<lambda>e. e \<notin> {[], ''.'', ''..''}) b)
           in \<lparr>fp_abs = False, fp_elems =
                if a = [] \<and> b = [] then [''.'']
                else if downs < ups then []
                else if downs = ups \<and> (a = [] \<or> hd a = []) then [''.'']
                else replicate (downs - ups) ''..'' @ a\<rparr>)"

subsection \<open>Segments\<close>

definition proper :: "string \<Rightarrow> bool" where
  "proper n \<longleftrightarrow> n \<noteq> [] \<and> n \<noteq> ''.'' \<and> n \<noteq> ''..'' \<and> CHR ''/'' \<notin> set n"

definition is_normal :: "bool \<Rightarrow> string list \<Rightarrow> bool" where
  "is_normal absolute ss \<longleftrightarrow> (\<exists>k ns. ss = replicate k ''..'' @ ns \<and> list_all proper ns \<and> (absolute \<longrightarrow> k = 0))"

lemma split_not_empty [simp]: "split_segments u \<noteq> []"
  by (induction u) (simp_all split: list.split)

lemma split_slashless: "s \<in> set (split_segments u) \<Longrightarrow> CHR ''/'' \<notin> set s"
  by (induction u arbitrary: s) (auto split: list.splits if_splits)

lemma split_at_slash: "split_segments (x @ CHR ''/'' # y) = split_segments x @ split_segments y"
  by (induction x) (auto split: list.splits)

lemma split_slashless_id: "CHR ''/'' \<notin> set s \<Longrightarrow> split_segments s = [s]"
  by (induction s) auto

lemma split_join: "ss \<noteq> [] \<Longrightarrow> \<forall>s \<in> set ss. CHR ''/'' \<notin> set s \<Longrightarrow> split_segments (join_segments ss) = ss"
  by (induction ss rule: join_segments.induct) (simp_all add: split_slashless_id split_at_slash)

lemma join_Cons: "ss \<noteq> [] \<Longrightarrow> join_segments (s # ss) = s @ CHR ''/'' # join_segments ss"
  by (cases ss) simp_all

lemma join_append: "xs \<noteq> [] \<Longrightarrow> ys \<noteq> [] \<Longrightarrow> join_segments (xs @ ys) = join_segments xs @ CHR ''/'' # join_segments ys"
  by (induction xs rule: join_segments.induct) (simp_all add: join_Cons)

lemma normal_slashless: "is_normal absolute ss \<Longrightarrow> s \<in> set ss \<Longrightarrow> CHR ''/'' \<notin> set s \<and> s \<noteq> [] \<and> s \<noteq> ''.''"
proof -
  assume a: "is_normal absolute ss" "s \<in> set ss"
  then consider "s = ''..''" | "proper s" unfolding is_normal_def list_all_iff by fastforce
  then show ?thesis by cases (simp_all add: proper_def)
qed

lemma normal_snoc_proper: "is_normal absolute ss \<Longrightarrow> proper s \<Longrightarrow> is_normal absolute (ss @ [s])"
proof -
  assume a: "is_normal absolute ss" "proper s"
  then obtain k ns where "ss = replicate k ''..'' @ ns" "list_all proper ns" "absolute \<longrightarrow> k = 0"
    unfolding is_normal_def by blast
  then have "ss @ [s] = replicate k ''..'' @ (ns @ [s]) \<and> list_all proper (ns @ [s]) \<and> (absolute \<longrightarrow> k = 0)"
    using a(2) by simp
  then show ?thesis unfolding is_normal_def by blast
qed

lemma normal_butlast:
  assumes "is_normal absolute ss" "ss \<noteq> []" "last ss \<noteq> ''..''"
  shows "is_normal absolute (butlast ss)"
proof -
  from assms(1) obtain k ns where s: "ss = replicate k ''..'' @ ns" "list_all proper ns" "absolute \<longrightarrow> k = 0"
    unfolding is_normal_def by blast
  have "ns \<noteq> []"
  proof
    assume "ns = []"
    then have "last ss \<in> set (replicate k ''..'')" using assms(2) s(1) last_in_set [of ss] by simp
    then show False using assms(3) by simp
  qed
  then have "butlast ss = replicate k ''..'' @ butlast ns" using s(1) by (simp add: butlast_append)
  moreover have "list_all proper (butlast ns)" using s(2) by (auto simp: list_all_iff dest: in_set_butlastD)
  ultimately show ?thesis using s(3) unfolding is_normal_def by blast
qed

lemma push_normal:
  assumes "is_normal absolute ss" "CHR ''/'' \<notin> set s"
  shows "is_normal absolute (push_segment absolute ss s)"
proof (cases "s = ''..''")
  case dd: True
  show ?thesis
  proof (cases "ss \<noteq> [] \<and> last ss \<noteq> ''..''")
    case True
    then show ?thesis using normal_butlast [OF assms(1)] dd by (simp add: push_segment_def)
  next
    case False
    have "is_normal False (ss @ [''..''])" if "\<not> absolute"
    proof -
      from assms(1) that obtain k ns where s: "ss = replicate k ''..'' @ ns" "list_all proper ns"
        unfolding is_normal_def by blast
      have "ns = []"
      proof (rule ccontr)
        assume n: "ns \<noteq> []"
        then have "proper (last ss)" using s by (simp add: list_all_iff)
        then show False using False n s(1) by (simp add: proper_def)
      qed
      then have "ss @ [''..''] = replicate (Suc k) ''..'' @ []" using s(1) by (simp add: replicate_append_same)
      then show ?thesis unfolding is_normal_def by (intro exI [of _ "Suc k"] exI [of _ "[]"]) simp
    qed
    then show ?thesis using False dd assms(1) by (cases absolute) (auto simp: push_segment_def)
  qed
next
  case False
  then show ?thesis using assms normal_snoc_proper by (simp add: push_segment_def proper_def)
qed

lemma fold_normal:
  "is_normal absolute acc \<Longrightarrow> \<forall>s \<in> set ss. CHR ''/'' \<notin> set s \<Longrightarrow> is_normal absolute (foldl (push_segment absolute) acc ss)"
  by (induction ss arbitrary: acc) (simp_all add: push_normal)

lemma normal_Nil [simp]: "is_normal absolute []"
  by (simp add: is_normal_def)

lemma proper_normal: "list_all proper ns \<Longrightarrow> is_normal absolute ns"
  unfolding is_normal_def by (intro exI [of _ 0] exI [of _ ns]) simp

lemma fold_proper: "list_all proper ns \<Longrightarrow> foldl (push_segment absolute) acc ns = acc @ ns"
  by (induction ns arbitrary: acc) (simp_all add: push_segment_def proper_def)

lemma fold_ups: "foldl (push_segment False) (replicate j ''..'') (replicate k ''..'') = replicate (j + k) ''..''"
proof (induction k arbitrary: j)
  case (Suc k)
  have "push_segment False (replicate j ''..'') ''..'' = replicate (Suc j) ''..''"
    by (cases j) (simp_all add: push_segment_def replicate_append_same)
  then show ?case using Suc.IH [of "Suc j"] by simp
qed simp

lemma fold_normal_id: "is_normal absolute ss \<Longrightarrow> foldl (push_segment absolute) [] ss = ss"
  using fold_ups [of 0] by (auto simp: is_normal_def fold_proper)

lemma push_empty [simp]: "push_segment absolute ss [] = ss"
  by (simp add: push_segment_def)

subsection \<open>Resolved references\<close>

lemma find_separator_Some: "find_separator u i = Some j \<Longrightarrow> \<exists>a b. u = a @ ''://'' @ b"
proof (induction u i rule: find_separator.induct)
  case (2 c cs i)
  show ?case
  proof (cases "take 3 (c # cs) = ''://''")
    case True
    then have "c # cs = [] @ ''://'' @ drop 3 (c # cs)" by (metis append_Nil append_take_drop_id)
    then show ?thesis by blast
  next
    case False
    then obtain a b where "cs = a @ ''://'' @ b" using 2 by auto
    then have "c # cs = (c # a) @ ''://'' @ b" by simp
    then show ?thesis by blast
  qed
qed simp

lemma scheme_has_gap:
  assumes "has_scheme u"
  shows "\<exists>xs ys. split_segments u = xs @ [] # ys \<and> xs \<noteq> [] \<and> ys \<noteq> []"
proof -
  obtain a b where u: "u = a @ ''://'' @ b" using assms find_separator_Some by (fastforce simp: has_scheme_def split: option.splits)
  have "split_segments u = split_segments (a @ '':'') @ [] # split_segments b"
    using split_at_slash [of "a @ '':''" "CHR ''/'' # b"] u by simp
  then show ?thesis
    by (intro exI [of _ "split_segments (a @ '':'')"] exI [of _ "split_segments b"]) simp
qed

definition uri_of :: "bool \<Rightarrow> string list \<Rightarrow> string" where
  "uri_of absolute ss = (if absolute then ''/'' else []) @ join_segments ss"

lemma join_not_rooted: "is_normal a ss \<Longrightarrow> \<not> is_rooted (join_segments ss)"
proof (cases ss)
  case (Cons s ss')
  assume "is_normal a ss"
  then have "s \<noteq> []" "hd s \<noteq> CHR ''/''" using normal_slashless [of a ss s] Cons hd_in_set by fastforce+
  then show ?thesis using Cons by (cases ss') (auto simp: is_rooted_def)
qed (simp add: is_rooted_def)

lemma uri_of_rooted: "is_normal absolute ss \<Longrightarrow> is_rooted (uri_of absolute ss) = absolute"
  using join_not_rooted [of absolute ss] by (simp add: uri_of_def) (simp add: is_rooted_def)

lemma uri_of_split:
  assumes "is_normal absolute ss"
  shows "split_segments (uri_of absolute ss) = (if absolute then [[]] else []) @ (if ss = [] then [[]] else ss)"
proof -
  have "split_segments (join_segments ss) = (if ss = [] then [[]] else ss)"
    using split_join [of ss] normal_slashless [OF assms] by auto
  then show ?thesis by (simp add: uri_of_def)
qed

lemma uri_of_schemeless:
  assumes "is_normal absolute ss"
  shows "\<not> has_scheme (uri_of absolute ss)"
proof
  assume "has_scheme (uri_of absolute ss)"
  then obtain xs ys where x: "split_segments (uri_of absolute ss) = xs @ [] # ys" "xs \<noteq> []" "ys \<noteq> []"
    using scheme_has_gap by blast
  have ne: "[] \<notin> set ss" using normal_slashless [OF assms] by blast
  show False
  proof (cases absolute)
    case True
    then have e: "[] # (if ss = [] then [[]] else ss) = xs @ [] # ys" using x(1) uri_of_split [OF assms] by simp
    obtain x' xs' where "xs = x' # xs'" using x(2) by (cases xs) auto
    then have "(if ss = [] then [[]] else ss) = xs' @ [] # ys" using e by simp
    then show False using ne x(3) by (cases "ss = []") (auto simp: Cons_eq_append_conv)
  next
    case False
    then have "(if ss = [] then [[]] else ss) = xs @ [] # ys" using x(1) uri_of_split [OF assms] by simp
    then show False using ne x(2,3) by (cases "ss = []") (auto simp: Cons_eq_append_conv)
  qed
qed

lemma normalize_uri_shape:
  assumes "\<not> has_scheme u"
  shows "\<exists>ss. is_normal (is_rooted u) ss \<and> normalize_uri u = uri_of (is_rooted u) ss"
proof -
  have "is_normal (is_rooted u) (foldl (push_segment (is_rooted u)) [] (split_segments u))"
    by (rule fold_normal) (use split_slashless in auto)
  then show ?thesis using assms by (auto simp: normalize_uri_def uri_of_def Let_def)
qed

lemma normalize_uri_of:
  assumes "is_normal absolute ss"
  shows "normalize_uri (uri_of absolute ss) = uri_of absolute ss"
proof -
  have "foldl (push_segment absolute) [] (split_segments (uri_of absolute ss)) = ss"
    using fold_normal_id [OF assms] unfolding uri_of_split [OF assms] by (cases absolute; cases "ss = []") simp_all
  then have "normalize_uri (uri_of absolute ss) = (if absolute then ''/'' else []) @ join_segments ss"
    unfolding normalize_uri_def Let_def uri_of_rooted [OF assms] using uri_of_schemeless [OF assms] by simp
  then show ?thesis unfolding uri_of_def .
qed

lemma normalize_idem: "normalize_uri (normalize_uri u) = normalize_uri u"
proof (cases "has_scheme u")
  case False
  then show ?thesis using normalize_uri_shape [OF False] normalize_uri_of by metis
qed (simp add: normalize_uri_def)

lemma resolve_uri_normal: "normalize_uri (resolve_uri base r) = resolve_uri base r"
  by (simp add: resolve_uri_def normalize_idem)

fun resolve_all :: "string list \<Rightarrow> load_context \<Rightarrow> load_context \<times> nat list" where
  "resolve_all [] ctx = (ctx, [])"
| "resolve_all (r # rs) ctx =
     (let (ctx, h) = resolve r ctx; (ctx, hs) = resolve_all rs ctx in (ctx, h # hs))"

definition context_ok :: "load_context \<Rightarrow> bool" where
  "context_ok ctx \<longleftrightarrow> distinct (lc_resolved ctx) \<and> (\<forall>u. normalize_uri u \<noteq> u \<longrightarrow> u \<notin> set (lc_resolved ctx)) \<and>
     (\<forall>u i. lc_by_uri ctx u = Some i \<longleftrightarrow> i < length (lc_resolved ctx) \<and> lc_resolved ctx ! i = u)"

lemma resolve_step:
  assumes "context_ok ctx" "resolve r ctx = (ctx', h)"
  shows "context_ok ctx' \<and> h < length (lc_resolved ctx') \<and> lc_resolved ctx' ! h = resolve_uri (lc_base_uri ctx) r \<and>
    lc_base_uri ctx' = lc_base_uri ctx \<and> (\<exists>ext. lc_resolved ctx' = lc_resolved ctx @ ext) \<and>
    set (lc_resolved ctx') = insert (resolve_uri (lc_base_uri ctx) r) (set (lc_resolved ctx))"
proof (cases "lc_by_uri ctx (resolve_uri (lc_base_uri ctx) r)")
  case (Some i)
  then have c: "ctx' = ctx" "h = i" using assms(2) by (simp_all add: resolve_def Let_def)
  have "i < length (lc_resolved ctx) \<and> lc_resolved ctx ! i = resolve_uri (lc_base_uri ctx) r"
    using assms(1) Some unfolding context_ok_def by blast
  moreover from this have "resolve_uri (lc_base_uri ctx) r \<in> set (lc_resolved ctx)" by (metis nth_mem)
  ultimately show ?thesis using assms(1) unfolding c by auto
next
  case None
  let ?u = "resolve_uri (lc_base_uri ctx) r"
  have new: "?u \<notin> set (lc_resolved ctx)"
  proof
    assume "?u \<in> set (lc_resolved ctx)"
    then obtain i where "i < length (lc_resolved ctx)" "lc_resolved ctx ! i = ?u" unfolding in_set_conv_nth by blast
    then have "lc_by_uri ctx ?u = Some i" using assms(1) unfolding context_ok_def by blast
    then show False using None by simp
  qed
  have c: "ctx' = ctx\<lparr>lc_resolved := lc_resolved ctx @ [?u], lc_by_uri := (lc_by_uri ctx)(?u \<mapsto> length (lc_resolved ctx))\<rparr>"
    "h = length (lc_resolved ctx)"
    using assms(2) None by (auto simp: resolve_def Let_def)
  have "((lc_by_uri ctx)(?u \<mapsto> length (lc_resolved ctx))) u = Some i \<longleftrightarrow>
      i < length (lc_resolved ctx @ [?u]) \<and> (lc_resolved ctx @ [?u]) ! i = u" for u i
  proof (cases "u = ?u")
    case True
    have "(lc_resolved ctx @ [?u]) ! i = ?u \<longleftrightarrow> i = length (lc_resolved ctx)" if "i < length (lc_resolved ctx @ [?u])"
    proof (cases "i < length (lc_resolved ctx)")
      case True
      then have "lc_resolved ctx ! i \<noteq> ?u" using new by (metis nth_mem)
      then show ?thesis using True by (simp add: nth_append)
    qed (use that in \<open>simp add: nth_append\<close>)
    then show ?thesis using True by auto
  next
    case False
    then have "((lc_by_uri ctx)(?u \<mapsto> length (lc_resolved ctx))) u = Some i \<longleftrightarrow> i < length (lc_resolved ctx) \<and> lc_resolved ctx ! i = u"
      using assms(1) by (simp add: context_ok_def)
    then show ?thesis using False by (auto simp: nth_append less_Suc_eq)
  qed
  moreover have "normalize_uri u \<noteq> u \<longrightarrow> u \<notin> set (lc_resolved ctx @ [?u])" for u
    using assms(1) resolve_uri_normal [of "lc_base_uri ctx" r] unfolding context_ok_def by auto
  ultimately have "context_ok ctx'" using assms(1) new unfolding c(1) context_ok_def by simp
  then show ?thesis unfolding c by simp
qed

lemma resolve_all_ok:
  assumes "context_ok ctx" "resolve_all rs ctx = (ctx', hs)"
  shows "context_ok ctx' \<and> lc_base_uri ctx' = lc_base_uri ctx \<and> (\<exists>ext. lc_resolved ctx' = lc_resolved ctx @ ext) \<and>
    list_all (\<lambda>h. h < length (lc_resolved ctx')) hs \<and>
    map ((!) (lc_resolved ctx')) hs = map (resolve_uri (lc_base_uri ctx)) rs \<and>
    set (lc_resolved ctx') = set (lc_resolved ctx) \<union> resolve_uri (lc_base_uri ctx) ` set rs"
  using assms
proof (induction rs arbitrary: ctx hs)
  case (Cons r rs)
  obtain c1 h where 1: "resolve r ctx = (c1, h)" by (cases "resolve r ctx")
  obtain c2 hs' where 2: "resolve_all rs c1 = (c2, hs')" by (cases "resolve_all rs c1")
  have eq: "ctx' = c2" "hs = h # hs'" using Cons.prems(2) 1 2 by simp_all
  note 2 = 2 [folded eq(1)]
  note s = resolve_step [OF Cons.prems(1) 1]
  then have "context_ok c1" by blast
  note ih = Cons.IH [OF this 2]
  obtain ext where e: "lc_resolved ctx' = lc_resolved c1 @ ext" using ih by blast
  then have "h < length (lc_resolved ctx') \<and> lc_resolved ctx' ! h = resolve_uri (lc_base_uri ctx) r"
    using s by (simp add: nth_append)
  moreover have "\<exists>ext. lc_resolved ctx' = lc_resolved ctx @ ext" using s e by auto
  ultimately show ?case using s ih unfolding eq(2) by (simp add: Un_assoc)
qed simp

text \<open>
  the table of a load keys references by their resolved identity. After resolving any references against a fresh
  context, the handles read back exactly the resolved URIs, the table holds each of them once, so that two references
  share a handle exactly when they resolve to the same URI, and every entry is its own normal form.
\<close>

theorem references_dedup_by_identity:
  "case resolve_all rs (load_context_new base) of (ctx, hs) \<Rightarrow>
     map ((!) (lc_resolved ctx)) hs = map (resolve_uri (normalize_uri base)) rs \<and>
     list_all (\<lambda>h. h < length (lc_resolved ctx)) hs \<and>
     distinct (lc_resolved ctx) \<and>
     set (lc_resolved ctx) = resolve_uri (normalize_uri base) ` set rs \<and>
     map normalize_uri (lc_resolved ctx) = lc_resolved ctx"
proof -
  obtain ctx hs where r: "resolve_all rs (load_context_new base) = (ctx, hs)" by (cases "resolve_all rs (load_context_new base)")
  have "context_ok (load_context_new base)" by (simp add: context_ok_def load_context_new_def)
  note a = resolve_all_ok [OF this r]
  then have "\<forall>u \<in> set (lc_resolved ctx). normalize_uri u = u" unfolding context_ok_def by blast
  then have "map normalize_uri (lc_resolved ctx) = lc_resolved ctx" by (simp add: map_idI)
  then show ?thesis using a unfolding r by (simp add: load_context_new_def context_ok_def)
qed

subsection \<open>Paths of normal references\<close>

lemma path_of_uri:
  assumes "is_normal absolute ss"
  shows "path_of_string (uri_of absolute ss) = \<lparr>fp_abs = absolute, fp_elems = ss\<rparr>"
proof -
  have ne: "filter (\<lambda>n. n \<noteq> []) ss = ss" using normal_slashless [OF assms] by (auto simp: filter_id_conv)
  have "last (split_segments (uri_of absolute ss)) \<noteq> []" if "ss \<noteq> []"
    using that normal_slashless [OF assms, of "last ss"] unfolding uri_of_split [OF assms] by simp
  moreover have "filter (\<lambda>n. n \<noteq> []) (split_segments (uri_of absolute ss)) = ss"
    unfolding uri_of_split [OF assms] by (cases "ss = []") (simp_all add: ne)
  ultimately show ?thesis unfolding path_of_string_def Let_def uri_of_rooted [OF assms] by (cases "ss = []") simp_all
qed

lemma uri_of_nonempty:
  assumes "is_normal absolute ss" "ss \<noteq> []"
  shows "uri_of absolute ss \<noteq> []"
proof -
  obtain x xs where "ss = x # xs" using assms(2) by (cases ss) auto
  moreover from this have "x \<noteq> []" using normal_slashless [OF assms(1)] by simp
  ultimately show ?thesis by (cases xs) (simp_all add: uri_of_def)
qed

lemma path_of_uri_trailing:
  assumes "is_normal absolute ss" "ss \<noteq> []"
  shows "path_of_string (uri_of absolute ss @ ''/'') = \<lparr>fp_abs = absolute, fp_elems = ss @ [[]]\<rparr>"
proof -
  have s: "split_segments (uri_of absolute ss @ ''/'') = (if absolute then [[]] else []) @ ss @ [[]]"
    using split_at_slash [of "uri_of absolute ss" "[]"] uri_of_split [OF assms(1)] assms(2) by simp
  have "is_rooted (uri_of absolute ss @ ''/'') = absolute"
    using uri_of_rooted [OF assms(1)] uri_of_nonempty [OF assms] by (simp add: is_rooted_def)
  moreover have "filter (\<lambda>n. n \<noteq> []) ss = ss" using normal_slashless [OF assms(1)] by (auto simp: filter_id_conv)
  ultimately show ?thesis using assms(2) unfolding path_of_string_def Let_def by (simp add: s)
qed

lemma generic_uri: "generic_string \<lparr>fp_abs = absolute, fp_elems = ss\<rparr> = uri_of absolute ss"
  by (simp add: generic_string_def uri_of_def)

lemma lexically_normal_id:
  assumes "list_all proper ns" "ns \<noteq> []"
  shows "lexically_normal \<lparr>fp_abs = absolute, fp_elems = ns\<rparr> = \<lparr>fp_abs = absolute, fp_elems = ns\<rparr>"
proof -
  have "proper (last ns)" using assms by (simp add: list_all_iff)
  then have "last ns \<notin> {[], ''.'', ''..''}" by (simp add: proper_def)
  then show ?thesis using assms fold_proper [OF assms(1), of absolute "[]"]
    by (simp add: lexically_normal_def normal_elems_def)
qed

lemma drop_common_append: "drop_common (xs @ ys) xs = (ys, [])"
  by (induction xs) (cases ys, simp_all)

lemma lexically_relative_below:
  assumes "ns \<noteq> []" "hd ns \<noteq> []"
  shows "lexically_relative \<lparr>fp_abs = a, fp_elems = rs @ ns\<rparr> \<lparr>fp_abs = a, fp_elems = rs\<rparr> = \<lparr>fp_abs = False, fp_elems = ns\<rparr>"
  using assms by (simp add: lexically_relative_def drop_common_append)

lemma directory_of_uri:
  assumes "CHR ''/'' \<notin> set d"
  shows "directory_of (uri_of absolute (ds @ [d])) = (if ds = [] then if absolute then ''/'' else [] else uri_of absolute ds @ ''/'')"
proof -
  have "uri_of absolute (ds @ [d]) = (if ds = [] then if absolute then ''/'' else [] else uri_of absolute ds @ ''/'') @ d"
    by (cases "ds = []") (simp_all add: uri_of_def join_append)
  moreover have "takeWhile (\<lambda>c. c \<noteq> CHR ''/'') (rev d) = rev d" using assms by (auto simp: takeWhile_eq_all_conv)
  ultimately show ?thesis using assms
    by (cases "ds = []") (auto simp: directory_of_def dropWhile_append)
qed

lemma reference_schemeless:
  assumes "list_all proper ns" "ns \<noteq> []"
  shows "\<not> has_scheme (join_segments ns @ ''/'')" "\<not> is_rooted (join_segments ns @ ''/'')"
    "split_segments (join_segments ns @ ''/'') = ns @ [[]]"
proof -
  note n = proper_normal [OF assms(1), of False]
  have s: "split_segments (join_segments ns) = ns" using uri_of_split [OF n] assms(2) by (simp add: uri_of_def)
  then show split: "split_segments (join_segments ns @ ''/'') = ns @ [[]]"
    using split_at_slash [of "join_segments ns" "[]"] by simp
  show "\<not> has_scheme (join_segments ns @ ''/'')"
  proof
    assume "has_scheme (join_segments ns @ ''/'')"
    then obtain xs ys where "ns @ [[]] = xs @ [] # ys" "ys \<noteq> []" unfolding split [symmetric] using scheme_has_gap by blast
    then have "[] \<in> set (butlast (ns @ [[]]))" by (simp add: butlast_append)
    then show False using normal_slashless [OF n] by auto
  qed
  show "\<not> is_rooted (join_segments ns @ ''/'')"
    using join_not_rooted [OF n] uri_of_nonempty [OF n assms(2)] by (simp add: is_rooted_def uri_of_def)
qed

lemma normalize_trailing:
  assumes "list_all proper ns" "ns \<noteq> []"
  shows "normalize_uri (uri_of absolute ns @ ''/'') = uri_of absolute ns"
proof -
  note n = proper_normal [OF assms(1)]
  have s: "split_segments (uri_of absolute ns @ ''/'') = (if absolute then [[]] else []) @ ns @ [[]]"
    using split_at_slash [of "uri_of absolute ns" "[]"] uri_of_split [OF n] assms(2) by simp
  have r: "is_rooted (uri_of absolute ns @ ''/'') = absolute"
    using uri_of_rooted [OF n, of absolute] uri_of_nonempty [OF n assms(2), of absolute] by (simp add: is_rooted_def)
  have "\<not> has_scheme (uri_of absolute ns @ ''/'')"
  proof
    assume "has_scheme (uri_of absolute ns @ ''/'')"
    then obtain xs ys where x: "(if absolute then [[]] else []) @ ns @ [[]] = xs @ [] # ys" "xs \<noteq> []" "ys \<noteq> []"
      unfolding s [symmetric] using scheme_has_gap by blast
    then have "ns @ [[]] = (if absolute then tl xs else xs) @ [] # ys" by (cases xs) (auto split: if_splits)
    then have "[] \<in> set (butlast (ns @ [[]]))" using x(3) by (simp add: butlast_append)
    then show False using normal_slashless [OF n] by auto
  qed
  moreover have "foldl (push_segment absolute) [] ((if absolute then [[]] else []) @ ns @ [[]]) = ns"
    using fold_proper [OF assms(1), of absolute "[]"] by (cases absolute) simp_all
  ultimately show ?thesis unfolding normalize_uri_def Let_def r s by (simp add: uri_of_def)
qed

lemma normal_uri_resolves:
  assumes "list_all proper ds" "list_all proper ns" "CHR ''/'' \<notin> set d" "ns \<noteq> []"
  shows "resolve_uri (uri_of absolute (ds @ [d])) (join_segments ns @ ''/'') = uri_of absolute (ds @ ns)"
proof -
  have "directory_of (uri_of absolute (ds @ [d])) @ join_segments ns @ ''/'' = uri_of absolute (ds @ ns) @ ''/''"
    unfolding directory_of_uri [OF assms(3)] using assms(4) by (cases "ds = []") (simp_all add: uri_of_def join_append)
  then have "resolve_uri (uri_of absolute (ds @ [d])) (join_segments ns @ ''/'') = normalize_uri (uri_of absolute (ds @ ns) @ ''/'')"
    unfolding resolve_uri_def using reference_schemeless(1,2) [OF assms(2,4)] by (simp only: simp_thms if_False)
  also have "\<dots> = uri_of absolute (ds @ ns)" by (rule normalize_trailing) (use assms in simp_all)
  finally show ?thesis .
qed

end
