(* ===== verification/Half_Float.thy ===== *)
theory Half_Float
  imports Prelude
begin

text \<open>
  \<open>media/pixel_traits.hpp\<close>, the software half float: the conversions between a 16-bit half and the bits
  of a 32-bit float. A \<open>float\<close> is its bit pattern, which is all that \<open>memcpy\<close> gives the code.
\<close>

subsection \<open>The conversions\<close>

text \<open>The loop of \<open>f16_to_float\<close> on a subnormal mantissa, with the shifts it may make as its fuel.\<close>

fun renormalize :: "nat \<Rightarrow> 32 word \<Rightarrow> nat \<Rightarrow> (32 word \<times> nat) option" where
  "renormalize fuel m sh =
     (if m AND 0x400 = 0
      then (case fuel of 0 \<Rightarrow> None | Suc n \<Rightarrow> renormalize n (push_bit 1 m) (sh + 1))
      else Some (m, sh))"

declare renormalize.simps [simp del]

definition f16_to_float :: "16 word \<Rightarrow> 32 word option" where
  "f16_to_float half =
     (let sgn = push_bit 16 (ucast (half AND 0x8000)) :: 32 word;
          e = ucast (drop_bit 10 half AND 0x1F) :: 32 word;
          mant = ucast (half AND 0x3FF) :: 32 word
      in if e = 0
         then if mant \<noteq> 0
              then (case renormalize 10 mant 0 of
                      None \<Rightarrow> None
                    | Some (m, sh) \<Rightarrow>
                        (let m = m AND 0x3FF; e = 127 - 14 - word_of_nat sh
                         in Some (sgn OR push_bit 23 e OR push_bit 13 m)))
              else Some sgn
         else if e = 0x1F then Some (sgn OR 0x7F800000 OR push_bit 13 mant)
         else Some (sgn OR push_bit 23 (e + (127 - 15)) OR push_bit 13 mant))"

definition f16_from_float :: "32 word \<Rightarrow> 16 word" where
  "f16_from_float bits =
     (let sgn = ucast (drop_bit 16 bits AND 0x8000) :: 16 word;
          biased = drop_bit 23 bits AND 0xFF;
          mant = bits AND 0x7FFFFF
      in if biased = 0xFF
         then sgn OR 0x7C00 OR (if mant \<noteq> 0 then 0x200 else 0)
         else
           let e = uint biased - 127 + 15
           in if e \<ge> 0x1F then sgn OR 0x7C00
              else if e \<le> 0
              then if e < - 10 then sgn
                   else
                     let full = mant OR 0x800000;
                         sh = nat (14 - e);
                         quotient = drop_bit sh full;
                         remainder = full AND (push_bit sh 1 - 1);
                         halfway = push_bit (sh - 1) 1;
                         rounded = (if remainder > halfway \<or> remainder = halfway \<and> quotient AND 1 \<noteq> 0
                                    then quotient + 1 else quotient)
                     in ucast (ucast sgn OR rounded)
              else
                let half_mant = drop_bit 13 mant;
                    remainder = mant AND 0x1FFF;
                    out = push_bit 10 (word_of_int e) OR half_mant;
                    out = (if remainder > 0x1000 \<or> remainder = 0x1000 \<and> half_mant AND 1 \<noteq> 0 then out + 1 else out)
                in ucast (ucast sgn OR out))"

subsection \<open>Fields\<close>

text \<open>The fields of the two formats as numbers, and what the numbers stand for: magnitudes in units of \<open>2\<^sup>-\<^sup>1\<^sup>4\<^sup>9\<close>.\<close>

definition half_sign :: "16 word \<Rightarrow> nat" where "half_sign h = unat h div 2 ^ 15"
definition half_exp :: "16 word \<Rightarrow> nat" where "half_exp h = unat h div 2 ^ 10 mod 2 ^ 5"
definition half_mant :: "16 word \<Rightarrow> nat" where "half_mant h = unat h mod 2 ^ 10"
definition float_sign :: "32 word \<Rightarrow> nat" where "float_sign x = unat x div 2 ^ 31"
definition float_exp :: "32 word \<Rightarrow> nat" where "float_exp x = unat x div 2 ^ 23 mod 2 ^ 8"
definition float_mant :: "32 word \<Rightarrow> nat" where "float_mant x = unat x mod 2 ^ 23"

definition half_units :: "16 word \<Rightarrow> nat" where
  "half_units h = (if half_exp h = 0 then half_mant h else (2 ^ 10 + half_mant h) * 2 ^ (half_exp h - 1)) * 2 ^ 125"

definition float_units :: "32 word \<Rightarrow> nat" where
  "float_units x = (if float_exp x = 0 then float_mant x else (2 ^ 23 + float_mant x) * 2 ^ (float_exp x - 1))"

definition half_is_nan :: "16 word \<Rightarrow> bool" where
  "half_is_nan h \<longleftrightarrow> half_exp h = 31 \<and> half_mant h \<noteq> 0"

definition float_is_nan :: "32 word \<Rightarrow> bool" where
  "float_is_nan x \<longleftrightarrow> float_exp x = 255 \<and> float_mant x \<noteq> 0"

subsection \<open>Words as numbers\<close>

lemma unat_and_mask: "unat (x AND mask n :: 'a::len word) = unat x mod 2 ^ n"
  by (simp only: take_bit_eq_mask [symmetric] unsigned_take_bit_eq) (simp only: take_bit_eq_mod)

lemma unat_drop: "unat (drop_bit n x :: 'a::len word) = unat x div 2 ^ n"
  by (simp only: unsigned_drop_bit_eq) (simp add: drop_bit_eq_div take_bit_nat_eq_self)

lemma mask_words:
  "(0x3FF :: 'a::len word) = mask 10" "(0x1F :: 'a word) = mask 5" "(0xFF :: 'a word) = mask 8"
  "(0x7FFFFF :: 'a word) = mask 23" "(0x1FFF :: 'a word) = mask 13" "(1 :: 'a word) = mask 1"
  by (simp_all add: mask_eq_exp_minus_1)

lemma nat_or_plus: "(b :: nat) < 2 ^ n \<Longrightarrow> 2 ^ n dvd a \<Longrightarrow> a OR b = a + b"
proof -
  assume b: "b < 2 ^ n" and "2 ^ n dvd a"
  then obtain k where k: "a = push_bit n k" by (auto simp: push_bit_eq_mult dvd_def)
  have "push_bit n k AND take_bit n b = 0" by (rule bit_eqI) (auto simp: bit_simps)
  moreover have "take_bit n b = b" using b by (simp add: take_bit_nat_eq_self)
  ultimately show ?thesis using k by (simp add: disjunctive_add_eq_or)
qed

lemma unat_or_plus: "unat y < 2 ^ n \<Longrightarrow> 2 ^ n dvd unat x \<Longrightarrow> unat (x OR y :: 'a::len word) = unat x + unat y"
  by (simp add: unsigned_or_eq nat_or_plus)

lemma unat_push: "unat x * 2 ^ n < 2 ^ LENGTH('a) \<Longrightarrow> unat (push_bit n x :: 'a::len word) = unat x * 2 ^ n"
  by (simp only: unsigned_push_bit_eq) (simp add: push_bit_eq_mult take_bit_nat_eq_self)

lemma unat_ucast: "unat x < 2 ^ LENGTH('b) \<Longrightarrow> unat (ucast (x :: 'a::len word) :: 'b::len word) = unat x"
  by (simp add: unsigned_ucast_eq take_bit_nat_eq_self)

lemma unat_and_bit: "unat (x AND push_bit n 1 :: 'a::len word) = unat x div 2 ^ n mod 2 * 2 ^ n"
proof -
  have e: "x AND push_bit n 1 = push_bit n (drop_bit n x AND mask 1)" by (rule bit_word_eqI) (auto simp: bit_simps)
  have "unat x div 2 ^ n mod 2 * 2 ^ n \<le> unat x div 2 ^ n * 2 ^ n" by (rule mult_right_mono) simp_all
  also have "\<dots> \<le> unat x" by simp
  also have "\<dots> < 2 ^ LENGTH('a)" by (rule unsigned_less)
  finally show ?thesis unfolding e by (subst unat_push) (simp_all only: unat_and_mask unat_drop power_one_right)
qed

lemma split_fields: "u = u div 2 ^ (a + b) * 2 ^ (a + b) + u div 2 ^ a mod 2 ^ b * 2 ^ a + u mod 2 ^ a" for u :: nat
proof -
  have "u = (u div 2 ^ a div 2 ^ b * 2 ^ b + u div 2 ^ a mod 2 ^ b) * 2 ^ a + u mod 2 ^ a"
    by (simp only: div_mult_mod_eq)
  then show ?thesis by (simp only: div_mult2_eq power_add add_mult_distrib mult.assoc mult.commute [of "2 ^ b" "2 ^ a"])
qed

lemma pack_div_mod:
  "m < K \<Longrightarrow> (k * K + m) div K = k" "m < K \<Longrightarrow> (k * K + m) mod K = m" for K :: nat
  by simp_all

lemma half_bounds: "half_sign h < 2" "half_exp h < 32" "half_mant h < 1024"
proof -
  have "unat h < 2 ^ 16" using unsigned_less [of h] by simp
  then show "half_sign h < 2" by (simp add: half_sign_def less_mult_imp_div_less)
qed (simp_all add: half_exp_def half_mant_def)

lemma half_fields: "unat h = half_sign h * 2 ^ 15 + half_exp h * 2 ^ 10 + half_mant h"
  using split_fields [of "unat h" 10 5] unfolding half_sign_def half_exp_def half_mant_def by (simp only: numeral_plus_numeral add_num_simps)

lemma float_bounds: "float_sign x < 2" "float_exp x < 256" "float_mant x < 8388608"
proof -
  have "unat x < 2 ^ 32" using unsigned_less [of x] by simp
  then show "float_sign x < 2" by (simp add: float_sign_def less_mult_imp_div_less)
qed (simp_all add: float_exp_def float_mant_def)

lemma float_fields: "unat x = float_sign x * 2 ^ 31 + float_exp x * 2 ^ 23 + float_mant x"
  using split_fields [of "unat x" 23 8] unfolding float_sign_def float_exp_def float_mant_def by (simp only: numeral_plus_numeral add_num_simps)

lemma fields_of_float:
  assumes u: "unat x = s * 2 ^ 31 + e * 2 ^ 23 + m" and b: "e < 256" "m < 2 ^ 23"
  shows "float_sign x = s" "float_exp x = e" "float_mant x = m"
proof -
  have "e * 2 ^ 23 + m < 2 ^ 31" using b by simp
  then show "float_sign x = s" unfolding float_sign_def u add.assoc by (rule pack_div_mod)
  have v: "unat x = (s * 2 ^ 8 + e) * 2 ^ 23 + m" by (simp add: u)
  show "float_exp x = e" unfolding float_exp_def v pack_div_mod(1) [OF b(2)] by (rule pack_div_mod) (use b in simp)
  show "float_mant x = m" unfolding float_mant_def v by (rule pack_div_mod) (rule b)
qed

lemma fields_of_half:
  assumes u: "unat h = s * 2 ^ 15 + e * 2 ^ 10 + m" and b: "e < 32" "m < 2 ^ 10"
  shows "half_sign h = s" "half_exp h = e" "half_mant h = m"
proof -
  have "e * 2 ^ 10 + m < 2 ^ 15" using b by simp
  then show "half_sign h = s" unfolding half_sign_def u add.assoc by (rule pack_div_mod)
  have v: "unat h = (s * 2 ^ 5 + e) * 2 ^ 10 + m" by (simp add: u)
  show "half_exp h = e" unfolding half_exp_def v pack_div_mod(1) [OF b(2)] by (rule pack_div_mod) (use b in simp)
  show "half_mant h = m" unfolding half_mant_def v by (rule pack_div_mod) (rule b)
qed

lemma half_eqI: "half_sign g = half_sign h \<Longrightarrow> half_exp g = half_exp h \<Longrightarrow> half_mant g = half_mant h \<Longrightarrow> g = h"
  using half_fields [of g] half_fields [of h] by (simp add: word_eq_iff_unsigned [where 'a = nat])

subsection \<open>The conversions on fields\<close>

definition rne :: "nat \<Rightarrow> nat \<Rightarrow> nat" where
  "rne n d = n div d + (if d < 2 * (n mod d) \<or> 2 * (n mod d) = d \<and> odd (n div d) then 1 else 0)"

text \<open>The magnitude a float becomes: the half's exponent and mantissa as one number.\<close>

definition half_ord :: "nat \<Rightarrow> nat \<Rightarrow> nat" where
  "half_ord e m =
     (if e = 255 then 31 * 2 ^ 10 + (if m \<noteq> 0 then 512 else 0)
      else if e \<ge> 143 then 31 * 2 ^ 10
      else if e < 102 then 0
      else if e \<le> 112 then rne (2 ^ 23 + m) (2 ^ (126 - e))
      else rne ((e - 112) * 2 ^ 23 + m) (2 ^ 13))"

lemma rne_le: "n \<le> k * d \<Longrightarrow> 0 < d \<Longrightarrow> rne n d \<le> k"
proof (cases "n div d = k")
  case True
  assume "n \<le> k * d" "0 < d"
  moreover have "n = n div d * d + n mod d" by simp
  ultimately have "n mod d = 0" using True by (metis add_le_same_cancel1 le_zero_eq)
  then show ?thesis using \<open>0 < d\<close> True by (simp add: rne_def)
next
  case False
  assume "n \<le> k * d" "0 < d"
  then have "n div d \<le> k" by (metis div_le_mono nonzero_mult_div_cancel_right not_gr_zero)
  then show ?thesis using False by (simp add: rne_def)
qed

lemma half_ord_bound:
  assumes "e < 256" "m < 2 ^ 23"
  shows "half_ord e m < 2 ^ 15"
proof -
  have a: "rne (2 ^ 23 + m) (2 ^ (126 - e)) \<le> 2 ^ 10" if "e \<le> 112"
  proof (rule rne_le)
    have "(2::nat) ^ 24 \<le> 2 ^ (10 + (126 - e))" using that by (intro power_increasing) simp_all
    then show "2 ^ 23 + m \<le> 2 ^ 10 * 2 ^ (126 - e)" using assms(2) by (simp only: power_add) simp
  qed simp
  have b: "rne ((e - 112) * 2 ^ 23 + m) (2 ^ 13) \<le> 31 * 2 ^ 10" if "e < 143"
    by (rule rne_le) (use that assms(2) in simp_all)
  show ?thesis using a b by (auto simp: half_ord_def intro: le_less_trans)
qed

lemma round_word:
  fixes q q' rem hw :: "32 word"
  assumes "unat q = n div 2 ^ k" "unat rem = n mod 2 ^ k" "unat hw = 2 ^ (k - 1)" "1 \<le> k" "n div 2 ^ k < 2 ^ 31"
    and "odd (unat q') = odd (unat q)"
  shows "unat (if hw < rem \<or> rem = hw \<and> q' AND 1 \<noteq> 0 then q + 1 else q) = rne n (2 ^ k)"
proof -
  have d: "(2::nat) ^ k = 2 * 2 ^ (k - 1)" using assms(4) by (simp flip: power_Suc)
  have "unat (q' AND 1) = unat q' mod 2" using unat_and_mask [of q' 1] by simp
  then have o: "q' AND 1 \<noteq> 0 \<longleftrightarrow> odd (n div 2 ^ k)"
    using assms(1,6) by (metis odd_iff_mod_2_eq_one unat_eq_zero zero_neq_one mod_2_eq_odd of_bool_eq_0_iff)
  have c: "hw < rem \<longleftrightarrow> 2 ^ k < 2 * (n mod 2 ^ k)" "rem = hw \<longleftrightarrow> 2 * (n mod 2 ^ k) = 2 ^ k"
    using d by (simp_all add: word_less_nat_alt word_eq_iff_unsigned [where 'a = nat] assms(2,3))
  have "unat (q + 1) = n div 2 ^ k + 1" using assms(1,5) by (subst unat_add_lem [THEN iffD1]) simp_all
  then show ?thesis unfolding rne_def o c using assms(1) by simp
qed

lemma from_float_fields:
  "unat (drop_bit 23 x AND 0xFF :: 32 word) = float_exp x" "unat (x AND 0x7FFFFF :: 32 word) = float_mant x"
  "unat (ucast (drop_bit 16 x AND 0x8000 :: 32 word) :: 16 word) = float_sign x * 2 ^ 15"
proof -
  show "unat (drop_bit 23 x AND 0xFF :: 32 word) = float_exp x"
    unfolding mask_words unat_and_mask unat_drop float_exp_def ..
  show "unat (x AND 0x7FFFFF :: 32 word) = float_mant x"
    unfolding mask_words unat_and_mask float_mant_def ..
  have "(0x8000 :: 32 word) = push_bit 15 1" by (simp add: push_bit_eq_mult)
  then have "unat (drop_bit 16 x AND 0x8000 :: 32 word) = unat x div 2 ^ 16 div 2 ^ 15 mod 2 * 2 ^ 15"
    by (simp only: unat_and_bit unat_drop)
  also have "unat x div 2 ^ 16 div 2 ^ 15 = float_sign x"
    by (simp only: float_sign_def div_mult2_eq [symmetric] power_add [symmetric]) simp
  also have "float_sign x mod 2 = float_sign x" using float_bounds(1) [of x] by simp
  finally have e: "unat (drop_bit 16 x AND 0x8000 :: 32 word) = float_sign x * 2 ^ 15" .
  show "unat (ucast (drop_bit 16 x AND 0x8000 :: 32 word) :: 16 word) = float_sign x * 2 ^ 15"
    by (subst unat_ucast) (use e float_bounds(1) [of x] in simp_all)
qed

lemma put_sign:
  fixes sgn :: "16 word" and r :: "32 word"
  assumes "unat sgn = s * 2 ^ 15" "s < 2" "unat r < 2 ^ 15"
  shows "unat (ucast (ucast sgn OR r) :: 16 word) = s * 2 ^ 15 + unat r"
proof -
  have "unat (ucast sgn :: 32 word) = s * 2 ^ 15" by (subst unat_ucast) (use assms in simp_all)
  then have "unat (ucast sgn OR r) = s * 2 ^ 15 + unat r"
    using unat_or_plus [of r 15 "ucast sgn"] assms(3) by simp
  moreover have "s * 2 ^ 15 + unat r < 2 ^ 16" using assms(2,3) by simp
  ultimately show ?thesis by (simp add: unat_ucast)
qed

lemma from_float_word:
  "unat (f16_from_float x) = float_sign x * 2 ^ 15 + half_ord (float_exp x) (float_mant x)"
proof -
  define sgn :: "16 word" where "sgn = ucast (drop_bit 16 x AND 0x8000)"
  define biased where "biased = drop_bit 23 x AND 0xFF"
  define mant where "mant = x AND 0x7FFFFF"
  define e where "e = uint biased - 127 + 15"
  let ?s = "float_sign x" and ?e = "float_exp x" and ?m = "float_mant x"
  have us: "unat sgn = ?s * 2 ^ 15" and ub: "unat biased = ?e" and um: "unat mant = ?m"
    by (simp_all only: sgn_def biased_def mant_def from_float_fields)
  have ei: "e = int ?e - 112" unfolding e_def ub [symmetric] by simp
  note b = float_bounds [of x]
  have sdvd: "2 ^ 15 dvd unat sgn" by (simp add: us)
  have isff: "biased = 0xFF \<longleftrightarrow> ?e = 255" by (simp add: word_eq_iff_unsigned [where 'a = nat] ub)
  note unfold = f16_from_float_def [of x, unfolded Let_def, folded sgn_def biased_def mant_def, folded e_def]
  consider "?e = 255" | "?e \<noteq> 255" "143 \<le> ?e" | "?e < 102" | "102 \<le> ?e" "?e \<le> 112" | "112 < ?e" "?e < 143" by linarith
  then show ?thesis
  proof cases
    case 1
    have m0: "mant \<noteq> 0 \<longleftrightarrow> ?m \<noteq> 0" by (simp add: um [symmetric] unat_eq_zero)
    have "unat (sgn OR r) = ?s * 2 ^ 15 + unat r" if "unat r < 2 ^ 15" for r
      using unat_or_plus [OF that sdvd] by (simp only: us)
    then show ?thesis unfolding unfold using 1 by (cases "?m = 0") (simp_all add: isff m0 half_ord_def)
  next
    case 2
    then have "f16_from_float x = sgn OR 0x7C00" unfolding unfold by (simp add: isff ei)
    moreover have "unat (sgn OR 0x7C00) = unat sgn + unat (0x7C00 :: 16 word)" by (rule unat_or_plus [OF _ sdvd]) simp
    ultimately show ?thesis using 2 by (simp add: us half_ord_def)
  next
    case 3
    then have "f16_from_float x = sgn" unfolding unfold by (simp add: isff ei)
    then show ?thesis using 3 by (simp add: us half_ord_def)
  next
    case 4
    define k where "k = 126 - ?e"
    have k: "nat (14 - e) = k" "14 \<le> k" "k \<le> 24" using 4 by (simp_all add: ei k_def)
    have c: "(biased = 0xFF) = False" "(31 \<le> e) = False" "(e \<le> 0) = True" "(e < - 10) = False"
      using 4 by (simp_all add: isff ei)
    define full where "full = mant OR 0x800000"
    have uf: "unat full = 2 ^ 23 + ?m"
      using unat_or_plus [of mant 23 "0x800000"] b(3) by (simp add: full_def or.commute um)
    define q where "q = drop_bit k full"
    define r where "r = (if push_bit (k - 1) 1 < full AND (push_bit k 1 - 1) \<or>
        full AND (push_bit k 1 - 1) = push_bit (k - 1) 1 \<and> q AND 1 \<noteq> 0 then q + 1 else q)"
    have "full AND (push_bit k 1 - 1) = full AND mask k" by (simp add: mask_eq_exp_minus_1 push_bit_eq_mult)
    then have rem: "unat (full AND (push_bit k 1 - 1)) = (2 ^ 23 + ?m) mod 2 ^ k" by (simp only: unat_and_mask uf)
    have hw: "unat (push_bit (k - 1) (1 :: 32 word)) = 2 ^ (k - 1)"
    proof -
      have "(2::nat) ^ (k - 1) < 2 ^ 32" using k(3) by (intro power_strict_increasing) simp_all
      then show ?thesis by (subst unat_push) simp_all
    qed
    have uq: "unat q = (2 ^ 23 + ?m) div 2 ^ k" by (simp only: q_def unat_drop uf)
    have "(2 ^ 23 + ?m) div 2 ^ k \<le> 2 ^ 23 + ?m" by (rule div_le_dividend)
    also have "\<dots> < 2 ^ 31" using b(3) by simp
    finally have "unat r = rne (2 ^ 23 + ?m) (2 ^ k)"
      unfolding r_def by (intro round_word [OF uq rem hw]) (use k in simp_all)
    then have ur: "unat r = half_ord ?e ?m" using 4 by (simp add: half_ord_def k_def)
    have "f16_from_float x = ucast (ucast sgn OR r)"
      unfolding unfold full_def [symmetric] k(1) q_def [symmetric] r_def [symmetric]
      by (simp only: c if_True if_False)
    then show ?thesis using put_sign [OF us b(1), of r] half_ord_bound [of ?e ?m] b by (simp add: ur)
  next
    case 5
    define n where "n = (?e - 112) * 2 ^ 23 + ?m"
    define hm where "hm = drop_bit 13 mant"
    define q where "q = push_bit 10 (word_of_int e) OR hm"
    define r where "r = (if 0x1000 < mant AND 0x1FFF \<or> mant AND 0x1FFF = 0x1000 \<and> hm AND 1 \<noteq> 0 then q + 1 else q)"
    have c: "(biased = 0xFF) = False" "(31 \<le> e) = False" "(e \<le> 0) = False" using 5 by (simp_all add: isff ei)
    have uh: "unat hm = ?m div 2 ^ 13" by (simp only: hm_def unat_drop um)
    have hb: "?m div 2 ^ 13 < 2 ^ 10" using b(3) by (simp add: less_mult_imp_div_less)
    have "word_of_int e = (word_of_nat (?e - 112) :: 32 word)" using 5 by (simp add: ei of_nat_diff)
    then have ue: "unat (word_of_int e :: 32 word) = ?e - 112" using b(2) by (simp add: unat_of_nat)
    have up: "unat (push_bit 10 (word_of_int e :: 32 word)) = (?e - 112) * 2 ^ 10"
      by (subst unat_push) (use ue b(2) in simp_all)
    have "unat q = (?e - 112) * 2 ^ 10 + ?m div 2 ^ 13"
      unfolding q_def by (subst unat_or_plus [where n = 10]) (simp_all only: up uh hb dvd_triv_right)
    also have "\<dots> = n div 2 ^ 13" unfolding n_def by simp
    finally have uq: "unat q = n div 2 ^ 13" .
    have "n = (?e - 112) * 2 ^ 10 * 2 ^ 13 + ?m" by (simp add: n_def)
    then have nm: "n mod 2 ^ 13 = ?m mod 2 ^ 13" by (metis mod_mult_self3)
    have rem: "unat (mant AND 0x1FFF) = n mod 2 ^ 13" unfolding mask_words unat_and_mask um nm ..
    have "n div 2 ^ 13 = (?e - 112) * 2 ^ 10 + ?m div 2 ^ 13" unfolding n_def by simp
    then have "odd (unat hm) = odd (unat q)" unfolding uq uh by simp
    moreover have "n div 2 ^ 13 < 2 ^ 31" using b 5 by (simp add: n_def less_mult_imp_div_less)
    ultimately have "unat r = rne n (2 ^ 13)" unfolding r_def by (intro round_word [OF uq rem]) simp_all
    then have ur: "unat r = half_ord ?e ?m" using 5 by (simp add: half_ord_def n_def)
    have "f16_from_float x = ucast (ucast sgn OR r)"
      unfolding unfold hm_def [symmetric] q_def [symmetric] r_def [symmetric]
      by (simp only: c if_True if_False)
    then show ?thesis using put_sign [OF us b(1), of r] half_ord_bound [of ?e ?m] b by (simp add: ur)
  qed
qed

lemma hidden_bit:
  assumes "unat (m :: 32 word) < 2 ^ 11"
  shows "m AND 0x400 = 0 \<longleftrightarrow> unat m < 2 ^ 10"
proof -
  have "(0x400 :: 32 word) = push_bit 10 1" by (simp add: push_bit_eq_mult)
  then have u: "unat (m AND 0x400) = unat m div 2 ^ 10 mod 2 * 2 ^ 10" by (simp only: unat_and_bit)
  have d: "unat m div 2 ^ 10 < 2" using assms by (simp add: less_mult_imp_div_less)
  have "m AND 0x400 = 0 \<longleftrightarrow> unat (m AND 0x400) = 0" by (simp only: unat_eq_zero)
  also have "\<dots> \<longleftrightarrow> unat m div 2 ^ 10 = 0" unfolding u using d by simp
  also have "\<dots> \<longleftrightarrow> unat m < 2 ^ 10" by (simp add: div_eq_0_iff)
  finally show ?thesis .
qed

lemma renormalize_sound:
  "unat m < 2 ^ 11 \<Longrightarrow> unat m \<noteq> 0 \<Longrightarrow> 2 ^ 10 \<le> unat m * 2 ^ fuel \<Longrightarrow>
   \<exists>r k. renormalize fuel m sh = Some (r, sh + k) \<and> k \<le> fuel \<and> unat r = unat m * 2 ^ k \<and> 2 ^ 10 \<le> unat r \<and> unat r < 2 ^ 11"
proof (induction fuel arbitrary: m sh)
  case 0
  then show ?case using hidden_bit [OF 0(1)] by (subst renormalize.simps) simp
next
  case (Suc n)
  show ?case
  proof (cases "unat m < 2 ^ 10")
    case True
    have p: "unat (push_bit 1 m) = unat m * 2" using unat_push [of m 1] True by simp
    obtain r k where "renormalize n (push_bit 1 m) (sh + 1) = Some (r, sh + 1 + k)" "k \<le> n"
      "unat r = unat (push_bit 1 m) * 2 ^ k" "2 ^ 10 \<le> unat r" "unat r < 2 ^ 11"
      using Suc.IH [of "push_bit 1 m" "sh + 1"] Suc.prems True p by (auto simp: ac_simps)
    then show ?thesis using hidden_bit [OF Suc.prems(1)] True p
      by (subst renormalize.simps) (auto intro!: exI [of _ "Suc k"] simp: ac_simps)
  next
    case False
    then show ?thesis using hidden_bit [OF Suc.prems(1)] Suc.prems
      by (subst renormalize.simps) (auto intro!: exI [of _ 0])
  qed
qed

lemma to_float_fields:
  "unat (ucast (drop_bit 10 h AND 0x1F :: 16 word) :: 32 word) = half_exp h" "unat (ucast (h AND 0x3FF :: 16 word) :: 32 word) = half_mant h"
  "unat (push_bit 16 (ucast (h AND 0x8000 :: 16 word)) :: 32 word) = half_sign h * 2 ^ 31"
proof -
  note b = half_bounds [of h]
  have e: "unat (drop_bit 10 h AND 0x1F :: 16 word) = half_exp h"
    unfolding mask_words unat_and_mask unat_drop half_exp_def ..
  show "unat (ucast (drop_bit 10 h AND 0x1F :: 16 word) :: 32 word) = half_exp h"
    by (subst unat_ucast) (use e b in simp_all)
  have m: "unat (h AND 0x3FF :: 16 word) = half_mant h"
    unfolding mask_words unat_and_mask half_mant_def ..
  show "unat (ucast (h AND 0x3FF :: 16 word) :: 32 word) = half_mant h"
    by (subst unat_ucast) (use m b in simp_all)
  have "(0x8000 :: 16 word) = push_bit 15 1" by (simp add: push_bit_eq_mult)
  then have "unat (h AND 0x8000 :: 16 word) = half_sign h mod 2 * 2 ^ 15"
    by (simp only: unat_and_bit half_sign_def)
  then have s: "unat (h AND 0x8000 :: 16 word) = half_sign h * 2 ^ 15" using b by simp
  then have u: "unat (ucast (h AND 0x8000 :: 16 word) :: 32 word) = half_sign h * 2 ^ 15"
    by (subst unat_ucast) (use b in simp_all)
  show "unat (push_bit 16 (ucast (h AND 0x8000 :: 16 word)) :: 32 word) = half_sign h * 2 ^ 31"
    by (subst unat_push) (use u b in simp_all)
qed

lemma pack_float:
  fixes sgn e m :: "32 word"
  assumes "unat sgn = s * 2 ^ 31" "unat e < 256" "unat m < 2 ^ 10"
  shows "float_sign (sgn OR push_bit 23 e OR push_bit 13 m) = s"
    "float_exp (sgn OR push_bit 23 e OR push_bit 13 m) = unat e"
    "float_mant (sgn OR push_bit 23 e OR push_bit 13 m) = unat m * 2 ^ 13"
proof -
  have ue: "unat (push_bit 23 e) = unat e * 2 ^ 23" by (subst unat_push) (use assms in simp_all)
  have um: "unat (push_bit 13 m) = unat m * 2 ^ 13" by (subst unat_push) (use assms in simp_all)
  have a: "unat (push_bit 23 e OR push_bit 13 m) = unat e * 2 ^ 23 + unat m * 2 ^ 13"
    by (subst unat_or_plus [where n = 23]) (use assms in \<open>simp_all only: ue um dvd_triv_right\<close>, simp)
  have "unat (sgn OR push_bit 23 e OR push_bit 13 m) = s * 2 ^ 31 + (unat e * 2 ^ 23 + unat m * 2 ^ 13)"
    by (subst unat_or_plus [where n = 31]) (use assms a in \<open>simp_all only: a assms(1) dvd_triv_right\<close>, simp)
  then have u: "unat (sgn OR push_bit 23 e OR push_bit 13 m) = s * 2 ^ 31 + unat e * 2 ^ 23 + unat m * 2 ^ 13" by simp
  have "unat m * 2 ^ 13 < 2 ^ 23" using assms(3) by simp
  from fields_of_float [OF u assms(2) this]
  show "float_sign (sgn OR push_bit 23 e OR push_bit 13 m) = s"
    "float_exp (sgn OR push_bit 23 e OR push_bit 13 m) = unat e"
    "float_mant (sgn OR push_bit 23 e OR push_bit 13 m) = unat m * 2 ^ 13" .
qed

lemma to_float_word:
  "\<exists>x. f16_to_float h = Some x \<and> float_sign x = half_sign h \<and>
     (if half_exp h = 31 then float_exp x = 255 \<and> float_mant x = half_mant h * 2 ^ 13
      else if half_exp h \<noteq> 0 then float_exp x = half_exp h + 112 \<and> float_mant x = half_mant h * 2 ^ 13
      else if half_mant h = 0 then float_exp x = 0 \<and> float_mant x = 0
      else \<exists>k. 1 \<le> k \<and> k \<le> 10 \<and> float_exp x = 113 - k \<and> 2 ^ 23 + float_mant x = half_mant h * 2 ^ k * 2 ^ 13)"
proof -
  define sgn :: "32 word" where "sgn = push_bit 16 (ucast (h AND 0x8000))"
  define e :: "32 word" where "e = ucast (drop_bit 10 h AND 0x1F)"
  define mant :: "32 word" where "mant = ucast (h AND 0x3FF)"
  have us: "unat sgn = half_sign h * 2 ^ 31" and ue: "unat e = half_exp h" and um: "unat mant = half_mant h"
    by (simp_all only: sgn_def e_def mant_def to_float_fields)
  note b = half_bounds [of h]
  have e0: "e = 0 \<longleftrightarrow> half_exp h = 0" "e = 0x1F \<longleftrightarrow> half_exp h = 31" "mant = 0 \<longleftrightarrow> half_mant h = 0"
    by (simp_all add: word_eq_iff_unsigned [where 'a = nat] ue um)
  note unfold = f16_to_float_def [of h, unfolded Let_def, folded sgn_def e_def mant_def]
  consider "half_exp h = 31" | "half_exp h \<noteq> 31" "half_exp h \<noteq> 0" | "half_exp h = 0" "half_mant h = 0"
    | "half_exp h = 0" "half_mant h \<noteq> 0" by blast
  then show ?thesis
  proof cases
    case 1
    have "(0x7F800000 :: 32 word) = push_bit 23 255" by (simp add: push_bit_eq_mult)
    then have x: "f16_to_float h = Some (sgn OR push_bit 23 255 OR push_bit 13 mant)" unfolding unfold using 1 by (simp add: e0)
    show ?thesis using 1 pack_float [of sgn "half_sign h" 255 mant, OF us] b unfolding x by (simp add: um)
  next
    case 2
    have "unat (e + 112) = half_exp h + 112" using b by (subst unat_add_lem [THEN iffD1]) (simp_all add: ue)
    moreover have "f16_to_float h = Some (sgn OR push_bit 23 (e + 112) OR push_bit 13 mant)" unfolding unfold using 2 by (simp add: e0)
    ultimately show ?thesis using 2 pack_float [of sgn "half_sign h" "e + 112" mant, OF us] b by (simp add: um)
  next
    case 3
    have "f16_to_float h = Some sgn" unfolding unfold using 3 by (simp add: e0)
    then show ?thesis using 3 fields_of_float [of sgn "half_sign h" 0 0] us by simp
  next
    case 4
    obtain r k where r: "renormalize 10 mant 0 = Some (r, k)" "k \<le> 10" "unat r = half_mant h * 2 ^ k" "2 ^ 10 \<le> unat r" "unat r < 2 ^ 11"
      using renormalize_sound [of mant 10 0] b 4 um by auto
    have k1: "1 \<le> k" using r(3,4) b by (cases k) simp_all
    have eu: "unat (127 - 14 - word_of_nat k :: 32 word) = 113 - k"
    proof -
      have "127 - 14 - word_of_nat k = (word_of_nat (113 - k) :: 32 word)" using r(2) by (simp add: of_nat_diff)
      then show ?thesis by (simp add: unat_of_nat)
    qed
    have "unat (r AND 0x3FF) = unat r mod 2 ^ 10" by (simp only: mask_words unat_and_mask)
    then have rm: "unat (r AND 0x3FF) + 2 ^ 10 = unat r" using r(4,5) by (simp add: mod_if [of "unat r" 1024])
    have "f16_to_float h = Some (sgn OR push_bit 23 (127 - 14 - word_of_nat k) OR push_bit 13 (r AND 0x3FF))"
      unfolding unfold using 4 r(1) by (simp add: e0)
    then show ?thesis using 4 pack_float [of sgn "half_sign h" "127 - 14 - word_of_nat k" "r AND 0x3FF", OF us] eu rm r k1
      by (auto intro!: exI [of _ k])
  qed
qed

subsection \<open>Rounding\<close>

text \<open>The magnitudes of the halves in order: the half with exponent and mantissa \<open>q\<close> as one number.\<close>

definition grid :: "nat \<Rightarrow> nat" where
  "grid q = (if q < 2 ^ 10 then q else (2 ^ 10 + q mod 2 ^ 10) * 2 ^ (q div 2 ^ 10 - 1)) * 2 ^ 125"

lemma half_units_grid: "half_units h = grid (half_exp h * 2 ^ 10 + half_mant h)"
  using half_bounds [of h] by (cases "half_exp h = 0") (simp_all add: half_units_def grid_def)

lemma grid_Suc: "grid (Suc q) = grid q + 2 ^ (q div 2 ^ 10 - 1) * 2 ^ 125"
proof (cases "Suc (q mod 2 ^ 10) = 2 ^ 10")
  case True
  define k where "k = q div 2 ^ 10"
  have m: "q mod 2 ^ 10 = 1023" using True by simp
  have q: "q = k * 2 ^ 10 + 1023" using div_mult_mod_eq [of q "2 ^ 10"] unfolding m k_def by simp
  then have s: "Suc q = Suc k * 2 ^ 10" by simp
  show ?thesis unfolding s using q by (cases k) (simp_all add: grid_def)
next
  case False
  then have d: "Suc q div 2 ^ 10 = q div 2 ^ 10" "Suc q mod 2 ^ 10 = Suc (q mod 2 ^ 10)"
    using False by (simp_all add: div_Suc mod_Suc)
  show ?thesis
  proof (cases "q < 2 ^ 10")
    case True
    then have "Suc q < 2 ^ 10" using False by simp
    then show ?thesis using True by (simp add: grid_def)
  next
    case f: False
    then show ?thesis using d by (simp only: grid_def) (simp add: algebra_simps)
  qed
qed

lemma grid_mono: "p \<le> q \<Longrightarrow> grid p \<le> grid q"
  by (rule lift_Suc_mono_le [of grid]) (simp_all add: grid_Suc)

lemma grid_strict: "p < q \<Longrightarrow> grid p < grid q"
  by (rule lift_Suc_mono_less [of grid]) (simp_all add: grid_Suc)

lemma rounds_nearest:
  assumes lo: "x = grid q + r * U" and hi: "grid (Suc q) = grid q + d * U" and r: "r < d"
    and res: "res = q + (if d < 2 * r \<or> 2 * r = d \<and> odd q then 1 else 0)"
  shows "\<bar>int x - int (grid res)\<bar> \<le> \<bar>int x - int (grid p)\<bar> \<and>
    (\<bar>int x - int (grid res)\<bar> = \<bar>int x - int (grid p)\<bar> \<longrightarrow> p = res \<or> even res)"
proof -
  define a b where "a = r * U" and "b = d * U"
  have lo': "x = grid q + a" and hi': "grid (Suc q) = grid q + b" using lo hi by (simp_all add: a_def b_def)
  have U: "0 < U" using hi grid_strict [of q "Suc q"] by (cases U) simp_all
  have le: "a < b" using r U by (simp add: a_def b_def)
  have up: "b < 2 * a" if "d < 2 * r"
    using mult_strict_right_mono [OF that U] by (simp only: a_def b_def mult.assoc)
  have tie: "b = 2 * a" if "2 * r = d" by (simp only: a_def b_def mult.assoc that [symmetric])
  have down: "2 * a < b" if "2 * r < d"
    using mult_strict_right_mono [OF that U] by (simp only: a_def b_def mult.assoc)
  consider "d < 2 * r" | "2 * r = d" | "2 * r < d" by linarith
  then show ?thesis
  proof cases
    case 1
    note m = up [OF 1]
    have res: "res = Suc q" using 1 by (simp add: res)
    consider "p \<le> q" | "p = Suc q" | "Suc q < p" by linarith
    then show ?thesis
    proof cases
      case 1
      then show ?thesis using grid_mono [of p q] m le by (simp add: res lo' hi')
    next
      case 3
      then show ?thesis using grid_strict [of "Suc q" p] m le by (simp add: res lo' hi')
    qed (simp add: res)
  next
    case 2
    note m = tie [OF 2]
    have nd: "\<not> d < 2 * r" using 2 by simp
    consider "p < q" | "p = q" | "p = Suc q" | "Suc q < p" by linarith
    then show ?thesis
    proof cases
      case 1
      then show ?thesis using grid_strict [of p q] m le by (simp add: res lo' hi' 2 nd)
    next
      case 4
      then show ?thesis using grid_strict [of "Suc q" p] m le by (simp add: res lo' hi' 2 nd)
    qed (use m 2 nd in \<open>simp_all add: res lo' hi'\<close>)
  next
    case 3
    note m = down [OF 3]
    have res: "res = q" using 3 by (simp add: res)
    consider "p < q" | "p = q" | "Suc q \<le> p" by linarith
    then show ?thesis
    proof cases
      case 1
      then show ?thesis using grid_strict [of p q] m le by (simp add: res lo' hi')
    next
      case 3
      then show ?thesis using grid_mono [of "Suc q" p] m le by (simp add: res lo' hi')
    qed (simp add: res)
  qed
qed

text \<open>Where a finite float's magnitude lies on the grid.\<close>

lemma half_ord_places:
  assumes "e < 143" "m < 2 ^ 23" and x: "x = (if e = 0 then m else (2 ^ 23 + m) * 2 ^ (e - 1))"
  shows "\<exists>q r U d. x = grid q + r * U \<and> grid (Suc q) = grid q + d * U \<and> r < d \<and>
    half_ord e m = q + (if d < 2 * r \<or> 2 * r = d \<and> odd q then 1 else 0)"
proof -
  consider "e < 102" | "102 \<le> e" "e \<le> 112" | "112 < e" by linarith
  then show ?thesis
  proof cases
    case 1
    have g: "grid 0 = 0" "grid (Suc 0) = 2 ^ 125" by (simp_all add: grid_def)
    have "x < 2 ^ 24 * 2 ^ 100"
    proof (cases "e = 0")
      case True
      then show ?thesis using assms by simp
    next
      case False
      have "(2::nat) ^ (e - 1) \<le> 2 ^ 100" using 1 by (intro power_increasing) simp_all
      then have "(2 ^ 23 + m) * 2 ^ (e - 1) \<le> (2 ^ 23 + m) * 2 ^ 100" by (rule mult_left_mono) simp
      also have "\<dots> < 2 ^ 24 * 2 ^ 100" using assms(2) by simp
      finally show ?thesis using False by (simp add: x)
    qed
    then have b: "2 * x < 2 ^ 125" by simp
    have "half_ord e m = 0" using 1 by (simp add: half_ord_def)
    then show ?thesis using b g by (intro exI [of _ 0] exI [of _ x] exI [of _ 1] exI [of _ "2 ^ 125"]) simp
  next
    case 2
    define k where "k = 126 - e"
    define n where "n = 2 ^ 23 + m"
    define U :: nat where "U = 2 ^ (e - 1)"
    have dU: "2 ^ k * U = 2 ^ 125" using 2 by (simp add: U_def k_def flip: power_add)
    have "(2::nat) ^ 14 \<le> 2 ^ k" using 2 by (intro power_increasing) (simp_all add: k_def)
    then have "n < 2 ^ 10 * 2 ^ k" using assms(2) by (simp add: n_def)
    then have q: "n div 2 ^ k < 2 ^ 10" by (simp add: less_mult_imp_div_less)
    have "x = n * U" using 2 by (simp add: x n_def U_def)
    also have "n * U = (n div 2 ^ k * 2 ^ k + n mod 2 ^ k) * U" by (simp only: div_mult_mod_eq)
    also have "\<dots> = n div 2 ^ k * (2 ^ k * U) + n mod 2 ^ k * U" by (simp only: add_mult_distrib mult.assoc)
    finally have xe: "x = grid (n div 2 ^ k) + n mod 2 ^ k * U" using q by (simp add: dU grid_def)
    have ge: "grid (Suc (n div 2 ^ k)) = grid (n div 2 ^ k) + 2 ^ k * U" using q by (simp add: grid_Suc dU div_eq_0_iff)
    have "half_ord e m = rne n (2 ^ k)" using 2 by (simp add: half_ord_def n_def k_def)
    then show ?thesis using xe ge
      by (intro exI [of _ "n div 2 ^ k"] exI [of _ "n mod 2 ^ k"] exI [of _ U] exI [of _ "2 ^ k"]) (simp add: rne_def)
  next
    case 3
    define n where "n = (e - 112) * 2 ^ 23 + m"
    define U :: nat where "U = 2 ^ (e - 1)"
    have mb: "m div 2 ^ 13 < 2 ^ 10" using assms(2) by (simp add: less_mult_imp_div_less)
    have "n = ((e - 112) * 2 ^ 10) * 2 ^ 13 + m" by (simp add: n_def)
    then have nd: "n div 2 ^ 13 = (e - 112) * 2 ^ 10 + m div 2 ^ 13" and nm: "n mod 2 ^ 13 = m mod 2 ^ 13"
      by (simp, metis mod_mult_self3)
    have qd: "n div 2 ^ 13 div 2 ^ 10 = e - 112" "n div 2 ^ 13 mod 2 ^ 10 = m div 2 ^ 13"
      unfolding nd using mb by (rule pack_div_mod)+
    have "(2::nat) ^ (e - 112 - 1) * 2 ^ 125 = 2 ^ (13 + (e - 1))" using 3 by (simp only: power_add [symmetric]) simp
    then have dU: "2 ^ (e - 112 - 1) * 2 ^ 125 = 2 ^ 13 * U" by (simp only: U_def power_add)
    have big: "\<not> n div 2 ^ 13 < 2 ^ 10" using qd(1) 3 by (metis div_less zero_less_diff less_irrefl)
    have ge: "grid (Suc (n div 2 ^ 13)) = grid (n div 2 ^ 13) + 2 ^ 13 * U" by (simp only: grid_Suc qd dU)
    have gq: "grid (n div 2 ^ 13) = (2 ^ 10 + m div 2 ^ 13) * (2 ^ 13 * U)"
      unfolding grid_def using big by (simp only: if_False qd mult.assoc dU)
    have "2 ^ 23 + m = (2 ^ 10 + m div 2 ^ 13) * 2 ^ 13 + m mod 2 ^ 13" by (simp add: add_mult_distrib)
    then have "x = ((2 ^ 10 + m div 2 ^ 13) * 2 ^ 13 + m mod 2 ^ 13) * U" using 3 by (simp only: x U_def) simp
    also have "\<dots> = (2 ^ 10 + m div 2 ^ 13) * (2 ^ 13 * U) + m mod 2 ^ 13 * U" by (simp only: add_mult_distrib mult.assoc)
    finally have xe: "x = grid (n div 2 ^ 13) + n mod 2 ^ 13 * U" by (simp only: gq nm)
    have ho: "half_ord e m = rne n (2 ^ 13)" using 3 assms(1) by (simp add: half_ord_def n_def)
    have "n mod 2 ^ 13 < 2 ^ 13" by simp
    with xe ge ho [unfolded rne_def] show ?thesis by blast
  qed
qed

lemma half_ord_overflow:
  assumes "e < 255" "m < 2 ^ 23" and x: "x = (if e = 0 then m else (2 ^ 23 + m) * 2 ^ (e - 1))"
  shows "31 * 2 ^ 10 \<le> half_ord e m \<longleftrightarrow> 4095 * 2 ^ 153 \<le> x"
proof -
  consider "143 \<le> e" | "e = 142" | "e < 142" by linarith
  then show ?thesis
  proof cases
    case 1
    have "(2::nat) ^ 142 \<le> 2 ^ (e - 1)" using 1 by (intro power_increasing) simp_all
    then have "2 ^ 23 * 2 ^ 142 \<le> (2 ^ 23 + m) * 2 ^ (e - 1)" by (intro mult_mono) simp_all
    then have "4095 * 2 ^ 153 \<le> x" using 1 by (simp add: x)
    then show ?thesis using 1 assms(1) by (simp add: half_ord_def)
  next
    case 2
    define a b where "a = m div 2 ^ 13" and "b = m mod 2 ^ 13"
    have m: "m = a * 2 ^ 13 + b" by (simp add: a_def b_def)
    have ab: "b < 2 ^ 13" "a < 2 ^ 10" using assms(2) by (simp_all add: a_def b_def less_mult_imp_div_less)
    have n: "30 * 2 ^ 23 + m = (30 * 2 ^ 10 + a) * 2 ^ 13 + b" by (simp add: m)
    have dm: "(30 * 2 ^ 23 + m) div 2 ^ 13 = 30 * 2 ^ 10 + a" "(30 * 2 ^ 23 + m) mod 2 ^ 13 = b"
      unfolding n by (rule pack_div_mod [OF ab(1)])+
    have ho: "half_ord e m = 30 * 2 ^ 10 + a + (if 2 ^ 13 < 2 * b \<or> 2 * b = 2 ^ 13 \<and> odd (30 * 2 ^ 10 + a) then 1 else 0)"
      using 2 by (simp only: half_ord_def rne_def dm [symmetric]) simp
    have "31 * 2 ^ 10 \<le> half_ord e m \<longleftrightarrow> a = 1023 \<and> 2 ^ 12 \<le> b"
      using ab unfolding ho by auto
    also have "\<dots> \<longleftrightarrow> 2 ^ 23 - 2 ^ 12 \<le> m" using ab unfolding m by auto
    also have "\<dots> \<longleftrightarrow> 4095 * 2 ^ 12 \<le> 2 ^ 23 + m" by auto
    also have "\<dots> \<longleftrightarrow> 4095 * 2 ^ 12 * 2 ^ 141 \<le> (2 ^ 23 + m) * 2 ^ 141" by (simp only: mult_le_cancel2) simp
    also have "\<dots> \<longleftrightarrow> 4095 * 2 ^ 153 \<le> x" using 2 by (simp add: x)
    finally show ?thesis .
  next
    case 3
    have "x < 2 ^ 24 * 2 ^ 140"
    proof (cases "e = 0")
      case True
      then show ?thesis using assms(2) by (simp add: x)
    next
      case False
      have "(2::nat) ^ (e - 1) \<le> 2 ^ 140" using 3 by (intro power_increasing) simp_all
      then have "(2 ^ 23 + m) * 2 ^ (e - 1) \<le> (2 ^ 23 + m) * 2 ^ 140" by (rule mult_left_mono) simp
      also have "\<dots> < 2 ^ 24 * 2 ^ 140" using assms(2) by simp
      finally show ?thesis using False by (simp add: x)
    qed
    then have r: "\<not> 4095 * 2 ^ 153 \<le> x" by simp
    have a: "rne (2 ^ 23 + m) (2 ^ (126 - e)) \<le> 2 ^ 10" if "e \<le> 112"
    proof (rule rne_le)
      have "(2::nat) ^ 24 \<le> 2 ^ (10 + (126 - e))" using that by (intro power_increasing) simp_all
      then show "2 ^ 23 + m \<le> 2 ^ 10 * 2 ^ (126 - e)" using assms(2) by (simp only: power_add) simp
    qed simp
    have b: "rne ((e - 112) * 2 ^ 23 + m) (2 ^ 13) \<le> 30 * 2 ^ 10"
      by (rule rne_le) (use 3 assms(2) in simp_all)
    have "half_ord e m \<le> 30 * 2 ^ 10" using a b 3 by (auto simp: half_ord_def intro: order_trans)
    then show ?thesis using r by simp
  qed
qed

lemma from_float_parts:
  "half_sign (f16_from_float x) = float_sign x"
  "half_exp (f16_from_float x) * 2 ^ 10 + half_mant (f16_from_float x) = half_ord (float_exp x) (float_mant x)"
proof -
  let ?h = "f16_from_float x" and ?q = "half_ord (float_exp x) (float_mant x)"
  have b: "?q < 2 ^ 15" using half_ord_bound [of "float_exp x" "float_mant x"] float_bounds [of x] by simp
  have u: "unat ?h = float_sign x * 2 ^ 15 + ?q" by (rule from_float_word)
  show s: "half_sign ?h = float_sign x" unfolding half_sign_def u by (rule pack_div_mod [OF b])
  show "half_exp ?h * 2 ^ 10 + half_mant ?h = ?q" using half_fields [of ?h] u s by simp
qed

lemma ord_split:
  assumes "half_exp g * 2 ^ 10 + half_mant g = k * 2 ^ 10 + c" "c < 2 ^ 10"
  shows "half_exp g = k \<and> half_mant g = c"
proof -
  have b: "half_mant g < 2 ^ 10" using half_bounds [of g] by simp
  show ?thesis using pack_div_mod [OF b, of "half_exp g"] pack_div_mod [OF assms(2), of k] unfolding assms(1) by simp
qed

lemma rne_exact: "0 < d \<Longrightarrow> rne (k * d) d = k"
  by (simp add: rne_def)

lemma half_ord_finite:
  assumes "e \<noteq> 255" "e < 256" "m < 2 ^ 23"
  shows "half_ord e m \<le> 31 * 2 ^ 10"
proof -
  have a: "rne (2 ^ 23 + m) (2 ^ (126 - e)) \<le> 2 ^ 10" if "e \<le> 112"
  proof (rule rne_le)
    have "(2::nat) ^ 24 \<le> 2 ^ (10 + (126 - e))" using that by (intro power_increasing) simp_all
    then show "2 ^ 23 + m \<le> 2 ^ 10 * 2 ^ (126 - e)" using assms(3) by (simp only: power_add) simp
  qed simp
  have b: "rne ((e - 112) * 2 ^ 23 + m) (2 ^ 13) \<le> 31 * 2 ^ 10" if "e < 143"
    by (rule rne_le) (use that assms(3) in simp_all)
  show ?thesis using a b assms(1) by (auto simp: half_ord_def intro: order_trans)
qed

lemma to_float_value:
  assumes "float_sign x = half_sign h"
    and "if half_exp h = 31 then float_exp x = 255 \<and> float_mant x = half_mant h * 2 ^ 13
      else if half_exp h \<noteq> 0 then float_exp x = half_exp h + 112 \<and> float_mant x = half_mant h * 2 ^ 13
      else if half_mant h = 0 then float_exp x = 0 \<and> float_mant x = 0
      else \<exists>k. 1 \<le> k \<and> k \<le> 10 \<and> float_exp x = 113 - k \<and> 2 ^ 23 + float_mant x = half_mant h * 2 ^ k * 2 ^ 13"
  shows "half_exp h \<noteq> 31 \<Longrightarrow> float_units x = half_units h \<and> half_ord (float_exp x) (float_mant x) = half_exp h * 2 ^ 10 + half_mant h"
proof -
  assume n: "half_exp h \<noteq> 31"
  note b = half_bounds [of h]
  consider "half_exp h \<noteq> 0" | "half_exp h = 0" "half_mant h = 0" | "half_exp h = 0" "half_mant h \<noteq> 0" by blast
  then show ?thesis
  proof cases
    case 1
    then have f: "float_exp x = half_exp h + 112" "float_mant x = half_mant h * 2 ^ 13" using n assms(2) by simp_all
    have p: "(2::nat) ^ 13 * 2 ^ (half_exp h + 111) = 2 ^ (half_exp h - 1) * 2 ^ 125"
      using 1 by (simp only: power_add [symmetric]) simp
    have "float_units x = (2 ^ 10 + half_mant h) * (2 ^ 13 * 2 ^ (half_exp h + 111))"
      by (simp add: float_units_def f algebra_simps)
    then have "float_units x = half_units h" using 1 unfolding p by (simp add: half_units_def)
    moreover have "half_ord (float_exp x) (float_mant x) = rne ((half_exp h * 2 ^ 10 + half_mant h) * 2 ^ 13) (2 ^ 13)"
      using 1 n b by (simp add: half_ord_def f algebra_simps)
    moreover have "rne ((half_exp h * 2 ^ 10 + half_mant h) * 2 ^ 13) (2 ^ 13) = half_exp h * 2 ^ 10 + half_mant h"
      by (rule rne_exact) simp
    ultimately show ?thesis by (simp only:)
  next
    case 2
    then show ?thesis using assms(2) by (simp add: float_units_def half_units_def half_ord_def)
  next
    case 3
    then obtain k where k: "1 \<le> k" "k \<le> 10" "float_exp x = 113 - k" "2 ^ 23 + float_mant x = half_mant h * 2 ^ k * 2 ^ 13"
      using assms(2) by auto
    have e: "126 - float_exp x = k + 13" "float_exp x - 1 = 112 - k" "102 \<le> float_exp x" "float_exp x \<le> 112" using k(1,2,3) by simp_all
    have p: "(2::nat) ^ k * 2 ^ 13 * 2 ^ (112 - k) = 2 ^ 125" using k(1,2) by (simp only: power_add [symmetric]) simp
    have "float_units x = half_mant h * 2 ^ k * 2 ^ 13 * 2 ^ (112 - k)"
      using e unfolding float_units_def k(4) [symmetric] by simp
    then have "float_units x = half_mant h * (2 ^ k * 2 ^ 13 * 2 ^ (112 - k))" by (simp only: mult.assoc)
    then have "float_units x = half_units h" unfolding p using 3 by (simp add: half_units_def)
    moreover have "half_ord (float_exp x) (float_mant x) = rne (half_mant h * 2 ^ (k + 13)) (2 ^ (k + 13))"
      using e unfolding half_ord_def k(4) e(1) by (simp add: power_add mult.assoc)
    ultimately show ?thesis using 3 by (simp add: rne_exact)
  qed
qed

subsection \<open>Properties\<close>

lemma half_survives_the_float_aux:
  "\<exists>x. f16_to_float h = Some x \<and> float_sign x = half_sign h \<and>
     (if half_exp h = 31 then float_exp x = 255 \<and> float_is_nan x = half_is_nan h else float_units x = half_units h) \<and>
     half_sign (f16_from_float x) = half_sign h \<and>
     (if half_is_nan h then half_exp (f16_from_float x) = 31 \<and> half_mant (f16_from_float x) = 512
      else f16_from_float x = h)"
proof -
  obtain x where x: "f16_to_float h = Some x" and sg: "float_sign x = half_sign h"
    and f: "if half_exp h = 31 then float_exp x = 255 \<and> float_mant x = half_mant h * 2 ^ 13
      else if half_exp h \<noteq> 0 then float_exp x = half_exp h + 112 \<and> float_mant x = half_mant h * 2 ^ 13
      else if half_mant h = 0 then float_exp x = 0 \<and> float_mant x = 0
      else \<exists>k. 1 \<le> k \<and> k \<le> 10 \<and> float_exp x = 113 - k \<and> 2 ^ 23 + float_mant x = half_mant h * 2 ^ k * 2 ^ 13"
    using to_float_word [of h] by blast
  note g = from_float_parts [of x]
  show ?thesis
  proof (cases "half_exp h = 31")
    case True
    then have e: "float_exp x = 255" "float_mant x = half_mant h * 2 ^ 13" using f by simp_all
    have "half_exp (f16_from_float x) * 2 ^ 10 + half_mant (f16_from_float x) = 31 * 2 ^ 10 + (if half_mant h \<noteq> 0 then 512 else 0)"
      unfolding g(2) e by (simp add: half_ord_def)
    from ord_split [OF this]
    have p: "half_exp (f16_from_float x) = 31" "half_mant (f16_from_float x) = (if half_mant h \<noteq> 0 then 512 else 0)" by simp_all
    have "f16_from_float x = h" if "half_mant h = 0" by (rule half_eqI) (simp_all add: g(1) sg p that True)
    then show ?thesis using x sg True e p g(1) by (simp add: half_is_nan_def float_is_nan_def)
  next
    case False
    note v = to_float_value [OF sg f False]
    have "f16_from_float x = h"
      using ord_split [of "f16_from_float x" "half_exp h" "half_mant h"] half_bounds [of h] g v sg
      by (intro half_eqI) simp_all
    then show ?thesis using x sg False v by (simp add: half_is_nan_def)
  qed
qed

text \<open>
  \<open>f16_to_float\<close> gives a result for every half (its loop ends), with the sign and exactly the value of
  the half, and infinities and NaNs stay what they are; \<open>f16_from_float\<close> takes it back to the half, a
  NaN to the quiet NaN of its sign.
\<close>

theorem half_survives_the_float:
  "\<exists>x. f16_to_float h = Some x \<and> float_sign x = half_sign h \<and>
     (if half_exp h = 31 then float_exp x = 255 \<and> float_is_nan x = half_is_nan h else float_units x = half_units h) \<and>
     half_sign (f16_from_float x) = half_sign h \<and>
     (if half_is_nan h then half_exp (f16_from_float x) = 31 \<and> half_mant (f16_from_float x) = 512
      else f16_from_float x = h)"
  by (rule half_survives_the_float_aux)

lemma half_resave_aux:
  "map_option f16_from_float (f16_to_float (f16_from_float x)) = Some (f16_from_float x)"
proof -
  let ?h = "f16_from_float x"
  obtain y where y: "f16_to_float ?h = Some y" and s: "half_sign (f16_from_float y) = half_sign ?h"
    and k: "if half_is_nan ?h then half_exp (f16_from_float y) = 31 \<and> half_mant (f16_from_float y) = 512 else f16_from_float y = ?h"
    using half_survives_the_float_aux [of ?h] by blast
  have "f16_from_float y = ?h"
  proof (cases "half_is_nan ?h")
    case True
    note g = from_float_parts(2) [of x]
    have "half_ord (float_exp x) (float_mant x) > 31 * 2 ^ 10" using True unfolding half_is_nan_def g [symmetric] by simp
    then have e: "float_exp x = 255" using half_ord_finite [of "float_exp x" "float_mant x"] float_bounds [of x] by fastforce
    have "half_mant ?h = 512"
      using g True by (simp add: e half_ord_def half_is_nan_def split: if_splits)
    then show ?thesis using True k s by (intro half_eqI) (simp_all add: half_is_nan_def)
  qed (use k in simp)
  then show ?thesis by (simp add: y)
qed

text \<open>
  saving what was loaded changes nothing: the half of any float, NaNs included, read as a float and
  written again is the same half.
\<close>

theorem half_resave_is_stable:
  "map_option f16_from_float (f16_to_float (f16_from_float x)) = Some (f16_from_float x)"
  by (rule half_resave_aux)

text \<open>
  C40: \<open>f16_from_float\<close> rounds to nearest, ties to even, keeping the sign: a finite float goes to infinity
  exactly from the midpoint above the largest half on, and otherwise no half is nearer, one as near
  being the chosen one or its odd neighbour.
\<close>

theorem half_is_nearest:
  assumes "float_exp x \<noteq> 255"
  shows "half_sign (f16_from_float x) = float_sign x \<and> \<not> half_is_nan (f16_from_float x) \<and>
    (half_exp (f16_from_float x) = 31 \<longleftrightarrow> 4095 * 2 ^ 153 \<le> float_units x) \<and>
    (half_exp (f16_from_float x) \<noteq> 31 \<longrightarrow>
      (\<forall>g. \<bar>int (float_units x) - int (half_units (f16_from_float x))\<bar> \<le> \<bar>int (float_units x) - int (half_units g)\<bar>) \<and>
      (\<forall>g. \<bar>int (float_units x) - int (half_units (f16_from_float x))\<bar> = \<bar>int (float_units x) - int (half_units g)\<bar> \<longrightarrow>
         half_units g = half_units (f16_from_float x) \<or> even (half_mant (f16_from_float x))))"
proof -
  let ?h = "f16_from_float x" and ?e = "float_exp x" and ?m = "float_mant x"
  let ?q = "half_ord ?e ?m"
  note g = from_float_parts [of x]
  have b: "?e < 256" "?m < 2 ^ 23" "?e < 255" using float_bounds [of x] assms by simp_all
  have le: "?q \<le> 31 * 2 ^ 10" by (rule half_ord_finite [OF assms b(1,2)])
  have ov: "31 * 2 ^ 10 \<le> ?q \<longleftrightarrow> 4095 * 2 ^ 153 \<le> float_units x"
    by (rule half_ord_overflow [OF b(3,2)]) (simp add: float_units_def)
  have top: "half_exp ?h = 31 \<longleftrightarrow> ?q = 31 * 2 ^ 10"
  proof
    assume "half_exp ?h = 31" then show "?q = 31 * 2 ^ 10" using g(2) le by simp
  next
    assume "?q = 31 * 2 ^ 10" then show "half_exp ?h = 31" using ord_split [of ?h 31 0] g(2) by simp
  qed
  have nn: "\<not> half_is_nan ?h" using g(2) le by (auto simp: half_is_nan_def)
  have near: "\<bar>int (float_units x) - int (half_units ?h)\<bar> \<le> \<bar>int (float_units x) - int (half_units g)\<bar> \<and>
    (\<bar>int (float_units x) - int (half_units ?h)\<bar> = \<bar>int (float_units x) - int (half_units g)\<bar> \<longrightarrow>
       half_units g = half_units ?h \<or> even (half_mant ?h))" if fin: "half_exp ?h \<noteq> 31" for g
  proof -
    have "?e < 143"
    proof (rule ccontr)
      assume "\<not> ?e < 143"
      then have "?q = 31 * 2 ^ 10" using assms by (simp add: half_ord_def)
      then show False using fin top by simp
    qed
    then obtain q r U d where p: "float_units x = grid q + r * U" "grid (Suc q) = grid q + d * U" "r < d"
      "?q = q + (if d < 2 * r \<or> 2 * r = d \<and> odd q then 1 else 0)"
      using half_ord_places [OF _ b(2), of ?e "float_units x"] by (auto simp: float_units_def)
    have hg: "half_units ?h = grid ?q" by (simp only: half_units_grid g(2))
    have ev: "even (half_mant ?h) = even ?q" unfolding g(2) [symmetric] by simp
    note R = rounds_nearest [OF p, of "half_exp g * 2 ^ 10 + half_mant g", folded hg, folded half_units_grid]
    show ?thesis
    proof (rule conjI [OF R [THEN conjunct1]], rule impI)
      assume "\<bar>int (float_units x) - int (half_units ?h)\<bar> = \<bar>int (float_units x) - int (half_units g)\<bar>"
      with R have "half_exp g * 2 ^ 10 + half_mant g = ?q \<or> even ?q" by blast
      then show "half_units g = half_units ?h \<or> even (half_mant ?h)"
        unfolding ev hg half_units_grid [of g] by (rule disj_forward) simp_all
    qed
  qed
  have up: "half_exp ?h = 31 \<longleftrightarrow> 4095 * 2 ^ 153 \<le> float_units x"
    unfolding top ov [symmetric] using le by linarith
  have "half_exp ?h \<noteq> 31 \<longrightarrow>
      (\<forall>g. \<bar>int (float_units x) - int (half_units ?h)\<bar> \<le> \<bar>int (float_units x) - int (half_units g)\<bar>) \<and>
      (\<forall>g. \<bar>int (float_units x) - int (half_units ?h)\<bar> = \<bar>int (float_units x) - int (half_units g)\<bar> \<longrightarrow>
         half_units g = half_units ?h \<or> even (half_mant ?h))"
  proof (rule impI)
    assume "half_exp ?h \<noteq> 31"
    note n = near [OF this]
    show "(\<forall>g. \<bar>int (float_units x) - int (half_units ?h)\<bar> \<le> \<bar>int (float_units x) - int (half_units g)\<bar>) \<and>
      (\<forall>g. \<bar>int (float_units x) - int (half_units ?h)\<bar> = \<bar>int (float_units x) - int (half_units g)\<bar> \<longrightarrow>
         half_units g = half_units ?h \<or> even (half_mant ?h))"
      by (rule conjI; rule allI; rule n [THEN conjunct1] n [THEN conjunct2])
  qed
  then show ?thesis using g(1) nn up by (intro conjI)
qed

text \<open>The float 1.0001 (0x3F800347) and its half 1.0.\<close>

theorem half_is_nearest_witness:
  "half_exp (f16_from_float 0x3F800347) = 15 \<and> half_mant (f16_from_float 0x3F800347) = 0 \<and>
   \<bar>int (float_units 0x3F800347) - int (half_units (f16_from_float 0x3F800347))\<bar> \<le>
     \<bar>int (float_units 0x3F800347) - int (half_units 0x3C01)\<bar>"
proof -
  have e: "half_exp (f16_from_float 0x3F800347) = 15 \<and> half_mant (f16_from_float 0x3F800347) = 0"
    using ord_split [of "f16_from_float 0x3F800347" 15 0] from_float_parts(2) [of "0x3F800347"]
    by (simp add: float_exp_def float_mant_def half_ord_def rne_def)
  have f: "float_exp 0x3F800347 \<noteq> 255" by (simp add: float_exp_def)
  show ?thesis using half_is_nearest [OF f] e by simp
qed

end
