(* ===== verification/Sha256.thy ===== *)
theory Sha256
  imports Prelude
begin

text \<open>
  \<open>base/sha256.cpp\<close>: the content hash, on 32-bit words and bytes, and against the padding and the folding
  of FIPS 180-4, which it computes in another way: whole blocks in place, then a tail of one or two blocks.
\<close>

type_synonym byte = "8 word"

subsection \<open>The code\<close>

text \<open>The rows of the source's table.\<close>

definition k_round :: "32 word list" where
  "k_round = concat [
    [0x428a2f98, 0x71374491, 0xb5c0fbcf, 0xe9b5dba5, 0x3956c25b, 0x59f111f1, 0x923f82a4],
    [0xab1c5ed5, 0xd807aa98, 0x12835b01, 0x243185be, 0x550c7dc3, 0x72be5d74, 0x80deb1fe],
    [0x9bdc06a7, 0xc19bf174, 0xe49b69c1, 0xefbe4786, 0x0fc19dc6, 0x240ca1cc, 0x2de92c6f],
    [0x4a7484aa, 0x5cb0a9dc, 0x76f988da, 0x983e5152, 0xa831c66d, 0xb00327c8, 0xbf597fc7],
    [0xc6e00bf3, 0xd5a79147, 0x06ca6351, 0x14292967, 0x27b70a85, 0x2e1b2138, 0x4d2c6dfc],
    [0x53380d13, 0x650a7354, 0x766a0abb, 0x81c2c92e, 0x92722c85, 0xa2bfe8a1, 0xa81a664b],
    [0xc24b8b70, 0xc76c51a3, 0xd192e819, 0xd6990624, 0xf40e3585, 0x106aa070, 0x19a4c116],
    [0x1e376c08, 0x2748774c, 0x34b0bcb5, 0x391c0cb3, 0x4ed8aa4a, 0x5b9cca4f, 0x682e6ff3],
    [0x748f82ee, 0x78a5636f, 0x84c87814, 0x8cc70208, 0x90befffa, 0xa4506ceb, 0xbef9a3f7],
    [0xc67178f2]]"

definition rotr :: "32 word \<Rightarrow> nat \<Rightarrow> 32 word" where
  "rotr x n = drop_bit n x OR push_bit (32 - n) x"

type_synonym sha_state = "32 word list"

definition initial_state :: sha_state where
  "initial_state = [0x6a09e667, 0xbb67ae85, 0x3c6ef372, 0xa54ff53a, 0x510e527f, 0x9b05688c, 0x1f83d9ab, 0x5be0cd19]"

text \<open>The first sixteen words of the schedule, and the later ones from the ones before.\<close>

definition load_word :: "byte list \<Rightarrow> nat \<Rightarrow> 32 word" where
  "load_word block t =
     push_bit 24 (ucast (block ! (t * 4))) OR push_bit 16 (ucast (block ! (t * 4 + 1))) OR
     push_bit 8 (ucast (block ! (t * 4 + 2))) OR ucast (block ! (t * 4 + 3))"

definition extend_word :: "32 word list \<Rightarrow> nat \<Rightarrow> 32 word list" where
  "extend_word w t =
     (let s0 = rotr (w ! (t - 15)) 7 XOR rotr (w ! (t - 15)) 18 XOR drop_bit 3 (w ! (t - 15));
          s1 = rotr (w ! (t - 2)) 17 XOR rotr (w ! (t - 2)) 19 XOR drop_bit 10 (w ! (t - 2))
      in w @ [w ! (t - 16) + s0 + w ! (t - 7) + s1])"

definition schedule :: "byte list \<Rightarrow> 32 word list" where
  "schedule block = foldl extend_word (map (load_word block) [0..<16]) [16..<64]"

record round_vars =
  ra :: "32 word"
  rb :: "32 word"
  rc :: "32 word"
  rd :: "32 word"
  re :: "32 word"
  rf :: "32 word"
  rg :: "32 word"
  rh :: "32 word"

definition round_step :: "32 word list \<Rightarrow> round_vars \<Rightarrow> nat \<Rightarrow> round_vars" where
  "round_step w v t =
     (let big_s1 = rotr (re v) 6 XOR rotr (re v) 11 XOR rotr (re v) 25;
          ch = (re v AND rf v) XOR (NOT (re v) AND rg v);
          t1 = rh v + big_s1 + ch + k_round ! t + w ! t;
          big_s0 = rotr (ra v) 2 XOR rotr (ra v) 13 XOR rotr (ra v) 22;
          maj = (ra v AND rb v) XOR (ra v AND rc v) XOR (rb v AND rc v);
          t2 = big_s0 + maj
      in \<lparr>ra = t1 + t2, rb = ra v, rc = rb v, rd = rc v, re = rd v + t1, rf = re v, rg = rf v, rh = rg v\<rparr>)"

definition compress :: "sha_state \<Rightarrow> byte list \<Rightarrow> sha_state" where
  "compress s block =
     (let w = schedule block;
          v = foldl (round_step w) \<lparr>ra = s ! 0, rb = s ! 1, rc = s ! 2, rd = s ! 3, re = s ! 4, rf = s ! 5, rg = s ! 6, rh = s ! 7\<rparr> [0..<64]
      in [s ! 0 + ra v, s ! 1 + rb v, s ! 2 + rc v, s ! 3 + rd v, s ! 4 + re v, s ! 5 + rf v, s ! 6 + rg v, s ! 7 + rh v])"

text \<open>The loop over the whole blocks: the state and where it stopped.\<close>

function whole_blocks :: "byte list \<Rightarrow> sha_state \<Rightarrow> nat \<Rightarrow> sha_state \<times> nat" where
  "whole_blocks p s i = (if i + 64 \<le> length p then whole_blocks p (compress s (take 64 (drop i p))) (i + 64) else (s, i))"
  by pat_completeness auto
termination
  by (relation "measure (\<lambda>(p, s, i). length p - i)") auto

declare whole_blocks.simps [simp del]

definition length_byte :: "nat \<Rightarrow> nat \<Rightarrow> byte" where
  "length_byte n i = ucast (drop_bit (56 - i * 8) (word_of_nat n * 8 :: 64 word) AND 0xFF)"

definition tail_blocks :: "nat \<Rightarrow> nat" where
  "tail_blocks rest = (if rest + 1 + 8 \<le> 64 then 1 else 2)"

definition make_tail :: "byte list \<Rightarrow> nat \<Rightarrow> byte list" where
  "make_tail p i =
     (let n = length p; rest = n - i; len_at = tail_blocks rest * 64 - 8;
          tail = (drop i p @ replicate (128 - rest) 0)[rest := 0x80]
      in foldl (\<lambda>xs k. xs[len_at + k := length_byte n k]) tail [0..<8])"

definition emit_word :: "32 word \<Rightarrow> byte list" where
  "emit_word h = [ucast (drop_bit 24 h AND 0xFF), ucast (drop_bit 16 h AND 0xFF), ucast (drop_bit 8 h AND 0xFF), ucast (h AND 0xFF)]"

definition sha256 :: "byte list \<Rightarrow> byte list" where
  "sha256 p =
     (let (s, i) = whole_blocks p initial_state 0;
          tail = make_tail p i;
          s = foldl (\<lambda>s b. compress s (take 64 (drop (b * 64) tail))) s [0..<tail_blocks (length p - i)]
      in concat (map (\<lambda>i. emit_word (s ! i)) [0..<8]))"

definition k_hex :: string where
  "k_hex = ''0123456789abcdef''"

definition to_hex :: "byte list \<Rightarrow> nat \<Rightarrow> string" where
  "to_hex digest n =
     concat (map (\<lambda>i. [k_hex ! unat (drop_bit 4 (digest ! i) AND 0x0F), k_hex ! unat (digest ! i AND 0x0F)])
       [0..<min n (length digest)])"

subsection \<open>The standard\<close>

text \<open>FIPS 180-4 5.1.1: a one bit, the fewest zero bits up to 448 modulo 512, the length in 64 bits.\<close>

definition fips_zeros :: "nat \<Rightarrow> nat" where
  "fips_zeros n = (119 - n mod 64) mod 64"

definition fips_pad :: "byte list \<Rightarrow> byte list" where
  "fips_pad p = p @ [0x80] @ replicate (fips_zeros (length p)) 0 @ map (length_byte (length p)) [0..<8]"

fun blocks_of :: "nat \<Rightarrow> byte list \<Rightarrow> byte list list" where
  "blocks_of 0 p = []"
| "blocks_of (Suc n) p = take 64 p # blocks_of n (drop 64 p)"

definition fips_hash :: "byte list \<Rightarrow> byte list" where
  "fips_hash p =
     (let m = fips_pad p in concat (map emit_word (foldl compress initial_state (blocks_of (length m div 64) m))))"

subsection \<open>The code is the standard\<close>

lemma rotr_is_rotate: "0 < n \<Longrightarrow> n < 32 \<Longrightarrow> rotr x n = word_rotr n x"
  by (rule bit_word_eqI) (auto simp: rotr_def bit_simps bit_word_rotr_iff mod_if add.commute [of n] dest: bit_imp_le_length)

lemma blocks_of_add: "blocks_of (k + b) p = blocks_of k p @ blocks_of b (drop (64 * k) p)"
  by (induction k arbitrary: p) (simp_all add: ac_simps)

lemma blocks_of_append: "64 * k \<le> length p \<Longrightarrow> blocks_of k (p @ q) = blocks_of k p"
proof (induction k arbitrary: p)
  case (Suc k)
  then have "64 \<le> length p" "64 * k \<le> length (drop 64 p)" by simp_all
  then show ?case using Suc.IH [of "drop 64 p"] by simp
qed simp

lemma blocks_of_map: "blocks_of b p = map (\<lambda>i. take 64 (drop (i * 64) p)) [0..<b]"
proof (induction b)
  case (Suc b)
  have "blocks_of (b + 1) p = blocks_of b p @ [take 64 (drop (b * 64) p)]"
    by (simp only: blocks_of_add) (simp add: mult.commute)
  then show ?case using Suc by simp
qed simp

lemma whole_blocks_fold:
  "whole_blocks p s i =
     (foldl compress s (blocks_of ((length p - i) div 64) (drop i p)), i + 64 * ((length p - i) div 64))"
proof (induction p s i rule: whole_blocks.induct)
  case (1 p s i)
  show ?case
  proof (cases "i + 64 \<le> length p")
    case True
    have d: "(length p - i) div 64 = Suc ((length p - (i + 64)) div 64)"
      by (rule le_div_geq [of 64 "length p - i", unfolded diff_diff_left]) (use True in simp_all)
    have "whole_blocks p s i = whole_blocks p (compress s (take 64 (drop i p))) (i + 64)"
      by (subst whole_blocks.simps) (simp only: True if_True)
    also note 1 [OF True]
    finally have w: "whole_blocks p s i = (foldl compress (compress s (take 64 (drop i p)))
      (blocks_of ((length p - (i + 64)) div 64) (drop (i + 64) p)), i + 64 + 64 * ((length p - (i + 64)) div 64))" .
    have "drop (i + 64) p = drop 64 (drop i p)" by (simp add: add.commute)
    then show ?thesis unfolding w d by (simp only: blocks_of.simps foldl.simps mult_Suc_right add.assoc)
  next
    case False
    then have "(length p - i) div 64 = 0" by simp
    then show ?thesis using False by (subst whole_blocks.simps) simp
  qed
qed

lemma length_compress [simp]: "length (compress s b) = 8"
  by (simp add: compress_def Let_def)

lemma length_fold_compress [simp]: "length s = 8 \<Longrightarrow> length (foldl compress s bs) = 8"
  by (induction bs arbitrary: s) simp_all

lemma fold_update:
  "length (foldl (\<lambda>xs k. xs[a + k := f k]) xs [0..<m]) = length xs \<and>
   (\<forall>j < length xs. foldl (\<lambda>xs k. xs[a + k := f k]) xs [0..<m] ! j = (if a \<le> j \<and> j < a + m then f (j - a) else xs ! j))"
proof (induction m)
  case (Suc m)
  then show ?case by (auto simp: nth_list_update le_less_Suc_eq less_Suc_eq)
qed auto

lemma fips_zeros_tail: "rest < 64 \<Longrightarrow> rest + 1 + fips_zeros rest + 8 = 64 * tail_blocks rest"
proof (cases "rest < 56")
  case True
  then have e: "119 - rest mod 64 = (55 - rest) + 64" by simp
  have "fips_zeros rest = 55 - rest" unfolding fips_zeros_def e by simp
  then show ?thesis using True by (simp add: tail_blocks_def)
next
  case False
  assume "rest < 64"
  then show ?thesis using False by (simp add: fips_zeros_def tail_blocks_def)
qed

lemma fips_zeros_mod: "fips_zeros n = fips_zeros (n mod 64)"
  by (simp add: fips_zeros_def)

lemma make_tail_pad:
  assumes r: "length p - i < 64" "i \<le> length p"
  shows "take (64 * tail_blocks (length p - i)) (make_tail p i) =
    drop i p @ [0x80] @ replicate (fips_zeros (length p - i)) 0 @ map (length_byte (length p)) [0..<8]" (is "_ = ?r")
proof -
  define rest where "rest = length p - i"
  define z where "z = fips_zeros rest"
  define t where "t = (drop i p @ replicate (128 - rest) (0 :: byte))[rest := 0x80]"
  define a where "a = tail_blocks rest * 64 - 8"
  have rz: "rest + 1 + z = a" "rest < 64" "a + 8 = 64 * tail_blocks rest" "a + 8 \<le> 128"
    using fips_zeros_tail [of rest] r by (simp_all add: rest_def [symmetric] z_def a_def tail_blocks_def)
  have lt: "length t = 128" using r rz(2) by (simp add: t_def rest_def)
  have mk: "make_tail p i = foldl (\<lambda>xs k. xs[a + k := length_byte (length p) k]) t [0..<8]"
    by (simp add: make_tail_def Let_def a_def t_def rest_def)
  note fu = fold_update [of a "length_byte (length p)" t 8, folded mk]
  show ?thesis
  proof (rule nth_equalityI)
    show "length (take (64 * tail_blocks (length p - i)) (make_tail p i)) = length ?r"
      using fu lt rz r by (simp add: rest_def [symmetric] z_def [symmetric])
  next
    fix j
    assume "j < length (take (64 * tail_blocks (length p - i)) (make_tail p i))"
    then have j: "j < a + 8" using rz by (simp add: rest_def [symmetric])
    then have v: "make_tail p i ! j = (if a \<le> j then length_byte (length p) (j - a) else t ! j)" using fu lt rz by simp
    have ir: "i + rest = length p" using r by (simp add: rest_def)
    have tj: "t ! j = (if j < rest then p ! (i + j) else if j = rest then 0x80 else 0)" if "j < 128" "i + rest = length p"
      using that by (auto simp: t_def nth_list_update nth_append rest_def [symmetric])
    have "take (64 * tail_blocks (length p - i)) (make_tail p i) ! j = make_tail p i ! j" using j rz by (simp add: rest_def [symmetric])
    also have "\<dots> = ?r ! j"
      using v tj j rz r ir by (auto simp: nth_append nth_Cons' rest_def [symmetric] z_def [symmetric])
    finally show "take (64 * tail_blocks (length p - i)) (make_tail p i) ! j = ?r ! j" .
  qed
qed

lemma sha256_is_fips_aux:
  "sha256 p = fips_hash p \<and> 64 dvd length (fips_pad p) \<and> length (sha256 p) = 32"
proof -
  define k where "k = length p div 64"
  define rest where "rest = length p - 64 * k"
  have r: "rest = length p mod 64" "rest < 64" "64 * k \<le> length p"
    by (simp_all add: rest_def k_def modulo_nat_def)
  define xs where "xs = drop (64 * k) p @ [0x80] @ replicate (fips_zeros rest) 0 @ map (length_byte (length p)) [0..<8]"
  have z: "fips_zeros (length p) = fips_zeros rest" unfolding r(1) by (rule fips_zeros_mod)
  have "fips_pad p = (take (64 * k) p @ drop (64 * k) p) @ [0x80] @ replicate (fips_zeros rest) 0 @ map (length_byte (length p)) [0..<8]"
    by (simp only: append_take_drop_id fips_pad_def z)
  then have pad: "fips_pad p = take (64 * k) p @ xs" by (simp only: xs_def append_assoc)
  have ltl: "length xs = 64 * tail_blocks rest" using fips_zeros_tail [OF r(2)] by (simp add: xs_def rest_def [symmetric])
  have len: "length (fips_pad p) = 64 * (k + tail_blocks rest)" using r(3) by (simp add: pad ltl)
  have tk: "drop (64 * k) (fips_pad p) = xs" using r(3) by (simp add: pad)
  have bl: "blocks_of (length (fips_pad p) div 64) (fips_pad p) = blocks_of k p @ blocks_of (tail_blocks rest) xs"
    using blocks_of_append [of k "take (64 * k) p" xs] blocks_of_append [of k "take (64 * k) p" "drop (64 * k) p"] r(3)
    by (simp add: len blocks_of_add tk) (simp add: pad)
  have mt: "take (64 * tail_blocks rest) (make_tail p (64 * k)) = xs"
    using make_tail_pad [of p "64 * k"] r by (simp add: rest_def xs_def)
  have "blocks_of b q = blocks_of b (take (64 * b) q)" for b q
    by (cases "64 * b \<le> length q") (use blocks_of_append [of b "take (64 * b) q" "drop (64 * b) q"] in simp_all)
  then have bt: "blocks_of (tail_blocks rest) (make_tail p (64 * k)) = blocks_of (tail_blocks rest) xs"
    using mt by metis
  have wb: "whole_blocks p initial_state 0 = (foldl compress initial_state (blocks_of k p), 64 * k)"
    by (simp add: whole_blocks_fold k_def)
  define s where "s = foldl compress initial_state (blocks_of k p @ blocks_of (tail_blocks rest) xs)"
  have s8: "length s = 8" by (simp add: s_def initial_state_def)
  have fb: "foldl (\<lambda>s b. compress s (take 64 (drop (b * 64) t))) s0 [0..<b] = foldl compress s0 (blocks_of b t)" for s0 t b
    by (simp add: blocks_of_map foldl_map)
  have "sha256 p = concat (map (\<lambda>i. emit_word (s ! i)) [0..<8])"
    unfolding sha256_def wb Let_def prod.case fb rest_def [symmetric] bt s_def foldl_append ..
  also have "map (\<lambda>i. emit_word (s ! i)) [0..<8] = map emit_word s"
    using map_nth [of s] s8 by (metis map_map comp_apply map_eq_conv)
  finally have e: "sha256 p = concat (map emit_word s)" .
  have "fips_hash p = concat (map emit_word s)" unfolding fips_hash_def Let_def bl s_def ..
  moreover have "length (concat (map emit_word s)) = 4 * length s" by (induction s) (simp_all add: emit_word_def)
  ultimately show ?thesis using e s8 len by simp
qed


end
