(* ===== verification/Tile_Blob.thy ===== *)
theory Tile_Blob
  imports Document Half_Float Sha256 "HOL-Library.Char_ord"
begin

text \<open>
  \<open>serialize/tile_blob.hpp\<close>, \<open>serialize/tile_blob.cpp\<close> and \<open>serialize/blob_compress.cpp\<close>: the blob format of the
  tile store. zstd is a parameter: what \<open>ZSTD_compress\<close> writes for an input, \<open>None\<close> for an error, and what
  \<open>ZSTD_decompress\<close> writes into a buffer of a given capacity. A sample is the bits of its \<open>float\<close>; the bytes of
  a stored sample are in the order of a little-endian machine, which \<open>reinterpret_cast\<close> gives there.
\<close>

subsection \<open>Geometry\<close>

datatype blob_error_kind = BadGeometry | BadHash | CorruptBlob | HashMismatch

record tile_geometry =
  tg_edge :: int
  tg_width :: int
  tg_height :: int
  tg_tiles_x :: int
  tg_tiles_y :: int

definition k_max_tile_edge :: int where "k_max_tile_edge = 4096"
definition k_max_dimension :: int where "k_max_dimension = 2 ^ 20"
definition k_max_tiles :: int where "k_max_tiles = 2 ^ 22"

fun channels_per_pixel :: "pixel_format \<Rightarrow> nat" where
  "channels_per_pixel Rgba32fLinearPremul = 4" | "channels_per_pixel Rgba16fLinearPremul = 4" | "channels_per_pixel Rgba8Srgb = 4"

definition tile_count :: "tile_geometry \<Rightarrow> int" where
  "tile_count g = tg_tiles_x g * tg_tiles_y g"

definition tile_samples :: "tile_geometry \<Rightarrow> int" where
  "tile_samples g = tg_edge g * tg_edge g * int (channels_per_pixel Rgba32fLinearPremul)"

definition is_power_of_two :: "int \<Rightarrow> bool" where
  "is_power_of_two v \<longleftrightarrow> v > 0 \<and> v AND (v - 1) = 0"

definition validate_tile_geometry :: "int \<Rightarrow> int \<Rightarrow> int \<Rightarrow> blob_error_kind + tile_geometry" where
  "validate_tile_geometry edge width height =
     (if \<not> is_power_of_two edge \<or> edge > k_max_tile_edge then Inl BadGeometry
      else if width \<le> 0 \<or> height \<le> 0 \<or> width > k_max_dimension \<or> height > k_max_dimension then Inl BadGeometry
      else
        let tx = (width + edge - 1) sdiv edge; ty = (height + edge - 1) sdiv edge
        in if tx * ty > k_max_tiles then Inl BadGeometry
           else Inr \<lparr>tg_edge = edge, tg_width = width, tg_height = height, tg_tiles_x = tx, tg_tiles_y = ty\<rparr>)"

subsection \<open>Names\<close>

definition k_tile_hash_bytes :: nat where "k_tile_hash_bytes = 16"
definition k_tile_hash_chars :: nat where "k_tile_hash_chars = k_tile_hash_bytes * 2"

definition hash_tile :: "byte list \<Rightarrow> string" where
  "hash_tile storage_bytes = to_hex (sha256 storage_bytes) k_tile_hash_bytes"

definition is_hex :: "char \<Rightarrow> bool" where
  "is_hex c \<longleftrightarrow> (CHR ''0'' \<le> c \<and> c \<le> CHR ''9'') \<or> (CHR ''a'' \<le> c \<and> c \<le> CHR ''f'')"

definition is_tile_hash :: "string \<Rightarrow> bool" where
  "is_tile_hash name \<longleftrightarrow> length name = k_tile_hash_chars \<and> list_all is_hex name"

definition tile_blob_uri :: "string \<Rightarrow> string \<Rightarrow> string" where
  "tile_blob_uri base h =
     (if base \<noteq> [] \<and> last base \<noteq> CHR ''/'' then base @ ''/'' else base) @ take 2 h @ ''/'' @ h"

subsection \<open>The byte shuffle\<close>

definition shuffle_bytes :: "byte list \<Rightarrow> nat \<Rightarrow> byte list" where
  "shuffle_bytes inp stride =
     (if stride \<le> 1 then inp
      else
        let groups = length inp div stride;
            out = replicate (length inp) 0;
            out = foldl (\<lambda>out j. foldl (\<lambda>out i. out[j * groups + i := inp ! (i * stride + j)]) out [0..<groups]) out [0..<stride]
        in foldl (\<lambda>out k. out[k := inp ! k]) out [groups * stride..<length inp])"

definition unshuffle_bytes :: "byte list \<Rightarrow> nat \<Rightarrow> byte list" where
  "unshuffle_bytes inp stride =
     (if stride \<le> 1 then inp
      else
        let groups = length inp div stride;
            out = replicate (length inp) 0;
            out = foldl (\<lambda>out j. foldl (\<lambda>out i. out[i * stride + j := inp ! (j * groups + i)]) out [0..<groups]) out [0..<stride]
        in foldl (\<lambda>out k. out[k := inp ! k]) out [groups * stride..<length inp])"

subsection \<open>Storage formats\<close>

definition bytes_per_sample :: "pixel_format \<Rightarrow> nat" where
  "bytes_per_sample storage = bytes_per_pixel storage div channels_per_pixel storage"

fun store_sample :: "pixel_format \<Rightarrow> 32 word \<Rightarrow> byte list" where
  "store_sample Rgba32fLinearPremul x = [ucast x, ucast (drop_bit 8 x), ucast (drop_bit 16 x), ucast (drop_bit 24 x)]"
| "store_sample Rgba16fLinearPremul x = (let h = f16_from_float x in [ucast h, ucast (drop_bit 8 h)])"
| "store_sample Rgba8Srgb x = []"

text \<open>The half that two bytes are, widened: the conversion always has a result (\<open>half_survives_the_float\<close>).\<close>

fun load_sample :: "pixel_format \<Rightarrow> byte list \<Rightarrow> 32 word" where
  "load_sample Rgba32fLinearPremul b =
     ucast (b ! 0) OR push_bit 8 (ucast (b ! 1)) OR push_bit 16 (ucast (b ! 2)) OR push_bit 24 (ucast (b ! 3))"
| "load_sample Rgba16fLinearPremul b =
     (case f16_to_float (ucast (b ! 0) OR push_bit 8 (ucast (b ! 1))) of None \<Rightarrow> 0 | Some x \<Rightarrow> x)"
| "load_sample Rgba8Srgb b = 0"

definition encode_into :: "pixel_format \<Rightarrow> 32 word list \<Rightarrow> byte list" where
  "encode_into f working =
     (let pixels = length working div channels_per_pixel f
      in concat (map (\<lambda>i. concat (map (\<lambda>k. store_sample f (working ! (i * channels_per_pixel f + k))) [0..<channels_per_pixel f]))
           [0..<pixels]))"

definition decode_into :: "pixel_format \<Rightarrow> byte list \<Rightarrow> 32 word list" where
  "decode_into f storage =
     (let n = bytes_per_sample f; pixels = length storage div (channels_per_pixel f * n)
      in concat (map (\<lambda>i. map (\<lambda>k. load_sample f (take n (drop ((i * channels_per_pixel f + k) * n) storage))) [0..<channels_per_pixel f])
           [0..<pixels]))"

definition to_storage_bytes :: "32 word list \<Rightarrow> pixel_format \<Rightarrow> byte list" where
  "to_storage_bytes working storage =
     (case storage of
        Rgba32fLinearPremul \<Rightarrow> encode_into Rgba32fLinearPremul working
      | Rgba16fLinearPremul \<Rightarrow> encode_into Rgba16fLinearPremul working
      | Rgba8Srgb \<Rightarrow> [])"

definition from_storage_bytes :: "byte list \<Rightarrow> pixel_format \<Rightarrow> 32 word list" where
  "from_storage_bytes storage storage_fmt =
     (case storage_fmt of
        Rgba32fLinearPremul \<Rightarrow> decode_into Rgba32fLinearPremul storage
      | Rgba16fLinearPremul \<Rightarrow> decode_into Rgba16fLinearPremul storage
      | Rgba8Srgb \<Rightarrow> [])"

subsection \<open>Frames\<close>

datatype compress_error = CorruptFrame | SizeMismatch | CompressFailed

definition compress_blob :: "(byte list \<Rightarrow> byte list option) \<Rightarrow> byte list \<Rightarrow> compress_error + byte list" where
  "compress_blob zstd_compress blob = (case zstd_compress blob of None \<Rightarrow> Inl CompressFailed | Some frame \<Rightarrow> Inr frame)"

definition decompress_blob :: "(nat \<Rightarrow> byte list \<Rightarrow> byte list option) \<Rightarrow> byte list \<Rightarrow> nat \<Rightarrow> compress_error + byte list" where
  "decompress_blob zstd_decompress frame expected_size =
     (case zstd_decompress expected_size frame of
        None \<Rightarrow> Inl CorruptFrame
      | Some produced \<Rightarrow> if length produced \<noteq> expected_size then Inl SizeMismatch else Inr produced)"

definition frame_tile_blob ::
    "(byte list \<Rightarrow> byte list option) \<Rightarrow> byte list \<Rightarrow> pixel_format \<Rightarrow> blob_error_kind + byte list" where
  "frame_tile_blob zstd_compress storage_bytes storage =
     (case compress_blob zstd_compress (shuffle_bytes storage_bytes (bytes_per_sample storage)) of
        Inl e \<Rightarrow> Inl CorruptBlob
      | Inr frame \<Rightarrow> Inr frame)"

definition decode_tile_blob ::
    "(nat \<Rightarrow> byte list \<Rightarrow> byte list option) \<Rightarrow> byte list \<Rightarrow> string \<Rightarrow> pixel_format \<Rightarrow> nat \<Rightarrow> blob_error_kind + 32 word list" where
  "decode_tile_blob zstd_decompress frame expected_hash storage sample_count =
     (if \<not> is_tile_hash expected_hash then Inl BadHash
      else
        (case decompress_blob zstd_decompress frame (sample_count * bytes_per_sample storage) of
           Inl e \<Rightarrow> Inl CorruptBlob
         | Inr raw \<Rightarrow>
             (let storage_bytes = unshuffle_bytes raw (bytes_per_sample storage)
              in if hash_tile storage_bytes \<noteq> expected_hash then Inl HashMismatch
                 else Inr (from_storage_bytes storage_bytes storage))))"

subsection \<open>The shuffle\<close>

lemma foldl_write_length [simp]: "length (foldl (\<lambda>xs k. xs[f k := v k]) xs ks) = length xs"
  by (induction ks arbitrary: xs) simp_all

lemma foldl_write_other: "p \<notin> f ` set ks \<Longrightarrow> foldl (\<lambda>xs k. xs[f k := v k]) xs ks ! p = xs ! p"
  by (induction ks arbitrary: xs) auto

lemma foldl_write_at:
  "inj_on f (set ks) \<Longrightarrow> k \<in> set ks \<Longrightarrow> f k < length xs \<Longrightarrow> foldl (\<lambda>xs k. xs[f k := v k]) xs ks ! f k = v k"
proof (induction ks arbitrary: xs)
  case (Cons a ks)
  show ?case
  proof (cases "k \<in> set ks")
    case True
    then show ?thesis using Cons by simp
  next
    case False
    then have "k = a" using Cons.prems(2) by simp
    moreover have "f a \<notin> f ` set ks" using Cons.prems(1) False calculation by (auto simp: inj_on_def)
    ultimately show ?thesis using Cons.prems(3) by (simp add: foldl_write_other)
  qed
qed simp

lemma foldl_nested: "foldl (\<lambda>out j. foldl (\<lambda>out i. g out j i) out is) out js = foldl (\<lambda>out (j, i). g out j i) out (List.product js is)"
proof (induction js arbitrary: out)
  case (Cons j js)
  have "foldl (\<lambda>out (j, i). g out j i) out (map (Pair j) is) = foldl (\<lambda>out i. g out j i) out is" for out
    by (induction "is" arbitrary: out) simp_all
  then show ?case using Cons by simp
qed simp

text \<open>Both directions write every position of the groups once, at \<open>F\<close> what stands at \<open>G\<close>, and then the rest.\<close>

definition move_bytes :: "(nat \<times> nat \<Rightarrow> nat) \<Rightarrow> (nat \<times> nat \<Rightarrow> nat) \<Rightarrow> nat \<Rightarrow> nat \<Rightarrow> byte list \<Rightarrow> byte list" where
  "move_bytes F G s g x =
     foldl (\<lambda>out k. out[k := x ! k])
       (foldl (\<lambda>out k. out[F k := x ! G k]) (replicate (length x) 0) (List.product [0..<s] [0..<g])) [g * s..<length x]"

lemma shuffle_move: "1 < s \<Longrightarrow> shuffle_bytes x s = move_bytes (\<lambda>(j, i). j * (length x div s) + i) (\<lambda>(j, i). i * s + j) s (length x div s) x"
  by (simp add: shuffle_bytes_def move_bytes_def Let_def foldl_nested case_prod_unfold)

lemma unshuffle_move: "1 < s \<Longrightarrow> unshuffle_bytes x s = move_bytes (\<lambda>(j, i). i * s + j) (\<lambda>(j, i). j * (length x div s) + i) s (length x div s) x"
  by (simp add: unshuffle_bytes_def move_bytes_def Let_def foldl_nested case_prod_unfold)

lemma move_bytes_nth:
  assumes F: "bij_betw F ({..<s} \<times> {..<g}) {..<g * s}" and G: "G ` ({..<s} \<times> {..<g}) \<subseteq> {..<g * s}" and n: "g * s \<le> length x"
  shows "length (move_bytes F G s g x) = length x"
    and "k \<in> {..<s} \<times> {..<g} \<Longrightarrow> move_bytes F G s g x ! F k = x ! G k"
    and "g * s \<le> p \<Longrightarrow> p < length x \<Longrightarrow> move_bytes F G s g x ! p = x ! p"
proof -
  let ?ks = "List.product [0..<s] [0..<g]" and ?z = "replicate (length x) 0"
  let ?o = "foldl (\<lambda>out k. out[F k := x ! G k]) ?z ?ks"
  have ks: "set ?ks = {..<s} \<times> {..<g}" by auto
  show l: "length (move_bytes F G s g x) = length x" by (simp add: move_bytes_def)
  show "move_bytes F G s g x ! F k = x ! G k" if k: "k \<in> {..<s} \<times> {..<g}"
  proof -
    have f: "F k < g * s" using bij_betwE [OF F] k by blast
    have "move_bytes F G s g x ! F k = ?o ! F k"
      unfolding move_bytes_def by (rule foldl_write_other [where f = "\<lambda>k. k", simplified]) (use f in auto)
    also have "\<dots> = x ! G k"
    proof (rule foldl_write_at [of F ?ks k ?z "\<lambda>k. x ! G k"])
      show "inj_on F (set ?ks)" using F unfolding ks bij_betw_def by (rule conjunct1)
      show "k \<in> set ?ks" unfolding ks by (rule k)
      show "F k < length ?z" using f n by simp
    qed
    finally show ?thesis .
  qed
  show "move_bytes F G s g x ! p = x ! p" if "g * s \<le> p" "p < length x"
    unfolding move_bytes_def using foldl_write_at [of "\<lambda>k. k" "[g * s..<length x]" p ?o "\<lambda>k. x ! k"] that by simp
qed

lemma move_bytes_inverse:
  assumes F: "bij_betw F ({..<s} \<times> {..<g}) {..<g * s}" and G: "bij_betw G ({..<s} \<times> {..<g}) {..<g * s}" and n: "g * s \<le> length x"
  shows "move_bytes G F s g (move_bytes F G s g x) = x"
proof -
  have sF: "F ` ({..<s} \<times> {..<g}) \<subseteq> {..<g * s}" and sG: "G ` ({..<s} \<times> {..<g}) \<subseteq> {..<g * s}"
    using F G by (simp_all add: bij_betw_def)
  let ?y = "move_bytes F G s g x"
  note a = move_bytes_nth [OF F sG n] and b = move_bytes_nth [OF G sF, of ?y]
  show ?thesis
  proof (rule nth_equalityI)
    show l: "length (move_bytes G F s g ?y) = length x" using b(1) a(1) n by simp
    fix p assume p: "p < length (move_bytes G F s g ?y)"
    show "move_bytes G F s g ?y ! p = x ! p"
    proof (cases "p < g * s")
      case True
      then have "p \<in> G ` ({..<s} \<times> {..<g})" using G unfolding bij_betw_def by simp
      then obtain k where k: "k \<in> {..<s} \<times> {..<g}" "p = G k" by blast
      show ?thesis unfolding k(2) using b(2) [OF _ k(1)] a(1) a(2) [OF k(1)] n by simp
    next
      case False
      then show ?thesis using b(3) [of p] a(1) a(3) [of p] p l n by simp
    qed
  qed
qed

lemma pair_less: "i < a \<Longrightarrow> j < b \<Longrightarrow> i * b + j < a * b" for i :: nat
proof -
  assume "i < a" "j < b"
  then have "i * b + j < Suc i * b" "Suc i * b \<le> a * b" by (simp, intro mult_right_mono, simp_all)
  then show ?thesis by (rule less_le_trans)
qed

lemma planes_bij: "bij_betw (\<lambda>(j, i). j * g + i) ({..<s} \<times> {..<g}) {..<g * s :: nat}"
proof (rule bij_betw_byWitness [where f' = "\<lambda>p. (p div g, p mod g)"])
  show "(\<lambda>(j, i). j * g + i) ` ({..<s} \<times> {..<g}) \<subseteq> {..<g * s}"
    using pair_less [of _ s _ g] by (auto simp: mult.commute [of g s])
  show "(\<lambda>p. (p div g, p mod g)) ` {..<g * s} \<subseteq> {..<s} \<times> {..<g}"
    by (auto simp: less_mult_imp_div_less mult.commute [of g s]) (metis mod_less_divisor mult_0_right not_gr_zero not_less_zero)
qed auto

lemma samples_bij: "bij_betw (\<lambda>(j, i). i * s + j) ({..<s} \<times> {..<g}) {..<g * s :: nat}"
proof (rule bij_betw_byWitness [where f' = "\<lambda>p. (p mod s, p div s)"])
  show "(\<lambda>(j, i). i * s + j) ` ({..<s} \<times> {..<g}) \<subseteq> {..<g * s}"
    using pair_less [of _ g _ s] by auto
  show "(\<lambda>p. (p mod s, p div s)) ` {..<g * s} \<subseteq> {..<s} \<times> {..<g}"
    by (auto simp: less_mult_imp_div_less) (metis mod_less_divisor mult_0_right not_gr_zero not_less_zero)
qed auto

lemma shuffle_aux:
  "unshuffle_bytes (shuffle_bytes x s) s = x \<and> shuffle_bytes (unshuffle_bytes x s) s = x \<and>
   length (shuffle_bytes x s) = length x \<and> length (unshuffle_bytes x s) = length x"
proof (cases "1 < s")
  case True
  have n: "length x div s * s \<le> length x" by simp
  note P = planes_bij [of "length x div s" s] and S = samples_bij [of s "length x div s"]
  have img: "F ` A \<subseteq> B" if "bij_betw F A B" for F :: "nat \<times> nat \<Rightarrow> nat" and A B using that by (simp add: bij_betw_def)
  have l: "length (shuffle_bytes x s) = length x" "length (unshuffle_bytes x s) = length x"
    unfolding shuffle_move [OF True] unshuffle_move [OF True]
    by (rule move_bytes_nth(1) [OF P img [OF S] n], rule move_bytes_nth(1) [OF S img [OF P] n])
  have "unshuffle_bytes (shuffle_bytes x s) s = x"
    unfolding unshuffle_move [OF True, of "shuffle_bytes x s"] l unfolding shuffle_move [OF True]
    by (rule move_bytes_inverse [OF P S n])
  moreover have "shuffle_bytes (unshuffle_bytes x s) s = x"
    unfolding shuffle_move [OF True, of "unshuffle_bytes x s"] l unfolding unshuffle_move [OF True]
    by (rule move_bytes_inverse [OF S P n])
  ultimately show ?thesis using l by blast
qed (simp add: shuffle_bytes_def unshuffle_bytes_def)

text \<open>
  \<open>unshuffle_bytes\<close> and \<open>shuffle_bytes\<close> undo each other at every stride on every input, whole samples or not.
\<close>

theorem shuffle_is_a_bijection:
  "unshuffle_bytes (shuffle_bytes x s) s = x \<and> shuffle_bytes (unshuffle_bytes x s) s = x \<and>
   length (shuffle_bytes x s) = length x \<and> length (unshuffle_bytes x s) = length x"
  by (rule shuffle_aux)

subsection \<open>Geometry\<close>

lemma power_of_two_and: "0 < v \<Longrightarrow> v AND (v - 1) = 0 \<longleftrightarrow> (\<exists>k. v = 2 ^ k)" for v :: int
proof (induction "nat v" arbitrary: v rule: less_induct)
  case less
  show ?case
  proof (cases "even v")
    case True
    then obtain w where w: "v = 2 * w" by (elim evenE)
    then have pos: "0 < w" using less.prems by simp
    have "(2 * w - 1) div 2 = w - 1" by presburger
    then have "v AND (v - 1) = 2 * (w AND (w - 1))"
      unfolding w by (simp add: and_int_rec [of "2 * w"])
    then have "v AND (v - 1) = 0 \<longleftrightarrow> w AND (w - 1) = 0" by simp
    also have "\<dots> \<longleftrightarrow> (\<exists>k. w = 2 ^ k)" using less.hyps [of w] pos w by simp
    also have "\<dots> \<longleftrightarrow> (\<exists>k. v = 2 ^ k)"
    proof
      assume "\<exists>k. w = 2 ^ k"
      then obtain k where "w = 2 ^ k" ..
      then have "v = 2 ^ Suc k" by (simp add: w)
      then show "\<exists>k. v = 2 ^ k" ..
    next
      assume "\<exists>k. v = 2 ^ k"
      then obtain k where k: "v = 2 ^ k" ..
      then have "w = 2 ^ (k - 1)" using w by (cases k) simp_all
      then show "\<exists>k. w = 2 ^ k" ..
    qed
    finally show ?thesis .
  next
    case False
    then obtain w where w: "v = 2 * w + 1" by (elim oddE)
    then have pos: "0 \<le> w" using less.prems by simp
    have "v AND (v - 1) = 2 * (w AND w)" unfolding w by (simp add: and_int_rec [of "2 * w + 1"])
    then have "v AND (v - 1) = 0 \<longleftrightarrow> w = 0" by simp
    also have "\<dots> \<longleftrightarrow> (\<exists>k. v = 2 ^ k)"
    proof
      assume "w = 0"
      then have "v = 2 ^ 0" using w by simp
      then show "\<exists>k. v = 2 ^ k" ..
    next
      assume "\<exists>k. v = 2 ^ k"
      then obtain k where k: "v = 2 ^ k" ..
      then have "k = 0" using False by (cases k) simp_all
      then show "w = 0" using k w by simp
    qed
    finally show ?thesis .
  qed
qed

definition ceil_div :: "int \<Rightarrow> int \<Rightarrow> int" where
  "ceil_div a b = - ((- a) div b)"

lemma ceil_div_bounds:
  assumes "0 < b"
  shows "(ceil_div a b - 1) * b < a" "a \<le> ceil_div a b * b"
proof -
  have e: "- a = (- a) div b * b + (- a) mod b" by simp
  have m: "0 \<le> (- a) mod b" "(- a) mod b < b" using assms by simp_all
  define q where "q = (- a) div b"
  have "- a = q * b + (- a) mod b" using e by (simp add: q_def)
  then show "(ceil_div a b - 1) * b < a" "a \<le> ceil_div a b * b"
    using m by (simp_all add: ceil_div_def q_def [symmetric] algebra_simps)
qed

lemma ceil_div_unique: "0 < b \<Longrightarrow> (q - 1) * b < a \<Longrightarrow> a \<le> q * b \<Longrightarrow> ceil_div a b = q" for a b q :: int
proof -
  assume b: "0 < b" and q: "(q - 1) * b < a" "a \<le> q * b"
  note c = ceil_div_bounds [OF b, of a]
  have "(q - 1) * b < ceil_div a b * b" "(ceil_div a b - 1) * b < q * b" using q c by linarith+
  then show ?thesis using b by simp
qed

lemma ceil_sdiv: "0 < a \<Longrightarrow> 0 < b \<Longrightarrow> (a + b - 1) sdiv b = ceil_div a b"
proof -
  assume a: "0 < a" and b: "0 < b"
  have "(a + b - 1) sdiv b = (a + b - 1) div b" using a b by (simp add: signed_divide_int_def)
  moreover define q where "q = (a + b - 1) div b"
  have "a + b - 1 = q * b + (a + b - 1) mod b" by (simp add: q_def)
  moreover have "0 \<le> (a + b - 1) mod b" "(a + b - 1) mod b < b" using b by simp_all
  ultimately show ?thesis
    using ceil_div_unique [OF b, of q a] by (simp add: q_def [symmetric] algebra_simps)
qed

lemma edge_cases: "is_power_of_two e \<and> \<not> e > k_max_tile_edge \<longleftrightarrow> (\<exists>k \<le> 12. e = 2 ^ k)"
proof
  assume a: "is_power_of_two e \<and> \<not> e > k_max_tile_edge"
  then obtain k where k: "e = 2 ^ k" using power_of_two_and [of e] by (auto simp: is_power_of_two_def)
  have "k \<le> 12"
  proof (rule ccontr)
    assume "\<not> k \<le> 12"
    then have "(2::int) ^ 13 \<le> 2 ^ k" by (intro power_increasing) simp_all
    then show False using a k by (simp add: k_max_tile_edge_def)
  qed
  then show "\<exists>k \<le> 12. e = 2 ^ k" using k by blast
next
  assume "\<exists>k \<le> 12. e = 2 ^ k"
  then obtain k where k: "k \<le> 12" "e = 2 ^ k" by blast
  have "(2::int) ^ k \<le> 2 ^ 12" using k(1) by (intro power_increasing) simp_all
  moreover have "0 < e" using k(2) by simp
  ultimately show "is_power_of_two e \<and> \<not> e > k_max_tile_edge"
    using power_of_two_and [of e] k(2) by (auto simp: is_power_of_two_def k_max_tile_edge_def)
qed

lemma ceil_div_side:
  assumes "0 < a" "a \<le> 2 ^ 20" "0 < b"
  shows "0 < ceil_div a b \<and> ceil_div a b \<le> 2 ^ 20"
proof
  note c = ceil_div_bounds [OF assms(3), of a]
  show p: "0 < ceil_div a b"
  proof (rule ccontr)
    assume "\<not> 0 < ceil_div a b"
    then have "ceil_div a b * b \<le> 0" using assms(3) by (simp add: mult_nonpos_nonneg)
    then show False using c(2) assms(1) by linarith
  qed
  have "(ceil_div a b - 1) * 1 \<le> (ceil_div a b - 1) * b" using p assms(3) by (intro mult_left_mono) simp_all
  then show "ceil_div a b \<le> 2 ^ 20" using c(1) assms(2) by simp
qed

text \<open>
  \<open>validate_tile_geometry\<close> accepts exactly a power-of-two edge up to 4096, sides from 1 to \<open>2\<^sup>2\<^sup>0\<close> and a grid of at
  most \<open>2\<^sup>2\<^sup>2\<close> tiles; the grid it returns is the smallest that covers the image, and every
  number of it fits the \<open>int\<close> it is cast to.
\<close>

theorem geometry_is_exact:
  "(case validate_tile_geometry edge width height of
      Inl e \<Rightarrow> e = BadGeometry \<and>
        \<not> ((\<exists>k \<le> 12. edge = 2 ^ k) \<and> 0 < width \<and> width \<le> 2 ^ 20 \<and> 0 < height \<and> height \<le> 2 ^ 20 \<and>
           ceil_div width edge * ceil_div height edge \<le> 2 ^ 22)
    | Inr g \<Rightarrow>
        (\<exists>k \<le> 12. edge = 2 ^ k) \<and> 0 < width \<and> width \<le> 2 ^ 20 \<and> 0 < height \<and> height \<le> 2 ^ 20 \<and>
        tg_edge g = edge \<and> tg_width g = width \<and> tg_height g = height \<and>
        (tg_tiles_x g - 1) * edge < width \<and> width \<le> tg_tiles_x g * edge \<and>
        (tg_tiles_y g - 1) * edge < height \<and> height \<le> tg_tiles_y g * edge \<and>
        0 < tg_tiles_x g \<and> tg_tiles_x g \<le> 2 ^ 20 \<and> 0 < tg_tiles_y g \<and> tg_tiles_y g \<le> 2 ^ 20 \<and>
        0 < tile_count g \<and> tile_count g \<le> 2 ^ 22 \<and> 0 < tile_samples g \<and> tile_samples g \<le> 2 ^ 26)"
proof (cases "(\<exists>k \<le> 12. edge = 2 ^ k) \<and> 0 < width \<and> width \<le> 2 ^ 20 \<and> 0 < height \<and> height \<le> 2 ^ 20")
  case False
  then have "validate_tile_geometry edge width height = Inl BadGeometry"
    using edge_cases [of edge] by (auto simp: validate_tile_geometry_def k_max_dimension_def)
  then show ?thesis using False by auto
next
  case True
  then have s: "0 < width" "width \<le> 2 ^ 20" "0 < height" "height \<le> 2 ^ 20" and e: "\<exists>k \<le> 12. edge = 2 ^ k" by simp_all
  obtain k where k: "k \<le> 12" "edge = 2 ^ k" using e by blast
  have e0: "0 < edge" "edge \<le> 2 ^ 12" unfolding k(2) using k(1) by (simp, intro power_increasing, simp_all)
  have v: "validate_tile_geometry edge width height =
     (if ceil_div width edge * ceil_div height edge > 2 ^ 22 then Inl BadGeometry
      else Inr \<lparr>tg_edge = edge, tg_width = width, tg_height = height, tg_tiles_x = ceil_div width edge, tg_tiles_y = ceil_div height edge\<rparr>)"
    using edge_cases [of edge] e s e0
    by (simp add: validate_tile_geometry_def k_max_dimension_def k_max_tiles_def ceil_sdiv)
  note X = ceil_div_bounds [OF e0(1), of width] ceil_div_side [OF s(1,2) e0(1)]
  note Y = ceil_div_bounds [OF e0(1), of height] ceil_div_side [OF s(3,4) e0(1)]
  have "0 < ceil_div width edge * ceil_div height edge" using X Y by simp
  moreover have "edge * edge \<le> 2 ^ 12 * 2 ^ 12" using e0 by (intro mult_mono) simp_all
  moreover have "0 < edge * edge" using e0 by simp
  ultimately show ?thesis using True X Y unfolding v by (simp add: tile_count_def tile_samples_def)
qed

subsection \<open>Names\<close>

lemma hex_digit: "is_hex (k_hex ! unat (b AND 0x0F :: byte))"
proof -
  have "unat (b AND mask 4) < 2 ^ 4" unfolding unat_and_mask by simp
  then have "unat (b AND 0x0F) < 16" by (simp add: mask_eq_exp_minus_1)
  then have "unat (b AND 0x0F) \<in> set [0..<16]" by simp
  then show ?thesis unfolding k_hex_def by (simp add: upt_rec is_hex_def less_eq_char_def, elim disjE) simp_all
qed

lemma length_to_hex: "length (to_hex d n) = 2 * min n (length d)"
  by (simp add: to_hex_def length_concat comp_def sum_list_triv)

lemma names_aux:
  "is_tile_hash (hash_tile x) \<and>
   (tile_blob_uri base (hash_tile x) = tile_blob_uri base (hash_tile y) \<longleftrightarrow> hash_tile x = hash_tile y)"
proof -
  have l: "length (hash_tile x) = 32" for x
    using sha256_is_fips_aux [of x, THEN conjunct2, THEN conjunct2] by (simp add: hash_tile_def length_to_hex k_tile_hash_bytes_def)
  have "list_all is_hex (hash_tile x)"
    by (simp add: hash_tile_def to_hex_def list_all_iff hex_digit)
  then have "is_tile_hash (hash_tile x)" by (simp add: is_tile_hash_def l k_tile_hash_chars_def k_tile_hash_bytes_def)
  moreover have "hash_tile x = hash_tile y" if "tile_blob_uri base (hash_tile x) = tile_blob_uri base (hash_tile y)"
    using that l [of x] l [of y] by (auto simp: tile_blob_uri_def split: if_splits)
  ultimately show ?thesis by auto
qed

text \<open>
  every name the store computes is a well-formed blob name, and under one base directory two tiles get
  one file exactly when they have one hash.
\<close>

theorem blob_names_are_well_formed:
  "is_tile_hash (hash_tile x) \<and>
   (tile_blob_uri base (hash_tile x) = tile_blob_uri base (hash_tile y) \<longleftrightarrow> hash_tile x = hash_tile y)"
  by (rule names_aux)

subsection \<open>Storage\<close>

text \<open>What a sample is after a save and a load.\<close>

fun quantize :: "pixel_format \<Rightarrow> 32 word \<Rightarrow> 32 word" where
  "quantize Rgba16fLinearPremul x = (case f16_to_float (f16_from_float x) of None \<Rightarrow> 0 | Some y \<Rightarrow> y)"
| "quantize f x = x"

lemma join_bytes: "ucast (ucast x :: byte) OR push_bit 8 (ucast (ucast (drop_bit 8 x) :: byte)) OR
    push_bit 16 (ucast (ucast (drop_bit 16 x) :: byte)) OR push_bit 24 (ucast (ucast (drop_bit 24 x) :: byte)) = (x :: 32 word)"
proof (rule bit_word_eqI)
  fix n
  assume "n < LENGTH(32)"
  then consider "n < 8" | "8 \<le> n" "n < 16" | "16 \<le> n" "n < 24" | "24 \<le> n" "n < 32" by fastforce
  then show "bit ((ucast (ucast x :: byte) :: 32 word) OR push_bit 8 (ucast (ucast (drop_bit 8 x) :: byte)) OR
    push_bit 16 (ucast (ucast (drop_bit 16 x) :: byte)) OR push_bit 24 (ucast (ucast (drop_bit 24 x) :: byte))) n = bit x n"
    by cases (auto simp: bit_simps)
qed

lemma join_half: "ucast (ucast h :: byte) OR push_bit 8 (ucast (ucast (drop_bit 8 h) :: byte)) = (h :: 16 word)"
  by (rule bit_word_eqI) (auto simp: bit_simps)

lemma load_store: "f \<noteq> Rgba8Srgb \<Longrightarrow> load_sample f (store_sample f x) = quantize f x"
  by (cases f) (simp_all add: Let_def join_bytes join_half)

lemma store_quantize: "store_sample f (quantize f x) = store_sample f x"
proof (cases f)
  case Rgba16fLinearPremul
  obtain y where "f16_to_float (f16_from_float x) = Some y" "f16_from_float y = f16_from_float x"
    using half_resave_aux [of x] by (cases "f16_to_float (f16_from_float x)") simp_all
  then show ?thesis by (simp add: Rgba16fLinearPremul Let_def)
qed simp_all

lemma length_store: "f \<noteq> Rgba8Srgb \<Longrightarrow> length (store_sample f x) = bytes_per_sample f"
  by (cases f) (simp_all add: Let_def bytes_per_sample_def)

lemma split_bytes:
  fixes a b c d :: byte
  defines "x \<equiv> ucast a OR push_bit 8 (ucast b) OR push_bit 16 (ucast c) OR push_bit 24 (ucast d) :: 32 word"
  shows "ucast x = a" "ucast (drop_bit 8 x) = b" "ucast (drop_bit 16 x) = c" "ucast (drop_bit 24 x) = d"
  by (rule bit_word_eqI; auto simp: x_def bit_simps dest: bit_imp_le_length)+

lemma store_load: "length b = 4 \<Longrightarrow> store_sample Rgba32fLinearPremul (load_sample Rgba32fLinearPremul b) = b"
proof -
  assume "length b = 4"
  then obtain p q r s where b: "b = [p, q, r, s]"
    by (auto simp: numeral_eq_Suc length_Suc_conv)
  show ?thesis using split_bytes [of p q r s] by (simp add: b)
qed

lemma upt_blocks: "concat (map (\<lambda>i. map (\<lambda>k. i * c + k) [0..<c]) [0..<m]) = [0..<m * c]"
proof (induction m)
  case (Suc m)
  have "map (\<lambda>k. m * c + k) [0..<c] = [m * c..<c + m * c]"
    using map_add_upt [of "m * c" c] by (simp add: add.commute)
  then show ?case using Suc upt_add_eq_append [of 0 "m * c" c] by (simp add: add.commute)
qed simp

lemma concat_of_concats: "concat (map (\<lambda>i. concat (f i)) xs) = concat (concat (map f xs))"
  by (induction xs) simp_all

lemma channels: "channels_per_pixel f = 4"
  by (cases f) simp_all

lemma encode_samples:
  assumes "4 dvd length w"
  shows "encode_into f w = concat (map (store_sample f) w)"
proof -
  let ?m = "length w div 4"
  have "concat (map (\<lambda>i. concat (map (\<lambda>k. store_sample f (w ! (i * 4 + k))) [0..<4])) [0..<?m]) =
    concat (map (\<lambda>p. store_sample f (w ! p)) (concat (map (\<lambda>i. map (\<lambda>k. i * 4 + k) [0..<4]) [0..<?m])))"
    by (simp only: map_concat concat_of_concats map_map comp_def)
  also have "\<dots> = concat (map (store_sample f) (map ((!) w) [0..<length w]))"
    using assms by (simp only: upt_blocks dvd_div_mult_self map_map comp_def)
  finally show ?thesis by (simp only: encode_into_def Let_def channels map_nth)
qed

lemma decode_samples:
  assumes "length b = n * bytes_per_sample f" "4 dvd n" "f \<noteq> Rgba8Srgb"
  shows "decode_into f b = map (\<lambda>p. load_sample f (take (bytes_per_sample f) (drop (p * bytes_per_sample f) b))) [0..<n]"
proof -
  have pos: "0 < bytes_per_sample f" using assms(3) by (cases f) (simp_all add: bytes_per_sample_def)
  have m: "length b div (4 * bytes_per_sample f) = n div 4" using assms(1) pos by simp
  have "decode_into f b =
    map (\<lambda>p. load_sample f (take (bytes_per_sample f) (drop (p * bytes_per_sample f) b)))
      (concat (map (\<lambda>i. map (\<lambda>k. i * 4 + k) [0..<4]) [0..<n div 4]))"
    by (simp only: decode_into_def Let_def channels m map_concat map_map comp_def)
  then show ?thesis using assms(2) by (simp only: upt_blocks dvd_div_mult_self)
qed

lemma take_chunk:
  assumes "\<forall>x. length (g x) = n" "p < length w"
  shows "take n (drop (p * n) (concat (map g w))) = g (w ! p)"
  using assms(2)
proof (induction w arbitrary: p)
  case (Cons x w)
  then show ?case using assms(1) by (cases p) simp_all
qed simp

lemma concat_chunks: "length b = n * 4 \<Longrightarrow> concat (map (\<lambda>p. take 4 (drop (p * 4) b)) [0..<n]) = b"
proof (induction n arbitrary: b)
  case (Suc n)
  have "take 4 (drop (p * 4) b) = take 4 (drop (p * 4) (take (n * 4) b))" if "p < n" for p
  proof -
    have "p * 4 + 4 \<le> n * 4" using that by linarith
    then show ?thesis by (simp add: take_drop min_absorb1 add.commute)
  qed
  then have "concat (map (\<lambda>p. take 4 (drop (p * 4) b)) [0..<n]) = concat (map (\<lambda>p. take 4 (drop (p * 4) (take (n * 4) b))) [0..<n])"
    by (intro arg_cong [where f = concat] map_cong [OF refl]) simp
  also have "\<dots> = take (n * 4) b" by (rule Suc.IH) (use Suc.prems in simp)
  finally show ?case using Suc.prems by simp
qed simp

text \<open>
  C37: a tile of 16-bit or 32-bit storage, a whole number of pixels, comes back from its blob: framed and decoded
  under its own hash, with a decompressor that undoes the compressor, every sample is itself at 32 bits and its half at 16, and saving that again writes the same bytes.
\<close>

theorem tile_survives_the_blob:
  assumes zstd: "\<forall>x frame n. zc x = Some frame \<longrightarrow> length x \<le> n \<longrightarrow> zd n frame = Some x"
    and "storage \<noteq> Rgba8Srgb" and "4 dvd length w"
    and "frame_tile_blob zc (to_storage_bytes w storage) storage = Inr frame"
  shows "decode_tile_blob zd frame (hash_tile (to_storage_bytes w storage)) storage (length w) = Inr (map (quantize storage) w) \<and>
    to_storage_bytes (map (quantize storage) w) storage = to_storage_bytes w storage"
proof -
  let ?n = "bytes_per_sample storage"
  let ?b = "to_storage_bytes w storage"
  have tb: "to_storage_bytes v storage = encode_into storage v" for v
    using assms(2) by (cases storage) (simp_all add: to_storage_bytes_def)
  have b: "?b = concat (map (store_sample storage) w)" unfolding tb by (rule encode_samples [OF assms(3)])
  have ls: "\<forall>x. length (store_sample storage x) = ?n" using length_store [OF assms(2)] by blast
  have lb: "length ?b = length w * ?n" unfolding b using ls by (simp add: length_concat comp_def sum_list_triv)
  have z: "zc (shuffle_bytes ?b ?n) = Some frame"
    using assms(4) by (auto simp: frame_tile_blob_def compress_blob_def split: option.splits)
  have ln: "length (shuffle_bytes ?b ?n) = length w * ?n" using shuffle_aux [of ?b ?n] lb by simp
  have "zd (length w * ?n) frame = Some (shuffle_bytes ?b ?n)" using zstd z ln by simp
  then have d: "decompress_blob zd frame (length w * ?n) = Inr (shuffle_bytes ?b ?n)" by (simp add: decompress_blob_def ln)
  have "decode_into storage ?b = map (\<lambda>p. load_sample storage (take ?n (drop (p * ?n) ?b))) [0..<length w]"
    by (rule decode_samples [OF lb assms(3,2)])
  also have "\<dots> = map (\<lambda>p. quantize storage (w ! p)) [0..<length w]"
    unfolding b by (rule map_cong [OF refl]) (simp add: take_chunk [OF ls] load_store [OF assms(2)])
  also have "\<dots> = map (quantize storage) (map ((!) w) [0..<length w])" by (simp only: map_map comp_def)
  also have "\<dots> = map (quantize storage) w" by (simp only: map_nth)
  finally have "from_storage_bytes ?b storage = map (quantize storage) w"
    using assms(2) by (cases storage) (simp_all add: from_storage_bytes_def)
  then have "decode_tile_blob zd frame (hash_tile ?b) storage (length w) = Inr (map (quantize storage) w)"
    using names_aux [of ?b] shuffle_aux [of ?b ?n] by (simp add: decode_tile_blob_def d Let_def)
  moreover have "to_storage_bytes (map (quantize storage) w) storage = ?b"
    unfolding tb using assms(3) by (simp add: encode_samples store_quantize comp_def)
  ultimately show ?thesis ..
qed

text \<open>One opaque pixel, with a store that keeps the bytes as they are.\<close>

definition opaque_pixel :: "32 word list" where
  "opaque_pixel = [0x3F800000, 0, 0, 0x3F800000]"

lemma length_opaque: "length opaque_pixel = 4"
  by (simp add: opaque_pixel_def)

theorem tile_survives_the_blob_witness:
  "decode_tile_blob (\<lambda>n frame. if length frame \<le> n then Some frame else None)
     (shuffle_bytes (to_storage_bytes opaque_pixel Rgba32fLinearPremul) 4)
     (hash_tile (to_storage_bytes opaque_pixel Rgba32fLinearPremul)) Rgba32fLinearPremul 4 = Inr opaque_pixel"
  using tile_survives_the_blob [of Some "\<lambda>n frame. if length frame \<le> n then Some frame else None" Rgba32fLinearPremul
      opaque_pixel "shuffle_bytes (to_storage_bytes opaque_pixel Rgba32fLinearPremul) 4", unfolded length_opaque]
  by (simp add: frame_tile_blob_def compress_blob_def bytes_per_sample_def opaque_pixel_def)

text \<open>
  C38: what a decode gives is what the name says: for 16-bit and 32-bit storage and a whole number of pixels, of any
  frame and any decompressor, samples are returned
  only from bytes that hash to the name, as many as the caller declared; at 32 bits they are those bytes.
\<close>

theorem decode_is_self_verifying:
  assumes "decode_tile_blob zd frame name storage n = Inr px" and "storage \<noteq> Rgba8Srgb" and "4 dvd n"
  shows "length px = n \<and> is_tile_hash name \<and>
    (\<exists>b. length b = n * bytes_per_sample storage \<and> hash_tile b = name \<and> px = from_storage_bytes b storage \<and>
       (storage = Rgba32fLinearPremul \<longrightarrow> to_storage_bytes px storage = b))"
proof -
  let ?k = "bytes_per_sample storage"
  obtain raw where raw: "length raw = n * ?k" "is_tile_hash name" "hash_tile (unshuffle_bytes raw ?k) = name"
    "px = from_storage_bytes (unshuffle_bytes raw ?k) storage"
    using assms(1) by (auto simp: decode_tile_blob_def decompress_blob_def Let_def split: if_splits option.splits sum.splits)
  define b where "b = unshuffle_bytes raw ?k"
  have lb: "length b = n * ?k" using shuffle_aux [of raw ?k] raw(1) by (simp add: b_def)
  have px: "px = map (\<lambda>p. load_sample storage (take ?k (drop (p * ?k) b))) [0..<n]"
    using decode_samples [OF lb assms(3,2)] assms(2) raw(4) by (cases storage) (simp_all add: from_storage_bytes_def b_def)
  have "to_storage_bytes px storage = b" if f: "storage = Rgba32fLinearPremul"
  proof -
    have k: "?k = 4" by (simp add: f bytes_per_sample_def)
    have "to_storage_bytes px storage = concat (map (store_sample storage) px)"
      using encode_samples [of px storage] assms(3) by (simp add: f to_storage_bytes_def px)
    also have "map (store_sample storage) px = map (\<lambda>p. take 4 (drop (p * 4) b)) [0..<n]"
      unfolding px k map_map
    proof (rule map_cong [OF refl])
      fix p assume "p \<in> set [0..<n]"
      then have "p + 1 \<le> n" by simp
      then have "p * 4 + 4 \<le> length b" unfolding lb k by (metis add_mult_distrib mult_1 mult_le_mono1)
      then show "(store_sample storage \<circ> (\<lambda>p. load_sample storage (take 4 (drop (p * 4) b)))) p = take 4 (drop (p * 4) b)"
        unfolding f comp_def by (intro store_load) simp
    qed
    also have "concat \<dots> = b" by (rule concat_chunks) (use lb k in simp)
    finally show ?thesis .
  qed
  moreover have "length px = n" by (simp add: px)
  moreover have "hash_tile b = name" "px = from_storage_bytes b storage" using raw(3,4) by (simp_all only: b_def)
  ultimately show ?thesis using raw(2) lb by blast
qed

text \<open>The same pixel, read back.\<close>

theorem decode_is_self_verifying_witness:
  "length (from_storage_bytes (to_storage_bytes opaque_pixel Rgba32fLinearPremul) Rgba32fLinearPremul) = 4"
proof -
  let ?b = "to_storage_bytes opaque_pixel Rgba32fLinearPremul"
  have "length ?b = 16" by (simp add: to_storage_bytes_def encode_into_def Let_def opaque_pixel_def upt_rec)
  then have "decode_tile_blob (\<lambda>n frame. Some frame) (shuffle_bytes ?b 4) (hash_tile ?b) Rgba32fLinearPremul 4 =
      Inr (from_storage_bytes ?b Rgba32fLinearPremul)"
    using names_aux [of ?b] shuffle_aux [of ?b 4]
    by (simp add: decode_tile_blob_def decompress_blob_def bytes_per_sample_def Let_def)
  from decode_is_self_verifying [OF this] show ?thesis by simp
qed

end
