(* ===== verification/Asset_Store.thy ===== *)
theory Asset_Store
  imports Asset_Path Tile_Blob "HOL-Library.AList"
begin

text \<open>
  \<open>runtime/filesystem_asset_sink.cpp\<close>, \<open>runtime/filesystem_asset_source.cpp\<close> and \<open>serialize/save_context.cpp\<close>: the
  write side and the read side of the asset directory. The file system has no symbolic links; it lists its entries under
  their lexically normal paths, in the order a directory walk meets them, and whatever call of it may report an
  error does so by an argument.
\<close>

subsection \<open>The file system\<close>

datatype fs_entry = Directory | Regular "byte list" | Special

type_synonym fs = "(fpath \<times> fs_entry) list"

definition fs_key :: "fpath \<Rightarrow> fpath" where
  "fs_key p = \<lparr>fp_abs = fp_abs p, fp_elems = normal_elems p\<rparr>"

definition entry_at :: "fs \<Rightarrow> fpath \<Rightarrow> fs_entry option" where
  "entry_at fs p = (if fp_elems (fs_key p) = [] then Some Directory else map_of fs (fs_key p))"

definition below :: "fpath \<Rightarrow> fpath \<Rightarrow> bool" where
  "below r k \<longleftrightarrow> fp_abs r = fp_abs k \<and> length (fp_elems r) < length (fp_elems k) \<and>
     take (length (fp_elems r)) (fp_elems k) = fp_elems r"

definition is_regular :: "fs_entry option \<Rightarrow> bool" where
  "is_regular e = (case e of Some (Regular b) \<Rightarrow> True | _ \<Rightarrow> False)"

definition fs_remove :: "bool \<Rightarrow> fpath \<Rightarrow> fs \<Rightarrow> fs \<times> (unit + bool)" where
  "fs_remove fault p fs =
     (if fault then (fs, Inl ())
      else case entry_at fs p of
        None \<Rightarrow> (fs, Inr False)
      | Some Directory \<Rightarrow>
          if fp_elems (fs_key p) = [] \<or> list_ex (\<lambda>(k, e). below (fs_key p) k) fs then (fs, Inl ())
          else (AList.delete (fs_key p) fs, Inr True)
      | Some _ \<Rightarrow> (AList.delete (fs_key p) fs, Inr True))"

fun make_dirs :: "(fpath \<Rightarrow> bool) \<Rightarrow> bool \<Rightarrow> string list \<Rightarrow> string list \<Rightarrow> fs \<Rightarrow> fs" where
  "make_dirs fault absolute done [] fs = fs"
| "make_dirs fault absolute done (n # ns) fs =
     (let p = \<lparr>fp_abs = absolute, fp_elems = done @ [n]\<rparr>
      in case map_of fs p of
           Some Directory \<Rightarrow> make_dirs fault absolute (done @ [n]) ns fs
         | Some _ \<Rightarrow> fs
         | None \<Rightarrow> if fault p then fs else make_dirs fault absolute (done @ [n]) ns (AList.update p Directory fs))"

definition create_directories :: "(fpath \<Rightarrow> bool) \<Rightarrow> fpath \<Rightarrow> fs \<Rightarrow> fs" where
  "create_directories fault p fs = make_dirs fault (fp_abs p) [] (fp_elems (fs_key p)) fs"

definition fs_write :: "fpath \<Rightarrow> byte list \<Rightarrow> fs \<Rightarrow> fs" where
  "fs_write p bytes fs = AList.update (fs_key p) (Regular bytes) fs"

definition can_open :: "fs \<Rightarrow> fpath \<Rightarrow> bool" where
  "can_open fs p \<longleftrightarrow> entry_at fs (parent_path (fs_key p)) = Some Directory \<and>
     entry_at fs p \<noteq> Some Directory \<and> entry_at fs p \<noteq> Some Special"

definition strip_file_scheme :: "string \<Rightarrow> string" where
  "strip_file_scheme uri = (if take 7 uri = ''file://'' then drop 7 uri else uri)"

subsection \<open>The sink\<close>

datatype sink_error = NoSink | WriteFailed

text \<open>
  What the calls of one \<open>put\<close> report: whether the test for the path, the test of the parent, the opening and the rename
  fail, which directory cannot be created, after how many bytes a write stops, whether the partial file cannot be
  removed, and what another saver puts under the name before the rename.
\<close>

record sink_faults =
  sf_exists :: bool
  sf_make :: "fpath \<Rightarrow> bool"
  sf_parent :: bool
  sf_open :: bool
  sf_write :: "nat option"
  sf_remove :: bool
  sf_race :: "byte list option"
  sf_rename :: bool
  sf_landed :: bool

record sink =
  sk_puts :: nat
  sk_written :: nat
  sk_bytes :: nat

definition other_save :: "fpath \<Rightarrow> byte list \<Rightarrow> fs \<Rightarrow> fs" where
  "other_save path other fs = (if entry_at fs path = Some Directory then fs else fs_write path other fs)"

definition sink_contains :: "bool \<Rightarrow> string \<Rightarrow> fs \<Rightarrow> bool" where
  "sink_contains fault resolved_uri fs \<longleftrightarrow>
     entry_at fs (path_of_string (strip_file_scheme resolved_uri)) \<noteq> None \<and> \<not> fault"

definition temp_path :: "string \<Rightarrow> fpath \<Rightarrow> fpath" where
  "temp_path name target = path_append (parent_path target) \<lparr>fp_abs = False, fp_elems = [name]\<rparr>"

definition sink_put ::
    "sink_faults \<Rightarrow> string \<Rightarrow> string \<Rightarrow> byte list \<Rightarrow> sink \<times> fs \<Rightarrow> (sink \<times> fs) \<times> (sink_error + bool)" where
  "sink_put flt tmp_name resolved_uri bytes st =
     (case st of (sk, fs) \<Rightarrow>
      let sk = sk\<lparr>sk_puts := sk_puts sk + 1\<rparr>;
          path = path_of_string (strip_file_scheme resolved_uri)
      in if entry_at fs path \<noteq> None \<and> \<not> sf_exists flt then ((sk, fs), Inr False)
         else
           let parent = parent_path path;
               fs = (if fp_elems parent \<noteq> [] then create_directories (sf_make flt) parent fs else fs)
           in if fp_elems parent \<noteq> [] \<and> (entry_at fs parent \<noteq> Some Directory \<or> sf_parent flt)
              then ((sk, fs), Inl WriteFailed)
              else
                let tmp = temp_path tmp_name path
                in if sf_open flt \<or> \<not> can_open fs tmp then ((sk, fs), Inl WriteFailed)
                   else (case sf_write flt of
                     Some n \<Rightarrow> ((sk, fst (fs_remove (sf_remove flt) tmp (fs_write tmp (take n bytes) fs))), Inl WriteFailed)
                   | None \<Rightarrow>
                       let fs = fs_write tmp bytes fs;
                           fs = (case sf_race flt of Some other \<Rightarrow> other_save path other fs | None \<Rightarrow> fs)
                       in if sf_rename flt \<or> entry_at fs path = Some Directory
                          then let landed = entry_at fs path \<noteq> None \<and> \<not> sf_landed flt;
                                   fs = fst (fs_remove (sf_remove flt) tmp fs)
                               in ((sk, fs), if landed then Inr False else Inl WriteFailed)
                          else ((sk\<lparr>sk_written := sk_written sk + 1, sk_bytes := sk_bytes sk + length bytes\<rparr>,
                                 fs_write path bytes (AList.delete (fs_key tmp) fs)), Inr True)))"

subsection \<open>The source\<close>

text \<open>Whether the status, the opening and the reading of the file report an error.\<close>

record source_faults =
  rf_status :: bool
  rf_open :: bool
  rf_bad :: bool

record asset_source =
  as_requests :: nat
  as_hits :: nat

definition source_request ::
    "source_faults \<Rightarrow> string \<Rightarrow> fs \<Rightarrow> asset_source \<Rightarrow> asset_source \<times> byte list" where
  "source_request flt resolved_uri fs src =
     (let src = src\<lparr>as_requests := as_requests src + 1\<rparr>
      in case entry_at fs (path_of_string (strip_file_scheme resolved_uri)) of
           Some (Regular bytes) \<Rightarrow>
             if rf_status flt then (src, [])
             else if rf_open flt then (src, [])
             else if rf_bad flt then (src, [])
             else (src\<lparr>as_hits := as_hits src + 1\<rparr>, bytes)
         | _ \<Rightarrow> (src, []))"

subsection \<open>The save context\<close>

definition storage_format_token :: "pixel_format \<Rightarrow> string" where
  "storage_format_token storage =
     (case storage of Rgba16fLinearPremul \<Rightarrow> ''rgba16f'' | Rgba32fLinearPremul \<Rightarrow> ''rgba32f'' | Rgba8Srgb \<Rightarrow> ''rgba16f'')"

definition storage_format_from_token :: "string \<Rightarrow> pixel_format option" where
  "storage_format_from_token token =
     (if token = ''rgba16f'' then Some Rgba16fLinearPremul
      else if token = ''rgba32f'' then Some Rgba32fLinearPremul
      else None)"

text \<open>An installed sink is its \<open>put\<close> and its \<open>contains\<close>, over the store \<open>'s\<close> it writes to.\<close>

record 's save_context =
  sc_base_uri :: string
  sc_put :: "(string \<Rightarrow> byte list \<Rightarrow> 's \<Rightarrow> 's \<times> (sink_error + bool)) option"
  sc_contains :: "string \<Rightarrow> 's \<Rightarrow> bool"
  sc_params_only :: bool

definition save_context_new :: "string \<Rightarrow> 's save_context" where
  "save_context_new base_uri =
     \<lparr>sc_base_uri = normalize_uri base_uri, sc_put = None, sc_contains = (\<lambda>_ _. False), sc_params_only = False\<rparr>"

definition store_asset :: "'s save_context \<Rightarrow> string \<Rightarrow> byte list \<Rightarrow> 's \<Rightarrow> 's \<times> (sink_error + bool)" where
  "store_asset ctx relative_uri bytes s =
     (if sc_params_only ctx then (s, Inr False)
      else case sc_put ctx of
        None \<Rightarrow> (s, Inl NoSink)
      | Some put \<Rightarrow> put (resolve_uri (sc_base_uri ctx) relative_uri) bytes s)"

definition has_asset :: "'s save_context \<Rightarrow> string \<Rightarrow> 's \<Rightarrow> bool" where
  "has_asset ctx relative_uri s =
     (if sc_params_only ctx then True
      else if sc_put ctx = None then False
      else sc_contains ctx (resolve_uri (sc_base_uri ctx) relative_uri) s)"

subsection \<open>Well-formed file systems\<close>

text \<open>Every entry is listed once, under proper names, and every parent is a directory.\<close>

definition fs_ok :: "fs \<Rightarrow> bool" where
  "fs_ok fs \<longleftrightarrow> distinct (map fst fs) \<and>
     (\<forall>k e. map_of fs k = Some e \<longrightarrow> fp_elems k \<noteq> [] \<and> list_all proper (fp_elems k) \<and>
        entry_at fs (parent_path k) = Some Directory)"

definition regular_at :: "fs \<Rightarrow> fpath \<Rightarrow> byte list option" where
  "regular_at fs p = (case entry_at fs p of Some (Regular b) \<Rightarrow> Some b | _ \<Rightarrow> None)"

lemma fs_key_proper: "list_all proper (fp_elems k) \<Longrightarrow> fs_key k = k"
  using fold_proper [of "fp_elems k" "fp_abs k" "[]"] by (simp add: fs_key_def normal_elems_def)

lemma fs_key_abs [simp]: "fp_abs (fs_key p) = fp_abs p"
  by (simp add: fs_key_def)

lemma entry_at_proper:
  "list_all proper (fp_elems k) \<Longrightarrow> entry_at fs k = (if fp_elems k = [] then Some Directory else map_of fs k)"
  by (simp add: entry_at_def fs_key_proper)

lemma parent_proper: "list_all proper (fp_elems k) \<Longrightarrow> list_all proper (fp_elems (parent_path k))"
  by (auto simp: parent_path_def list_all_iff dest: in_set_butlastD)

lemma fs_okD:
  assumes "fs_ok fs" "map_of fs k = Some e"
  shows "fp_elems k \<noteq> []" "list_all proper (fp_elems k)" "entry_at fs (parent_path k) = Some Directory" "fs_key k = k"
  using assms fs_key_proper unfolding fs_ok_def by blast+

lemma key_parent: "fp_elems k \<noteq> [] \<Longrightarrow> below (parent_path k) k"
  by (simp add: below_def parent_path_def butlast_conv_take)

lemma map_of_set: "fs_ok fs \<Longrightarrow> (k, e) \<in> set fs \<longleftrightarrow> map_of fs k = Some e"
  unfolding fs_ok_def by (metis map_of_eq_Some_iff)

lemma fs_remove_cases:
  assumes "fs_remove fault p fs = (fs', r)"
  obtains (failed) "r = Inl ()" "fs' = fs"
    | (absent) "r = Inr False" "fs' = fs" "entry_at fs p = None"
    | (removed) e where "r = Inr True" "fs' = AList.delete (fs_key p) fs" "fp_elems (fs_key p) \<noteq> []"
        "map_of fs (fs_key p) = Some e" "e = Directory \<Longrightarrow> \<forall>(k, x) \<in> set fs. \<not> below (fs_key p) k"
proof (cases "fault \<or> entry_at fs p = None \<or> fp_elems (fs_key p) = []")
  case True
  then show ?thesis using assms failed absent unfolding fs_remove_def entry_at_def by (auto split: if_splits option.splits)
next
  case False
  then obtain e where e: "map_of fs (fs_key p) = Some e" "entry_at fs p = Some e" by (auto simp: entry_at_def)
  show ?thesis
  proof (cases "e = Directory \<and> list_ex (\<lambda>(k, e). below (fs_key p) k) fs")
    case True
    then show ?thesis using assms False e failed by (auto simp: fs_remove_def)
  next
    case n: False
    then have "fs' = AList.delete (fs_key p) fs \<and> r = Inr True"
      using assms False e by (cases e) (auto simp: fs_remove_def)
    then show ?thesis using removed [of e] False e(1) n by (auto simp: list_ex_iff)
  qed
qed

lemma entry_at_delete: "entry_at (AList.delete k fs) q = (if fs_key q = k \<and> fp_elems k \<noteq> [] then None else entry_at fs q)"
  by (auto simp: entry_at_def AList.delete_conv')

lemma delete_ok:
  assumes "fs_ok fs" "map_of fs k = Some e" "e = Directory \<Longrightarrow> \<forall>(k', x) \<in> set fs. \<not> below k k'"
  shows "fs_ok (AList.delete k fs)"
proof -
  have "fp_elems k' \<noteq> [] \<and> list_all proper (fp_elems k') \<and> entry_at (AList.delete k fs) (parent_path k') = Some Directory"
    if m: "map_of (AList.delete k fs) k' = Some e'" for k' e'
  proof -
    have k': "k' \<noteq> k" "map_of fs k' = Some e'" using m by (auto simp: AList.delete_conv' split: if_splits)
    note ok = fs_okD [OF assms(1) k'(2)]
    have "fs_key (parent_path k') \<noteq> k"
    proof
      assume p: "fs_key (parent_path k') = k"
      then have pk: "parent_path k' = k" using fs_key_proper [OF parent_proper [OF ok(2)]] by simp
      have "entry_at fs (parent_path k') = Some e" using fs_okD(1) [OF assms(1,2)] assms(2) p by (simp add: entry_at_def)
      then have "e = Directory" using ok(3) by simp
      moreover have "below k k'" using key_parent [OF ok(1)] pk by simp
      moreover have "(k', e') \<in> set fs" using k'(2) by (rule map_of_SomeD)
      ultimately show False using assms(3) by blast
    qed
    then show ?thesis using ok by (simp add: entry_at_delete)
  qed
  moreover have "distinct (map fst (AList.delete k fs))" using assms(1) by (simp add: fs_ok_def AList.distinct_delete)
  ultimately show ?thesis unfolding fs_ok_def by blast
qed

lemma fs_remove_step:
  assumes "fs_ok fs" "fs_remove fault p fs = (fs', r)"
  shows "fs_ok fs'"
    "regular_at fs' q = (if r \<noteq> Inl () \<and> fs_key q = fs_key p then None else regular_at fs q)"
    "fs' = fs \<or> fs' = AList.delete (fs_key p) fs"
    "fs_key q \<noteq> fs_key p \<Longrightarrow> entry_at fs' q = entry_at fs q"
proof -
  have "fs_ok fs' \<and> regular_at fs' q = (if r \<noteq> Inl () \<and> fs_key q = fs_key p then None else regular_at fs q) \<and>
      (fs' = fs \<or> fs' = AList.delete (fs_key p) fs) \<and> (fs_key q \<noteq> fs_key p \<longrightarrow> entry_at fs' q = entry_at fs q)"
    using assms(2)
  proof (cases rule: fs_remove_cases)
    case absent
    then have "regular_at fs q = None" if "fs_key q = fs_key p" using that by (simp add: regular_at_def entry_at_def split: if_splits)
    then show ?thesis using absent assms(1) by simp
  next
    case (removed e)
    show ?thesis using delete_ok [OF assms(1) removed(4,5)] removed(1-3) by (auto simp: regular_at_def entry_at_delete)
  qed (use assms(1) in simp)
  then show "fs_ok fs'" "regular_at fs' q = (if r \<noteq> Inl () \<and> fs_key q = fs_key p then None else regular_at fs q)"
    "fs' = fs \<or> fs' = AList.delete (fs_key p) fs" "fs_key q \<noteq> fs_key p \<Longrightarrow> entry_at fs' q = entry_at fs q" by blast+
qed

text \<open>Pruning the parent of what was just removed takes no file.\<close>

lemma prune_step:
  assumes "fs_ok fs" "fs_remove fault p fs = (fs1, Inr True)" "list_all proper (fp_elems p)"
    "fs_remove fault' (parent_path p) fs1 = (fs2, r)"
  shows "fs_ok fs2" "regular_at fs2 q = regular_at fs1 q"
    "fs2 = fs1 \<or> fs2 = AList.delete (parent_path p) fs1"
proof -
  have k: "fs_key p = p" using fs_key_proper [OF assms(3)] .
  have kp: "fs_key (parent_path p) = parent_path p" using fs_key_proper [OF parent_proper [OF assms(3)]] .
  note ok1 = fs_remove_step(1) [OF assms(1,2)]
  obtain e where e: "map_of fs p = Some e" using assms(2) k by (cases rule: fs_remove_cases) auto
  have "parent_path p \<noteq> p" using fs_okD(1) [OF assms(1) e] by (metis key_parent below_def less_irrefl)
  then have "entry_at fs1 (parent_path p) = Some Directory"
    using fs_remove_step(4) [OF assms(1,2), of "parent_path p"] fs_okD(3) [OF assms(1) e] k kp by simp
  then have "regular_at fs1 q = None" if "fs_key q = fs_key (parent_path p)"
    using that by (simp add: regular_at_def entry_at_def split: if_splits)
  then show "regular_at fs2 q = regular_at fs1 q" using fs_remove_step(2) [OF ok1 assms(4), of q] by simp
  show "fs_ok fs2" by (rule fs_remove_step(1) [OF ok1 assms(4)])
  show "fs2 = fs1 \<or> fs2 = AList.delete (parent_path p) fs1" using fs_remove_step(3) [OF ok1 assms(4)] kp by simp
qed

subsection \<open>What a write keeps\<close>

lemma entry_at_update: "fp_elems k \<noteq> [] \<Longrightarrow> entry_at (AList.update k e fs) q = (if fs_key q = k then Some e else entry_at fs q)"
  by (auto simp: entry_at_def AList.update_conv')

lemma update_ok:
  assumes "fs_ok fs" "list_all proper (fp_elems k)" "fp_elems k \<noteq> []" "entry_at fs (parent_path k) = Some Directory"
    "e = Directory \<or> map_of fs k \<noteq> Some Directory"
  shows "fs_ok (AList.update k e fs)"
proof -
  have "fp_elems k' \<noteq> [] \<and> list_all proper (fp_elems k') \<and> entry_at (AList.update k e fs) (parent_path k') = Some Directory"
    if m: "map_of (AList.update k e fs) k' = Some e'" for k' e'
  proof (cases "k' = k")
    case True
    have "fs_key (parent_path k) = parent_path k" by (rule fs_key_proper [OF parent_proper [OF assms(2)]])
    moreover have "parent_path k \<noteq> k" using assms(3) by (metis key_parent below_def less_irrefl)
    ultimately show ?thesis using True assms(2-4) by (simp add: entry_at_update)
  next
    case False
    then have k': "map_of fs k' = Some e'" using m by (simp add: AList.update_conv')
    note ok = fs_okD [OF assms(1) k']
    have kp: "fs_key (parent_path k') = parent_path k'" by (rule fs_key_proper [OF parent_proper [OF ok(2)]])
    have "e = Directory" if "parent_path k' = k"
      using that ok(3) assms(3,5) entry_at_proper [OF assms(2), of fs] by simp
    then show ?thesis using ok kp assms(3) by (simp add: entry_at_update)
  qed
  moreover have "distinct (map fst (AList.update k e fs))" using assms(1) by (simp add: fs_ok_def AList.distinct_update)
  ultimately show ?thesis unfolding fs_ok_def by blast
qed

lemma make_dirs_ok:
  assumes "fs_ok fs" "entry_at fs \<lparr>fp_abs = a, fp_elems = done\<rparr> = Some Directory" "list_all proper (done @ todo)"
  shows "fs_ok (make_dirs fault a done todo fs) \<and> (\<forall>q. regular_at (make_dirs fault a done todo fs) q = regular_at fs q) \<and>
    (\<forall>q e. entry_at fs q = Some e \<longrightarrow> entry_at (make_dirs fault a done todo fs) q = Some e)"
  using assms
proof (induction fault a "done" todo fs rule: make_dirs.induct)
  case (2 fault a dn n ns fs)
  let ?p = "\<lparr>fp_abs = a, fp_elems = dn @ [n]\<rparr>"
  have pp: "list_all proper (fp_elems ?p)" using 2(5) by simp
  have k: "fs_key ?p = ?p" by (rule fs_key_proper [OF pp])
  have ent: "entry_at fs ?p = map_of fs ?p" by (simp add: entry_at_def k)
  have par: "parent_path ?p = \<lparr>fp_abs = a, fp_elems = dn\<rparr>" by (simp add: parent_path_def)
  show ?case
  proof (cases "map_of fs ?p")
    case (Some e)
    show ?thesis
    proof (cases e)
      case Directory
      then show ?thesis using 2(2) [OF refl Some Directory 2(3)] 2(5) Some ent by simp
    qed (use 2(3) Some in simp_all)
  next
    case None
    show ?thesis
    proof (cases "fault ?p")
      case False
      let ?fs = "AList.update ?p Directory fs"
      have ok: "fs_ok ?fs" using update_ok [OF 2(3) pp] 2(4) par by simp
      have at: "entry_at ?fs q = (if fs_key q = ?p then Some Directory else entry_at fs q)" for q
        by (rule entry_at_update) simp
      have reg: "regular_at ?fs q = regular_at fs q" for q
        using None by (simp add: regular_at_def at) (simp add: entry_at_def)
      have keep: "entry_at fs q = Some e \<Longrightarrow> entry_at ?fs q = Some e" for q e
      proof -
        assume e: "entry_at fs q = Some e"
        then have "fs_key q \<noteq> ?p" using None by (auto simp: entry_at_def)
        then show "entry_at ?fs q = Some e" using e unfolding at by (simp only: if_False)
      qed
      have "fs_ok (make_dirs fault a (dn @ [n]) ns ?fs) \<and> (\<forall>q. regular_at (make_dirs fault a (dn @ [n]) ns ?fs) q = regular_at ?fs q) \<and>
          (\<forall>q e. entry_at ?fs q = Some e \<longrightarrow> entry_at (make_dirs fault a (dn @ [n]) ns ?fs) q = Some e)"
        using 2(1) [OF refl None False ok] at k 2(5) by simp
      then show ?thesis using None False reg keep by simp
    qed (use 2(3) None in simp)
  qed
qed simp

lemma create_directories_ok:
  assumes "fs_ok fs" "list_all proper (fp_elems p)"
  shows "fs_ok (create_directories fault p fs)" "regular_at (create_directories fault p fs) q = regular_at fs q"
    "entry_at fs q = Some e \<Longrightarrow> entry_at (create_directories fault p fs) q = Some e"
proof -
  have "entry_at fs \<lparr>fp_abs = fp_abs p, fp_elems = []\<rparr> = Some Directory" by (simp add: entry_at_def fs_key_def normal_elems_def)
  from make_dirs_ok [OF assms(1) this, of "fp_elems p"] assms(2)
  show "fs_ok (create_directories fault p fs)" "regular_at (create_directories fault p fs) q = regular_at fs q"
    "entry_at fs q = Some e \<Longrightarrow> entry_at (create_directories fault p fs) q = Some e"
    by (simp_all add: create_directories_def fs_key_proper)
qed

lemma write_ok:
  assumes "fs_ok fs" "list_all proper (fp_elems p)" "fp_elems p \<noteq> []" "entry_at fs (parent_path p) = Some Directory"
    "entry_at fs p \<noteq> Some Directory"
  shows "fs_ok (fs_write p b fs)" "regular_at (fs_write p b fs) q = (if fs_key q = p then Some b else regular_at fs q)"
    "entry_at (fs_write p b fs) q = (if fs_key q = p then Some (Regular b) else entry_at fs q)"
proof -
  note k = fs_key_proper [OF assms(2)]
  show "fs_ok (fs_write p b fs)" unfolding fs_write_def k
    by (rule update_ok [OF assms(1-4)]) (use assms(3,5) entry_at_proper [OF assms(2), of fs] in simp)
  show e: "entry_at (fs_write p b fs) q = (if fs_key q = p then Some (Regular b) else entry_at fs q)" for q
    unfolding fs_write_def k by (rule entry_at_update [OF assms(3)])
  show "regular_at (fs_write p b fs) q = (if fs_key q = p then Some b else regular_at fs q)" by (simp add: regular_at_def e)
qed

subsection \<open>A write is whole or absent\<close>

lemma file_scheme: "has_scheme (''file://'' @ x)"
  by (simp add: has_scheme_def is_scheme_char_def less_eq_char_def)

lemma uri_proper_schemeless: "list_all proper ns \<Longrightarrow> strip_file_scheme (uri_of absolute ns) = uri_of absolute ns"
proof -
  have "take 7 (uri_of absolute ns) \<noteq> ''file://''" if "list_all proper ns"
  proof
    assume "take 7 (uri_of absolute ns) = ''file://''"
    then have "has_scheme (uri_of absolute ns)" using file_scheme by (metis append_take_drop_id)
    then show False using uri_of_schemeless [OF proper_normal [OF that]] by blast
  qed
  then show "list_all proper ns \<Longrightarrow> ?thesis" by (simp add: strip_file_scheme_def)
qed

lemma path_of_proper: "list_all proper ns \<Longrightarrow> path_of_string (uri_of absolute ns) = \<lparr>fp_abs = absolute, fp_elems = ns\<rparr>"
  by (rule path_of_uri) (rule proper_normal)


lemma temp_path_proper:
  assumes "list_all proper ns" "ns \<noteq> []"
  shows "temp_path t \<lparr>fp_abs = a, fp_elems = ns\<rparr> = \<lparr>fp_abs = a, fp_elems = butlast ns @ [t]\<rparr>"
proof -
  have "list_all proper (butlast ns)" using assms(1) by (auto simp: list_all_iff dest: in_set_butlastD)
  then have "without_trailing (butlast ns) = butlast ns"
    by (auto simp: without_trailing_def list_all_iff proper_def dest: last_in_set)
  then show ?thesis by (simp add: temp_path_def path_append_def parent_path_def)
qed

lemma race_ok:
  assumes "fs_ok fs" "list_all proper (fp_elems p)" "fp_elems p \<noteq> []" "entry_at fs (parent_path p) = Some Directory"
  shows "fs_ok (other_save p b fs)" "regular_at (other_save p b fs) q = (if fs_key q = p \<and> entry_at fs p \<noteq> Some Directory then Some b else regular_at fs q)"
    "entry_at (other_save p b fs) q = (if fs_key q = p \<and> entry_at fs p \<noteq> Some Directory then Some (Regular b) else entry_at fs q)"
  using write_ok [OF assms] assms(1) by (simp_all add: other_save_def)

text \<open>
  What one put leaves, for a final path \<open>P\<close> and a temporary name beside it: a state of the file system that is
  well formed, with the final path as before, or whole, or another saver's, and nothing else changed.
\<close>

definition put_outcome :: "sink_faults \<Rightarrow> fpath \<Rightarrow> fpath \<Rightarrow> byte list \<Rightarrow> fs \<Rightarrow> fs \<Rightarrow> sink_error + bool \<Rightarrow> bool" where
  "put_outcome flt P T bytes fs fs' res \<longleftrightarrow>
     fs_ok fs' \<and> (\<forall>q. fs_key q \<noteq> P \<and> fs_key q \<noteq> T \<longrightarrow> regular_at fs' q = regular_at fs q) \<and>
     (res = Inr True \<longrightarrow> regular_at fs' P = Some bytes) \<and>
     (res = Inr False \<longrightarrow> entry_at fs' P \<noteq> None) \<and>
     (res \<noteq> Inr True \<longrightarrow> regular_at fs' P = regular_at fs P \<or> sf_race flt \<noteq> None \<and> regular_at fs' P = sf_race flt) \<and>
     (\<not> sf_remove flt \<and> regular_at fs T = None \<longrightarrow> regular_at fs' T = None)"

lemma put_leaves:
  assumes ok: "fs_ok fs" and ns: "list_all proper ns" "ns \<noteq> []" and t: "proper t" "t \<noteq> last ns"
    and put: "sink_put flt t (uri_of a ns) bytes (sk, fs) = ((sk', fs'), res)"
  shows "put_outcome flt \<lparr>fp_abs = a, fp_elems = ns\<rparr> \<lparr>fp_abs = a, fp_elems = butlast ns @ [t]\<rparr> bytes fs fs' res"
proof -
  let ?P = "\<lparr>fp_abs = a, fp_elems = ns\<rparr>" let ?T = "\<lparr>fp_abs = a, fp_elems = butlast ns @ [t]\<rparr>"
  let ?D = "\<lparr>fp_abs = a, fp_elems = butlast ns\<rparr>"
  have P: "path_of_string (strip_file_scheme (uri_of a ns)) = ?P"
    unfolding uri_proper_schemeless [OF ns(1)] by (rule path_of_proper [OF ns(1)])
  have D: "parent_path ?P = ?D" "parent_path ?T = ?D" by (simp_all add: parent_path_def)
  have bl: "list_all proper (butlast ns)" using ns(1) by (auto simp: list_all_iff dest: in_set_butlastD)
  have pT: "list_all proper (fp_elems ?T)" "fp_elems ?T \<noteq> []" using bl t(1) by simp_all
  have pP: "list_all proper (fp_elems ?P)" "fp_elems ?P \<noteq> []" using ns by simp_all
  have kT: "fs_key ?T = ?T" and kP: "fs_key ?P = ?P" and kD: "fs_key ?D = ?D" using pT pP bl by (simp_all add: fs_key_proper)
  have TP: "?T \<noteq> ?P"
  proof
    assume "?T = ?P"
    then have "butlast ns @ [t] = ns" by simp
    then show False using t(2) by (metis last_snoc)
  qed
  have "length (butlast ns) < length ns" using ns(2) by simp
  then have "butlast ns \<noteq> ns" by (metis less_irrefl)
  then have DP: "?D \<noteq> ?P" "?D \<noteq> ?T" by simp_all
  define fs1 where "fs1 = (if butlast ns \<noteq> [] then create_directories (sf_make flt) ?D fs else fs)"
  have 1: "fs_ok fs1" "\<And>q. regular_at fs1 q = regular_at fs q" "\<And>q e. entry_at fs q = Some e \<Longrightarrow> entry_at fs1 q = Some e"
    using create_directories_ok [OF ok, of ?D] bl ok by (simp_all add: fs1_def)
  have unchanged: "put_outcome flt ?P ?T bytes fs fs1 (Inl WriteFailed)" using 1 by (simp add: put_outcome_def)
  note def = put [unfolded sink_put_def Let_def prod.case P temp_path_proper [OF ns] D fpath.select_convs fs1_def [symmetric]]
  show ?thesis
  proof (cases "entry_at fs ?P \<noteq> None \<and> \<not> sf_exists flt")
    case True
    then show ?thesis using def ok by (auto simp: put_outcome_def)
  next
    case absent: False
    show ?thesis
    proof (cases "butlast ns \<noteq> [] \<and> (entry_at fs1 ?D \<noteq> Some Directory \<or> sf_parent flt) \<or> sf_open flt \<or> \<not> can_open fs1 ?T")
      case True
      then have "fs' = fs1 \<and> res = Inl WriteFailed" using def absent by (auto split: if_splits)
      then show ?thesis using unchanged by simp
    next
      case False
      have open_T: "entry_at fs1 ?D = Some Directory" "entry_at fs1 ?T \<noteq> Some Directory"
        using False kT D(2) by (auto simp: can_open_def)
      note wT = write_ok [OF 1(1) pT, unfolded D(2), OF open_T]
      show ?thesis
      proof (cases "sf_write flt")
        case (Some n)
        obtain fs2 r where r: "fs_remove (sf_remove flt) ?T (fs_write ?T (take n bytes) fs1) = (fs2, r)"
          by (cases "fs_remove (sf_remove flt) ?T (fs_write ?T (take n bytes) fs1)")
        have f: "fs' = fs2" "res = Inl WriteFailed" using def absent False Some r by (auto split: if_splits)
        note rm = fs_remove_step [OF wT(1) r, unfolded kT]
        have "r \<noteq> Inl ()" if "\<not> sf_remove flt"
          using r that wT(3) [of _ ?T] kT by (auto simp: fs_remove_def)
        then show ?thesis using f rm(1,2) wT(2) 1(2) kT kP TP by (auto simp: put_outcome_def)
      next
        case None
        define fs2 where "fs2 = fs_write ?T bytes fs1"
        define fs3 where "fs3 = (case sf_race flt of Some other \<Rightarrow> other_save ?P other fs2 | None \<Rightarrow> fs2)"
        have e2: "entry_at fs2 ?D = Some Directory" using wT(3) [of bytes ?D] kD DP open_T(1) by (simp add: fs2_def)
        note race = race_ok [OF wT(1) [of bytes, folded fs2_def] pP, unfolded D(1), OF e2]
        have 3: "fs_ok fs3" "entry_at fs3 ?D = Some Directory" "entry_at fs3 ?T = Some (Regular bytes)"
          "\<And>q. fs_key q \<noteq> ?P \<Longrightarrow> fs_key q \<noteq> ?T \<Longrightarrow> regular_at fs3 q = regular_at fs q"
          "regular_at fs3 ?P = regular_at fs ?P \<or> sf_race flt \<noteq> None \<and> regular_at fs3 ?P = sf_race flt"
        proof -
          have 2: "fs_ok fs2" "entry_at fs2 ?T = Some (Regular bytes)" "\<And>q. fs_key q \<noteq> ?T \<Longrightarrow> regular_at fs2 q = regular_at fs q"
            using wT(1,3) [of bytes] wT(2) [of bytes] 1(2) kT by (simp_all add: fs2_def)
          have "fs_ok fs3 \<and> entry_at fs3 ?D = Some Directory \<and> entry_at fs3 ?T = Some (Regular bytes) \<and>
              (\<forall>q. fs_key q \<noteq> ?P \<and> fs_key q \<noteq> ?T \<longrightarrow> regular_at fs3 q = regular_at fs q) \<and>
              (regular_at fs3 ?P = regular_at fs ?P \<or> sf_race flt \<noteq> None \<and> regular_at fs3 ?P = sf_race flt)"
          proof (cases "sf_race flt")
            case None
            then show ?thesis using 2 e2 kP TP [symmetric] by (simp add: fs3_def)
          next
            case (Some other)
            then have "fs3 = other_save ?P other fs2" by (simp add: fs3_def)
            then show ?thesis using 2 e2 race kT kP kD TP TP [symmetric] DP Some by simp
          qed
          then show "fs_ok fs3" "entry_at fs3 ?D = Some Directory" "entry_at fs3 ?T = Some (Regular bytes)"
            "\<And>q. fs_key q \<noteq> ?P \<Longrightarrow> fs_key q \<noteq> ?T \<Longrightarrow> regular_at fs3 q = regular_at fs q"
            "regular_at fs3 ?P = regular_at fs ?P \<or> sf_race flt \<noteq> None \<and> regular_at fs3 ?P = sf_race flt"
            by blast+
        qed
        note cur = fs3_def [unfolded fs2_def, symmetric]
        show ?thesis
        proof (cases "sf_rename flt \<or> entry_at fs3 ?P = Some Directory")
          case True
          note ren = True
          obtain fs4 r where r: "fs_remove (sf_remove flt) ?T fs3 = (fs4, r)" by (cases "fs_remove (sf_remove flt) ?T fs3")
          have f: "fs' = fs4" "res = (if entry_at fs3 ?P \<noteq> None \<and> \<not> sf_landed flt then Inr False else Inl WriteFailed)"
            using def absent False None True r by (auto simp: cur split: if_splits)
          note rm = fs_remove_step [OF 3(1) r, unfolded kT]
          have nf: "r \<noteq> Inl ()" if "\<not> sf_remove flt" using r that 3(3) kT by (auto simp: fs_remove_def)
          have "entry_at fs4 ?P = entry_at fs3 ?P" using rm(4) kP TP by simp
          then show ?thesis using f rm(1,2) 3 nf kT kP TP by (auto simp: put_outcome_def)
        next
          case ren: False
          have f: "fs' = fs_write ?P bytes (AList.delete ?T fs3)" "res = Inr True"
            using def absent False None ren by (auto simp: cur kT split: if_splits)
          have "map_of fs3 ?T = Some (Regular bytes)" using 3(3) pT entry_at_proper [OF pT(1), of fs3] by simp
          then have d: "fs_ok (AList.delete ?T fs3)" by (rule delete_ok [OF 3(1)]) simp
          have del: "entry_at (AList.delete ?T fs3) q = (if fs_key q = ?T then None else entry_at fs3 q)" for q
            by (simp add: entry_at_delete)
          have dD: "entry_at (AList.delete ?T fs3) ?D = Some Directory" unfolding del kD using DP(2) 3(2) by (simp only: if_False)
          have dP: "entry_at (AList.delete ?T fs3) ?P \<noteq> Some Directory" unfolding del kP using TP [symmetric] ren by (simp only: if_False de_Morgan_disj simp_thms)
          note w = write_ok [OF d pP, unfolded D(1), OF dD dP]
          have "regular_at fs' q = (if fs_key q = ?P then Some bytes else if fs_key q = ?T then None else regular_at fs3 q)" for q
            unfolding f(1) w(2) by (simp add: regular_at_def del)
          then show ?thesis using f w(1) 3(4) kT kP TP by (auto simp: put_outcome_def)
        qed
      qed
    qed
  qed
qed

text \<open>
  C35: a put is atomic under its name, whatever calls of it fail: on a well-formed file system, with a proper path and a
  temporary name other than the final one. The final path holds what it held before, or the whole
  of the bytes, or another saver's; never a part. True means the bytes are there, False that something is, no other
  file changes, and the temporary name is gone unless its removal failed.
\<close>

theorem put_is_whole_or_absent:
  assumes "fs_ok fs" "list_all proper ns" "ns \<noteq> []" "proper t" "t \<noteq> last ns"
    and "sink_put flt t (uri_of a ns) bytes (sk, fs) = ((sk', fs'), res)"
  shows "put_outcome flt \<lparr>fp_abs = a, fp_elems = ns\<rparr> \<lparr>fp_abs = a, fp_elems = butlast ns @ [t]\<rparr> bytes fs fs' res"
  by (rule put_leaves [OF assms])

definition torn_faults :: sink_faults where
  "torn_faults = \<lparr>sf_exists = False, sf_make = (\<lambda>p. False), sf_parent = False, sf_open = False, sf_write = Some 1,
     sf_remove = False, sf_race = None, sf_rename = False, sf_landed = False\<rparr>"

definition calm :: sink_faults where "calm = torn_faults\<lparr>sf_write := None\<rparr>"

definition new_sink :: sink where "new_sink = \<lparr>sk_puts = 0, sk_written = 0, sk_bytes = 0\<rparr>"

theorem put_is_whole_or_absent_witness:
  "case sink_put torn_faults ''t'' (uri_of True [''d'', ''x'']) [1, 2] (new_sink, []) of ((sk', fs'), res) \<Rightarrow>
     res = Inl WriteFailed \<and> regular_at fs' \<lparr>fp_abs = True, fp_elems = [''d'', ''x'']\<rparr> = None"
proof -
  let ?run = "sink_put torn_faults ''t'' (uri_of True [''d'', ''x'']) [1, 2] (new_sink, [])"
  have r: "snd ?run = Inl WriteFailed" by code_simp
  have "fs_ok []" by (simp add: fs_ok_def)
  moreover have "list_all proper [''d'', ''x'']" "proper ''t''" by (simp_all add: proper_def)
  ultimately have "put_outcome torn_faults \<lparr>fp_abs = True, fp_elems = [''d'', ''x'']\<rparr> \<lparr>fp_abs = True, fp_elems = [''d'', ''t'']\<rparr>
      [1, 2] [] (snd (fst ?run)) (snd ?run)"
    using put_is_whole_or_absent [of "[]" "[''d'', ''x'']" "''t''" torn_faults True "[1, 2]" new_sink "fst (fst ?run)" "snd (fst ?run)" "snd ?run"]
    by simp
  moreover have "regular_at [] \<lparr>fp_abs = True, fp_elems = [''d'', ''x'']\<rparr> = None" by code_simp
  moreover have "sf_race torn_faults = None" by (simp add: torn_faults_def)
  moreover have "snd ?run \<noteq> Inr True" unfolding r by simp
  ultimately have "regular_at (snd (fst ?run)) \<lparr>fp_abs = True, fp_elems = [''d'', ''x'']\<rparr> = None"
    unfolding put_outcome_def by metis
  then show ?thesis using r by (simp add: case_prod_beta)
qed

text \<open>
  C36: what a save stores under a relative reference a load of the same document reads back: after \<open>store_asset\<close>
  returned True through the filesystem sink, resolving the same reference in a load context with the same base and
  loading it through the filesystem source, whose calls succeed, gives exactly the bytes. The reference resolves to a
  proper path, and the temporary name is not the final one.
\<close>

theorem stored_asset_loads_back:
  assumes "fs_ok fs" "list_all proper ns" "ns \<noteq> []" "proper t" "t \<noteq> last ns"
    and "resolve_uri (sc_base_uri ctx) r = uri_of a ns" "context_ok lc" "lc_base_uri lc = sc_base_uri ctx"
    and "sc_put ctx = Some (sink_put flt t)" "store_asset ctx r bytes (sk, fs) = ((sk', fs'), Inr True)"
    and "\<not> rf_status sflt" "\<not> rf_open sflt" "\<not> rf_bad sflt"
  shows "load_asset (Some (\<lambda>uri. snd (source_request sflt uri fs' src))) (fst (resolve r lc)) (snd (resolve r lc)) = bytes"
proof -
  have "sink_put flt t (uri_of a ns) bytes (sk, fs) = ((sk', fs'), Inr True)"
    using assms(6,9,10) by (simp add: store_asset_def split: if_splits)
  note o = put_leaves [OF assms(1-5) this]
  have "path_of_string (strip_file_scheme (uri_of a ns)) = \<lparr>fp_abs = a, fp_elems = ns\<rparr>"
    unfolding uri_proper_schemeless [OF assms(2)] by (rule path_of_proper [OF assms(2)])
  moreover have "entry_at fs' \<lparr>fp_abs = a, fp_elems = ns\<rparr> = Some (Regular bytes)"
    using o by (simp add: put_outcome_def regular_at_def split: option.splits fs_entry.splits)
  moreover have "lc_resolved (fst (resolve r lc)) ! snd (resolve r lc) = uri_of a ns"
    using resolve_step [OF assms(7) surjective_pairing, of r] assms(6,8) by simp
  ultimately show ?thesis using assms(11-13) by (simp add: load_asset_def source_request_def Let_def)
qed

definition saver :: "(sink \<times> fs) save_context" where
  "saver = (save_context_new ''/p/a.arbc'')\<lparr>sc_put := Some (sink_put calm ''t'')\<rparr>"

theorem stored_asset_loads_back_witness:
  "case store_asset saver ''assets/x'' [1, 2] (new_sink, []) of ((sk', fs'), res) \<Rightarrow>
     res = Inr True \<and>
     load_asset (Some (\<lambda>uri. snd (source_request \<lparr>rf_status = False, rf_open = False, rf_bad = False\<rparr> uri fs' \<lparr>as_requests = 0, as_hits = 0\<rparr>)))
       (fst (resolve ''assets/x'' (load_context_new ''/p/a.arbc''))) (snd (resolve ''assets/x'' (load_context_new ''/p/a.arbc''))) = [1, 2]"
proof -
  let ?run = "store_asset saver ''assets/x'' [1, 2] (new_sink, [])"
  have r: "?run = ((fst (fst ?run), snd (fst ?run)), Inr True)" by code_simp
  have b: "resolve_uri (sc_base_uri saver) ''assets/x'' = uri_of True [''p'', ''assets'', ''x'']" by code_simp
  have c: "context_ok (load_context_new ''/p/a.arbc'')" by (simp add: context_ok_def load_context_new_def)
  have l: "lc_base_uri (load_context_new ''/p/a.arbc'') = sc_base_uri saver" by code_simp
  have p: "list_all proper [''p'', ''assets'', ''x'']" "proper ''t''" "fs_ok []" by (simp_all add: proper_def fs_ok_def)
  have s: "sc_put saver = Some (sink_put calm ''t'')" by (simp add: saver_def)
  have "load_asset (Some (\<lambda>uri. snd (source_request \<lparr>rf_status = False, rf_open = False, rf_bad = False\<rparr> uri (snd (fst ?run)) \<lparr>as_requests = 0, as_hits = 0\<rparr>)))
       (fst (resolve ''assets/x'' (load_context_new ''/p/a.arbc''))) (snd (resolve ''assets/x'' (load_context_new ''/p/a.arbc''))) = [1, 2]"
    by (rule stored_asset_loads_back [OF p(3,1) _ p(2) _ b c l s r]) simp_all
  moreover have "snd ?run = Inr True" by code_simp
  ultimately show ?thesis by (simp add: case_prod_beta)
qed

end
