(* ===== verification/Asset_Gc.thy ===== *)
theory Asset_Gc
  imports Asset_Store
begin

text \<open>
  \<open>serialize/asset_reaper.cpp\<close> and \<open>runtime/asset_gc.cpp\<close>: the collection of the asset directory. The mark walk over the
  JSON of a document, the subtraction, the sweep through the reap interface, the reaper over the file system of
  Asset_Store and the entry that collects a project directory. The JSON parser is a parameter of the walk; its
  value is the tree the walk reads. A directory walk that reports an error becomes the end of the walk, as the standard library
  specifies; where it does so is an argument.
\<close>

subsection \<open>Marking\<close>

datatype json = Object "(string \<times> json) list" | Array "json list" | Str string | Scalar

datatype reader_error_kind = MalformedJson | MalformedField

record reader_error =
  re_kind :: reader_error_kind
  re_path :: string

record gc_roots =
  gr_tiles :: "string set"
  gr_assets :: "string set"

definition no_roots :: gc_roots where
  "no_roots = \<lparr>gr_tiles = {}, gr_assets = {}\<rparr>"

definition mark_error :: "reader_error_kind \<Rightarrow> string \<Rightarrow> reader_error" where
  "mark_error kind path = \<lparr>re_kind = kind, re_path = path\<rparr>"

definition normalize_asset_uri :: "string \<Rightarrow> string" where
  "normalize_asset_uri uri = generic_string (lexically_normal (path_of_string (strip_file_scheme uri)))"

fun harvest_blobs :: "json list \<Rightarrow> gc_roots \<Rightarrow> gc_roots \<times> reader_error option" where
  "harvest_blobs [] out = (out, None)"
| "harvest_blobs (entry # rest) out =
     (case entry of
        Str hash \<Rightarrow>
          if \<not> is_tile_hash hash then (out, Some (mark_error MalformedField ''/params/blobs''))
          else harvest_blobs rest (out\<lparr>gr_tiles := insert hash (gr_tiles out)\<rparr>)
      | _ \<Rightarrow> (out, Some (mark_error MalformedField ''/params/blobs'')))"

definition harvest_source :: "json \<Rightarrow> gc_roots \<Rightarrow> gc_roots \<times> reader_error option" where
  "harvest_source sit out =
     (case sit of
        Str source \<Rightarrow>
          (if source \<noteq> [] then out\<lparr>gr_assets := insert (normalize_asset_uri source) (gr_assets out)\<rparr> else out, None)
      | _ \<Rightarrow> (out, Some (mark_error MalformedField ''/params/source'')))"

definition harvest_params :: "(string \<times> json) list \<Rightarrow> gc_roots \<Rightarrow> gc_roots \<times> reader_error option" where
  "harvest_params node out =
     (case map_of node ''params'' of
        Some (Object params) \<Rightarrow>
          (let (out, e) = (case map_of params ''blobs'' of
                 Some (Array blobs) \<Rightarrow> harvest_blobs blobs out
               | Some _ \<Rightarrow> (out, Some (mark_error MalformedField ''/params/blobs''))
               | None \<Rightarrow> (out, None))
           in case e of
                Some e \<Rightarrow> (out, Some e)
              | None \<Rightarrow> (case map_of params ''source'' of Some sit \<Rightarrow> harvest_source sit out | None \<Rightarrow> (out, None)))
      | _ \<Rightarrow> (out, None))"

fun harvest_node :: "json \<Rightarrow> gc_roots \<Rightarrow> gc_roots \<times> reader_error option"
  and harvest_items :: "(string \<times> json) list \<Rightarrow> gc_roots \<Rightarrow> gc_roots \<times> reader_error option"
  and harvest_elements :: "json list \<Rightarrow> gc_roots \<Rightarrow> gc_roots \<times> reader_error option" where
  "harvest_node (Object node) out =
     (case harvest_params node out of
        (out, Some e) \<Rightarrow> (out, Some e)
      | (out, None) \<Rightarrow> harvest_items node out)"
| "harvest_node (Array node) out = harvest_elements node out"
| "harvest_node (Str s) out = (out, None)"
| "harvest_node Scalar out = (out, None)"
| "harvest_items [] out = (out, None)"
| "harvest_items (item # rest) out =
     (case harvest_node (snd item) out of (out, Some e) \<Rightarrow> (out, Some e) | (out, None) \<Rightarrow> harvest_items rest out)"
| "harvest_elements [] out = (out, None)"
| "harvest_elements (v # rest) out =
     (case harvest_node v out of (out, Some e) \<Rightarrow> (out, Some e) | (out, None) \<Rightarrow> harvest_elements rest out)"

definition collect_referenced_assets :: "('t \<Rightarrow> json option) \<Rightarrow> 't \<Rightarrow> reader_error + gc_roots" where
  "collect_referenced_assets parse document_json =
     (case parse document_json of
        None \<Rightarrow> Inl (mark_error MalformedJson ''/'')
      | Some doc \<Rightarrow>
          (case harvest_node doc no_roots of (roots, Some e) \<Rightarrow> Inl e | (roots, None) \<Rightarrow> Inr roots))"

definition collect_referenced_tiles :: "('t \<Rightarrow> json option) \<Rightarrow> 't \<Rightarrow> reader_error + string set" where
  "collect_referenced_tiles parse document_json = bindE (collect_referenced_assets parse document_json) (\<lambda>roots. Inr (gr_tiles roots))"

subsection \<open>The subtraction\<close>

definition basename_of :: "string \<Rightarrow> string" where
  "basename_of uri = rev (takeWhile (\<lambda>c. c \<noteq> CHR ''/'') (rev uri))"

definition ends_with :: "string \<Rightarrow> string \<Rightarrow> bool" where
  "ends_with s t \<longleftrightarrow> length t \<le> length s \<and> drop (length s - length t) s = t"

fun unreferenced_tiles :: "string set \<Rightarrow> string list \<Rightarrow> string list" where
  "unreferenced_tiles referenced [] = []"
| "unreferenced_tiles referenced (name # present) =
     (if name \<notin> referenced then name # unreferenced_tiles referenced present else unreferenced_tiles referenced present)"

definition asset_rooted :: "string set \<Rightarrow> string \<Rightarrow> bool" where
  "asset_rooted referenced key \<longleftrightarrow>
     key \<in> referenced \<or>
     (\<exists>ref \<in> referenced. ends_with ref (CHR ''/'' # key) \<or> basename_of ref = basename_of key)"

fun unreferenced_assets :: "string set \<Rightarrow> string list \<Rightarrow> string list" where
  "unreferenced_assets referenced [] = []"
| "unreferenced_assets referenced (key # present) =
     (if \<not> asset_rooted referenced key then key # unreferenced_assets referenced present
      else unreferenced_assets referenced present)"

subsection \<open>The reap interface and the sweep\<close>

datatype reaper_error = EnumerateFailed | RemoveFailed

record 's reaper =
  list_tile_hashes :: "'s \<Rightarrow> reaper_error + string list"
  tile_size :: "string \<Rightarrow> 's \<Rightarrow> reaper_error + nat"
  remove_tile :: "string \<Rightarrow> 's \<Rightarrow> 's \<times> (reaper_error + bool)"
  list_asset_uris :: "'s \<Rightarrow> reaper_error + string list"
  asset_size :: "string \<Rightarrow> 's \<Rightarrow> reaper_error + nat"
  remove_asset :: "string \<Rightarrow> 's \<Rightarrow> 's \<times> (reaper_error + bool)"

text \<open>The named half of a reaper that overrides the tile half only.\<close>

definition tiles_only :: "'s reaper \<Rightarrow> 's reaper" where
  "tiles_only r = r\<lparr>list_asset_uris := \<lambda>s. Inr [], asset_size := \<lambda>uri s. Inl EnumerateFailed,
     remove_asset := \<lambda>uri s. (s, Inl RemoveFailed)\<rparr>"

record gc_report =
  rp_scanned :: nat
  rp_referenced :: nat
  rp_deleted :: nat
  rp_bytes_reclaimed :: nat

datatype gc_error = MarkFailed reader_error | GcEnumerateFailed reaper_error | GcRemoveFailed reaper_error

definition from_reaper :: "reaper_error \<Rightarrow> gc_error" where
  "from_reaper e = (if e = RemoveFailed then GcRemoveFailed e else GcEnumerateFailed e)"

fun size_plan :: "(string \<Rightarrow> reaper_error + nat) \<Rightarrow> string list \<Rightarrow> nat \<Rightarrow> gc_error + nat" where
  "size_plan size_of [] bytes = Inr bytes"
| "size_plan size_of (name # dead) bytes =
     (case size_of name of Inl e \<Rightarrow> Inl (from_reaper e) | Inr n \<Rightarrow> size_plan size_of dead (bytes + n))"

fun remove_plan :: "(string \<Rightarrow> 's \<Rightarrow> 's \<times> (reaper_error + bool)) \<Rightarrow> string list \<Rightarrow> 's \<Rightarrow> 's \<times> gc_error option" where
  "remove_plan remove [] s = (s, None)"
| "remove_plan remove (name # dead) s =
     (case remove name s of (s, Inl e) \<Rightarrow> (s, Some (from_reaper e)) | (s, Inr removed) \<Rightarrow> remove_plan remove dead s)"

definition sweep_tile_store :: "'s reaper \<Rightarrow> string set \<Rightarrow> bool \<Rightarrow> 's \<Rightarrow> 's \<times> (gc_error + gc_report)" where
  "sweep_tile_store r referenced dry_run s =
     (case list_tile_hashes r s of
        Inl e \<Rightarrow> (s, Inl (from_reaper e))
      | Inr present \<Rightarrow>
          (let dead = unreferenced_tiles referenced present
           in case size_plan (\<lambda>hash. tile_size r hash s) dead 0 of
                Inl e \<Rightarrow> (s, Inl e)
              | Inr bytes \<Rightarrow>
                  (let report = \<lparr>rp_scanned = length present, rp_referenced = card referenced,
                                 rp_deleted = length dead, rp_bytes_reclaimed = bytes\<rparr>
                   in if dry_run then (s, Inr report)
                      else (case remove_plan (remove_tile r) dead s of
                              (s, Some e) \<Rightarrow> (s, Inl e) | (s, None) \<Rightarrow> (s, Inr report)))))"

definition sweep_asset_store :: "'s reaper \<Rightarrow> gc_roots \<Rightarrow> bool \<Rightarrow> 's \<Rightarrow> 's \<times> (gc_error + gc_report)" where
  "sweep_asset_store r roots dry_run s =
     seqE (sweep_tile_store r (gr_tiles roots) dry_run s) (\<lambda>s report.
       case list_asset_uris r s of
         Inl e \<Rightarrow> (s, Inl (from_reaper e))
       | Inr present \<Rightarrow>
           (let dead = unreferenced_assets (gr_assets roots) present
            in case size_plan (\<lambda>uri. asset_size r uri s) dead 0 of
                 Inl e \<Rightarrow> (s, Inl e)
               | Inr bytes \<Rightarrow>
                   (let report = report\<lparr>rp_scanned := rp_scanned report + length present,
                                        rp_referenced := rp_referenced report + card (gr_assets roots),
                                        rp_deleted := rp_deleted report + length dead,
                                        rp_bytes_reclaimed := rp_bytes_reclaimed report + bytes\<rparr>
                    in if dry_run then (s, Inr report)
                       else (case remove_plan (remove_asset r) dead s of
                               (s, Some e) \<Rightarrow> (s, Inl e) | (s, None) \<Rightarrow> (s, Inr report)))))"

subsection \<open>The filesystem reaper\<close>

text \<open>
  What the calls report: the existence test and the opening of a walk at a root, the entry after which the walk stops with an
  error, and the status, the size and the removal of a path.
\<close>

record reap_faults =
  pf_exists :: "fpath \<Rightarrow> bool"
  pf_open :: "fpath \<Rightarrow> bool"
  pf_walk :: "fpath \<Rightarrow> nat option"
  pf_status :: "fpath \<Rightarrow> bool"
  pf_size :: "fpath \<Rightarrow> bool"
  pf_remove :: "fpath \<Rightarrow> bool"

record fs_reaper =
  fr_base_uri :: string
  fr_root :: fpath
  fr_asset_bases :: "(string \<times> fpath) list"

definition filesystem_asset_reaper :: "string \<Rightarrow> (string \<times> string) list \<Rightarrow> fs_reaper" where
  "filesystem_asset_reaper tiles_base_uri asset_bases =
     \<lparr>fr_base_uri = tiles_base_uri, fr_root = path_of_string (strip_file_scheme tiles_base_uri),
      fr_asset_bases = map (\<lambda>(authored, uri). (authored, path_of_string (strip_file_scheme uri))) asset_bases\<rparr>"

text \<open>The entries below a root, with their paths relative to it; the first level of them for a plain directory walk.\<close>

definition entries_below :: "fs \<Rightarrow> fpath \<Rightarrow> (string list \<times> fs_entry) list" where
  "entries_below fs rdir =
     map (\<lambda>(k, e). (drop (length (fp_elems (fs_key rdir))) (fp_elems k), e)) (filter (\<lambda>(k, e). below (fs_key rdir) k) fs)"

definition entry_path :: "fpath \<Rightarrow> string list \<Rightarrow> fpath" where
  "entry_path rdir rel = path_append rdir \<lparr>fp_abs = False, fp_elems = rel\<rparr>"

text \<open>An increment: the rest of the walk and no error, or the end of the walk and the error.\<close>

fun increment :: "'a list \<Rightarrow> nat option \<Rightarrow> 'a list \<times> nat option \<times> bool" where
  "increment it (Some 0) = ([], None, True)"
| "increment it (Some (Suc n)) = (tl it, Some n, False)"
| "increment it None = (tl it, None, False)"

lemma increment_shorter: "it \<noteq> [] \<Longrightarrow> length (fst (increment it f)) < length it"
  by (cases "(it, f)" rule: increment.cases) (auto simp: neq_Nil_conv)

function walk_loop :: "(string list \<times> fs_entry \<Rightarrow> 'o \<Rightarrow> 'o) \<Rightarrow> (string list \<times> fs_entry) list \<Rightarrow> nat option \<Rightarrow> bool \<Rightarrow> 'o \<Rightarrow> reaper_error + 'o" where
  "walk_loop visit it fault ec out =
     (if it = [] then Inr out
      else if ec then Inl EnumerateFailed
      else let out = visit (hd it) out; next_it = increment it fault
           in walk_loop visit (fst next_it) (fst (snd next_it)) (snd (snd next_it)) out)"
  by pat_completeness auto
termination
  by (relation "measure (\<lambda>(_, it, _). length it)") (simp_all add: increment_shorter)

declare walk_loop.simps [simp del]

definition visit_tile :: "reap_faults \<Rightarrow> fpath \<Rightarrow> string list \<times> fs_entry \<Rightarrow> string list \<Rightarrow> string list" where
  "visit_tile flt rdir it out =
     (if \<not> is_regular (Some (snd it)) \<or> pf_status flt (entry_path rdir (fst it)) then out
      else let name = filename (entry_path rdir (fst it))
           in if is_tile_hash name then out @ [name] else out)"

definition fr_list_tile_hashes :: "reap_faults \<Rightarrow> fs_reaper \<Rightarrow> fs \<Rightarrow> reaper_error + string list" where
  "fr_list_tile_hashes flt fr fs =
     (if pf_exists flt (fr_root fr) then Inl EnumerateFailed
      else if entry_at fs (fr_root fr) = None then Inr []
      else if pf_open flt (fr_root fr) \<or> entry_at fs (fr_root fr) \<noteq> Some Directory then Inl EnumerateFailed
      else walk_loop (visit_tile flt (fr_root fr)) (entries_below fs (fr_root fr)) (pf_walk flt (fr_root fr)) False [])"

definition tile_path :: "fs_reaper \<Rightarrow> string \<Rightarrow> fpath" where
  "tile_path fr hash = path_of_string (strip_file_scheme (tile_blob_uri (fr_base_uri fr) hash))"

definition file_size :: "reap_faults \<Rightarrow> fpath \<Rightarrow> fs \<Rightarrow> reaper_error + nat" where
  "file_size flt path fs =
     (case entry_at fs path of
        Some (Regular bytes) \<Rightarrow> if pf_size flt path then Inl EnumerateFailed else Inr (length bytes)
      | _ \<Rightarrow> Inl EnumerateFailed)"

definition fr_tile_size :: "reap_faults \<Rightarrow> fs_reaper \<Rightarrow> string \<Rightarrow> fs \<Rightarrow> reaper_error + nat" where
  "fr_tile_size flt fr hash fs = file_size flt (tile_path fr hash) fs"

definition fr_remove_tile :: "reap_faults \<Rightarrow> fs_reaper \<Rightarrow> string \<Rightarrow> fs \<Rightarrow> fs \<times> (reaper_error + bool)" where
  "fr_remove_tile flt fr hash fs =
     (let path = tile_path fr hash
      in case fs_remove (pf_remove flt path) path fs of
           (fs, Inl _) \<Rightarrow> (fs, Inl RemoveFailed)
         | (fs, Inr removed) \<Rightarrow>
             (if removed then fst (fs_remove (pf_remove flt (parent_path path)) (parent_path path) fs) else fs, Inr removed))"

fun asset_path :: "(string \<times> fpath) list \<Rightarrow> string \<Rightarrow> fpath option" where
  "asset_path [] uri = None"
| "asset_path ((authored, rdir) # bases) uri =
     (if take (length authored) uri \<noteq> authored then asset_path bases uri
      else let tail = drop (length authored) uri
           in if tail = [] then None
              else let candidate = lexically_normal (path_append rdir (path_of_string tail));
                       rel = lexically_relative candidate (lexically_normal rdir)
                   in if fp_elems rel = [] \<or> hd (fp_elems rel) = ''..'' then None else Some candidate)"

definition visit_asset :: "reap_faults \<Rightarrow> string \<Rightarrow> fpath \<Rightarrow> string list \<times> fs_entry \<Rightarrow> string list \<Rightarrow> string list" where
  "visit_asset flt authored rdir it out =
     (if \<not> is_regular (Some (snd it)) \<or> pf_status flt (entry_path rdir (fst it)) then out
      else out @ [authored @ generic_string (lexically_relative (entry_path rdir (fst it)) rdir)])"

fun list_bases :: "reap_faults \<Rightarrow> (string \<times> fpath) list \<Rightarrow> fs \<Rightarrow> string list \<Rightarrow> reaper_error + string list" where
  "list_bases flt [] fs out = Inr out"
| "list_bases flt ((authored, rdir) # bases) fs out =
     (if pf_exists flt rdir then Inl EnumerateFailed
      else if entry_at fs rdir = None then list_bases flt bases fs out
      else if pf_open flt rdir \<or> entry_at fs rdir \<noteq> Some Directory then Inl EnumerateFailed
      else bindE (walk_loop (visit_asset flt authored rdir) (entries_below fs rdir) (pf_walk flt rdir) False out)
             (list_bases flt bases fs))"

definition fr_asset_size :: "reap_faults \<Rightarrow> fs_reaper \<Rightarrow> string \<Rightarrow> fs \<Rightarrow> reaper_error + nat" where
  "fr_asset_size flt fr uri fs =
     (case asset_path (fr_asset_bases fr) uri of None \<Rightarrow> Inl EnumerateFailed | Some path \<Rightarrow> file_size flt path fs)"

definition fr_remove_asset :: "reap_faults \<Rightarrow> fs_reaper \<Rightarrow> string \<Rightarrow> fs \<Rightarrow> fs \<times> (reaper_error + bool)" where
  "fr_remove_asset flt fr uri fs =
     (case asset_path (fr_asset_bases fr) uri of
        None \<Rightarrow> (fs, Inl RemoveFailed)
      | Some path \<Rightarrow>
          (case fs_remove (pf_remove flt path) path fs of
             (fs, Inl _) \<Rightarrow> (fs, Inl RemoveFailed)
           | (fs, Inr removed) \<Rightarrow>
               (let parent = lexically_normal (parent_path path);
                    is_base = list_ex (\<lambda>(authored, rdir). lexically_normal rdir = parent) (fr_asset_bases fr)
                in (if removed \<and> \<not> is_base then fst (fs_remove (pf_remove flt parent) parent fs) else fs, Inr removed))))"

definition fs_reaper_ops :: "reap_faults \<Rightarrow> fs_reaper \<Rightarrow> fs reaper" where
  "fs_reaper_ops flt fr =
     \<lparr>list_tile_hashes = fr_list_tile_hashes flt fr, tile_size = fr_tile_size flt fr, remove_tile = fr_remove_tile flt fr,
      list_asset_uris = (\<lambda>fs. list_bases flt (fr_asset_bases fr) fs []), asset_size = fr_asset_size flt fr,
      remove_asset = fr_remove_asset flt fr\<rparr>"

subsection \<open>Collecting a project directory\<close>

definition k_tiles_base :: string where "k_tiles_base = ''assets/tiles/''"
definition k_images_base :: string where "k_images_base = ''assets/images/''"

text \<open>The body of the scan: the roots so far, or the first error of a document.\<close>

definition visit_document ::
    "(byte list \<Rightarrow> json option) \<Rightarrow> reap_faults \<Rightarrow> (fpath \<Rightarrow> bool) \<Rightarrow> fpath \<Rightarrow> string list \<times> fs_entry \<Rightarrow>
     gc_error + gc_roots \<Rightarrow> gc_error + gc_roots" where
  "visit_document parse flt read_fault dir it acc =
     bindE acc (\<lambda>referenced.
       let path = entry_path dir (fst it)
       in case snd it of
            Regular text \<Rightarrow>
              (if pf_status flt path then Inr referenced
               else if extension path \<noteq> ''.arbc'' then Inr referenced
               else if read_fault path then Inl (MarkFailed (mark_error MalformedJson (generic_string path)))
               else (case collect_referenced_assets parse text of
                       Inl e \<Rightarrow> Inl (MarkFailed e)
                     | Inr refs \<Rightarrow> Inr (referenced\<lparr>gr_tiles := gr_tiles referenced \<union> gr_tiles refs,
                                                  gr_assets := gr_assets referenced \<union> gr_assets refs\<rparr>)))
          | _ \<Rightarrow> Inr referenced)"

definition scan_documents ::
    "(byte list \<Rightarrow> json option) \<Rightarrow> reap_faults \<Rightarrow> (fpath \<Rightarrow> bool) \<Rightarrow> fpath \<Rightarrow> fs \<Rightarrow> gc_error + gc_roots" where
  "scan_documents parse flt read_fault dir fs =
     (case walk_loop (visit_document parse flt read_fault dir) (filter (\<lambda>(rel, e). length rel = 1) (entries_below fs dir))
             (pf_walk flt dir) False (Inr no_roots) of
        Inl e \<Rightarrow> Inl (MarkFailed (mark_error MalformedJson (generic_string dir)))
      | Inr res \<Rightarrow> res)"

definition project_reaper :: "fpath \<Rightarrow> fs_reaper" where
  "project_reaper dir =
     (let base_doc = generic_string (path_append dir \<lparr>fp_abs = False, fp_elems = [''project.arbc'']\<rparr>)
      in filesystem_asset_reaper (resolve_uri base_doc k_tiles_base) [(k_images_base, resolve_uri base_doc k_images_base)])"

definition gc_project_directory ::
    "(byte list \<Rightarrow> json option) \<Rightarrow> reap_faults \<Rightarrow> (fpath \<Rightarrow> bool) \<Rightarrow> fpath \<Rightarrow> bool \<Rightarrow> fs \<Rightarrow> fs \<times> (gc_error + gc_report)" where
  "gc_project_directory parse flt read_fault dir dry_run fs =
     (if pf_exists flt dir \<or> entry_at fs dir = None \<or> pf_open flt dir \<or> entry_at fs dir \<noteq> Some Directory
      then (fs, Inl (MarkFailed (mark_error MalformedJson (generic_string dir))))
      else (case scan_documents parse flt read_fault dir fs of
              Inl e \<Rightarrow> (fs, Inl e)
            | Inr referenced \<Rightarrow> sweep_asset_store (fs_reaper_ops flt (project_reaper dir)) referenced dry_run fs))"

subsection \<open>What the mark walk reaches\<close>

inductive reaches :: "json \<Rightarrow> json \<Rightarrow> bool" where
  here: "reaches n n"
| item: "(k, v) \<in> set items \<Longrightarrow> reaches v n \<Longrightarrow> reaches (Object items) n"
| element: "v \<in> set vs \<Longrightarrow> reaches v n \<Longrightarrow> reaches (Array vs) n"

inductive_simps reaches_simps: "reaches (Object items) n" "reaches (Array vs) n" "reaches (Str s) n" "reaches Scalar n"

definition param :: "json \<Rightarrow> string \<Rightarrow> json option" where
  "param n key = (case n of
     Object node \<Rightarrow> (case map_of node ''params'' of Some (Object ps) \<Rightarrow> map_of ps key | _ \<Rightarrow> None) | _ \<Rightarrow> None)"

definition body_tiles :: "json \<Rightarrow> string set" where
  "body_tiles n = (case param n ''blobs'' of Some (Array bs) \<Rightarrow> {h. Str h \<in> set bs} | _ \<Rightarrow> {})"

definition body_assets :: "json \<Rightarrow> string set" where
  "body_assets n = (case param n ''source'' of
     Some (Str s) \<Rightarrow> (if s = [] then {} else {normalize_asset_uri s}) | _ \<Rightarrow> {})"

definition blobs_well_formed :: "json \<Rightarrow> bool" where
  "blobs_well_formed n = (case param n ''blobs'' of
     None \<Rightarrow> True | Some (Array bs) \<Rightarrow> set bs \<subseteq> Str ` Collect is_tile_hash | _ \<Rightarrow> False)"

definition source_well_formed :: "json \<Rightarrow> bool" where
  "source_well_formed n = (case param n ''source'' of None \<Rightarrow> True | Some (Str s) \<Rightarrow> True | _ \<Rightarrow> False)"

definition well_formed :: "json \<Rightarrow> bool" where
  "well_formed n \<longleftrightarrow> blobs_well_formed n \<and> source_well_formed n"

definition add_roots :: "gc_roots \<Rightarrow> string set \<Rightarrow> string set \<Rightarrow> gc_roots" where
  "add_roots out t a = out\<lparr>gr_tiles := gr_tiles out \<union> t, gr_assets := gr_assets out \<union> a\<rparr>"

lemma add_roots_empty [simp]: "add_roots out {} {} = out"
  by (simp add: add_roots_def)

lemma add_roots_twice [simp]: "add_roots (add_roots out t a) t' a' = add_roots out (t \<union> t') (a \<union> a')"
  by (simp add: add_roots_def Un_assoc)

lemma harvest_blobs_iff:
  "harvest_blobs bs out = (out', None) \<longleftrightarrow>
     set bs \<subseteq> Str ` Collect is_tile_hash \<and> out' = add_roots out {h. Str h \<in> set bs} {}"
proof (induction bs arbitrary: out)
  case (Cons b bs)
  show ?case
  proof (cases b)
    case (Str h)
    have "{x. x = h \<or> Str x \<in> set bs} = insert h {h. Str h \<in> set bs}" by auto
    then have "add_roots (out\<lparr>gr_tiles := insert h (gr_tiles out)\<rparr>) {h. Str h \<in> set bs} {} = add_roots out {x. Str x \<in> set (b # bs)} {}"
      using Str by (simp add: add_roots_def)
    moreover have "set (b # bs) \<subseteq> Str ` Collect is_tile_hash \<longleftrightarrow> is_tile_hash h \<and> set bs \<subseteq> Str ` Collect is_tile_hash"
      using Str by auto
    ultimately show ?thesis using Cons.IH [of "out\<lparr>gr_tiles := insert h (gr_tiles out)\<rparr>"] Str by simp
  qed auto
qed (auto simp: add_roots_def)

text \<open>A harvest gathers a set of nodes when it ends without an error exactly if they are all well formed, with their roots.\<close>

definition gathers :: "(gc_roots \<Rightarrow> gc_roots \<times> reader_error option) \<Rightarrow> json set \<Rightarrow> bool" where
  "gathers f S \<longleftrightarrow> (\<forall>out out'. f out = (out', None) \<longleftrightarrow>
     S \<subseteq> Collect well_formed \<and> out' = add_roots out (\<Union> (body_tiles ` S)) (\<Union> (body_assets ` S)))"

lemma gathers_empty: "gathers (\<lambda>out. (out, None)) {}"
  by (auto simp: gathers_def)

lemma gathers_seq:
  assumes "gathers f S" "gathers g T"
  shows "gathers (\<lambda>out. case f out of (out, Some e) \<Rightarrow> (out, Some e) | (out, None) \<Rightarrow> g out) (S \<union> T)"
proof -
  have "(case f out of (out, Some e) \<Rightarrow> (out, Some e) | (out, None) \<Rightarrow> g out) = (out', None) \<longleftrightarrow>
      (\<exists>o1. f out = (o1, None) \<and> g o1 = (out', None))" for out out'
    by (auto split: prod.splits option.splits)
  then show ?thesis using assms unfolding gathers_def by (auto simp: image_Un)
qed

lemma harvest_source_iff:
  "harvest_source sit out = (out', None) \<longleftrightarrow>
     (\<exists>s. sit = Str s \<and> out' = add_roots out {} (if s = [] then {} else {normalize_asset_uri s}))"
  by (cases sit) (auto simp: harvest_source_def add_roots_def)

lemma harvest_params_gathers: "gathers (harvest_params node) {Object node}"
proof -
  have "harvest_params node out = (out', None) \<longleftrightarrow> well_formed (Object node) \<and>
      out' = add_roots out (body_tiles (Object node)) (body_assets (Object node))" for out out'
  proof (cases "map_of node ''params''")
    case None
    then show ?thesis
      by (auto simp: harvest_params_def well_formed_def blobs_well_formed_def source_well_formed_def body_tiles_def body_assets_def param_def)
  next
    case (Some p)
    show ?thesis
    proof (cases p)
      case (Object ps)
      have par: "param (Object node) key = map_of ps key" for key using Some Object by (simp add: param_def)
      let ?b = "\<lambda>out. case map_of ps ''blobs'' of Some (Array blobs) \<Rightarrow> harvest_blobs blobs out
               | Some _ \<Rightarrow> (out, Some (mark_error MalformedField ''/params/blobs'')) | None \<Rightarrow> (out, None)"
      let ?s = "\<lambda>out. case map_of ps ''source'' of Some sit \<Rightarrow> harvest_source sit out | None \<Rightarrow> (out, None)"
      have h: "harvest_params node out = (case ?b out of (out, Some e) \<Rightarrow> (out, Some e) | (out, None) \<Rightarrow> ?s out)"
        using Some Object unfolding harvest_params_def Let_def by (simp split: prod.split option.split)
      have 1: "?b out = (o1, None) \<longleftrightarrow> blobs_well_formed (Object node) \<and> o1 = add_roots out (body_tiles (Object node)) {}" for out o1
        by (auto simp: blobs_well_formed_def body_tiles_def par harvest_blobs_iff split: option.split json.split)
      have 2: "?s o1 = (o2, None) \<longleftrightarrow> source_well_formed (Object node) \<and> o2 = add_roots o1 {} (body_assets (Object node))" for o1 o2
        by (auto simp: source_well_formed_def body_assets_def par harvest_source_iff split: option.split json.split)
      have "harvest_params node out = (out', None) \<longleftrightarrow> (\<exists>o1. ?b out = (o1, None) \<and> ?s o1 = (out', None))"
        unfolding h by (cases "?b out"; cases "snd (?b out)") auto
      then show ?thesis unfolding 1 2 by (auto simp: well_formed_def)
    qed (auto simp: Some harvest_params_def well_formed_def blobs_well_formed_def source_well_formed_def body_tiles_def body_assets_def param_def)
  qed
  then show ?thesis unfolding gathers_def by simp
qed

lemma harvest_items_gathers:
  "\<forall>it \<in> set its. gathers (harvest_node (snd it)) (Collect (reaches (snd it))) \<Longrightarrow>
   gathers (harvest_items its) (\<Union>it \<in> set its. Collect (reaches (snd it)))"
proof (induction its)
  case (Cons it its)
  have e: "harvest_items (it # its) = (\<lambda>out. case harvest_node (snd it) out of (out, Some e) \<Rightarrow> (out, Some e) | (out, None) \<Rightarrow> harvest_items its out)"
    by (rule ext) simp
  show ?case unfolding e using gathers_seq Cons by simp
next
  case Nil
  have "harvest_items [] = (\<lambda>out. (out, None))" by (rule ext) simp
  then show ?case using gathers_empty by simp
qed

lemma harvest_elements_gathers:
  "\<forall>v \<in> set vs. gathers (harvest_node v) (Collect (reaches v)) \<Longrightarrow>
   gathers (harvest_elements vs) (\<Union>v \<in> set vs. Collect (reaches v))"
proof (induction vs)
  case (Cons v vs)
  have e: "harvest_elements (v # vs) = (\<lambda>out. case harvest_node v out of (out, Some e) \<Rightarrow> (out, Some e) | (out, None) \<Rightarrow> harvest_elements vs out)"
    by (rule ext) simp
  show ?case unfolding e using gathers_seq Cons by simp
next
  case Nil
  have "harvest_elements [] = (\<lambda>out. (out, None))" by (rule ext) simp
  then show ?case using gathers_empty by simp
qed

lemma leaf_gathers: "param n ''blobs'' = None \<Longrightarrow> param n ''source'' = None \<Longrightarrow> gathers (\<lambda>out. (out, None)) {n}"
  by (auto simp: gathers_def well_formed_def blobs_well_formed_def source_well_formed_def body_tiles_def body_assets_def)

lemma harvest_gathers: "gathers (harvest_node n) (Collect (reaches n))"
proof (induction n)
  case (Object items)
  have e: "harvest_node (Object items) = (\<lambda>out. case harvest_params items out of (out, Some e) \<Rightarrow> (out, Some e) | (out, None) \<Rightarrow> harvest_items items out)"
    by (rule ext) simp
  have "\<forall>it \<in> set items. gathers (harvest_node (snd it)) (Collect (reaches (snd it)))"
    using Object by (metis prod_set_simps(2) singletonI surjective_pairing snds.intros)
  moreover have "Collect (reaches (Object items)) = {Object items} \<union> (\<Union>it \<in> set items. Collect (reaches (snd it)))"
    by (auto simp: reaches_simps) force
  ultimately show ?case unfolding e using gathers_seq [OF harvest_params_gathers harvest_items_gathers] by simp
next
  case (Array vs)
  have e: "harvest_node (Array vs) = (\<lambda>out. case (out, None) of (out, Some e) \<Rightarrow> (out, Some e) | (out, None) \<Rightarrow> harvest_elements vs out)"
    by (rule ext) simp
  have "Collect (reaches (Array vs)) = {Array vs} \<union> (\<Union>v \<in> set vs. Collect (reaches v))"
    by (auto simp: reaches_simps)
  then show ?case unfolding e
    using gathers_seq [OF leaf_gathers [of "Array vs"] harvest_elements_gathers [of vs]] Array by (simp add: param_def)
next
  case (Str s)
  have "harvest_node (Str s) = (\<lambda>out. (out, None))" "Collect (reaches (Str s)) = {Str s}" by (auto simp: reaches_simps)
  then show ?case using leaf_gathers [of "Str s"] by (simp add: param_def)
next
  case Scalar
  have "harvest_node Scalar = (\<lambda>out. (out, None))" "Collect (reaches Scalar) = {Scalar}" by (auto simp: reaches_simps)
  then show ?case using leaf_gathers [of Scalar] by (simp add: param_def)
qed

lemma collect_iff:
  "collect_referenced_assets parse text = Inr roots \<longleftrightarrow>
     (\<exists>doc. parse text = Some doc \<and> Collect (reaches doc) \<subseteq> Collect well_formed \<and>
       gr_tiles roots = \<Union> (body_tiles ` Collect (reaches doc)) \<and> gr_assets roots = \<Union> (body_assets ` Collect (reaches doc)))"
proof (cases "parse text")
  case (Some doc)
  have "collect_referenced_assets parse text = Inr roots \<longleftrightarrow> harvest_node doc no_roots = (roots, None)"
    unfolding collect_referenced_assets_def by (simp add: Some split: prod.splits option.splits)
  also have "\<dots> \<longleftrightarrow> Collect (reaches doc) \<subseteq> Collect well_formed \<and>
      roots = add_roots no_roots (\<Union> (body_tiles ` Collect (reaches doc))) (\<Union> (body_assets ` Collect (reaches doc)))"
    using harvest_gathers [of doc] unfolding gathers_def by blast
  also have "\<dots> \<longleftrightarrow> Collect (reaches doc) \<subseteq> Collect well_formed \<and>
      gr_tiles roots = \<Union> (body_tiles ` Collect (reaches doc)) \<and> gr_assets roots = \<Union> (body_assets ` Collect (reaches doc))"
    unfolding add_roots_def no_roots_def by (cases roots) simp
  finally show ?thesis using Some by simp
qed (simp add: collect_referenced_assets_def)

text \<open>
  C32: the mark walk succeeds exactly when the text parses and every body it reaches, however deep, has well-formed
  references, and then it has marked exactly the tile names and the normalized sources of all those bodies. Otherwise it is an error,
  so that a document it cannot read in full roots nothing and lets nothing be deleted.
\<close>

theorem mark_walk_is_complete:
  "collect_referenced_assets parse text = Inr roots \<longleftrightarrow>
     (\<exists>doc. parse text = Some doc \<and> Collect (reaches doc) \<subseteq> Collect well_formed \<and>
       gr_tiles roots = \<Union> (body_tiles ` Collect (reaches doc)) \<and> gr_assets roots = \<Union> (body_assets ` Collect (reaches doc)))"
  by (rule collect_iff)

subsection \<open>The subtraction\<close>

lemma unreferenced_tiles_filter: "unreferenced_tiles referenced present = filter (\<lambda>h. h \<notin> referenced) present"
  by (induction present) simp_all

lemma unreferenced_assets_filter: "unreferenced_assets referenced present = filter (\<lambda>k. \<not> asset_rooted referenced k) present"
  by (induction present) simp_all

lemma basename_of_tail: "basename_of (x @ CHR ''/'' # y) = basename_of y"
proof -
  have r: "rev (x @ CHR ''/'' # y) = rev y @ CHR ''/'' # rev x" by simp
  show ?thesis
  proof (cases "CHR ''/'' \<in> set y")
    case True
    then have "takeWhile (\<lambda>c. c \<noteq> CHR ''/'') (rev y @ CHR ''/'' # rev x) = takeWhile (\<lambda>c. c \<noteq> CHR ''/'') (rev y)"
      by (intro takeWhile_append1 [of "CHR ''/''"]) simp_all
    then show ?thesis unfolding basename_of_def r by simp
  next
    case False
    then have a: "\<And>c. c \<in> set (rev y) \<Longrightarrow> c \<noteq> CHR ''/''" by (metis set_rev)
    have A: "takeWhile (\<lambda>c. c \<noteq> CHR ''/'') (rev y @ CHR ''/'' # rev x) = rev y"
      using takeWhile_append2 [of "rev y" "\<lambda>c. c \<noteq> CHR ''/''" "CHR ''/'' # rev x", OF a] by simp
    have B: "takeWhile (\<lambda>c. c \<noteq> CHR ''/'') (rev y) = rev y" using a by (simp only: takeWhile_eq_all_conv) blast
    show ?thesis unfolding basename_of_def r A B by (rule refl)
  qed
qed

lemma ends_with_append: "ends_with s t \<longleftrightarrow> (\<exists>x. s = x @ t)"
proof
  assume "ends_with s t"
  then have "s = take (length s - length t) s @ t" unfolding ends_with_def by (metis append_take_drop_id)
  then show "\<exists>x. s = x @ t" by blast
qed (auto simp: ends_with_def)

text \<open>The first two rules for a rooted asset are instances of the third.\<close>

lemma asset_rooted_basename: "asset_rooted referenced key \<longleftrightarrow> basename_of key \<in> basename_of ` referenced"
proof -
  have "basename_of ref = basename_of key" if "ends_with ref (CHR ''/'' # key)" for ref
    using that basename_of_tail by (auto simp: ends_with_append)
  then show ?thesis unfolding asset_rooted_def by (metis image_iff)
qed

subsection \<open>The reaper's contract\<close>

text \<open>
  What the sweep relies on. A store has blobs under tile names, blobs under asset keys and a rest that is none of its
  business. A listing gives names only, all of them when \<open>complete\<close>; sizing a blob proves it present; a removal takes exactly
  its blob or fails with \<open>RemoveFailed\<close> and takes nothing; and the named half of the store answers as before a tile is removed.
\<close>

locale reap_contract =
  fixes R :: "'s reaper"
    and inv :: "'s \<Rightarrow> bool"
    and is_uri :: "string \<Rightarrow> bool"
    and tiles :: "'s \<Rightarrow> string \<Rightarrow> 'c option"
    and assets :: "'s \<Rightarrow> string \<Rightarrow> 'c option"
    and others :: "'s \<Rightarrow> 'r"
    and complete :: bool
  assumes list_tiles: "inv s \<Longrightarrow> list_tile_hashes R s = Inr l \<Longrightarrow>
      list_all is_tile_hash l \<and> (complete \<longrightarrow> dom (tiles s) \<subseteq> set l)"
    and list_assets: "inv s \<Longrightarrow> list_asset_uris R s = Inr l \<Longrightarrow>
      list_all is_uri l \<and> (complete \<longrightarrow> dom (assets s) \<subseteq> set l)"
    and size_tile: "inv s \<Longrightarrow> is_tile_hash h \<Longrightarrow> tile_size R h s = Inr n \<Longrightarrow> h \<in> dom (tiles s)"
    and remove_tile_step: "inv s \<Longrightarrow> is_tile_hash h \<Longrightarrow> remove_tile R h s = (s', res) \<Longrightarrow>
      inv s' \<and> assets s' = assets s \<and> others s' = others s \<and>
      list_asset_uris R s' = list_asset_uris R s \<and> (\<forall>u. is_uri u \<longrightarrow> asset_size R u s' = asset_size R u s) \<and>
      tiles s' = (if isl res then tiles s else (tiles s)(h := None)) \<and> res \<noteq> Inl EnumerateFailed"
    and remove_asset_step: "inv s \<Longrightarrow> is_uri u \<Longrightarrow> remove_asset R u s = (s', res) \<Longrightarrow>
      inv s' \<and> tiles s' = tiles s \<and> others s' = others s \<and>
      assets s' = (if isl res then assets s else (assets s)(u := None)) \<and> res \<noteq> Inl EnumerateFailed"
begin

text \<open>What running a plan over a list of names leaves: some prefix of it removed, all of it when no error came back.\<close>

lemma remove_tiles:
  assumes "inv s" "list_all is_tile_hash dead" "remove_plan (remove_tile R) dead s = (s', e)"
  shows "inv s' \<and> assets s' = assets s \<and> others s' = others s \<and>
    list_asset_uris R s' = list_asset_uris R s \<and> (\<forall>u. is_uri u \<longrightarrow> asset_size R u s' = asset_size R u s) \<and>
    (\<exists>n. tiles s' = tiles s |` (- set (take n dead)) \<and> (e = None \<longrightarrow> n = length dead)) \<and>
    (e = None \<or> e = Some (GcRemoveFailed RemoveFailed))"
  using assms
proof (induction dead arbitrary: s)
  case Nil
  then show ?case by (auto intro!: exI [of _ 0])
next
  case (Cons h dead)
  obtain s1 res where r: "remove_tile R h s = (s1, res)" by (cases "remove_tile R h s")
  have h: "is_tile_hash h" "list_all is_tile_hash dead" using Cons.prems(2) by simp_all
  note step = remove_tile_step [OF Cons.prems(1) h(1) r]
  show ?case
  proof (cases res)
    case (Inl err)
    then have "s' = s1" "e = Some (from_reaper err)" "err = RemoveFailed"
      using Cons.prems(3) r step by (cases err; simp)+
    then show ?thesis using step Inl by (auto simp: from_reaper_def intro!: exI [of _ 0])
  next
    case (Inr b)
    then have "remove_plan (remove_tile R) dead s1 = (s', e)" using Cons.prems(3) r by simp
    from Cons.IH [OF _ h(2) this] step obtain n where ih:
      "inv s' \<and> assets s' = assets s1 \<and> others s' = others s1 \<and>
       list_asset_uris R s' = list_asset_uris R s1 \<and> (\<forall>u. is_uri u \<longrightarrow> asset_size R u s' = asset_size R u s1)"
      "tiles s' = tiles s1 |` (- set (take n dead))" "e = None \<longrightarrow> n = length dead"
      "e = None \<or> e = Some (GcRemoveFailed RemoveFailed)" by blast
    have "tiles s' = tiles s |` (- set (take (Suc n) (h # dead)))"
      using ih(2) step Inr by (auto simp: restrict_map_def fun_eq_iff)
    then show ?thesis using ih step by (auto intro!: exI [of _ "Suc n"])
  qed
qed

lemma remove_assets:
  assumes "inv s" "list_all is_uri dead" "remove_plan (remove_asset R) dead s = (s', e)"
  shows "inv s' \<and> tiles s' = tiles s \<and> others s' = others s \<and>
    (\<exists>n. assets s' = assets s |` (- set (take n dead)) \<and> (e = None \<longrightarrow> n = length dead)) \<and>
    (e = None \<or> e = Some (GcRemoveFailed RemoveFailed))"
  using assms
proof (induction dead arbitrary: s)
  case Nil
  then show ?case by (auto intro!: exI [of _ 0])
next
  case (Cons h dead)
  obtain s1 res where r: "remove_asset R h s = (s1, res)" by (cases "remove_asset R h s")
  have h: "is_uri h" "list_all is_uri dead" using Cons.prems(2) by simp_all
  note step = remove_asset_step [OF Cons.prems(1) h(1) r]
  show ?case
  proof (cases res)
    case (Inl err)
    then have "s' = s1" "e = Some (from_reaper err)" "err = RemoveFailed"
      using Cons.prems(3) r step by (cases err; simp)+
    then show ?thesis using step Inl by (auto simp: from_reaper_def intro!: exI [of _ 0])
  next
    case (Inr b)
    then have "remove_plan (remove_asset R) dead s1 = (s', e)" using Cons.prems(3) r by simp
    from Cons.IH [OF _ h(2) this] step obtain n where ih:
      "inv s' \<and> tiles s' = tiles s1 \<and> others s' = others s1"
      "assets s' = assets s1 |` (- set (take n dead))" "e = None \<longrightarrow> n = length dead"
      "e = None \<or> e = Some (GcRemoveFailed RemoveFailed)" by blast
    have "assets s' = assets s |` (- set (take (Suc n) (h # dead)))"
      using ih(2) step Inr by (auto simp: restrict_map_def fun_eq_iff)
    then show ?thesis using ih step by (auto intro!: exI [of _ "Suc n"])
  qed
qed

end

context reap_contract
begin

lemma dead_tiles: "list_all is_tile_hash l \<Longrightarrow> list_all is_tile_hash (unreferenced_tiles ref l)"
  by (simp add: unreferenced_tiles_filter list_all_iff)

lemma dead_assets: "list_all is_uri l \<Longrightarrow> list_all is_uri (unreferenced_assets ref l)"
  by (simp add: unreferenced_assets_filter list_all_iff)

lemma sweep_tiles:
  assumes "inv s" "sweep_tile_store R ref dry s = (s', res)"
  shows "inv s' \<and> assets s' = assets s \<and> others s' = others s \<and>
    list_asset_uris R s' = list_asset_uris R s \<and> (\<forall>u. is_uri u \<longrightarrow> asset_size R u s' = asset_size R u s) \<and>
    tiles s' \<subseteq>\<^sub>m tiles s \<and> tiles s' |` ref = tiles s |` ref \<and> (dry \<longrightarrow> s' = s) \<and>
    (\<not> dry \<and> complete \<and> \<not> isl res \<longrightarrow> tiles s' = tiles s |` ref)"
proof (cases "list_tile_hashes R s")
  case (Inl e)
  then show ?thesis using assms by (auto simp: sweep_tile_store_def)
next
  case (Inr l)
  let ?dead = "unreferenced_tiles ref l"
  note l = list_tiles [OF assms(1) Inr]
  show ?thesis
  proof (cases "size_plan (\<lambda>h. tile_size R h s) ?dead 0")
    case (Inl e)
    then show ?thesis using assms Inr by (auto simp: sweep_tile_store_def Let_def)
  next
    case (Inr bytes)
    show ?thesis
    proof (cases dry)
      case True
      then show ?thesis using assms Inr \<open>list_tile_hashes R s = Inr l\<close> by (auto simp: sweep_tile_store_def Let_def)
    next
      case False
      obtain s1 e where r: "remove_plan (remove_tile R) ?dead s = (s1, e)" by (cases "remove_plan (remove_tile R) ?dead s")
      have s': "s' = s1" "isl res = (e \<noteq> None)"
        using assms(2) False Inr r \<open>list_tile_hashes R s = Inr l\<close> by (auto simp: sweep_tile_store_def Let_def split: option.splits)
      note rt = remove_tiles [OF assms(1) dead_tiles [OF conjunct1 [OF l]] r]
      then obtain n where n: "tiles s1 = tiles s |` (- set (take n ?dead))" "e = None \<longrightarrow> n = length ?dead" by blast
      have d: "set ?dead = set l - ref" by (auto simp: unreferenced_tiles_filter)
      have sub: "set (take n ?dead) \<subseteq> set l - ref" using d set_take_subset [of n ?dead] by blast
      have "tiles s1 \<subseteq>\<^sub>m tiles s" unfolding n(1) by (auto simp: map_le_def)
      moreover have "tiles s1 |` ref = tiles s |` ref"
        unfolding n(1) restrict_restrict using sub by (intro arg_cong [of _ _ "(|`) (tiles s)"]) blast
      moreover have "tiles s1 = tiles s |` ref" if "complete" "e = None"
      proof -
        have "dom (tiles s) \<subseteq> set l" using l that by blast
        then show ?thesis unfolding n(1) using n(2) that(2) d by (auto simp: restrict_map_def fun_eq_iff)
      qed
      ultimately show ?thesis using rt s' False by simp
    qed
  qed
qed

lemma sweep_assets:
  assumes "inv s" "sweep_asset_store R roots dry s = (s', res)"
  shows "inv s' \<and> others s' = others s \<and> tiles s' \<subseteq>\<^sub>m tiles s \<and> assets s' \<subseteq>\<^sub>m assets s \<and>
    tiles s' |` gr_tiles roots = tiles s |` gr_tiles roots \<and>
    assets s' |` Collect (asset_rooted (gr_assets roots)) = assets s |` Collect (asset_rooted (gr_assets roots)) \<and>
    (dry \<longrightarrow> s' = s) \<and>
    (\<not> dry \<and> complete \<and> \<not> isl res \<longrightarrow>
       tiles s' = tiles s |` gr_tiles roots \<and> assets s' = assets s |` Collect (asset_rooted (gr_assets roots)))"
proof -
  let ?ref = "Collect (asset_rooted (gr_assets roots))"
  obtain s1 res1 where t: "sweep_tile_store R (gr_tiles roots) dry s = (s1, res1)"
    by (cases "sweep_tile_store R (gr_tiles roots) dry s")
  note st = sweep_tiles [OF assms(1) t]
  show ?thesis
  proof (cases res1)
    case (Inl e)
    then show ?thesis using st assms(2) t by (auto simp: sweep_asset_store_def)
  next
    case r1: (Inr report)
    show ?thesis
    proof (cases "list_asset_uris R s1")
      case (Inl e)
      then have "s' = s1" "isl res" using assms(2) by (auto simp: sweep_asset_store_def Let_def t r1)
      then show ?thesis using st by simp
    next
      case l: (Inr l)
      let ?dead = "unreferenced_assets (gr_assets roots) l"
      note la = list_assets [OF conjunct1 [OF st] l]
      show ?thesis
      proof (cases "size_plan (\<lambda>u. asset_size R u s1) ?dead 0")
        case (Inl e)
        then have "s' = s1" "isl res" using assms(2) by (auto simp: sweep_asset_store_def Let_def t r1 l)
        then show ?thesis using st by simp
      next
        case b: (Inr bytes)
        show ?thesis
        proof (cases dry)
          case True
          have "s' = s1" using assms(2) True t r1 by (simp add: sweep_asset_store_def Let_def l b)
          moreover have "s1 = s" using st True by blast
          ultimately show ?thesis using assms(1) True by simp
        next
          case False
          obtain s2 e where r: "remove_plan (remove_asset R) ?dead s1 = (s2, e)" by (cases "remove_plan (remove_asset R) ?dead s1")
          have s': "s' = s2" "isl res = (e \<noteq> None)"
            using assms(2) t r1 l b r False by (auto simp: sweep_asset_store_def Let_def split: option.splits)
          note ra = remove_assets [OF conjunct1 [OF st] dead_assets [OF conjunct1 [OF la]] r]
          then obtain n where n: "assets s2 = assets s1 |` (- set (take n ?dead))" "e = None \<longrightarrow> n = length ?dead" by blast
          have d: "set ?dead = set l - ?ref" by (auto simp: unreferenced_assets_filter)
          have sub: "set (take n ?dead) \<subseteq> set l - ?ref" using d set_take_subset [of n ?dead] by blast
          have a1: "assets s1 = assets s" using st by blast
          have "assets s2 \<subseteq>\<^sub>m assets s" unfolding n(1) a1 by (auto simp: map_le_def)
          moreover have "assets s2 |` ?ref = assets s |` ?ref"
            unfolding n(1) a1 restrict_restrict using sub by (intro arg_cong [of _ _ "(|`) (assets s)"]) blast
          moreover have "assets s2 = assets s |` ?ref" if "complete" "e = None"
          proof -
            have "dom (assets s) \<subseteq> set l" using la that a1 by auto
            then show ?thesis unfolding n(1) a1 using n(2) that(2) d by (auto simp: restrict_map_def fun_eq_iff)
          qed
          ultimately show ?thesis using ra st s' False r1 by simp
        qed
      qed
    qed
  qed
qed

text \<open>A preview and the run it previews.\<close>

lemma dry_tiles:
  assumes "inv s" "sweep_tile_store R ref True s = (s1, r)" "sweep_tile_store R ref False s = (s2, r')"
  shows "s1 = s \<and> (r' = r \<or> r' = Inl (GcRemoveFailed RemoveFailed)) \<and> (isl r \<longrightarrow> s2 = s)"
proof (cases "list_tile_hashes R s")
  case l: (Inr l)
  let ?dead = "unreferenced_tiles ref l"
  note dl = dead_tiles [OF conjunct1 [OF list_tiles [OF assms(1) l]]]
  show ?thesis
  proof (cases "size_plan (\<lambda>h. tile_size R h s) ?dead 0")
    case b: (Inr bytes)
    obtain s3 e where r: "remove_plan (remove_tile R) ?dead s = (s3, e)" by (cases "remove_plan (remove_tile R) ?dead s")
    have "e = None \<or> e = Some (GcRemoveFailed RemoveFailed)" using remove_tiles [OF assms(1) dl r] by blast
    then show ?thesis using assms(2,3) l b r by (auto simp: sweep_tile_store_def Let_def)
  qed (use assms(2,3) l in \<open>auto simp: sweep_tile_store_def Let_def\<close>)
qed (use assms(2,3) in \<open>auto simp: sweep_tile_store_def\<close>)

lemma size_plan_cong: "(\<forall>x \<in> set xs. f x = g x) \<Longrightarrow> size_plan f xs n = size_plan g xs n"
  by (induction xs arbitrary: n) (auto split: sum.split)

lemma dry_assets:
  assumes "inv s" "sweep_asset_store R roots True s = (s1, r)" "sweep_asset_store R roots False s = (s2, r')"
  shows "s1 = s \<and> (r' = r \<or> r' = Inl (GcRemoveFailed RemoveFailed))"
proof -
  obtain t1 u where d: "sweep_tile_store R (gr_tiles roots) True s = (t1, u)" by (cases "sweep_tile_store R (gr_tiles roots) True s")
  obtain t2 u' where w: "sweep_tile_store R (gr_tiles roots) False s = (t2, u')" by (cases "sweep_tile_store R (gr_tiles roots) False s")
  note dt = dry_tiles [OF assms(1) d w]
  note st = sweep_tiles [OF assms(1) w]
  show ?thesis
  proof (cases u')
    case (Inl e)
    then show ?thesis using dt d w assms(2,3) sweep_assets [OF assms(1,2)] by (auto simp: sweep_asset_store_def)
  next
    case (Inr report)
    then have u: "u = Inr report" "t1 = s" using dt by auto
    have la: "list_asset_uris R t2 = list_asset_uris R s" using st by blast
    show ?thesis
    proof (cases "list_asset_uris R s")
      case l: (Inr l)
      let ?dead = "unreferenced_assets (gr_assets roots) l"
      have dl: "list_all is_uri ?dead" by (rule dead_assets) (use list_assets [OF assms(1) l] in blast)
      have sz: "size_plan (\<lambda>x. asset_size R x t2) ?dead 0 = size_plan (\<lambda>x. asset_size R x s) ?dead 0"
        by (rule size_plan_cong) (use st dl in \<open>auto simp: list_all_iff\<close>)
      show ?thesis
      proof (cases "size_plan (\<lambda>x. asset_size R x s) ?dead 0")
        case b: (Inr bytes)
        obtain s3 e where r: "remove_plan (remove_asset R) ?dead t2 = (s3, e)" by (cases "remove_plan (remove_asset R) ?dead t2")
        have "e = None \<or> e = Some (GcRemoveFailed RemoveFailed)" using remove_assets [OF conjunct1 [OF st] dl r] by blast
        then show ?thesis using assms(2,3) d w u Inr la l sz b r by (auto simp: sweep_asset_store_def Let_def)
      qed (use assms(2,3) d w u Inr la l sz in \<open>auto simp: sweep_asset_store_def Let_def\<close>)
    qed (use assms(2,3) d w u Inr la in \<open>auto simp: sweep_asset_store_def\<close>)
  qed
qed

end

end
