(* ===== verification/Project_Gc.thy ===== *)
theory Project_Gc
  imports Asset_Gc
begin

text \<open>
  The collection over the file system: what its reaper lists and removes, that it meets the contract of Asset_Gc for the
  bases of a project directory, and what a collection of such a directory keeps and removes.
\<close>

subsection \<open>Walks\<close>

definition walked :: "nat option \<Rightarrow> 'a list \<Rightarrow> 'a list" where
  "walked fault it = (case fault of None \<Rightarrow> it | Some n \<Rightarrow> take (Suc n) it)"

text \<open>An error of an increment is never seen: the walk is at its end by then.\<close>

lemma walk_loop_end: "walk_loop visit [] fault ec out = Inr out"
  by (subst walk_loop.simps) simp

lemma walk_loop_Cons: "walk_loop visit (x # xs) None False out = walk_loop visit xs None False (visit x out)"
  "walk_loop visit (x # xs) (Some 0) False out = walk_loop visit [] None True (visit x out)"
  "walk_loop visit (x # xs) (Some (Suc n)) False out = walk_loop visit xs (Some n) False (visit x out)"
  by (subst walk_loop.simps, simp add: Let_def)+

lemma walk_loop_fold: "walk_loop visit it fault False out = Inr (fold visit (walked fault it) out)"
proof (induction it arbitrary: fault out)
  case (Cons x xs)
  show ?case
  proof (cases fault)
    case (Some n)
    then show ?thesis using Cons by (cases n) (simp_all add: walk_loop_Cons walk_loop_end walked_def)
  qed (use Cons in \<open>simp add: walk_loop_Cons walked_def\<close>)
qed (simp add: walk_loop_end walked_def split: option.split)

lemma set_walked: "set (walked fault it) \<subseteq> set it" "set (walked None it) = set it"
  using set_take_subset by (auto simp: walked_def split: option.splits) force

subsection \<open>The reaper of a project\<close>

definition tiles_dir :: "fpath \<Rightarrow> fpath" where
  "tiles_dir dir = dir\<lparr>fp_elems := fp_elems dir @ [''assets'', ''tiles'']\<rparr>"

definition images_dir :: "fpath \<Rightarrow> fpath" where
  "images_dir dir = dir\<lparr>fp_elems := fp_elems dir @ [''assets'', ''images'']\<rparr>"

definition blob_path :: "fpath \<Rightarrow> string \<Rightarrow> fpath" where
  "blob_path dir h = dir\<lparr>fp_elems := fp_elems dir @ [''assets'', ''tiles'', take 2 h, h]\<rparr>"

definition image_path :: "fpath \<Rightarrow> string list \<Rightarrow> fpath" where
  "image_path dir rel = dir\<lparr>fp_elems := fp_elems dir @ [''assets'', ''images''] @ rel\<rparr>"

definition proper_dir :: "fpath \<Rightarrow> bool" where
  "proper_dir dir \<longleftrightarrow> list_all proper (fp_elems dir)"

lemma proper_literals: "proper ''assets''" "proper ''tiles''" "proper ''images''" "proper ''project.arbc''"
  by (simp_all add: proper_def)

lemma hex_not: "is_hex c \<Longrightarrow> c \<noteq> CHR ''/'' \<and> c \<noteq> CHR ''.''"
  by (auto simp: is_hex_def less_eq_char_def)

lemma hash_proper:
  assumes "is_tile_hash h"
  shows "proper h" "proper (take 2 h)"
proof -
  have h: "length h = 32" "list_all is_hex h" using assms by (simp_all add: is_tile_hash_def k_tile_hash_chars_def k_tile_hash_bytes_def)
  have p: "proper s" if "s \<noteq> []" "list_all is_hex s" for s
  proof -
    have "hd s \<noteq> CHR ''.''" "CHR ''/'' \<notin> set s" using that hex_not hd_in_set [OF that(1)] by (auto simp: list_all_iff)
    then show ?thesis using that(1) by (auto simp: proper_def)
  qed
  show "proper h" by (rule p) (use h in auto)
  show "proper (take 2 h)" by (rule p) (use h in \<open>auto simp: list_all_iff dest: in_set_takeD\<close>)
qed

lemma generic_of: "generic_string p = uri_of (fp_abs p) (fp_elems p)"
  by (simp add: generic_string_def uri_of_def)

lemma without_trailing_proper: "list_all proper ns \<Longrightarrow> without_trailing ns = ns"
  by (auto simp: without_trailing_def list_all_iff proper_def dest: last_in_set)

lemma append_proper:
  "list_all proper (fp_elems p) \<Longrightarrow> q \<noteq> [] \<Longrightarrow> path_append p \<lparr>fp_abs = False, fp_elems = q\<rparr> = p\<lparr>fp_elems := fp_elems p @ q\<rparr>"
  by (simp add: path_append_def without_trailing_proper)

lemma uri_of_append: "xs \<noteq> [] \<Longrightarrow> ys \<noteq> [] \<Longrightarrow> uri_of absolute (xs @ ys) = uri_of absolute xs @ CHR ''/'' # join_segments ys"
  by (simp add: uri_of_def join_append)

lemma project_uris:
  assumes "proper_dir dir"
  shows "resolve_uri (generic_string (path_append dir \<lparr>fp_abs = False, fp_elems = [''project.arbc'']\<rparr>)) k_tiles_base = generic_string (tiles_dir dir)"
    "resolve_uri (generic_string (path_append dir \<lparr>fp_abs = False, fp_elems = [''project.arbc'']\<rparr>)) k_images_base = generic_string (images_dir dir)"
proof -
  have d: "list_all proper (fp_elems dir)" using assms by (simp add: proper_dir_def)
  have s: "CHR ''/'' \<notin> set ''project.arbc''" by simp
  have doc: "generic_string (path_append dir \<lparr>fp_abs = False, fp_elems = [''project.arbc'']\<rparr>) = uri_of (fp_abs dir) (fp_elems dir @ [''project.arbc''])"
    unfolding generic_of append_proper [OF d not_Cons_self2] by simp
  have t: "k_tiles_base = join_segments [''assets'', ''tiles''] @ ''/''" "k_images_base = join_segments [''assets'', ''images''] @ ''/''"
    by (simp_all add: k_tiles_base_def k_images_base_def)
  have p: "list_all proper [''assets'', ''tiles'']" "list_all proper [''assets'', ''images'']" using proper_literals by simp_all
  show "resolve_uri (generic_string (path_append dir \<lparr>fp_abs = False, fp_elems = [''project.arbc'']\<rparr>)) k_tiles_base = generic_string (tiles_dir dir)"
    unfolding doc t normal_uri_resolves [OF d p(1) s list.distinct(2)] by (simp add: generic_of tiles_dir_def)
  show "resolve_uri (generic_string (path_append dir \<lparr>fp_abs = False, fp_elems = [''project.arbc'']\<rparr>)) k_images_base = generic_string (images_dir dir)"
    unfolding doc t normal_uri_resolves [OF d p(2) s list.distinct(2)] by (simp add: generic_of images_dir_def)
qed

lemma proper_dirs:
  assumes "proper_dir dir"
  shows "list_all proper (fp_elems (tiles_dir dir))" "list_all proper (fp_elems (images_dir dir))"
  using assms proper_literals by (simp_all add: proper_dir_def tiles_dir_def images_dir_def)

lemma path_of_dir: "list_all proper (fp_elems p) \<Longrightarrow> path_of_string (strip_file_scheme (generic_string p)) = p"
  unfolding generic_of uri_proper_schemeless path_of_proper by (cases p) simp

lemma project_reaper_eq:
  assumes "proper_dir dir"
  shows "project_reaper dir = \<lparr>fr_base_uri = generic_string (tiles_dir dir), fr_root = tiles_dir dir,
     fr_asset_bases = [(k_images_base, images_dir dir)]\<rparr>"
  unfolding project_reaper_def Let_def project_uris [OF assms] filesystem_asset_reaper_def
  by (simp add: path_of_dir proper_dirs [OF assms])

lemma tile_path_eq:
  assumes "proper_dir dir" "is_tile_hash h"
  shows "tile_path (project_reaper dir) h = blob_path dir h"
proof -
  let ?b = "generic_string (tiles_dir dir)"
  have b: "?b = uri_of (fp_abs dir) (fp_elems dir @ [''assets'', ''tiles''])" by (simp add: generic_of tiles_dir_def)
  have "uri_of (fp_abs dir) (fp_elems dir @ [''assets'', ''tiles'']) = uri_of (fp_abs dir) (fp_elems dir @ [''assets'']) @ CHR ''/'' # ''tiles''"
    using uri_of_append [of "fp_elems dir @ [''assets'']" "[''tiles'']"] by simp
  then have "?b \<noteq> [] \<and> last ?b \<noteq> CHR ''/''" unfolding b by simp
  then have "tile_blob_uri ?b h = ?b @ CHR ''/'' # join_segments [take 2 h, h]" by (simp add: tile_blob_uri_def)
  also have "\<dots> = uri_of (fp_abs dir) ((fp_elems dir @ [''assets'', ''tiles'']) @ [take 2 h, h])"
    unfolding b using uri_of_append [of "fp_elems dir @ [''assets'', ''tiles'']" "[take 2 h, h]"] by simp
  also have "\<dots> = generic_string (blob_path dir h)" by (simp add: generic_of blob_path_def)
  finally have u: "tile_blob_uri ?b h = generic_string (blob_path dir h)" .
  have "list_all proper (fp_elems (blob_path dir h))"
    using assms(1) proper_literals hash_proper [OF assms(2)] by (simp add: blob_path_def proper_dir_def)
  then show ?thesis unfolding tile_path_def project_reaper_eq [OF assms(1)] by (simp add: u path_of_dir)
qed

definition image_key :: "string list \<Rightarrow> string" where
  "image_key rel = k_images_base @ join_segments rel"

definition is_image_key :: "string \<Rightarrow> bool" where
  "is_image_key u \<longleftrightarrow> (\<exists>rel. rel \<noteq> [] \<and> list_all proper rel \<and> u = image_key rel)"

definition key_rel :: "string \<Rightarrow> string list" where
  "key_rel u = split_segments (drop (length k_images_base) u)"

lemma key_rel_image: "rel \<noteq> [] \<Longrightarrow> list_all proper rel \<Longrightarrow> key_rel (image_key rel) = rel"
  using uri_of_split [OF proper_normal, of rel False] by (simp add: key_rel_def image_key_def uri_of_def)

lemma image_path_proper: "proper_dir dir \<Longrightarrow> list_all proper rel \<Longrightarrow> list_all proper (fp_elems (image_path dir rel))"
  using proper_literals by (simp add: image_path_def proper_dir_def)

lemma relative_image:
  assumes "rel \<noteq> []" "list_all proper rel"
  shows "lexically_relative (image_path dir rel) (images_dir dir) = \<lparr>fp_abs = False, fp_elems = rel\<rparr>"
proof -
  have "hd rel \<noteq> []" using assms hd_in_set [OF assms(1)] by (auto simp: list_all_iff proper_def)
  then have "lexically_relative \<lparr>fp_abs = fp_abs dir, fp_elems = (fp_elems dir @ [''assets'', ''images'']) @ rel\<rparr>
      \<lparr>fp_abs = fp_abs dir, fp_elems = fp_elems dir @ [''assets'', ''images'']\<rparr> = \<lparr>fp_abs = False, fp_elems = rel\<rparr>"
    by (rule lexically_relative_below [OF assms(1)])
  then show ?thesis by (cases dir) (simp add: image_path_def images_dir_def)
qed

lemma normal_proper: "list_all proper (fp_elems p) \<Longrightarrow> lexically_normal p = p"
  using lexically_normal_id [of "fp_elems p" "fp_abs p"]
  by (cases p; cases "fp_elems p = []") (simp, simp add: lexically_normal_def, simp)

lemma asset_path_eq:
  assumes "proper_dir dir" "rel \<noteq> []" "list_all proper rel"
  shows "asset_path (fr_asset_bases (project_reaper dir)) (image_key rel) = Some (image_path dir rel)"
proof -
  have p: "path_of_string (join_segments rel) = \<lparr>fp_abs = False, fp_elems = rel\<rparr>"
    using path_of_proper [OF assms(3), of False] by (simp add: uri_of_def)
  have ne: "join_segments rel \<noteq> []" using uri_of_nonempty [OF proper_normal [OF assms(3)] assms(2), of False] by (simp add: uri_of_def)
  have a: "path_append (images_dir dir) \<lparr>fp_abs = False, fp_elems = rel\<rparr> = image_path dir rel"
    unfolding append_proper [OF proper_dirs(2) [OF assms(1)] assms(2)] by (simp add: images_dir_def image_path_def)
  have h: "hd rel \<noteq> ''..''" using assms(2,3) hd_in_set [OF assms(2)] by (auto simp: list_all_iff proper_def)
  note n = normal_proper [OF image_path_proper [OF assms(1,3)]] normal_proper [OF proper_dirs(2) [OF assms(1)]]
  show ?thesis
    unfolding project_reaper_eq [OF assms(1)] fs_reaper.select_convs asset_path.simps Let_def image_key_def
    using ne h assms(2) by (simp add: p a n relative_image [OF assms(2,3)])
qed

lemma image_entry_key:
  assumes "proper_dir dir" "rel \<noteq> []" "list_all proper rel"
  shows "k_images_base @ generic_string (lexically_relative (entry_path (images_dir dir) rel) (images_dir dir)) = image_key rel"
proof -
  have "entry_path (images_dir dir) rel = image_path dir rel"
    unfolding entry_path_def append_proper [OF proper_dirs(2) [OF assms(1)] assms(2)] by (simp add: images_dir_def image_path_def)
  then show ?thesis unfolding image_key_def by (simp add: relative_image [OF assms(2,3)] generic_string_def)
qed

subsection \<open>The contract on the file system\<close>

definition tiles_of :: "fpath \<Rightarrow> fs \<Rightarrow> string \<Rightarrow> byte list option" where
  "tiles_of dir fs h = (if is_tile_hash h then regular_at fs (blob_path dir h) else None)"

definition images_of :: "fpath \<Rightarrow> fs \<Rightarrow> string \<Rightarrow> byte list option" where
  "images_of dir fs u = (if is_image_key u then regular_at fs (image_path dir (key_rel u)) else None)"

definition in_stores :: "fpath \<Rightarrow> fpath \<Rightarrow> bool" where
  "in_stores dir p \<longleftrightarrow> below (tiles_dir dir) (fs_key p) \<or> below (images_dir dir) (fs_key p)"

definition others_of :: "fpath \<Rightarrow> fs \<Rightarrow> fpath \<Rightarrow> byte list option" where
  "others_of dir fs p = (if in_stores dir p then None else regular_at fs p)"

definition walks_complete :: "reap_faults \<Rightarrow> fpath \<Rightarrow> bool" where
  "walks_complete flt dir \<longleftrightarrow> pf_walk flt (tiles_dir dir) = None \<and> pf_walk flt (images_dir dir) = None \<and> (\<forall>p. \<not> pf_status flt p)"

lemma fold_append:
  assumes "\<And>x out. visit x out = out @ g x"
  shows "fold visit its out = out @ concat (map g its)"
  by (induction its arbitrary: out) (simp_all add: assms)

lemma ancestor:
  assumes "fs_ok fs" "map_of fs k = Some e" "below r k"
  shows "entry_at fs r = Some Directory"
proof -
  have "map_of fs k = Some e \<Longrightarrow> fp_abs k = fp_abs r \<Longrightarrow> fp_elems k = fp_elems r @ x # xs \<Longrightarrow> entry_at fs r = Some Directory" for x xs
  proof (induction xs arbitrary: k e rule: rev_induct)
    case Nil
    then have "parent_path k = r" by (cases k; cases r) (simp add: parent_path_def)
    then show ?case using fs_okD(3) [OF assms(1) Nil(1)] by simp
  next
    case (snoc y xs)
    have p: "fp_elems (parent_path k) = fp_elems r @ x # xs" using snoc.prems(3) by (simp add: parent_path_def butlast_append)
    have "entry_at fs (parent_path k) = map_of fs (parent_path k)"
      using entry_at_proper [OF parent_proper [OF fs_okD(2) [OF assms(1) snoc.prems(1)]], of fs] p by simp
    then have "map_of fs (parent_path k) = Some Directory" using fs_okD(3) [OF assms(1) snoc.prems(1)] by simp
    from snoc.IH [OF this _ p] show ?case using snoc.prems(2) by (simp add: parent_path_def)
  qed
  moreover have "fp_elems k = fp_elems r @ drop (length (fp_elems r)) (fp_elems k)" "drop (length (fp_elems r)) (fp_elems k) \<noteq> []"
    using assms(3) unfolding below_def by (metis append_take_drop_id, simp)
  moreover have "fp_abs k = fp_abs r" using assms(3) by (simp add: below_def)
  ultimately show ?thesis using assms(2) by (metis neq_Nil_conv)
qed

lemma entries_below_in:
  assumes "list_all proper (fp_elems r)"
  shows "(rel, e) \<in> set (entries_below fs r) \<longleftrightarrow> rel \<noteq> [] \<and> (r\<lparr>fp_elems := fp_elems r @ rel\<rparr>, e) \<in> set fs"
proof -
  note k = fs_key_proper [OF assms]
  have "below r k' \<and> drop (length (fp_elems r)) (fp_elems k') = rel \<longleftrightarrow> rel \<noteq> [] \<and> k' = r\<lparr>fp_elems := fp_elems r @ rel\<rparr>" for k'
  proof
    assume b: "below r k' \<and> drop (length (fp_elems r)) (fp_elems k') = rel"
    then have "fp_elems k' = fp_elems r @ rel" unfolding below_def by (metis append_take_drop_id)
    then show "rel \<noteq> [] \<and> k' = r\<lparr>fp_elems := fp_elems r @ rel\<rparr>" using b by (cases k'; cases r) (auto simp: below_def)
  qed (auto simp: below_def)
  moreover have "(rel, e) \<in> set (entries_below fs r) \<longleftrightarrow> (\<exists>k'. (k', e) \<in> set fs \<and> below r k' \<and> drop (length (fp_elems r)) (fp_elems k') = rel)"
    unfolding entries_below_def k by force
  ultimately show ?thesis by metis
qed

lemma entries_below_delete:
  assumes "list_all proper (fp_elems r)" "\<not> below r k"
  shows "entries_below (AList.delete k fs) r = entries_below fs r"
proof -
  have "filter (\<lambda>(k', e). below r k') (AList.delete k fs) = filter (\<lambda>(k', e). below r k') fs"
    using assms(2) unfolding AList.delete_eq filter_filter by (intro filter_cong) auto
  then show ?thesis unfolding entries_below_def fs_key_proper [OF assms(1)] by simp
qed

lemma visit_tile_append: "visit_tile flt r it out = out @ visit_tile flt r it []"
  by (simp add: visit_tile_def Let_def)

lemma visit_asset_append: "visit_asset flt a r it out = out @ visit_asset flt a r it []"
  by (simp add: visit_asset_def)

lemma blob_path_proper: "proper_dir dir \<Longrightarrow> is_tile_hash h \<Longrightarrow> list_all proper (fp_elems (blob_path dir h))"
  using hash_proper [of h] proper_literals by (simp add: blob_path_def proper_dir_def)

lemma regular_at_proper:
  "list_all proper (fp_elems k) \<Longrightarrow> fp_elems k \<noteq> [] \<Longrightarrow> regular_at fs k = Some b \<longleftrightarrow> map_of fs k = Some (Regular b)"
  by (simp add: regular_at_def entry_at_proper split: option.split fs_entry.split)

lemma project_list_tiles:
  assumes "fs_ok fs" "proper_dir dir" "fr_list_tile_hashes flt (project_reaper dir) fs = Inr l"
  shows "list_all is_tile_hash l \<and> (walks_complete flt dir \<longrightarrow> dom (tiles_of dir fs) \<subseteq> set l)"
proof (cases "entry_at fs (tiles_dir dir) = None")
  case True
  have "tiles_of dir fs h = None" for h
  proof (rule ccontr)
    assume "tiles_of dir fs h \<noteq> None"
    then obtain b where b: "is_tile_hash h" "regular_at fs (blob_path dir h) = Some b" by (auto simp: tiles_of_def split: if_splits)
    have "map_of fs (blob_path dir h) = Some (Regular b)"
      using b regular_at_proper [OF blob_path_proper [OF assms(2) b(1)]] by (simp add: blob_path_def)
    moreover have "below (tiles_dir dir) (blob_path dir h)" by (simp add: below_def tiles_dir_def blob_path_def)
    ultimately show False using ancestor [OF assms(1)] True by fastforce
  qed
  then show ?thesis using assms(3) True by (auto simp: fr_list_tile_hashes_def project_reaper_eq [OF assms(2)] split: if_splits)
next
  case False
  let ?r = "tiles_dir dir" let ?its = "walked (pf_walk flt (tiles_dir dir)) (entries_below fs (tiles_dir dir))"
  have l: "l = concat (map (\<lambda>it. visit_tile flt ?r it []) ?its)"
    using assms(3) False fold_append [of "visit_tile flt ?r", OF visit_tile_append]
    by (auto simp: fr_list_tile_hashes_def project_reaper_eq [OF assms(2)] walk_loop_fold split: if_splits)
  have "list_all is_tile_hash l" unfolding l by (auto simp: list_all_iff visit_tile_def Let_def split: if_splits)
  moreover have "h \<in> set l" if c: "walks_complete flt dir" and h: "tiles_of dir fs h = Some b" for h b
  proof -
    have b: "is_tile_hash h" "regular_at fs (blob_path dir h) = Some b" using h by (auto simp: tiles_of_def split: if_splits)
    have "map_of fs (blob_path dir h) = Some (Regular b)"
      using b regular_at_proper [OF blob_path_proper [OF assms(2) b(1)]] by (simp add: blob_path_def)
    then have "(blob_path dir h, Regular b) \<in> set fs" by (rule map_of_SomeD)
    then have "(?r\<lparr>fp_elems := fp_elems ?r @ [take 2 h, h]\<rparr>, Regular b) \<in> set fs" by (simp add: blob_path_def tiles_dir_def)
    then have "([take 2 h, h], Regular b) \<in> set ?its"
      using c entries_below_in [OF proper_dirs(1) [OF assms(2)]] by (simp add: walks_complete_def set_walked)
    moreover have "visit_tile flt ?r ([take 2 h, h], Regular b) [] = [h]"
      using c b(1) append_proper [OF proper_dirs(1) [OF assms(2)], of "[take 2 h, h]"]
      by (simp add: visit_tile_def Let_def is_regular_def walks_complete_def entry_path_def filename_def)
    ultimately show ?thesis unfolding l by force
  qed
  ultimately show ?thesis by blast
qed

lemma project_list_assets:
  assumes "fs_ok fs" "proper_dir dir" "list_bases flt (fr_asset_bases (project_reaper dir)) fs [] = Inr l"
  shows "list_all is_image_key l \<and> (walks_complete flt dir \<longrightarrow> dom (images_of dir fs) \<subseteq> set l)"
proof (cases "entry_at fs (images_dir dir) = None")
  case True
  have "images_of dir fs u = None" for u
  proof (rule ccontr)
    assume "images_of dir fs u \<noteq> None"
    then obtain b where b: "is_image_key u" "regular_at fs (image_path dir (key_rel u)) = Some b" by (auto simp: images_of_def split: if_splits)
    obtain rel where rel: "rel \<noteq> []" "list_all proper rel" "u = image_key rel" using b(1) unfolding is_image_key_def by blast
    have "map_of fs (image_path dir rel) = Some (Regular b)"
      using b(2) rel key_rel_image regular_at_proper [OF image_path_proper [OF assms(2) rel(2)]] by (simp add: image_path_def)
    moreover have "below (images_dir dir) (image_path dir rel)" using rel(1) by (simp add: below_def images_dir_def image_path_def)
    ultimately show False using ancestor [OF assms(1)] True by fastforce
  qed
  then show ?thesis using assms(3) True by (auto simp: project_reaper_eq [OF assms(2)] split: if_splits)
next
  case False
  let ?r = "images_dir dir" let ?its = "walked (pf_walk flt (images_dir dir)) (entries_below fs (images_dir dir))"
  have l: "l = concat (map (\<lambda>it. visit_asset flt k_images_base ?r it []) ?its)"
    using assms(3) False fold_append [of "visit_asset flt k_images_base ?r", OF visit_asset_append]
    by (auto simp: project_reaper_eq [OF assms(2)] walk_loop_fold split: if_splits)
  have proper_rel: "rel \<noteq> [] \<and> list_all proper rel" if "(rel, e) \<in> set (entries_below fs ?r)" for rel e
  proof -
    have r: "rel \<noteq> []" "(?r\<lparr>fp_elems := fp_elems ?r @ rel\<rparr>, e) \<in> set fs"
      using that entries_below_in [OF proper_dirs(2) [OF assms(2)]] by blast+
    then have "map_of fs (?r\<lparr>fp_elems := fp_elems ?r @ rel\<rparr>) = Some e" using assms(1) by (simp add: fs_ok_def)
    then show ?thesis using r(1) fs_okD(2) [OF assms(1)] by fastforce
  qed
  have v: "visit_asset flt k_images_base ?r (rel, Regular b) [] = (if pf_status flt (entry_path ?r rel) then [] else [image_key rel])"
    if "rel \<noteq> []" "list_all proper rel" for rel b
    using image_entry_key [OF assms(2) that] by (simp add: visit_asset_def is_regular_def)
  have "list_all is_image_key l"
  proof -
    have "is_image_key u" if it: "(rel, e) \<in> set ?its" "u \<in> set (visit_asset flt k_images_base ?r (rel, e) [])" for rel e u
    proof -
      obtain b where "e = Regular b" using it(2) by (cases e) (auto simp: visit_asset_def is_regular_def)
      moreover have "rel \<noteq> [] \<and> list_all proper rel" by (rule proper_rel [OF subsetD [OF set_walked(1) it(1)]])
      ultimately show ?thesis using v it(2) unfolding is_image_key_def by (auto split: if_splits)
    qed
    then show ?thesis unfolding l by (simp add: list_all_iff) (metis surj_pair)
  qed
  moreover have "u \<in> set l" if c: "walks_complete flt dir" and u: "images_of dir fs u = Some b" for u b
  proof -
    have b: "is_image_key u" "regular_at fs (image_path dir (key_rel u)) = Some b" using u by (auto simp: images_of_def split: if_splits)
    obtain rel where rel: "rel \<noteq> []" "list_all proper rel" "u = image_key rel" using b(1) unfolding is_image_key_def by blast
    have "map_of fs (image_path dir rel) = Some (Regular b)"
      using b(2) rel key_rel_image regular_at_proper [OF image_path_proper [OF assms(2) rel(2)]] by (simp add: image_path_def)
    then have "(image_path dir rel, Regular b) \<in> set fs" by (rule map_of_SomeD)
    then have "(?r\<lparr>fp_elems := fp_elems ?r @ rel\<rparr>, Regular b) \<in> set fs" by (simp add: image_path_def images_dir_def)
    then have "(rel, Regular b) \<in> set ?its"
      using c rel(1) entries_below_in [OF proper_dirs(2) [OF assms(2)]] by (simp add: walks_complete_def set_walked)
    moreover have "visit_asset flt k_images_base ?r (rel, Regular b) [] = [u]"
      using v [OF rel(1,2)] c rel(3) by (simp add: walks_complete_def)
    ultimately show ?thesis unfolding l by force
  qed
  ultimately show ?thesis by blast
qed

subsection \<open>What a removal touches\<close>

lemma blob_path_inj: "is_tile_hash h \<Longrightarrow> is_tile_hash h' \<Longrightarrow> blob_path dir h = blob_path dir h' \<longleftrightarrow> h = h'"
  by (cases dir) (auto simp: blob_path_def)

lemma image_path_inj: "image_path dir rel = image_path dir rel' \<longleftrightarrow> rel = rel'"
  by (cases dir) (simp add: image_path_def)

lemma blob_not_image: "blob_path dir h \<noteq> image_path dir rel"
  by (cases dir) (simp add: blob_path_def image_path_def)

lemma below_tiles: "below (tiles_dir dir) (blob_path dir h)" "\<not> below (images_dir dir) (blob_path dir h)"
  "\<not> below (images_dir dir) (parent_path (blob_path dir h))"
  by (simp_all add: below_def tiles_dir_def images_dir_def blob_path_def parent_path_def butlast_append)

lemma below_images: "rel \<noteq> [] \<Longrightarrow> below (images_dir dir) (image_path dir rel)"
  by (simp add: below_def images_dir_def image_path_def)

lemma views_of_regular:
  assumes "\<And>q. regular_at fs' q = (if b \<and> fs_key q = p then None else regular_at fs q)" "proper_dir dir"
  shows "is_tile_hash h \<Longrightarrow> p = blob_path dir h \<Longrightarrow>
      tiles_of dir fs' = (if b then (tiles_of dir fs)(h := None) else tiles_of dir fs) \<and> images_of dir fs' = images_of dir fs \<and> others_of dir fs' = others_of dir fs"
    "rel \<noteq> [] \<Longrightarrow> list_all proper rel \<Longrightarrow> p = image_path dir rel \<Longrightarrow>
      images_of dir fs' = (if b then (images_of dir fs)(image_key rel := None) else images_of dir fs) \<and> tiles_of dir fs' = tiles_of dir fs \<and> others_of dir fs' = others_of dir fs"
proof -
  have tk: "fs_key (blob_path dir h) = blob_path dir h" if "is_tile_hash h" for h
    by (rule fs_key_proper [OF blob_path_proper [OF assms(2) that]])
  have ik: "fs_key (image_path dir rel) = image_path dir rel" if "list_all proper rel" for rel
    by (rule fs_key_proper [OF image_path_proper [OF assms(2) that]])
  have ku: "\<exists>rel. rel \<noteq> [] \<and> list_all proper rel \<and> u = image_key rel \<and> key_rel u = rel" if "is_image_key u" for u
    using that key_rel_image unfolding is_image_key_def by blast
  {
    assume h: "is_tile_hash h" "p = blob_path dir h"
    have "tiles_of dir fs' x = (if b then (tiles_of dir fs)(h := None) else tiles_of dir fs) x" for x
      using assms(1) h tk blob_path_inj by (simp add: tiles_of_def)
    moreover have "images_of dir fs' x = images_of dir fs x" for x
      using assms(1) h ku [of x] ik blob_not_image [THEN not_sym] by (auto simp: images_of_def)
    moreover have "others_of dir fs' x = others_of dir fs x" for x
      using assms(1) h below_tiles(1) by (auto simp: others_of_def in_stores_def)
    ultimately show "tiles_of dir fs' = (if b then (tiles_of dir fs)(h := None) else tiles_of dir fs) \<and> images_of dir fs' = images_of dir fs \<and> others_of dir fs' = others_of dir fs"
      by blast
  next
    assume h: "rel \<noteq> []" "list_all proper rel" "p = image_path dir rel"
    have "images_of dir fs' x = (if b then (images_of dir fs)(image_key rel := None) else images_of dir fs) x" for x
    proof (cases "is_image_key x")
      case True
      then obtain r where r: "r \<noteq> []" "list_all proper r" "x = image_key r" "key_rel x = r" using ku by blast
      have "image_key r = image_key rel \<longleftrightarrow> r = rel" using r(1,2) h(1,2) key_rel_image by metis
      then show ?thesis using assms(1) h r ik image_path_inj by (simp add: images_of_def)
    next
      case False
      moreover have "is_image_key (image_key rel)" using h unfolding is_image_key_def by blast
      ultimately show ?thesis by (auto simp: images_of_def)
    qed
    moreover have "tiles_of dir fs' x = tiles_of dir fs x" for x
      using assms(1) h tk blob_not_image by (auto simp: tiles_of_def)
    moreover have "others_of dir fs' x = others_of dir fs x" for x
      using assms(1) h below_images [OF h(1)] by (auto simp: others_of_def in_stores_def)
    ultimately show "images_of dir fs' = (if b then (images_of dir fs)(image_key rel := None) else images_of dir fs) \<and> tiles_of dir fs' = tiles_of dir fs \<and> others_of dir fs' = others_of dir fs"
      by blast
  }
qed

lemma prefix_not_image: "image_path dir rel \<noteq> parent_path (blob_path dir h)"
  by (cases dir) (simp add: image_path_def blob_path_def parent_path_def butlast_append)

lemma list_bases_none: "list_bases flt [] fs = Inr"
  by (rule ext) simp

lemma project_remove_tile:
  assumes "fs_ok fs" "proper_dir dir" "is_tile_hash h" "fr_remove_tile flt (project_reaper dir) h fs = (fs', res)"
  shows "fs_ok fs' \<and> (tiles_of dir fs' = (if isl res then tiles_of dir fs else (tiles_of dir fs)(h := None)) \<and>
      images_of dir fs' = images_of dir fs \<and> others_of dir fs' = others_of dir fs) \<and>
    (\<forall>q. fs_key q \<noteq> blob_path dir h \<and> fs_key q \<noteq> parent_path (blob_path dir h) \<longrightarrow> entry_at fs' q = entry_at fs q) \<and>
    entries_below fs' (images_dir dir) = entries_below fs (images_dir dir) \<and> (isl res \<longrightarrow> res = Inl RemoveFailed \<and> fs' = fs)"
proof -
  let ?p = "blob_path dir h"
  note pp = blob_path_proper [OF assms(2,3)]
  note k = fs_key_proper [OF pp] and kp = fs_key_proper [OF parent_proper [OF pp]]
  note di = proper_dirs(2) [OF assms(2)]
  obtain fs1 r where r: "fs_remove (pf_remove flt ?p) ?p fs = (fs1, r)" by (cases "fs_remove (pf_remove flt ?p) ?p fs")
  note st = fs_remove_step [OF assms(1) r, unfolded k]
  have e1: "entries_below fs1 (images_dir dir) = entries_below fs (images_dir dir)"
    using st(3) entries_below_delete [OF di below_tiles(2)] by auto
  have def: "(fs', res) = (case r of Inl _ \<Rightarrow> (fs1, Inl RemoveFailed) | Inr removed \<Rightarrow>
      (if removed then fst (fs_remove (pf_remove flt (parent_path ?p)) (parent_path ?p) fs1) else fs1, Inr removed))"
    using assms(4) r unfolding fr_remove_tile_def tile_path_eq [OF assms(2,3)] Let_def by (cases r) simp_all
  show ?thesis
  proof (cases "r = Inr True")
    case True
    obtain fs2 r2 where r2: "fs_remove (pf_remove flt (parent_path ?p)) (parent_path ?p) fs1 = (fs2, r2)"
      by (cases "fs_remove (pf_remove flt (parent_path ?p)) (parent_path ?p) fs1")
    note pr = prune_step [OF assms(1) r [unfolded True] pp r2]
    have f: "fs' = fs2" "res = Inr True" using def True r2 by simp_all
    have "regular_at fs2 q = (if True \<and> fs_key q = ?p then None else regular_at fs q)" for q
      using pr(2) [of q] st(2) [of q] True by simp
    note v = views_of_regular(1) [OF this assms(2,3) refl]
    have "entry_at fs2 q = entry_at fs q" if "fs_key q \<noteq> ?p" "fs_key q \<noteq> parent_path ?p" for q
      using fs_remove_step(4) [OF fs_remove_step(1) [OF assms(1) r] r2, of q] st(4) [of q] that kp by simp
    moreover have "entries_below fs2 (images_dir dir) = entries_below fs (images_dir dir)"
      using pr(3) e1 entries_below_delete [OF di below_tiles(3)] by auto
    ultimately show ?thesis using pr(1) v f by simp
  next
    case False
    then have f: "fs' = fs1" "isl res \<longleftrightarrow> r = Inl ()" "isl res \<longrightarrow> res = Inl RemoveFailed" using def by (cases r; auto)+
    have "regular_at fs1 q = (if r \<noteq> Inl () \<and> fs_key q = ?p then None else regular_at fs q)" for q
      using st(2) [of q] by simp
    note v = views_of_regular(1) [OF this assms(2,3) refl]
    have "isl res \<longrightarrow> fs1 = fs" using r f(2) by (auto elim: fs_remove_cases)
    then show ?thesis using st(1,4) v f e1 by simp
  qed
qed

lemma project_remove_asset:
  assumes "fs_ok fs" "proper_dir dir" "rel \<noteq> []" "list_all proper rel"
    "fr_remove_asset flt (project_reaper dir) (image_key rel) fs = (fs', res)"
  shows "fs_ok fs' \<and> (images_of dir fs' = (if isl res then images_of dir fs else (images_of dir fs)(image_key rel := None)) \<and>
      tiles_of dir fs' = tiles_of dir fs \<and> others_of dir fs' = others_of dir fs) \<and> (isl res \<longrightarrow> res = Inl RemoveFailed \<and> fs' = fs)"
proof -
  let ?p = "image_path dir rel"
  note pp = image_path_proper [OF assms(2,4)]
  note k = fs_key_proper [OF pp]
  note np = normal_proper [OF parent_proper [OF pp]]
  obtain fs1 r where r: "fs_remove (pf_remove flt ?p) ?p fs = (fs1, r)" by (cases "fs_remove (pf_remove flt ?p) ?p fs")
  note st = fs_remove_step [OF assms(1) r, unfolded k]
  obtain is_base where def: "(fs', res) = (case r of Inl _ \<Rightarrow> (fs1, Inl RemoveFailed) | Inr removed \<Rightarrow>
      (if removed \<and> \<not> is_base then fst (fs_remove (pf_remove flt (parent_path ?p)) (parent_path ?p) fs1) else fs1, Inr removed))"
    using assms(5) r unfolding fr_remove_asset_def asset_path_eq [OF assms(2-4)] by (cases r) (auto simp: Let_def np)
  show ?thesis
  proof (cases "r = Inr True \<and> \<not> is_base")
    case True
    obtain fs2 r2 where r2: "fs_remove (pf_remove flt (parent_path ?p)) (parent_path ?p) fs1 = (fs2, r2)"
      by (cases "fs_remove (pf_remove flt (parent_path ?p)) (parent_path ?p) fs1")
    note pr = prune_step [OF assms(1) r [unfolded conjunct1 [OF True]] pp r2]
    have f: "fs' = fs2" "res = Inr True" using def True r2 by simp_all
    have "regular_at fs2 q = (if True \<and> fs_key q = ?p then None else regular_at fs q)" for q
      using pr(2) [of q] st(2) [of q] True by simp
    note v = views_of_regular(2) [OF this assms(2-4) refl]
    then show ?thesis using pr(1) f by simp
  next
    case False
    then have f: "fs' = fs1" "isl res \<longleftrightarrow> r = Inl ()" "isl res \<longrightarrow> res = Inl RemoveFailed"
      using def by (cases r; auto split: if_splits)+
    have "regular_at fs1 q = (if r \<noteq> Inl () \<and> fs_key q = ?p then None else regular_at fs q)" for q
      using st(2) [of q] by simp
    note v = views_of_regular(2) [OF this assms(2-4) refl]
    have "isl res \<longrightarrow> fs1 = fs" using r f(2) by (auto elim: fs_remove_cases)
    then show ?thesis using st(1) v f by simp
  qed
qed

interpretation project: reap_contract "fs_reaper_ops flt (project_reaper dir)" "\<lambda>fs. fs_ok fs \<and> proper_dir dir"
    is_image_key "tiles_of dir" "images_of dir" "others_of dir" "walks_complete flt dir"
  for flt dir
proof unfold_locales
  fix s l
  assume s: "fs_ok s \<and> proper_dir dir"
  show "list_tile_hashes (fs_reaper_ops flt (project_reaper dir)) s = Inr l \<Longrightarrow>
      list_all is_tile_hash l \<and> (walks_complete flt dir \<longrightarrow> dom (tiles_of dir s) \<subseteq> set l)"
    using project_list_tiles [OF conjunct1 [OF s] conjunct2 [OF s]] by (simp add: fs_reaper_ops_def)
  show "list_asset_uris (fs_reaper_ops flt (project_reaper dir)) s = Inr l \<Longrightarrow>
      list_all is_image_key l \<and> (walks_complete flt dir \<longrightarrow> dom (images_of dir s) \<subseteq> set l)"
    using project_list_assets [OF conjunct1 [OF s] conjunct2 [OF s]] by (simp add: fs_reaper_ops_def)
next
  fix s h n
  assume a: "fs_ok s \<and> proper_dir dir" "is_tile_hash h" "tile_size (fs_reaper_ops flt (project_reaper dir)) h s = Inr n"
  then show "h \<in> dom (tiles_of dir s)"
    by (auto simp: fs_reaper_ops_def fr_tile_size_def file_size_def tile_path_eq tiles_of_def regular_at_def split: option.splits fs_entry.splits)
next
  fix s h s' res
  assume a: "fs_ok s \<and> proper_dir dir" "is_tile_hash h" "remove_tile (fs_reaper_ops flt (project_reaper dir)) h s = (s', res)"
  then have rm: "fr_remove_tile flt (project_reaper dir) h s = (s', res)" by (simp add: fs_reaper_ops_def)
  note step = project_remove_tile [OF conjunct1 [OF a(1)] conjunct2 [OF a(1)] a(2) rm]
  have d: "proper_dir dir" using a(1) by blast
  have at: "entry_at s' q = entry_at s q" if "fs_key q \<noteq> blob_path dir h" "fs_key q \<noteq> parent_path (blob_path dir h)" for q
    using step that by blast
  have "fs_key (images_dir dir) = images_dir dir" by (rule fs_key_proper [OF proper_dirs(2) [OF d]])
  then have "entry_at s' (images_dir dir) = entry_at s (images_dir dir)"
    by (intro at) (cases dir; simp add: images_dir_def blob_path_def parent_path_def butlast_append)+
  then have "list_bases flt (fr_asset_bases (project_reaper dir)) s' [] = list_bases flt (fr_asset_bases (project_reaper dir)) s []"
    using step by (simp add: project_reaper_eq [OF d] list_bases_none del: list_bases.simps(1))
  moreover have "fr_asset_size flt (project_reaper dir) u s' = fr_asset_size flt (project_reaper dir) u s" if key: "is_image_key u" for u
  proof -
    obtain rel where rel: "rel \<noteq> []" "list_all proper rel" "u = image_key rel" using key unfolding is_image_key_def by blast
    have k: "fs_key (image_path dir rel) = image_path dir rel" by (rule fs_key_proper [OF image_path_proper [OF d rel(2)]])
    have "fs_key (image_path dir rel) \<noteq> blob_path dir h" unfolding k by (rule not_sym [OF blob_not_image])
    moreover have "fs_key (image_path dir rel) \<noteq> parent_path (blob_path dir h)" unfolding k by (rule prefix_not_image)
    ultimately have "entry_at s' (image_path dir rel) = entry_at s (image_path dir rel)" by (rule at)
    then show ?thesis by (simp add: fr_asset_size_def rel(3) asset_path_eq [OF d rel(1,2)] file_size_def)
  qed
  moreover have "isl res \<longrightarrow> res = Inl RemoveFailed" using step by blast
  then have "res \<noteq> Inl EnumerateFailed" by (cases res) simp_all
  ultimately show "(fs_ok s' \<and> proper_dir dir) \<and> images_of dir s' = images_of dir s \<and> others_of dir s' = others_of dir s \<and>
      list_asset_uris (fs_reaper_ops flt (project_reaper dir)) s' = list_asset_uris (fs_reaper_ops flt (project_reaper dir)) s \<and>
      (\<forall>u. is_image_key u \<longrightarrow> asset_size (fs_reaper_ops flt (project_reaper dir)) u s' = asset_size (fs_reaper_ops flt (project_reaper dir)) u s) \<and>
      tiles_of dir s' = (if isl res then tiles_of dir s else (tiles_of dir s)(h := None)) \<and> res \<noteq> Inl EnumerateFailed"
    using step d by (simp add: fs_reaper_ops_def)
next
  fix s u s' res
  assume a: "fs_ok s \<and> proper_dir dir" "is_image_key u" "remove_asset (fs_reaper_ops flt (project_reaper dir)) u s = (s', res)"
  obtain rel where rel: "rel \<noteq> []" "list_all proper rel" "u = image_key rel" using a(2) unfolding is_image_key_def by blast
  have rm: "fr_remove_asset flt (project_reaper dir) (image_key rel) s = (s', res)" using a(3) rel(3) by (simp add: fs_reaper_ops_def)
  note step = project_remove_asset [OF conjunct1 [OF a(1)] conjunct2 [OF a(1)] rel(1,2) rm]
  have "res \<noteq> Inl EnumerateFailed" using step by auto
  then show "(fs_ok s' \<and> proper_dir dir) \<and> tiles_of dir s' = tiles_of dir s \<and> others_of dir s' = others_of dir s \<and>
      images_of dir s' = (if isl res then images_of dir s else (images_of dir s)(u := None)) \<and> res \<noteq> Inl EnumerateFailed"
    using step a(1) rel(3) by simp
qed

subsection \<open>An example project\<close>

definition no_faults :: reap_faults where
  "no_faults = \<lparr>pf_exists = \<lambda>p. False, pf_open = \<lambda>p. False, pf_walk = \<lambda>p. None, pf_status = \<lambda>p. False,
     pf_size = \<lambda>p. False, pf_remove = \<lambda>p. False\<rparr>"

definition project_dir :: fpath where "project_dir = \<lparr>fp_abs = True, fp_elems = [''p'']\<rparr>"

definition live_hash :: string where "live_hash = replicate 32 (CHR ''a'')"
definition dead_hash :: string where "dead_hash = replicate 32 (CHR ''b'')"

abbreviation at_root :: "string list \<Rightarrow> fpath" where "at_root ns \<equiv> \<lparr>fp_abs = True, fp_elems = ns\<rparr>"

definition project_fs :: fs where
  "project_fs = [(at_root [''p''], Directory), (at_root [''p'', ''a.arbc''], Regular [0]),
     (at_root [''p'', ''b.arbc''], Regular [1]), (at_root [''p'', ''assets''], Directory),
     (at_root [''p'', ''assets'', ''tiles''], Directory),
     (at_root [''p'', ''assets'', ''tiles'', ''aa''], Directory),
     (at_root [''p'', ''assets'', ''tiles'', ''aa'', live_hash], Regular [7]),
     (at_root [''p'', ''assets'', ''tiles'', ''bb''], Directory),
     (at_root [''p'', ''assets'', ''tiles'', ''bb'', dead_hash], Regular [8, 9])]"

definition project_parse :: "byte list \<Rightarrow> json option" where
  "project_parse text =
     (if text = [0] then Some (Object [])
      else if text = [1] then Some (Object [(''layers'', Array [Object [(''params'', Object [(''blobs'', Array [Str live_hash])])]])])
      else None)"

lemma fs_ok_code:
  "distinct (map fst fs) \<Longrightarrow>
   list_all (\<lambda>(k, e). fp_elems k \<noteq> [] \<and> list_all proper (fp_elems k) \<and> entry_at fs (parent_path k) = Some Directory) fs \<Longrightarrow> fs_ok fs"
  unfolding fs_ok_def list_all_iff by (auto dest: map_of_SomeD)

lemma project_ok: "fs_ok project_fs" "proper_dir project_dir" "is_tile_hash live_hash" "is_tile_hash dead_hash"
  subgoal by (rule fs_ok_code) code_simp+
  by code_simp+

lemma project_run:
  "gc_project_directory project_parse no_faults (\<lambda>p. False) project_dir False project_fs =
     (filter (\<lambda>(k, e). k \<noteq> at_root [''p'', ''assets'', ''tiles'', ''bb''] \<and> k \<noteq> at_root [''p'', ''assets'', ''tiles'', ''bb'', dead_hash]) project_fs,
      Inr \<lparr>rp_scanned = 2, rp_referenced = 1, rp_deleted = 1, rp_bytes_reclaimed = 2\<rparr>)"
  by code_simp

subsection \<open>Properties\<close>

lemma rooted_by_name: "Collect (asset_rooted R) = {k. basename_of k \<in> basename_of ` R}"
  using asset_rooted_basename [of R] by auto

lemma sweep_keeps_aux:
  assumes "fs_ok fs" "proper_dir dir"
    "sweep_asset_store (fs_reaper_ops flt (project_reaper dir)) roots dry fs = (fs', res)"
  shows "fs_ok fs' \<and> others_of dir fs' = others_of dir fs \<and>
    tiles_of dir fs' |` gr_tiles roots = tiles_of dir fs |` gr_tiles roots \<and>
    images_of dir fs' |` {k. basename_of k \<in> basename_of ` gr_assets roots} =
      images_of dir fs |` {k. basename_of k \<in> basename_of ` gr_assets roots} \<and>
    tiles_of dir fs' \<subseteq>\<^sub>m tiles_of dir fs \<and> images_of dir fs' \<subseteq>\<^sub>m images_of dir fs \<and> (dry \<longrightarrow> fs' = fs)"
  using project.sweep_assets [OF conjI [OF assms(1,2)] assms(3)] unfolding rooted_by_name by blast

text \<open>
  C30: whatever a sweep of a project directory reports and whatever calls of it fail, every tile the roots name and every image that
  shares its file name with a root keeps its bytes, no file outside the two stores is touched, nothing appears that
  was not there, and a preview changes nothing at all.
\<close>

theorem sweep_keeps_what_is_rooted:
  assumes "fs_ok fs" "proper_dir dir"
    "sweep_asset_store (fs_reaper_ops flt (project_reaper dir)) roots dry fs = (fs', res)"
  shows "fs_ok fs' \<and> others_of dir fs' = others_of dir fs \<and>
    tiles_of dir fs' |` gr_tiles roots = tiles_of dir fs |` gr_tiles roots \<and>
    images_of dir fs' |` {k. basename_of k \<in> basename_of ` gr_assets roots} =
      images_of dir fs |` {k. basename_of k \<in> basename_of ` gr_assets roots} \<and>
    tiles_of dir fs' \<subseteq>\<^sub>m tiles_of dir fs \<and> images_of dir fs' \<subseteq>\<^sub>m images_of dir fs \<and> (dry \<longrightarrow> fs' = fs)"
  by (rule sweep_keeps_aux [OF assms])

definition live_roots :: gc_roots where
  "live_roots = \<lparr>gr_tiles = {live_hash}, gr_assets = {}\<rparr>"

definition swept :: fs where
  "swept = fst (sweep_asset_store (fs_reaper_ops no_faults (project_reaper project_dir)) live_roots False project_fs)"

theorem sweep_keeps_what_is_rooted_witness:
  "tiles_of project_dir swept live_hash = Some [7] \<and> tiles_of project_dir swept dead_hash = None"
proof -
  have k: "tiles_of project_dir swept |` gr_tiles live_roots = tiles_of project_dir project_fs |` gr_tiles live_roots"
    using sweep_keeps_what_is_rooted [OF project_ok(1,2), of no_faults live_roots False swept
        "snd (sweep_asset_store (fs_reaper_ops no_faults (project_reaper project_dir)) live_roots False project_fs)"]
    by (simp add: swept_def)
  have "tiles_of project_dir project_fs live_hash = Some [7]" by code_simp
  moreover have "live_hash \<in> gr_tiles live_roots" by (simp add: live_roots_def)
  moreover have "tiles_of project_dir swept dead_hash = None" by code_simp
  ultimately show ?thesis using fun_cong [OF k, of live_hash] by (simp add: restrict_map_def)
qed

text \<open>
  C31: a sweep that reports success, whose directory walks met no error, has removed exactly the orphans: the tiles left
  are those the roots name, and the images left are those that share a file name with a root.
\<close>

theorem sweep_removes_exactly_the_orphans:
  assumes "fs_ok fs" "proper_dir dir" "walks_complete flt dir"
    "sweep_asset_store (fs_reaper_ops flt (project_reaper dir)) roots False fs = (fs', Inr report)"
  shows "tiles_of dir fs' = tiles_of dir fs |` gr_tiles roots \<and>
    images_of dir fs' = images_of dir fs |` {k. basename_of k \<in> basename_of ` gr_assets roots}"
  using project.sweep_assets [OF conjI [OF assms(1,2)] assms(4)] assms(3) unfolding rooted_by_name by simp

theorem sweep_removes_exactly_the_orphans_witness:
  "tiles_of project_dir swept = [live_hash \<mapsto> [7]]"
proof -
  have "sweep_asset_store (fs_reaper_ops no_faults (project_reaper project_dir)) live_roots False project_fs =
      (swept, Inr \<lparr>rp_scanned = 2, rp_referenced = 1, rp_deleted = 1, rp_bytes_reclaimed = 2\<rparr>)"
    by code_simp
  moreover have "walks_complete no_faults project_dir" by (simp add: walks_complete_def no_faults_def)
  ultimately have "tiles_of project_dir swept = tiles_of project_dir project_fs |` gr_tiles live_roots"
    using sweep_removes_exactly_the_orphans [OF project_ok(1,2)] by blast
  moreover have "tiles_of project_dir project_fs live_hash = Some [7]" by code_simp
  ultimately show ?thesis by (auto simp: restrict_map_def live_roots_def fun_eq_iff)
qed

text \<open>
  a preview is what the run it previews reports: with the same answers of the file system the run either gives the very
  same result, counters and errors alike, or stops at a removal that failed.
\<close>

theorem dry_run_previews_the_run:
  assumes "fs_ok fs" "proper_dir dir"
    "sweep_asset_store (fs_reaper_ops flt (project_reaper dir)) roots True fs = (fs1, preview)"
    "sweep_asset_store (fs_reaper_ops flt (project_reaper dir)) roots False fs = (fs2, res)"
  shows "fs1 = fs \<and> (res = preview \<or> res = Inl (GcRemoveFailed RemoveFailed))"
  by (rule project.dry_assets [OF conjI [OF assms(1,2)] assms(3,4)])

theorem dry_run_previews_the_run_witness:
  "fst (sweep_asset_store (fs_reaper_ops no_faults (project_reaper project_dir)) live_roots True project_fs) = project_fs \<and>
   snd (sweep_asset_store (fs_reaper_ops no_faults (project_reaper project_dir)) live_roots True project_fs) =
     Inr \<lparr>rp_scanned = 2, rp_referenced = 1, rp_deleted = 1, rp_bytes_reclaimed = 2\<rparr>"
proof -
  have "sweep_asset_store (fs_reaper_ops no_faults (project_reaper project_dir)) live_roots False project_fs =
      (swept, Inr \<lparr>rp_scanned = 2, rp_referenced = 1, rp_deleted = 1, rp_bytes_reclaimed = 2\<rparr>)"
    by code_simp
  from dry_run_previews_the_run [OF project_ok(1,2) surjective_pairing this] show ?thesis by (metis Inl_Inr_False)
qed

lemma visit_document_Inl: "fold (visit_document parse flt unread dir) its (Inl e) = Inl e"
  by (induction its) (simp_all add: visit_document_def)

lemma scanned:
  assumes "fold (visit_document parse flt unread dir) its (Inr acc) = Inr roots"
  shows "gr_tiles acc \<subseteq> gr_tiles roots \<and> gr_assets acc \<subseteq> gr_assets roots \<and>
    (\<forall>rel content. (rel, Regular content) \<in> set its \<and> \<not> pf_status flt (entry_path dir rel) \<and> extension (entry_path dir rel) = ''.arbc'' \<longrightarrow>
      (\<exists>refs. collect_referenced_assets parse content = Inr refs \<and> gr_tiles refs \<subseteq> gr_tiles roots \<and> gr_assets refs \<subseteq> gr_assets roots))"
  using assms
proof (induction its arbitrary: acc)
  case (Cons it its)
  obtain rel e where it: "it = (rel, e)" by (cases it)
  obtain acc' where v: "visit_document parse flt unread dir it (Inr acc) = Inr acc'"
    using Cons.prems visit_document_Inl by (cases "visit_document parse flt unread dir it (Inr acc)") auto
  then have "fold (visit_document parse flt unread dir) its (Inr acc') = Inr roots" using Cons.prems by simp
  note ih = Cons.IH [OF this]
  have grow: "gr_tiles acc \<subseteq> gr_tiles acc' \<and> gr_assets acc \<subseteq> gr_assets acc'"
    using v it by (auto simp: visit_document_def Let_def split: fs_entry.splits if_splits sum.splits)
  have "\<exists>refs. collect_referenced_assets parse content = Inr refs \<and> gr_tiles refs \<subseteq> gr_tiles acc' \<and> gr_assets refs \<subseteq> gr_assets acc'"
    if "e = Regular content" "\<not> pf_status flt (entry_path dir rel)" "extension (entry_path dir rel) = ''.arbc''" for content
    using v it that by (auto simp: visit_document_def Let_def split: if_splits sum.splits)
  note head = this
  have "\<exists>refs. collect_referenced_assets parse content = Inr refs \<and> gr_tiles refs \<subseteq> gr_tiles roots \<and> gr_assets refs \<subseteq> gr_assets roots"
    if x: "(r, Regular content) \<in> set (it # its)" "\<not> pf_status flt (entry_path dir r)" "extension (entry_path dir r) = ''.arbc''" for r content
  proof (cases "(r, Regular content) = it")
    case True
    then obtain refs where "collect_referenced_assets parse content = Inr refs" "gr_tiles refs \<subseteq> gr_tiles acc'" "gr_assets refs \<subseteq> gr_assets acc'"
      using head [of content] x(2,3) it by auto
    then show ?thesis using ih by (meson order_trans)
  next
    case False
    then have "(r, Regular content) \<in> set its" using x(1) by simp
    then show ?thesis using ih x(2,3) by blast
  qed
  moreover have "gr_tiles acc \<subseteq> gr_tiles roots" "gr_assets acc \<subseteq> gr_assets roots" using grow ih by (meson order_trans)+
  ultimately show ?case by blast
qed simp

lemma collection_cases:
  assumes "gc_project_directory parse flt unread dir dry fs = (fs', res)"
  obtains (failed) e where "res = Inl e" "fs' = fs"
    | (swept) roots where "fold (visit_document parse flt unread dir)
          (walked (pf_walk flt dir) (filter (\<lambda>(rel, e). length rel = 1) (entries_below fs dir))) (Inr no_roots) = Inr roots"
        "sweep_asset_store (fs_reaper_ops flt (project_reaper dir)) roots dry fs = (fs', res)"
  using assms unfolding gc_project_directory_def scan_documents_def walk_loop_fold by (auto split: if_splits sum.splits)

text \<open>
  C33: a collection of a project directory whose scan met no error keeps what its documents reference. For every readable
  \<open>.arbc\<close> file of the directory and every body it holds, at any depth, each tile the body names and each image that shares a file name with its
  source keep their bytes; and a document that does not parse, or that holds a malformed reference, keeps everything.
\<close>

theorem collection_keeps_live_files:
  assumes "fs_ok fs" "proper_dir dir" "gc_project_directory parse flt unread dir dry fs = (fs', res)"
    and "pf_walk flt dir = None" "\<not> pf_status flt (dir\<lparr>fp_elems := fp_elems dir @ [name]\<rparr>)"
    and "map_of fs (dir\<lparr>fp_elems := fp_elems dir @ [name]\<rparr>) = Some (Regular content)"
    and "extension (dir\<lparr>fp_elems := fp_elems dir @ [name]\<rparr>) = ''.arbc''"
  shows "case parse content of
      None \<Rightarrow> fs' = fs
    | Some doc \<Rightarrow> if Collect (reaches doc) \<subseteq> Collect well_formed
        then (\<forall>n. reaches doc n \<longrightarrow> tiles_of dir fs' |` body_tiles n = tiles_of dir fs |` body_tiles n \<and>
          images_of dir fs' |` {k. basename_of k \<in> basename_of ` body_assets n} = images_of dir fs |` {k. basename_of k \<in> basename_of ` body_assets n})
        else fs' = fs"
  using assms(3)
proof (cases rule: collection_cases)
  case failed
  then show ?thesis by (simp split: option.split)
next
  case (swept roots)
  let ?p = "dir\<lparr>fp_elems := fp_elems dir @ [name]\<rparr>"
  have d: "list_all proper (fp_elems dir)" using assms(2) by (simp add: proper_dir_def)
  have "(?p, Regular content) \<in> set fs" using assms(6) by (rule map_of_SomeD)
  then have "([name], Regular content) \<in> set (entries_below fs dir)" using entries_below_in [OF d] by blast
  then have i: "([name], Regular content) \<in> set (walked (pf_walk flt dir) (filter (\<lambda>(rel, e). length rel = 1) (entries_below fs dir)))"
    by (simp add: assms(4) walked_def)
  have p: "entry_path dir [name] = ?p" unfolding entry_path_def by (rule append_proper [OF d]) simp
  have "\<exists>refs. collect_referenced_assets parse content = Inr refs \<and> gr_tiles refs \<subseteq> gr_tiles roots \<and> gr_assets refs \<subseteq> gr_assets roots"
    using scanned [OF swept(1)] i assms(5,7) unfolding p [symmetric] by blast
  then obtain refs where refs: "collect_referenced_assets parse content = Inr refs" "gr_tiles refs \<subseteq> gr_tiles roots" "gr_assets refs \<subseteq> gr_assets roots"
    by blast
  obtain doc where doc: "parse content = Some doc" "Collect (reaches doc) \<subseteq> Collect well_formed"
    "gr_tiles refs = \<Union> (body_tiles ` Collect (reaches doc))" "gr_assets refs = \<Union> (body_assets ` Collect (reaches doc))"
    using refs(1) unfolding collect_iff by blast
  note keep = sweep_keeps_aux [OF assms(1,2) swept(2)]
  have sub: "m |` B = m' |` B" if "m |` A = m' |` A" "B \<subseteq> A" for m m' :: "string \<Rightarrow> byte list option" and A B
    using that by (metis Int_absorb1 restrict_restrict)
  have "tiles_of dir fs' |` body_tiles n = tiles_of dir fs |` body_tiles n \<and>
      images_of dir fs' |` {k. basename_of k \<in> basename_of ` body_assets n} = images_of dir fs |` {k. basename_of k \<in> basename_of ` body_assets n}"
    if n: "reaches doc n" for n
  proof
    have "body_tiles n \<subseteq> gr_tiles roots" "body_assets n \<subseteq> gr_assets roots" using n refs(2,3) doc(3,4) by blast+
    then show "tiles_of dir fs' |` body_tiles n = tiles_of dir fs |` body_tiles n"
      "images_of dir fs' |` {k. basename_of k \<in> basename_of ` body_assets n} = images_of dir fs |` {k. basename_of k \<in> basename_of ` body_assets n}"
      using keep by (blast intro: sub)+
  qed
  then show ?thesis using doc(1,2) by simp
qed

definition live_doc :: json where
  "live_doc = Object [(''layers'', Array [Object [(''params'', Object [(''blobs'', Array [Str live_hash])])]])]"

definition live_body :: json where
  "live_body = Object [(''params'', Object [(''blobs'', Array [Str live_hash])])]"

theorem collection_keeps_live_files_witness:
  "tiles_of project_dir (fst (gc_project_directory project_parse no_faults (\<lambda>p. False) project_dir False project_fs)) live_hash = Some [7]"
proof -
  let ?run = "gc_project_directory project_parse no_faults (\<lambda>p. False) project_dir False project_fs"
  let ?p = "project_dir\<lparr>fp_elems := fp_elems project_dir @ [''b.arbc'']\<rparr>"
  have doc: "project_parse [1] = Some live_doc" by (simp add: project_parse_def live_doc_def)
  have body: "reaches live_doc live_body" unfolding live_doc_def live_body_def by (simp add: reaches_simps)
  have wf: "Collect (reaches live_doc) \<subseteq> Collect well_formed"
  proof -
    have h: "is_tile_hash live_hash" by (rule project_ok)
    show ?thesis unfolding live_doc_def
      by (auto simp: reaches_simps well_formed_def blobs_well_formed_def source_well_formed_def param_def h)
  qed
  have m: "map_of project_fs ?p = Some (Regular [1])" by code_simp
  have x: "extension ?p = ''.arbc''" by code_simp
  have "tiles_of project_dir (fst ?run) |` body_tiles live_body = tiles_of project_dir project_fs |` body_tiles live_body"
    using collection_keeps_live_files [OF project_ok(1,2) surjective_pairing _ _ m x, of no_faults project_parse "\<lambda>p. False" False]
      doc wf body by (simp add: no_faults_def)
  moreover have "live_hash \<in> body_tiles live_body" by (simp add: body_tiles_def param_def live_body_def)
  moreover have "tiles_of project_dir project_fs live_hash = Some [7]" by code_simp
  ultimately show ?thesis by (metis restrict_in)
qed


end
