(* ===== verification/Spec2Isabelle.thy ===== *)
theory Spec2Isabelle
  imports Transport Hamt Journal Operator_Graph Damage_Planning Checkpoint Worker_Pool Project_Gc
begin

text \<open>
  Arbitrary Composer is a C++ library that composes layered, timed documents. A document is a versioned set of
  records (compositions, layers, contents) held in a persistent trie over a slot allocator; edits are transactions
  that publish a new version and hand the undo journal an exact entry; a frame pulls the layers' contents through a
  graph of operators, renders tiles on a pool of worker threads, keeps them in budgeted caches, and repaints what an
  edit damaged; a workspace file keeps the slots durable through a checkpoint protocol; and a saved document keeps
  its pixels as content-addressed tile files beside it, which an explicit collection reclaims. This development
  models the parts of that program that are decided by integers, words, maps and ordering, as executable
  definitions that follow the code function by function, and proves what makes each part correct.

  \<^bold>\<open>Conventions.\<close> Paths are below \<open>src/\<close> of the repository. \<open>expected<T, E>\<close> is the sum \<open>'e + 'a\<close>, with \<open>Inl\<close> the
  error; an operation that changes an object takes the object's record and returns it updated. A machine integer is a
  word where it can wrap or is used bit by bit (ids, hashes, generations, halves), an integer with its range checks
  written out where the code checks (rational time), and a natural number where it only counts. Double coordinates are the type
  \<open>double\<close> of Damage: the two infinities and the exact rationals between them, which is what the rectangles of the code
  compare. What the code gets from outside itself is an argument: the answers of system calls, the refusals of an
  allocator, the virtual functions of a content, the compressor, and the interleaving of threads.

  \<^bold>\<open>The theories.\<close>

  \<^item> Prelude: the sum and state-and-sum sequencing, and the integer ranges.

  \<^item> Rational_Time (\<open>base/time.hpp\<close>, \<open>base/rational_time.cpp\<close>): flicks, canonical rationals with every overflow check of
    the code, affine time maps, their composition without rounding and the one rounding of \<open>evaluate\<close>. Arithmetic is
    exact or fails exactly when no 64-bit rational exists; a composed map rounds once, ties to even.

  \<^item> Transport (\<open>runtime/transport.cpp\<close>): the playback clock of a viewport, its controls and its loop wrap.

  \<^item> Slot_Store (\<open>pool/slot_store.cpp\<close>, \<open>slab_directory.hpp\<close>, \<open>chunk_source.hpp\<close>): the slot allocator with its
    per-thread pools, the quarantine of durable stores and recovery. The locale \<open>slot_provider\<close> states what a user of slots
    relies on; both interpretations are on \<open>slot_allocate\<close> and \<open>slot_release\<close>. Ref_Store (\<open>pool/refs.hpp\<close>,
    \<open>typed_store.hpp\<close>, \<open>reclamation.hpp\<close>) counts references over it.

  \<^item> Hamt (\<open>model/hamt.hpp\<close>, \<open>model/model.cpp\<close>): the persistent trie with explicit node allocation in a counted store.
    An inductive relation says which map a trie denotes; insertion and erasure refine map update and deletion and
    leave every earlier root intact (locale \<open>persistent_map\<close>). Fuel: the recursions are measured by the remaining
    key bits, at five bits a level.

  \<^item> Damage (\<open>base/geometry.hpp\<close>, \<open>model/damage.hpp\<close>), Document (\<open>model/records.hpp\<close>, the reads of \<open>model/model.cpp\<close>),
    Transaction (\<open>Model::Transaction\<close>): the records, every mutator over a version, commit, abort, the baseline load
    and navigation. A version is the finite map its trie denotes. Reads of a stored chain are partial functions; the chains a
    transaction writes are proved to be finite and to be read back.

  \<^item> Journal (\<open>model/journal.cpp\<close>): the undo history with its byte budget, coalescing and published counts. The
    inductive \<open>history\<close> is a session of commits, undos, redos and budget changes; the locale \<open>navigator\<close> is what the journal
    needs of the model, interpreted on \<open>navigate\<close>.

  \<^item> Keyed_Store (\<open>cache/keyed_store.hpp\<close>) and Cache_Policy (\<open>key_shapes.hpp\<close>, \<open>invalidation.hpp\<close>, \<open>prefetch.hpp\<close>): the
    budgeted store with priority classes, pins and deferred drops, its runs as an inductive relation, and the sweeps
    and prefetch rings of its clients, proved over the locale \<open>sweepable\<close>.

  \<^item> Operator_Graph (\<open>compositor/operator_graph.cpp\<close>, the head of \<open>pull_service.cpp\<close>): the fold of revisions, the
    routing of damage up the graph and the identity chains. Damage_Planning (\<open>compositor/damage_planning.cpp\<close>): the
    repaint set of a frame and the invalidation of its tiles.

  \<^item> Workspace_File (\<open>pool/workspace_file.cpp\<close>) and Checkpoint (\<open>pool/checkpoint.hpp\<close>): the layout of the file, the chunk
    directory, adoption and reopening, every system call an argument; the commit protocol against page writeback and crashes as an
    inductive relation over what the disk holds.

  \<^item> Worker_Pool (\<open>runtime/worker_pool.cpp\<close>): the render workers. Each critical section of the mutex is one step of
    one thread; \<open>pool_run\<close> holds every state some interleaving reaches. The invariants tie the serialization gates,
    the parked tasks, the claims of owners and the counters to what the threads hold. Concrete runs are schedules.

  \<^item> Half_Float (\<open>media/pixel_traits.hpp\<close>), Sha256 (\<open>base/sha256.cpp\<close>) and Tile_Blob (\<open>serialize/tile_blob.cpp\<close>,
    \<open>blob_compress.cpp\<close>): the software half float bit by bit, the hash against FIPS 180-4, and the blob of a saved
    tile: geometry, names, byte shuffle, storage formats and frames, with zstd a pair of parameters.

  \<^item> Asset_Path (\<open>serialize/load_context.cpp\<close>): the lexical resolution of references, the table of resolved identities,
    and the lexical path operations the stores use. Asset_Store (\<open>runtime/filesystem_asset_sink.cpp\<close>,
    \<open>filesystem_asset_source.cpp\<close>, \<open>serialize/save_context.cpp\<close>): the asset directory written and read, over a file system
    whose every call may fail by an argument.

  \<^bold>\<open>How the parts meet.\<close> Hamt stores its nodes through Ref_Store, whose slots are Slot_Store's. Transaction edits the map
  that a trie denotes and Journal replays its entries. Checkpoint commits the high-water marks of the slot stores into the rows of a
  Workspace_File and reopens them. Damage_Planning and Cache_Policy call the sweeps of Keyed_Store through its
  contract, with the damage of a Transaction. Tile_Blob names its files by Sha256 and stores halves by Half_Float.

  \<^bold>\<open>Bounds and fuel.\<close> Loops whose measure is in the code are \<open>function\<close>s with that measure: the key bits of the trie, the remaining
  pool entries of an eviction, the remaining input of the hash. \<open>renormalize\<close>, the shift loop of a subnormal half,
  has fuel 10, the number of mantissa bits, and every nonzero mantissa is normalized within it. The identity chains
  take the recursion budget of the code itself. \<open>aggregate_loop\<close> and \<open>read_chunk_chain\<close> are partial functions, and
  that they return on every finite graph, and on every chain the program writes, is proved.

  \<^bold>\<open>Not modelled.\<close> Floating-point arithmetic (transforms, tile planning and the scale ladder that compare their products,
  blend kernels, resamplers, sRGB, the software rasterizer, mixing, the pixels of the kinds): the library at hand has no
  IEEE arithmetic. Pure interfaces and glue (surfaces, backends, the registry, plugins, monitors, frame loops): they call the
  modelled parts in turn and keep wall-clock deadlines. The JSON bodies of documents, whose library is
  third-party and whose numbers are doubles. The node destructor's cascade in the trie, the Arena map from size class to
  store and the debug-only page protection and generation checks. The manifest lists each with its reason.
\<close>

end
